(* ===== verification/Prelude.thy ===== *)
theory Prelude
  imports Main "HOL-Library.Code_Target_Nat" "HOL-Library.Char_ord"
begin

text \<open>
  Shared vocabulary of the development.

  A Rust \<open>str\<close> is modelled by an Isabelle \<open>string\<close>: the list of its UTF-8 bytes, one
  \<open>char\<close> per byte, so that \<open>length\<close> is \<open>str::len\<close> and list positions are the byte offsets
  the code computes with. The type does not enforce UTF-8; \<open>valid_utf8\<close> says it, and every
  statement that needs it has it as a hypothesis. \<open>usize\<close> and \<open>u32\<close> offsets are \<open>nat\<close>, with
  the \<open>u32\<close> bound written out (\<open>try_u32\<close>) wherever the code converts. The functions below
  are the parts of Rust's \<open>str\<close>, \<open>char\<close> and slice library the code uses; each
  states which method it stands for.
\<close>

named_theorems str_simps \<open>unfolding rules for the string library\<close>
named_theorems option_elims \<open>eliminations of successful computations\<close>

lemmas bind_SomeE [option_elims] = bind_eq_Some_conv [THEN iffD1]

subsection \<open>Machine integers as naturals\<close>

definition u32_limit :: nat where "u32_limit = 4294967296"
definition u32_max :: nat where "u32_max = 4294967295"

text \<open>\<open>u32::try_from(usize).ok()\<close>.\<close>

definition try_u32 :: "nat \<Rightarrow> nat option" where
  "try_u32 n = (if n < u32_limit then Some n else None)"

text \<open>\<open>usize\<close> arithmetic saturates at the bottom as \<open>saturating_sub\<close> on \<open>nat\<close> subtraction.\<close>

lemma try_u32_Some [simp]: "try_u32 n = Some m \<longleftrightarrow> m = n \<and> n < u32_limit"
  by (auto simp: try_u32_def)

lemma try_u32_less [simp]: "n < u32_limit \<Longrightarrow> try_u32 n = Some n"
  by (simp add: try_u32_def)

subsection \<open>ASCII bytes\<close>

definition byte_of :: "char \<Rightarrow> nat" where "byte_of c = of_char c"

lemma byte_of_less [simp]: "byte_of c < 256"
  by (simp add: byte_of_def)

definition NL :: char where "NL = CHR 0x0A"
definition CR :: char where "CR = CHR 0x0D"
definition TAB :: char where "TAB = CHR 0x09"
definition QUOTE :: char where "QUOTE = CHR 0x22"
definition BACKSLASH :: char where "BACKSLASH = CHR 0x5C"

text \<open>\<open>u8::is_ascii_whitespace\<close>: space, tab, line feed, form feed, carriage return.\<close>

definition is_ascii_whitespace :: "char \<Rightarrow> bool" where
  "is_ascii_whitespace c \<longleftrightarrow> c \<in> {CHR '' '', CHR 0x09, CHR 0x0A, CHR 0x0C, CHR 0x0D}"

definition is_ascii_digit :: "char \<Rightarrow> bool" where
  "is_ascii_digit c \<longleftrightarrow> 48 \<le> byte_of c \<and> byte_of c \<le> 57"

definition is_ascii_upper :: "char \<Rightarrow> bool" where
  "is_ascii_upper c \<longleftrightarrow> 65 \<le> byte_of c \<and> byte_of c \<le> 90"

definition is_ascii_lower :: "char \<Rightarrow> bool" where
  "is_ascii_lower c \<longleftrightarrow> 97 \<le> byte_of c \<and> byte_of c \<le> 122"

text \<open>\<open>to_ascii_lowercase\<close> on bytes and on strings, and \<open>eq_ignore_ascii_case\<close>.\<close>

definition ascii_lower :: "char \<Rightarrow> char" where
  "ascii_lower c = (if is_ascii_upper c then char_of (byte_of c + 32) else c)"

definition to_ascii_lowercase :: "string \<Rightarrow> string" where
  "to_ascii_lowercase s = map ascii_lower s"

definition eq_ignore_ascii_case :: "string \<Rightarrow> string \<Rightarrow> bool" where
  "eq_ignore_ascii_case s t \<longleftrightarrow> map ascii_lower s = map ascii_lower t"

lemma eq_ignore_ascii_case_refl [simp]: "eq_ignore_ascii_case s s"
  by (simp add: eq_ignore_ascii_case_def)

lemma eq_ignore_ascii_case_sym: "eq_ignore_ascii_case s t = eq_ignore_ascii_case t s"
  by (auto simp: eq_ignore_ascii_case_def)

lemma eq_ignore_ascii_case_trans:
  "eq_ignore_ascii_case s t \<Longrightarrow> eq_ignore_ascii_case t u \<Longrightarrow> eq_ignore_ascii_case s u"
  by (simp add: eq_ignore_ascii_case_def)

lemma eq_ignore_ascii_case_length: "eq_ignore_ascii_case s t \<Longrightarrow> length s = length t"
  unfolding eq_ignore_ascii_case_def by (metis length_map)

lemma eq_ignore_ascii_case_append:
  "eq_ignore_ascii_case s t \<Longrightarrow> eq_ignore_ascii_case u v \<Longrightarrow>
    eq_ignore_ascii_case (s @ u) (t @ v)"
  by (simp add: eq_ignore_ascii_case_def)

subsection \<open>UTF-8\<close>

text \<open>Continuation bytes \<open>0x80..=0xBF\<close>; every other byte starts a character.\<close>

definition is_cont :: "nat \<Rightarrow> bool" where
  "is_cont b \<longleftrightarrow> 128 \<le> b \<and> b < 192"

text \<open>
  Length of the well-formed sequence at the head of a byte list (Unicode table 3-7, the
  rules of \<open>std::str::from_utf8\<close>), \<open>None\<close> where there is none.
\<close>

fun utf8_seq :: "nat list \<Rightarrow> nat option" where
  "utf8_seq (a # bs) =
    (if a < 128 then Some 1
     else if 194 \<le> a \<and> a \<le> 223 then
       (case bs of b # _ \<Rightarrow> if is_cont b then Some 2 else None | [] \<Rightarrow> None)
     else if 224 \<le> a \<and> a \<le> 239 then
       (case bs of
          b # c # _ \<Rightarrow>
            if is_cont b \<and> is_cont c \<and> (a = 224 \<longrightarrow> 160 \<le> b) \<and> (a = 237 \<longrightarrow> b < 160)
            then Some 3 else None
        | _ \<Rightarrow> None)
     else if 240 \<le> a \<and> a \<le> 244 then
       (case bs of
          b # c # d # _ \<Rightarrow>
            if is_cont b \<and> is_cont c \<and> is_cont d \<and> (a = 240 \<longrightarrow> 144 \<le> b)
               \<and> (a = 244 \<longrightarrow> b < 144)
            then Some 4 else None
        | _ \<Rightarrow> None)
     else None)"
| "utf8_seq [] = None"

lemma utf8_seq_bounds: "utf8_seq bs = Some n \<Longrightarrow> 0 < n \<and> n \<le> length bs \<and> n \<le> 4"
  by (cases bs) (auto split: if_splits list.splits)

lemma utf8_seq_head: "utf8_seq (a # bs) = Some n \<Longrightarrow> \<not> is_cont a"
  by (auto simp: is_cont_def split: if_splits)

lemma utf8_seq_tail:
  "utf8_seq bs = Some n \<Longrightarrow> 0 < i \<Longrightarrow> i < n \<Longrightarrow> is_cont (bs ! i)"
proof (cases bs)
  case Nil
  then show "utf8_seq bs = Some n \<Longrightarrow> ?thesis" by simp
next
  case (Cons a cs)
  assume *: "utf8_seq bs = Some n" "0 < i" "i < n"
  then have "i = 1 \<or> i = 2 \<or> i = 3"
    using utf8_seq_bounds [of bs n] by auto
  with * Cons show ?thesis
    by (auto split: if_splits list.splits)
qed

text \<open>\<open>char::len_utf8\<close> read off the first byte of the character.\<close>

definition utf8_width :: "nat \<Rightarrow> nat" where
  "utf8_width a = (if a < 128 then 1 else if a < 224 then 2 else if a < 240 then 3 else 4)"

lemma utf8_seq_width: "utf8_seq (a # bs) = Some n \<Longrightarrow> n = utf8_width a"
  by (auto simp: utf8_width_def split: if_splits list.splits)

lemma utf8_width_pos [simp]: "0 < utf8_width a"
  by (simp add: utf8_width_def)

lemma utf8_width_le [simp]: "utf8_width a \<le> 4"
  by (simp add: utf8_width_def)

declare utf8_seq.simps [simp del]

text \<open>The UTF-8 invariant of \<open>str\<close>.\<close>

function valid_utf8_bytes :: "nat list \<Rightarrow> bool" where
  "valid_utf8_bytes bs =
    (if bs = [] then True
     else case utf8_seq bs of None \<Rightarrow> False | Some n \<Rightarrow> valid_utf8_bytes (drop n bs))"
  by pat_completeness auto
termination
  by (relation "measure length") (auto dest!: utf8_seq_bounds)

declare valid_utf8_bytes.simps [simp del]

definition valid_utf8 :: "string \<Rightarrow> bool" where
  "valid_utf8 s = valid_utf8_bytes (map byte_of s)"

lemma valid_utf8_bytes_Nil [simp]: "valid_utf8_bytes []"
  by (simp add: valid_utf8_bytes.simps)

lemma valid_utf8_Nil [simp]: "valid_utf8 []"
  by (simp add: valid_utf8_def)

lemma valid_utf8_bytes_Cons:
  assumes "valid_utf8_bytes (a # bs)"
  shows "utf8_seq (a # bs) = Some (utf8_width a) \<and> valid_utf8_bytes (drop (utf8_width a) (a # bs))"
proof -
  from assms obtain n where n: "utf8_seq (a # bs) = Some n" "valid_utf8_bytes (drop n (a # bs))"
    by (subst (asm) valid_utf8_bytes.simps) (auto split: option.splits)
  then show ?thesis using utf8_seq_width by metis
qed

text \<open>\<open>str::is_char_boundary\<close>.\<close>

definition is_boundary :: "string \<Rightarrow> nat \<Rightarrow> bool" where
  "is_boundary s i \<longleftrightarrow> i = 0 \<or> i = length s \<or> (i < length s \<and> \<not> is_cont (byte_of (s ! i)))"

text \<open>\<open>str::get(a..b)\<close> and \<open>str::get(a..)\<close>.\<close>

definition str_get :: "string \<Rightarrow> nat \<Rightarrow> nat \<Rightarrow> string option" where
  "str_get s a b =
    (if a \<le> b \<and> is_boundary s a \<and> is_boundary s b then Some (take (b - a) (drop a s)) else None)"

lemma is_boundary_0 [simp]: "is_boundary s 0"
  by (simp add: is_boundary_def)

lemma is_boundary_length [simp]: "is_boundary s (length s)"
  by (simp add: is_boundary_def)

lemma is_boundary_le: "is_boundary s i \<Longrightarrow> i \<le> length s"
  by (auto simp: is_boundary_def)

lemma is_boundary_ascii: "i < length s \<Longrightarrow> byte_of (s ! i) < 128 \<Longrightarrow> is_boundary s i"
  by (simp add: is_boundary_def is_cont_def)

lemma str_get_Some:
  "str_get s a b = Some t \<longleftrightarrow>
    a \<le> b \<and> is_boundary s a \<and> is_boundary s b \<and> t = take (b - a) (drop a s)"
  by (auto simp: str_get_def)

text \<open>
  The width of the character at a byte offset, as \<open>s[i..].chars().next()\<close> reads it; \<open>None\<close> at
  the end of the string. Slicing off a character boundary panics in Rust; the callers in
  this development carry that as a separate outcome.
\<close>

definition char_width_at :: "string \<Rightarrow> nat \<Rightarrow> nat option" where
  "char_width_at s i = (if i < length s then Some (utf8_width (byte_of (s ! i))) else None)"

text \<open>
  In a valid string every character starts at a boundary and ends at one: the fact the
  scanners of the parser rely on when they step by \<open>len_utf8\<close>.
\<close>

lemma valid_utf8_boundary_bytes:
  assumes "valid_utf8_bytes bs" and "i < length bs" and "i = 0 \<or> \<not> is_cont (bs ! i)"
  shows "\<exists>n. utf8_seq (drop i bs) = Some n \<and> n = utf8_width (bs ! i) \<and> i + n \<le> length bs
    \<and> (i + n < length bs \<longrightarrow> \<not> is_cont (bs ! (i + n)))
    \<and> valid_utf8_bytes (drop i bs)"
  using assms
proof (induction bs arbitrary: i rule: valid_utf8_bytes.induct)
  case (1 bs)
  from 1(3) have ne: "bs \<noteq> []" by auto
  then obtain a cs where bs: "bs = a # cs" by (cases bs) auto
  from 1(2) bs have seq: "utf8_seq bs = Some (utf8_width a)"
    and rest: "valid_utf8_bytes (drop (utf8_width a) bs)"
    using valid_utf8_bytes_Cons by blast+
  let ?n = "utf8_width a"
  from utf8_seq_bounds [OF seq] have nb: "0 < ?n" "?n \<le> length bs" by auto
  show ?case
  proof (cases "i = 0")
    case True
    have "?n < length bs \<Longrightarrow> \<not> is_cont (bs ! ?n)"
    proof -
      assume lt: "?n < length bs"
      then obtain b ds where d: "drop ?n bs = b # ds" by (cases "drop ?n bs") auto
      with rest have "utf8_seq (b # ds) = Some (utf8_width b)"
        using valid_utf8_bytes_Cons by metis
      then have "\<not> is_cont b" by (rule utf8_seq_head)
      moreover have "bs ! ?n = b" using d lt by (metis nth_via_drop)
      ultimately show ?thesis by simp
    qed
    with True seq nb bs 1(2) show ?thesis by auto
  next
    case False
    with 1(4) have nc: "\<not> is_cont (bs ! i)" by simp
    have ge: "?n \<le> i"
      using utf8_seq_tail [OF seq, of i] False nc by (meson not_le zero_less_iff_neq_zero)
    let ?bs = "drop ?n bs" and ?i = "i - ?n"
    have len: "?i < length ?bs" using ge 1(3) by auto
    have nth: "?bs ! ?i = bs ! i" using ge nb by simp
    have "\<exists>n. utf8_seq (drop ?i ?bs) = Some n \<and> n = utf8_width (?bs ! ?i) \<and> ?i + n \<le> length ?bs
      \<and> (?i + n < length ?bs \<longrightarrow> \<not> is_cont (?bs ! (?i + n)))
      \<and> valid_utf8_bytes (drop ?i ?bs)"
      using 1(1) [OF ne seq rest len] nc nth by auto
    then obtain n where n: "utf8_seq (drop ?i ?bs) = Some n" "n = utf8_width (?bs ! ?i)"
      "?i + n \<le> length ?bs" "?i + n < length ?bs \<longrightarrow> \<not> is_cont (?bs ! (?i + n))"
      "valid_utf8_bytes (drop ?i ?bs)" by blast
    have dd: "drop ?i ?bs = drop i bs" using ge by simp
    have "i + n \<le> length bs" using n(3) ge nb by auto
    moreover have "i + n < length bs \<longrightarrow> \<not> is_cont (bs ! (i + n))"
      using n(4) ge nb by (auto simp: algebra_simps)
    ultimately show ?thesis using n dd nth by auto
  qed
qed

lemma valid_utf8_next_boundary:
  assumes "valid_utf8 s" and "is_boundary s i" and "i < length s"
  shows "is_boundary s (i + utf8_width (byte_of (s ! i)))
    \<and> i + utf8_width (byte_of (s ! i)) \<le> length s"
  using assms valid_utf8_boundary_bytes [of "map byte_of s" i]
  by (auto simp: valid_utf8_def is_boundary_def)

text \<open>\<open>str::chars\<close>: the characters of a string, each as its UTF-8 bytes.\<close>

function str_chars :: "string \<Rightarrow> string list" where
  "str_chars [] = []"
| "str_chars (c # cs) =
    take (utf8_width (byte_of c)) (c # cs) # str_chars (drop (utf8_width (byte_of c)) (c # cs))"
  by pat_completeness auto
termination
  by (relation "measure length") (auto simp: utf8_width_def)

lemma concat_str_chars [simp]: "concat (str_chars s) = s"
  by (induction s rule: str_chars.induct) auto

text \<open>\<open>char::len_utf16\<close>: characters of four UTF-8 bytes are surrogate pairs.\<close>

definition len_utf16 :: "string \<Rightarrow> nat" where
  "len_utf16 c = (if utf8_width (byte_of (hd c)) = 4 then 2 else 1)"

lemma len_utf16_pos [simp]: "0 < len_utf16 c"
  by (simp add: len_utf16_def)

lemma take_utf8_width_Cons: "take (utf8_width a) (c # cs) = c # take (utf8_width a - 1) cs"
  by (cases "utf8_width a") (auto simp: utf8_width_def split: if_splits)

lemma str_chars_nonempty: "c \<in> set (str_chars s) \<Longrightarrow> c \<noteq> []"
proof (induction s rule: str_chars.induct)
  case 1
  then show ?case by simp
next
  case (2 a cs)
  then show ?case
    by (simp only: str_chars.simps set_simps insert_iff take_utf8_width_Cons) blast
qed

lemma len_utf16_le: "c \<in> set (str_chars s) \<Longrightarrow> valid_utf8 s \<Longrightarrow> len_utf16 c \<le> length c"
proof (induction s rule: str_chars.induct)
  case 1
  then show ?case by simp
next
  case (2 a cs)
  let ?w = "utf8_width (byte_of a)"
  from 2(3) have v: "utf8_seq (map byte_of (a # cs)) = Some ?w"
    "valid_utf8 (drop ?w (a # cs))"
    using valid_utf8_bytes_Cons [of "byte_of a" "map byte_of cs"]
    by (auto simp: valid_utf8_def drop_map [symmetric])
  from 2(2) consider "c = take ?w (a # cs)" | "c \<in> set (str_chars (drop ?w (a # cs)))"
    by auto
  then show ?case
  proof cases
    case 1
    have "?w \<le> length (a # cs)" using utf8_seq_bounds [OF v(1)] by simp
    moreover have "hd (take ?w (a # cs)) = a" by (cases ?w) (auto simp: utf8_width_def split: if_splits)
    moreover have "1 \<le> ?w" using utf8_width_pos [of "byte_of a"] by linarith
    ultimately show ?thesis using 1 by (auto simp: len_utf16_def)
  next
    case 2
    then show ?thesis using "2.IH" v(2) by simp
  qed
qed

text \<open>Cutting a valid string at a boundary cuts its characters at the same place.\<close>

lemma valid_utf8_drop:
  assumes "valid_utf8 s" and "is_boundary s k"
  shows "valid_utf8 (drop k s)"
proof (cases "k < length s")
  case True
  with assms show ?thesis
    using valid_utf8_boundary_bytes [of "map byte_of s" k]
    by (auto simp: valid_utf8_def is_boundary_def drop_map)
next
  case False
  then show ?thesis by simp
qed

lemma first_char_boundary:
  fixes c :: char and cs :: string
  defines "s \<equiv> c # cs" and "w \<equiv> utf8_width (byte_of c)"
  assumes v: "valid_utf8 (c # cs)" and k: "is_boundary (c # cs) k" "k \<noteq> 0"
  shows "is_boundary (c # cs) w" and "w \<le> length (c # cs)" and "w \<le> k"
    and "is_boundary (drop w (c # cs)) (k - w)" and "valid_utf8 (drop w (c # cs))"
proof -
  show nb: "is_boundary (c # cs) w" and wl: "w \<le> length (c # cs)"
    using valid_utf8_next_boundary [OF v, of 0] by (auto simp: w_def)
  have seq: "utf8_seq (map byte_of (c # cs)) = Some w"
    using v valid_utf8_bytes_Cons by (simp add: valid_utf8_def w_def)
  show wk: "w \<le> k"
  proof (rule ccontr)
    assume lt: "\<not> w \<le> k"
    with utf8_seq_tail [OF seq, of k] k(2) have "is_cont (map byte_of (c # cs) ! k)" by simp
    moreover have kl: "k < length (c # cs)" using lt wl by simp
    ultimately have "is_cont (byte_of ((c # cs) ! k))" by (metis nth_map)
    with k kl show False by (auto simp: is_boundary_def)
  qed
  show "valid_utf8 (drop w (c # cs))" using valid_utf8_drop [OF v nb] .
  show "is_boundary (drop w (c # cs)) (k - w)"
    using k wk wl by (auto simp: is_boundary_def)
qed

lemma str_chars_boundary:
  assumes "valid_utf8 s" and "is_boundary s k"
  shows "str_chars s = str_chars (take k s) @ str_chars (drop k s)"
  using assms
proof (induction s arbitrary: k rule: str_chars.induct)
  case 1
  then show ?case by simp
next
  case (2 c cs)
  let ?w = "utf8_width (byte_of c)" and ?s = "c # cs"
  show ?case
  proof (cases "k = 0")
    case True
    then show ?thesis by simp
  next
    case False
    note fc = first_char_boundary [OF 2(2,3) False]
    note nb = fc(1,2) and wk = fc(3) and dv = fc(5)
    have IH: "str_chars (drop ?w ?s) =
        str_chars (take (k - ?w) (drop ?w ?s)) @ str_chars (drop k ?s)"
      using 2(1) [OF dv fc(4)] wk by simp
    obtain ts where ts: "take k ?s = c # ts" using False by (cases k) auto
    have tk: "take ?w (take k ?s) = take ?w ?s" using wk by (simp add: min_absorb1)
    have dk: "drop ?w (take k ?s) = take (k - ?w) (drop ?w ?s)" by (simp add: drop_take)
    have "str_chars (take k ?s) = take ?w ?s # str_chars (take (k - ?w) (drop ?w ?s))"
      by (metis dk tk ts str_chars.simps(2))
    then show ?thesis using IH by simp
  qed
qed

text \<open>Validity is a property of the single characters.\<close>

lemma utf8_seq_take: "utf8_seq (a # bs) = utf8_seq (take (utf8_width a) (a # bs))"
proof -
  have 1: "take (Suc 0) (a # bs) = [a]" "take 2 (a # bs) = a # take 1 bs"
    "take 3 (a # bs) = a # take 2 bs" "take 4 (a # bs) = a # take 3 bs"
    by (simp_all add: numeral_eq_Suc)
  consider "bs = []" | b where "bs = [b]" | b c where "bs = [b, c]"
    | b c d ds where "bs = b # c # d # ds"
    by (metis list.exhaust)
  then show ?thesis
    by cases (auto simp: utf8_seq.simps utf8_width_def 1 numeral_eq_Suc)
qed

lemma valid_utf8_Cons:
  "valid_utf8 (c # cs) \<longleftrightarrow>
    utf8_seq (map byte_of (take (utf8_width (byte_of c)) (c # cs))) = Some (utf8_width (byte_of c))
    \<and> valid_utf8 (drop (utf8_width (byte_of c)) (c # cs))"
proof -
  have "utf8_seq (map byte_of (take (utf8_width (byte_of c)) (c # cs))) =
      utf8_seq (map byte_of (c # cs))"
    using utf8_seq_take [of "byte_of c" "map byte_of cs"] by (simp add: take_map [symmetric])
  moreover have "valid_utf8 (c # cs) \<longleftrightarrow> utf8_seq (map byte_of (c # cs)) = Some (utf8_width (byte_of c))
      \<and> valid_utf8 (drop (utf8_width (byte_of c)) (c # cs))"
  proof
    assume "valid_utf8 (c # cs)"
    then show "utf8_seq (map byte_of (c # cs)) = Some (utf8_width (byte_of c))
      \<and> valid_utf8 (drop (utf8_width (byte_of c)) (c # cs))"
      using valid_utf8_bytes_Cons [of "byte_of c" "map byte_of cs"]
      by (simp add: valid_utf8_def drop_map [symmetric])
  next
    assume a: "utf8_seq (map byte_of (c # cs)) = Some (utf8_width (byte_of c))
      \<and> valid_utf8 (drop (utf8_width (byte_of c)) (c # cs))"
    show "valid_utf8 (c # cs)"
      unfolding valid_utf8_def valid_utf8_bytes.simps [of "map byte_of (c # cs)"]
      using a by (simp add: valid_utf8_def drop_map del: list.map)
  qed
  ultimately show ?thesis by simp
qed

lemma valid_utf8_width_le: "valid_utf8 (c # cs) \<Longrightarrow> utf8_width (byte_of c) \<le> length (c # cs)"
  using valid_utf8_next_boundary [of "c # cs" 0] by auto

lemma take_append_le: "n \<le> length s \<Longrightarrow> take n (s @ t) = take n s"
  by simp

lemma drop_append_le: "n \<le> length s \<Longrightarrow> drop n (s @ t) = drop n s @ t"
  by simp

lemma str_chars_append:
  "valid_utf8 s \<Longrightarrow> str_chars (s @ t) = str_chars s @ str_chars t"
proof (induction s rule: str_chars.induct)
  case 1
  then show ?case by simp
next
  case (2 c cs)
  let ?w = "utf8_width (byte_of c)"
  have w: "?w \<le> length (c # cs)" using valid_utf8_width_le [OF 2(2)] .
  have "str_chars ((c # cs) @ t) =
      take ?w ((c # cs) @ t) # str_chars (drop ?w ((c # cs) @ t))"
    by (metis append_Cons str_chars.simps(2))
  also have "\<dots> = take ?w (c # cs) # str_chars (drop ?w (c # cs) @ t)"
    by (simp only: take_append_le [OF w] drop_append_le [OF w])
  also have "\<dots> = take ?w (c # cs) # str_chars (drop ?w (c # cs)) @ str_chars t"
    using 2(1) 2(2) by (simp only: valid_utf8_Cons)
  finally show ?case by simp
qed

lemma valid_utf8_append: "valid_utf8 s \<Longrightarrow> valid_utf8 t \<Longrightarrow> valid_utf8 (s @ t)"
proof (induction s rule: str_chars.induct)
  case 1
  then show ?case by simp
next
  case (2 c cs)
  let ?w = "utf8_width (byte_of c)"
  have w: "?w \<le> length (c # cs)" using valid_utf8_width_le [OF 2(2)] .
  have tk: "take ?w ((c # cs) @ t) = take ?w (c # cs)"
    "drop ?w ((c # cs) @ t) = drop ?w (c # cs) @ t"
    by (simp_all only: take_append_le [OF w] drop_append_le [OF w])
  from 2(1,3) 2(2) have "valid_utf8 (drop ?w (c # cs) @ t)" by (simp only: valid_utf8_Cons)
  with 2(2) tk show ?case by (simp only: append_Cons valid_utf8_Cons)
qed

lemma valid_utf8_take:
  assumes "valid_utf8 s" and "is_boundary s k"
  shows "valid_utf8 (take k s)"
  using assms
proof (induction s arbitrary: k rule: str_chars.induct)
  case 1
  then show ?case by simp
next
  case (2 c cs)
  let ?w = "utf8_width (byte_of c)" and ?s = "c # cs"
  show ?case
  proof (cases "k = 0")
    case True
    then show ?thesis by simp
  next
    case False
    note fc = first_char_boundary [OF 2(2,3) False]
    note nb = fc(1,2) and wk = fc(3) and dv = fc(5)
    have IH: "valid_utf8 (take (k - ?w) (drop ?w ?s))" using 2(1) [OF dv fc(4)] by simp
    have tk: "take k ?s = take ?w ?s @ take (k - ?w) (drop ?w ?s)"
      using wk by (metis le_add_diff_inverse take_add)
    have "valid_utf8 (take ?w ?s)"
    proof -
      obtain ts where ts: "take ?w ?s = c # ts" using take_utf8_width_Cons by metis
      show ?thesis using 2(2) unfolding ts valid_utf8_Cons [of c ts]
        unfolding ts [symmetric] by (simp add: valid_utf8_Cons)
    qed
    with IH tk show ?thesis using valid_utf8_append by metis
  qed
qed

lemma utf16_length_bound:
  assumes "valid_utf8 s"
  shows "sum_list (map len_utf16 (str_chars s)) \<le> length s"
proof -
  have "sum_list (map len_utf16 (str_chars s)) \<le> sum_list (map length (str_chars s))"
    by (rule sum_list_mono) (use assms len_utf16_le in blast)
  also have "\<dots> = length s" using concat_str_chars [of s] by (metis length_concat)
  finally show ?thesis .
qed

subsection \<open>Single characters\<close>

text \<open>A string that is the encoding of one character.\<close>

definition is_char :: "string \<Rightarrow> bool" where
  "is_char c \<longleftrightarrow> c \<noteq> [] \<and> utf8_seq (map byte_of c) = Some (length c)"

lemma is_char_cases:
  assumes "is_char c"
  obtains a t where "c = a # t" and "utf8_width (byte_of a) = length c"
    and "\<not> is_cont (byte_of a)" and "list_all (\<lambda>b. is_cont (byte_of b)) t"
proof -
  obtain a t where c: "c = a # t" using assms by (cases c) (auto simp: is_char_def)
  have s: "utf8_seq (byte_of a # map byte_of t) = Some (length c)"
    using assms by (simp add: is_char_def c)
  have "is_cont (byte_of b)" if b: "b \<in> set t" for b
  proof -
    obtain i where i: "i < length t" "t ! i = b" using b by (metis in_set_conv_nth)
    have "is_cont ((byte_of a # map byte_of t) ! Suc i)"
      using utf8_seq_tail [OF s, of "Suc i"] i c by simp
    then show ?thesis using i by simp
  qed
  then have "list_all (\<lambda>b. is_cont (byte_of b)) t" by (simp add: list_all_iff)
  then show ?thesis using that c utf8_seq_width [OF s] utf8_seq_head [OF s] by metis
qed

lemma is_char_ascii: "is_char [a] \<longleftrightarrow> byte_of a < 128"
  by (auto simp: is_char_def utf8_seq.simps)

lemma is_char_append:
  assumes "is_char c"
  shows "str_chars (c @ s) = c # str_chars s" and "valid_utf8 (c @ s) = valid_utf8 s"
proof -
  obtain a t where c: "c = a # t" "utf8_width (byte_of a) = length c"
    using assms is_char_cases by blast
  have w: "take (utf8_width (byte_of a)) (a # t @ s) = c" "drop (utf8_width (byte_of a)) (a # t @ s) = s"
    using c by simp_all
  show "str_chars (c @ s) = c # str_chars s"
    unfolding c(1) append_Cons str_chars.simps w using c(1) by simp
  show "valid_utf8 (c @ s) = valid_utf8 s"
    unfolding c(1) append_Cons valid_utf8_Cons w
    using assms c by (simp add: is_char_def)
qed

lemma str_chars_is_char:
  assumes "valid_utf8 s" and "c \<in> set (str_chars s)"
  shows "is_char c"
  using assms
proof (induction s rule: str_chars.induct)
  case (2 a cs)
  let ?w = "utf8_width (byte_of a)"
  from 2(2) have seq: "utf8_seq (map byte_of (take ?w (a # cs))) = Some ?w"
    and rest: "valid_utf8 (drop ?w (a # cs))" by (simp_all only: valid_utf8_Cons)
  have l: "length (take ?w (a # cs)) = ?w" using valid_utf8_width_le [OF 2(2)] by simp
  then have "take ?w (a # cs) \<noteq> []" using utf8_width_pos [of "byte_of a"] by (metis length_0_conv less_irrefl)
  then have "is_char (take ?w (a # cs))" using seq l unfolding is_char_def by metis
  moreover have "c = take ?w (a # cs) \<or> c \<in> set (str_chars (drop ?w (a # cs)))"
    using 2(3) by (simp only: str_chars.simps set_simps insert_iff)
  ultimately show ?case using 2(1) rest by blast
qed simp

lemma str_chars_concat:
  assumes "list_all is_char cs"
  shows "str_chars (concat cs) = cs" and "valid_utf8 (concat cs)"
proof -
  show "str_chars (concat cs) = cs" using assms by (induction cs) (simp_all add: is_char_append)
  show "valid_utf8 (concat cs)" using assms by (induction cs) (simp_all add: is_char_append)
qed

lemma valid_str_chars: "valid_utf8 s \<Longrightarrow> list_all is_char (str_chars s)"
  using str_chars_is_char by (auto simp: list_all_iff)

text \<open>Where a string of whole characters goes on, there is a boundary.\<close>

lemma boundary_append_chars:
  assumes "list_all is_char cs"
  shows "is_boundary (pre @ concat cs) (length pre)"
proof (cases cs)
  case (Cons c ds)
  have "is_char c" using assms Cons by simp
  then obtain a t where c: "c = a # t" "\<not> is_cont (byte_of a)" using is_char_cases by blast
  then show ?thesis using Cons by (simp add: is_boundary_def)
qed simp

subsection \<open>Searching, splitting and joining strings\<close>

text \<open>\<open>slice::partition_point\<close>: the length of the prefix where the predicate holds (the slice is
  partitioned by it wherever the code calls it).\<close>

definition partition_point :: "('a \<Rightarrow> bool) \<Rightarrow> 'a list \<Rightarrow> nat" where
  "partition_point p xs = length (takeWhile p xs)"

text \<open>\<open>str::split\<close> on an ASCII character and \<open>[String]::join\<close>.\<close>

fun split_on :: "char \<Rightarrow> string \<Rightarrow> string list" where
  "split_on d [] = [[]]"
| "split_on d (c # cs) =
    (if c = d then [] # split_on d cs
     else (case split_on d cs of [] \<Rightarrow> [[c]] | p # ps \<Rightarrow> (c # p) # ps))"

fun join_with :: "string \<Rightarrow> string list \<Rightarrow> string" where
  "join_with sep [] = []"
| "join_with sep [s] = s"
| "join_with sep (s # t # ss) = s @ sep @ join_with sep (t # ss)"

lemma split_on_nonempty [simp]: "split_on d s \<noteq> []"
  by (induction s) (auto split: list.splits)

lemma split_on_no_sep: "d \<notin> set s \<Longrightarrow> split_on d s = [s]"
  by (induction s) (auto split: list.splits)

lemma split_on_append: "d \<notin> set s \<Longrightarrow> split_on d (s @ d # t) = s # split_on d t"
  by (induction s) auto

lemma split_on_parts: "p \<in> set (split_on d s) \<Longrightarrow> d \<notin> set p \<and> set p \<subseteq> set s"
proof (induction s arbitrary: p)
  case Nil
  then show ?case by simp
next
  case (Cons c cs)
  obtain q qs where q: "split_on d cs = q # qs" using split_on_nonempty by (meson list.exhaust)
  show ?case
  proof (cases "c = d")
    case True
    then show ?thesis using Cons by auto
  next
    case False
    with Cons.prems q consider "p = c # q" | "p \<in> set qs" by auto
    then show ?thesis using Cons.IH [of q] Cons.IH [of p] q False by cases auto
  qed
qed

lemma split_on_join:
  "ps \<noteq> [] \<Longrightarrow> (\<And>p. p \<in> set ps \<Longrightarrow> d \<notin> set p) \<Longrightarrow> split_on d (join_with [d] ps) = ps"
  by (induction "[d]" ps rule: join_with.induct) (auto simp: split_on_no_sep split_on_append)

lemma set_join_with: "set (join_with sep ps) \<subseteq> set sep \<union> \<Union> (set ` set ps)"
  by (induction sep ps rule: join_with.induct) auto

end
