(* ===== verification/Text_Model.thy ===== *)
theory Text_Model
  imports Prelude
begin

text \<open>
  The crate \<open>text\<close> (\<open>crates/text/src/lib.rs\<close>): byte ranges, editor positions, the line index
  that converts between UTF-8 byte offsets and UTF-16 positions, and the normalised logical
  paths of the workspace. \<open>abs_path.rs\<close> asks the file system and is not modelled.
\<close>

subsection \<open>Ranges and positions\<close>

record text_range =
  range_start :: nat
  range_end :: nat

text \<open>\<open>TextRange::new\<close>: \<open>None\<close> when the end precedes the start.\<close>

definition text_range_new :: "nat \<Rightarrow> nat \<Rightarrow> text_range option" where
  "text_range_new s e = (if e < s then None else Some \<lparr>range_start = s, range_end = e\<rparr>)"

definition text_range_empty :: "nat \<Rightarrow> text_range" where
  "text_range_empty off = \<lparr>range_start = off, range_end = off\<rparr>"

definition text_range_len :: "text_range \<Rightarrow> nat" where
  "text_range_len r = range_end r - range_start r"

definition text_range_is_empty :: "text_range \<Rightarrow> bool" where
  "text_range_is_empty r \<longleftrightarrow> range_start r = range_end r"

record position =
  pos_line :: nat
  pos_character :: nat

record position_range =
  pr_start :: position
  pr_end :: position

subsection \<open>The line index\<close>

record line_index =
  line_starts :: "nat list"
  text_len :: nat

text \<open>The loop of \<open>LineIndex::new\<close>: the offset after every line feed that fits a \<open>u32\<close>.\<close>

fun newline_starts :: "nat \<Rightarrow> string \<Rightarrow> nat list" where
  "newline_starts off [] = []"
| "newline_starts off (b # bs) =
    (if b = NL then
       (case try_u32 (off + 1) of
          Some next \<Rightarrow> next # newline_starts (off + 1) bs
        | None \<Rightarrow> newline_starts (off + 1) bs)
     else newline_starts (off + 1) bs)"

definition line_index_new :: "string \<Rightarrow> line_index" where
  "line_index_new text =
    \<lparr>line_starts = 0 # newline_starts 0 text,
     text_len = (case try_u32 (length text) of Some n \<Rightarrow> n | None \<Rightarrow> u32_max)\<rparr>"

text \<open>
  The loop of \<open>LineIndex::offset\<close> over \<open>line.char_indices()\<close>: arguments are the start of the line,
  its length, the byte offset of the head character, the characters left, the UTF-16 units
  counted so far and the requested character.
\<close>

fun offset_scan :: "nat \<Rightarrow> nat \<Rightarrow> nat \<Rightarrow> string list \<Rightarrow> nat \<Rightarrow> nat \<Rightarrow> nat option" where
  "offset_scan start len boff [] utf16 target =
    (if utf16 = target then try_u32 (start + len) else None)"
| "offset_scan start len boff (c # cs) utf16 target =
    (if utf16 = target then try_u32 (start + boff)
     else case try_u32 (utf16 + len_utf16 c) of
        None \<Rightarrow> None
      | Some utf16' \<Rightarrow>
          if target < utf16' then None
          else offset_scan start len (boff + length c) cs utf16' target)"

definition line_offset :: "line_index \<Rightarrow> string \<Rightarrow> position \<Rightarrow> nat option" where
  "line_offset idx text p =
    (let starts = line_starts idx; n = pos_line p in
     if n < length starts then
       (let start = starts ! n;
            stop = (if n + 1 < length starts then starts ! (n + 1) else text_len idx)
        in case str_get text start stop of
             None \<Rightarrow> None
           | Some line \<Rightarrow> offset_scan start (length line) 0 (str_chars line) 0 (pos_character p))
     else None)"

text \<open>\<open>try_fold\<close> with \<open>checked_add\<close> over the characters of the slice.\<close>

fun utf16_sum :: "nat \<Rightarrow> string list \<Rightarrow> nat option" where
  "utf16_sum acc [] = Some acc"
| "utf16_sum acc (c # cs) =
    (case try_u32 (acc + len_utf16 c) of None \<Rightarrow> None | Some acc' \<Rightarrow> utf16_sum acc' cs)"

definition line_position :: "line_index \<Rightarrow> string \<Rightarrow> nat \<Rightarrow> position option" where
  "line_position idx text off =
    (if text_len idx < off then None
     else let line = partition_point (\<lambda>start. start \<le> off) (line_starts idx) - 1 in
       if line < length (line_starts idx) then
         (case str_get text (line_starts idx ! line) off of
            None \<Rightarrow> None
          | Some slice \<Rightarrow>
              (case utf16_sum 0 (str_chars slice) of
                 None \<Rightarrow> None
               | Some character \<Rightarrow>
                   (case try_u32 line of
                      None \<Rightarrow> None
                    | Some l \<Rightarrow> Some \<lparr>pos_line = l, pos_character = character\<rparr>)))
       else None)"

definition line_position_range ::
  "line_index \<Rightarrow> string \<Rightarrow> text_range \<Rightarrow> position_range option" where
  "line_position_range idx text r =
    (case line_position idx text (range_start r) of
       None \<Rightarrow> None
     | Some a \<Rightarrow>
         (case line_position idx text (range_end r) of
            None \<Rightarrow> None
          | Some b \<Rightarrow> Some \<lparr>pr_start = a, pr_end = b\<rparr>))"

definition line_count :: "line_index \<Rightarrow> nat" where
  "line_count idx = length (line_starts idx)"

subsection \<open>Logical paths\<close>

datatype logical_path_error = EscapesRoot string | NulByte string

text \<open>The component loop of \<open>LogicalPath::parse\<close>; \<open>acc\<close> is the component stack, newest first.\<close>

fun path_components ::
  "string \<Rightarrow> string list \<Rightarrow> string list \<Rightarrow> logical_path_error + string list" where
  "path_components path acc [] = Inr (rev acc)"
| "path_components path acc (c # cs) =
    (if c = [] \<or> c = ''.'' then path_components path acc cs
     else if c = ''..'' then
       (case acc of
          [] \<Rightarrow> Inl (EscapesRoot path)
        | _ # acc' \<Rightarrow> path_components path acc' cs)
     else path_components path (c # acc) cs)"

definition slashes :: "string \<Rightarrow> string" where
  "slashes path = map (\<lambda>c. if c = BACKSLASH then CHR ''/'' else c) path"

definition logical_path_parse :: "string \<Rightarrow> logical_path_error + string" where
  "logical_path_parse path =
    (case path_components path []
            (split_on CHR ''/'' (dropWhile (\<lambda>c. c = CHR ''/'') (slashes path))) of
       Inl e \<Rightarrow> Inl e
     | Inr comps \<Rightarrow>
         if list_ex (\<lambda>c. CHR 0x00 \<in> set c) comps then Inl (NulByte path)
         else Inr (join_with ''/'' comps))"

subsection \<open>Lines\<close>

lemma newline_starts_eq:
  "off + length bs < u32_limit \<Longrightarrow>
    newline_starts off bs = map (\<lambda>i. off + Suc i) (filter (\<lambda>i. bs ! i = NL) [0..<length bs])"
proof (induction bs arbitrary: off)
  case Nil
  then show ?case by simp
next
  case (Cons b bs)
  have "filter (\<lambda>i. (b # bs) ! i = NL) [0..<length (b # bs)] =
      (if b = NL then [0] else []) @ map Suc (filter (\<lambda>i. bs ! i = NL) [0..<length bs])"
    by (simp add: upt_conv_Cons map_Suc_upt [symmetric] filter_map o_def del: upt_Suc)
  moreover have "newline_starts (off + 1) bs =
      map (\<lambda>i. off + Suc (Suc i)) (filter (\<lambda>i. bs ! i = NL) [0..<length bs])"
    using Cons.IH [of "off + 1"] Cons.prems by simp
  ultimately show ?case using Cons.prems by simp
qed

lemma line_starts_eq:
  "length text < u32_limit \<Longrightarrow>
    line_starts (line_index_new text) = 0 # map Suc (filter (\<lambda>i. text ! i = NL) [0..<length text])"
  by (simp add: line_index_new_def newline_starts_eq)

lemma text_len_eq [simp]:
  "length text < u32_limit \<Longrightarrow> text_len (line_index_new text) = length text"
  by (simp add: line_index_new_def)

lemma line_starts_sorted:
  assumes "length text < u32_limit"
  shows "sorted_wrt (<) (line_starts (line_index_new text))"
proof -
  have "sorted_wrt (<) (filter (\<lambda>i. text ! i = NL) [0..<length text])"
    by (rule sorted_wrt_filter) (simp add: sorted_wrt_upt)
  then show ?thesis by (simp add: line_starts_eq [OF assms] sorted_wrt_map)
qed

text \<open>Every line starts at a character boundary.\<close>

lemma line_start_boundary:
  assumes "valid_utf8 text" and "length text < u32_limit"
    and "s \<in> set (line_starts (line_index_new text))"
  shows "is_boundary text s"
proof (cases "s = 0")
  case False
  with assms obtain i where i: "s = Suc i" "i < length text" "text ! i = NL"
    by (auto simp: line_starts_eq)
  then have b: "byte_of (text ! i) = 10" by (simp add: NL_def byte_of_def)
  have "is_boundary text i" by (rule is_boundary_ascii) (use i b in auto)
  from valid_utf8_next_boundary [OF assms(1) this i(2)] b i show ?thesis
    by (simp add: utf8_width_def)
qed simp

lemma line_start_le:
  "length text < u32_limit \<Longrightarrow> s \<in> set (line_starts (line_index_new text)) \<Longrightarrow> s \<le> length text"
  by (auto simp: line_starts_eq)

lemma utf16_sum_eq:
  "acc + sum_list (map len_utf16 cs) < u32_limit \<Longrightarrow>
    utf16_sum acc cs = Some (acc + sum_list (map len_utf16 cs))"
  by (induction cs arbitrary: acc) auto

lemma utf16_sum_le: "utf16_sum acc cs = Some n \<Longrightarrow> acc \<le> n"
  by (induction cs arbitrary: acc) (force split: option.splits)+

text \<open>The scan passes over every prefix whose UTF-16 length is the target.\<close>

lemma offset_scan_prefix:
  "utf16_sum u cs = Some t \<Longrightarrow>
    offset_scan s len b (cs @ ds) u t = offset_scan s len (b + length (concat cs)) ds t t"
proof (induction cs arbitrary: u b)
  case Nil
  then show ?case by simp
next
  case (Cons c cs)
  then have u: "utf16_sum (u + len_utf16 c) cs = Some t" "u + len_utf16 c < u32_limit"
    by (auto split: option.splits)
  from utf16_sum_le [OF u(1)] have "u + len_utf16 c \<le> t" .
  moreover have "u < u + len_utf16 c" by simp
  ultimately have "u < t" by linarith
  with \<open>u + len_utf16 c \<le> t\<close> u Cons.IH [OF u(1)] show ?case by (simp add: add.assoc)
qed

text \<open>The line of an offset: the last line start at or before it.\<close>

lemma line_of_offset:
  assumes "valid_utf8 text" and len: "length text < u32_limit" and "off \<le> length text"
  defines "starts \<equiv> line_starts (line_index_new text)"
  defines "line \<equiv> partition_point (\<lambda>s. s \<le> off) starts - 1"
  shows "line < length starts" and "starts ! line \<le> off"
    and "line + 1 < length starts \<Longrightarrow> off < starts ! (line + 1)"
proof -
  have s0: "starts ! 0 = 0" "starts \<noteq> []" by (simp_all add: starts_def line_starts_eq [OF len])
  let ?n = "length (takeWhile (\<lambda>s. s \<le> off) starts)"
  have n: "0 < ?n" using s0 by (cases starts) auto
  have le: "?n \<le> length starts" by (rule length_takeWhile_le)
  then show "line < length starts" using n by (simp add: line_def partition_point_def less_eq_Suc_le)
  have lt: "line < ?n" using n by (simp add: line_def partition_point_def)
  have "starts ! line \<in> set (takeWhile (\<lambda>s. s \<le> off) starts)"
    using lt takeWhile_nth [OF lt] nth_mem [OF lt] by simp
  then show "starts ! line \<le> off" by (rule set_takeWhileD [THEN conjunct2])
  assume "line + 1 < length starts"
  then show "off < starts ! (line + 1)"
    using nth_length_takeWhile [of "\<lambda>s. s \<le> off" starts] n
    by (simp add: line_def partition_point_def)
qed

lemma line_position_boundary:
  assumes v: "valid_utf8 text" and len: "length text < u32_limit" and b: "is_boundary text off"
  defines "starts \<equiv> line_starts (line_index_new text)"
  defines "line \<equiv> partition_point (\<lambda>s. s \<le> off) starts - 1"
  defines "slice \<equiv> take (off - starts ! line) (drop (starts ! line) text)"
  shows "line_position (line_index_new text) text off =
      Some \<lparr>pos_line = line, pos_character = sum_list (map len_utf16 (str_chars slice))\<rparr>"
    and "line < u32_limit"
    and "utf16_sum 0 (str_chars slice) = Some (sum_list (map len_utf16 (str_chars slice)))"
proof -
  have ol: "off \<le> length text" using is_boundary_le [OF b] .
  note lo = line_of_offset [OF v len ol, folded starts_def, folded line_def]
  have sb: "is_boundary text (starts ! line)"
    using line_start_boundary [OF v len] lo(1) by (simp add: starts_def)
  have get: "str_get text (starts ! line) off = Some slice"
    using b sb lo(2) by (simp add: str_get_Some slice_def)
  have sv: "valid_utf8 slice"
  proof -
    have "slice = drop (starts ! line) (take off text)" by (simp add: slice_def drop_take)
    moreover have "is_boundary (take off text) (starts ! line)"
      using sb lo(2) ol by (auto simp: is_boundary_def)
    ultimately show ?thesis using valid_utf8_drop [OF valid_utf8_take [OF v b]] by simp
  qed
  have "sum_list (map len_utf16 (str_chars slice)) \<le> length slice"
    using utf16_length_bound [OF sv] .
  also have "\<dots> \<le> length text" by (simp add: slice_def)
  finally have sl: "sum_list (map len_utf16 (str_chars slice)) < u32_limit" using len by simp
  then show us: "utf16_sum 0 (str_chars slice) = Some (sum_list (map len_utf16 (str_chars slice)))"
    using utf16_sum_eq [of 0 "str_chars slice"] by simp
  have "length starts \<le> Suc (length text)"
    unfolding starts_def line_starts_eq [OF len]
    using length_filter_le [of "\<lambda>i. text ! i = NL" "[0..<length text]"] by simp
  then show ll: "line < u32_limit" using lo(1) len by simp
  have ld: "partition_point (\<lambda>start. start \<le> off) starts - Suc 0 = line"
    by (simp add: line_def)
  show "line_position (line_index_new text) text off =
      Some \<lparr>pos_line = line, pos_character = sum_list (map len_utf16 (str_chars slice))\<rparr>"
    using ol lo(1) get us ll len
    by (simp add: line_position_def Let_def starts_def [symmetric] ld)
qed

text \<open>
  C39. The line index converts losslessly between byte offsets and editor positions: in every
  UTF-8 text shorter than 4 GiB each character boundary has a position, no other offset has
  one, and asking for the offset of that position gives the same boundary back.
\<close>

theorem line_index_round_trip:
  assumes v: "valid_utf8 text" and len: "length text < u32_limit"
  shows "(if is_boundary text off
     then \<exists>p. line_position (line_index_new text) text off = Some p
            \<and> line_offset (line_index_new text) text p = Some off
     else line_position (line_index_new text) text off = None)"
proof (cases "is_boundary text off")
  case False
  then have "str_get text a off = None" for a by (simp add: str_get_def)
  with False show ?thesis by (auto simp: line_position_def Let_def)
next
  case True
  define starts where "starts = line_starts (line_index_new text)"
  define line where "line = partition_point (\<lambda>s. s \<le> off) starts - 1"
  define s where "s = starts ! line"
  define e where "e = (if line + 1 < length starts then starts ! (line + 1) else length text)"
  define slice where "slice = take (off - s) (drop s text)"
  define ln where "ln = take (e - s) (drop s text)"
  define mid where "mid = take (e - off) (drop off text)"
  have ol: "off \<le> length text" using is_boundary_le [OF True] .
  note lo = line_of_offset [OF v len ol, folded starts_def, folded line_def]
  note lp = line_position_boundary [OF v len True, folded starts_def, folded line_def,
      folded s_def, folded slice_def]
  have sb: "is_boundary text s" using line_start_boundary [OF v len] lo(1)
    by (simp add: starts_def s_def)
  have eb: "is_boundary text e"
    using line_start_boundary [OF v len] by (simp add: starts_def e_def)
  have so: "s \<le> off" using lo(2) by (simp add: s_def)
  have oe: "off \<le> e" using lo(3) ol by (auto simp: e_def)
  have el: "e \<le> length text" using is_boundary_le [OF eb] .
  have rest: "drop (e - s) (drop s text) = drop e text" "drop (off - s) (drop s text) = drop off text"
    "drop (e - off) (drop off text) = drop e text"
    using so oe by simp_all
  have bnd: "is_boundary (drop s text) (e - s)" "is_boundary (drop s text) (off - s)"
    "is_boundary (drop off text) (e - off)"
    using True eb so oe el by (auto simp: is_boundary_def)
  have "str_chars ln @ str_chars (drop e text) =
      str_chars slice @ str_chars mid @ str_chars (drop e text)"
    using str_chars_boundary [OF valid_utf8_drop [OF v sb] bnd(1)]
      str_chars_boundary [OF valid_utf8_drop [OF v sb] bnd(2)]
      str_chars_boundary [OF valid_utf8_drop [OF v True] bnd(3)] rest
    by (simp add: ln_def slice_def mid_def)
  then have chars: "str_chars ln = str_chars slice @ str_chars mid" by simp
  define t where "t = sum_list (map len_utf16 (str_chars slice))"
  have lnlen: "length ln = e - s" "length slice = off - s"
    using el ol by (simp_all add: ln_def slice_def)
  have "offset_scan s (length ln) 0 (str_chars ln) 0 t = Some off"
  proof -
    have "offset_scan s (length ln) 0 (str_chars ln) 0 t =
        offset_scan s (length ln) (length slice) (str_chars mid) t t"
      using offset_scan_prefix [OF lp(3), of s "length ln" 0 "str_chars mid"] chars
      by (simp add: t_def)
    also have "\<dots> = Some off"
    proof (cases "str_chars mid")
      case Nil
      then have "mid = []" using concat_str_chars [of mid] by simp
      then have "e = off" using oe el by (auto simp: mid_def)
      with Nil lnlen so ol len show ?thesis by simp
    next
      case (Cons c cs)
      with lnlen so ol len show ?thesis by simp
    qed
    finally show ?thesis .
  qed
  moreover have "str_get text s e = Some ln"
    using sb eb so oe by (simp add: str_get_Some ln_def)
  ultimately have "line_offset (line_index_new text) text \<lparr>pos_line = line, pos_character = t\<rparr> = Some off"
    using lo(1) len
    by (cases "line + 1 < length starts")
      (simp_all add: line_offset_def Let_def starts_def [symmetric] s_def [symmetric] e_def)
  with lp(1) True show ?thesis by (auto simp: t_def)
qed

theorem line_index_round_trip_witness:
  "line_position (line_index_new ''ab'') ''ab'' 1 \<noteq> None"
proof -
  have h: "valid_utf8 ''ab''"
    by (simp add: valid_utf8_def valid_utf8_bytes.simps utf8_seq.simps byte_of_def)
  have b: "is_boundary ''ab'' 1" by (simp add: is_boundary_def is_cont_def byte_of_def)
  show ?thesis using line_index_round_trip [OF h, of 1] b by (auto simp: u32_limit_def)
qed

subsection \<open>Normal logical paths\<close>

text \<open>What a normalised path is: components that are neither empty nor dots, free of separators
  and NUL.\<close>

definition normal_component :: "string \<Rightarrow> bool" where
  "normal_component c \<longleftrightarrow>
    c \<noteq> [] \<and> c \<noteq> ''.'' \<and> c \<noteq> ''..'' \<and> CHR ''/'' \<notin> set c \<and> BACKSLASH \<notin> set c \<and> CHR 0x00 \<notin> set c"

lemma path_components_normal:
  "path_components path acc cs = Inr comps \<Longrightarrow>
    set comps \<subseteq> set acc \<union> {c \<in> set cs. c \<noteq> [] \<and> c \<noteq> ''.'' \<and> c \<noteq> ''..''}"
proof (induction cs arbitrary: acc)
  case Nil
  then show ?case by auto
next
  case (Cons c cs)
  then show ?case by (fastforce split: if_splits list.splits)
qed

lemma path_components_id:
  "(\<And>c. c \<in> set cs \<Longrightarrow> normal_component c) \<Longrightarrow> path_components path acc cs = Inr (rev acc @ cs)"
  by (induction cs arbitrary: acc) (auto simp: normal_component_def)

lemma slashes_id: "BACKSLASH \<notin> set p \<Longrightarrow> slashes p = p"
  by (induction p) (auto simp: slashes_def)

lemma no_backslash_slashes: "BACKSLASH \<notin> set (slashes p)"
  by (auto simp: slashes_def BACKSLASH_def)

text \<open>
  A parsed logical path stays inside its root: it is the join of components none of which
  is empty, \<open>.\<close>, \<open>..\<close> or contains a separator or NUL; and parsing it again changes nothing.
\<close>

lemma logical_path_parse_normal:
  assumes parse: "logical_path_parse path = Inr q"
  shows "\<exists>comps. q = join_with ''/'' comps \<and> (\<forall>c \<in> set comps. normal_component c)
    \<and> logical_path_parse q = Inr q"
proof -
  let ?cs = "split_on CHR ''/'' (dropWhile (\<lambda>c. c = CHR ''/'') (slashes path))"
  from parse obtain comps where c: "path_components path [] ?cs = Inr comps"
    "\<not> list_ex (\<lambda>c. CHR 0x00 \<in> set c) comps" "q = join_with ''/'' comps"
    by (auto simp: logical_path_parse_def split: sum.splits if_splits)
  have part: "p \<in> set ?cs \<Longrightarrow> CHR ''/'' \<notin> set p \<and> BACKSLASH \<notin> set p" for p
    using split_on_parts [of p "CHR ''/''"] no_backslash_slashes [of path] set_dropWhileD
    by fastforce
  have norm: "\<forall>c \<in> set comps. normal_component c"
    using path_components_normal [OF c(1)] part c(2)
    by (auto simp: normal_component_def list_ex_iff)
  have "logical_path_parse q = Inr q"
  proof (cases "comps = []")
    case True
    then show ?thesis using c(3) by (simp add: logical_path_parse_def slashes_def)
  next
    case False
    then obtain d ds where d: "comps = d # ds" by (cases comps) auto
    have nb: "BACKSLASH \<notin> set q"
      using norm set_join_with [of "''/''" comps] c(3)
      by (fastforce simp: normal_component_def BACKSLASH_def)
    obtain x xs where x: "d = x # xs" "x \<noteq> CHR ''/''"
      using norm d by (cases d) (auto simp: normal_component_def)
    then have "\<exists>ys. q = x # ys" using c(3) d by (cases ds) auto
    then have "dropWhile (\<lambda>c. c = CHR ''/'') q = q" using x by auto
    moreover have "split_on CHR ''/'' q = comps"
      using split_on_join [OF False, of "CHR ''/''"] norm c(3) by (auto simp: normal_component_def)
    moreover have "path_components q [] comps = Inr comps"
      using path_components_id [of comps q "[]"] norm by auto
    moreover have "\<not> list_ex (\<lambda>c. CHR 0x00 \<in> set c) comps" using c(2) .
    ultimately show ?thesis
      unfolding logical_path_parse_def slashes_id [OF nb] by (simp add: c(3))
  qed
  with c(3) norm show ?thesis by blast
qed

lemma logical_path_parse_normal_witness:
  "logical_path_parse ''/a/./b/../c'' = Inr ''a/c'' \<and> logical_path_parse ''a/c'' = Inr ''a/c''"
proof -
  have h: "logical_path_parse ''/a/./b/../c'' = Inr ''a/c''"
    by (simp add: logical_path_parse_def slashes_def BACKSLASH_def)
  show ?thesis using h logical_path_parse_normal [OF h] by blast
qed

end
