(* ===== verification/Transcode_Core.thy ===== *)
theory Transcode_Core
  imports Prelude "HOL-Library.Word"
begin

text \<open>
  The text-level codec of the crate \<open>transcode\<close> (\<open>lib.rs\<close>, \<open>cp1252.rs\<close>, \<open>escape.rs\<close>): the escape
  sets, the CP1252 table, the escape triple with its compensation, and encoding and decoding
  at text and file level. Bytes are \<open>8 word\<close>, code points \<open>32 word\<close>; a Rust \<open>&str\<close> is the list
  of its characters (\<open>str::chars\<close>), and the byte offsets the code reports are the sums of
  \<open>len_utf8\<close>.
\<close>

unbundle bit_operations_syntax

type_synonym u8 = "8 word"
type_synonym u32 = "32 word"

subsection \<open>Profiles and escape sets\<close>

datatype profile = Localisation | Script

datatype escape_set = Paratranz | DllFull

definition paratranz_escape_bytes :: "u8 list" where
  "paratranz_escape_bytes =
    [0x00, 0x0A, 0x0D, 0x20, 0x22, 0x23, 0x24, 0x2F, 0x3B, 0x3D, 0x40, 0x5B, 0x5C, 0x5D, 0x5F,
     0x7B, 0x7D, 0x7E, 0x80, 0xA3, 0xA4, 0xA7, 0xBD]"

definition dll_full_escape_bytes :: "u8 list" where
  "dll_full_escape_bytes =
    [0x00, 0x0A, 0x0D, 0x20, 0x22, 0x23, 0x24, 0x2F, 0x3B, 0x3D, 0x40, 0x5B, 0x5C, 0x5D, 0x5F,
     0x7B, 0x7D, 0x7E, 0x80, 0xA3, 0xA4, 0xA7, 0xBD, 0x3A, 0x3C, 0x3E, 0x3F, 0x7C, 0x2A]"

fun escape_bytes :: "escape_set \<Rightarrow> u8 list" where
  "escape_bytes Paratranz = paratranz_escape_bytes"
| "escape_bytes DllFull = dll_full_escape_bytes"

text \<open>\<open>contains_const\<close>: the index loop over the set.\<close>

fun contains_const :: "u8 list \<Rightarrow> u8 \<Rightarrow> bool" where
  "contains_const [] b = False"
| "contains_const (x # xs) b = (if x = b then True else contains_const xs b)"

definition escape_set_contains :: "escape_set \<Rightarrow> u8 \<Rightarrow> bool" where
  "escape_set_contains eset b = contains_const (escape_bytes eset) b"

datatype unencodable_kind = MangledLowPlane | BeyondBmp

record unencodable_code_point =
  byte_index :: nat
  code_point :: u32
  kind :: unencodable_kind

type_synonym encode_error = "unencodable_code_point list"

subsection \<open>CP1252\<close>

definition cp1252_map :: "(u8 \<times> u32) list" where
  "cp1252_map =
    [(0x80, 0x20AC), (0x82, 0x201A), (0x83, 0x0192), (0x84, 0x201E), (0x85, 0x2026),
     (0x86, 0x2020), (0x87, 0x2021), (0x88, 0x02C6), (0x89, 0x2030), (0x8A, 0x0160),
     (0x8B, 0x2039), (0x8C, 0x0152), (0x8E, 0x017D), (0x91, 0x2018), (0x92, 0x2019),
     (0x93, 0x201C), (0x94, 0x201D), (0x95, 0x2022), (0x96, 0x2013), (0x97, 0x2014),
     (0x98, 0x02DC), (0x99, 0x2122), (0x9A, 0x0161), (0x9B, 0x203A), (0x9C, 0x0153),
     (0x9E, 0x017E), (0x9F, 0x0178)]"

definition mapped_byte :: "u32 \<Rightarrow> u8 option" where
  "mapped_byte cp = map_option fst (find (\<lambda>(_, mapped). mapped = cp) cp1252_map)"

definition byte_to_char :: "u8 \<Rightarrow> u32" where
  "byte_to_char b =
    (case find (\<lambda>(mapped, _). mapped = b) cp1252_map of
       Some (_, cp) \<Rightarrow> cp
     | None \<Rightarrow> ucast b)"

definition char_to_byte :: "u32 \<Rightarrow> u8" where
  "char_to_byte cp =
    (case find (\<lambda>(_, mapped). mapped = cp) cp1252_map of
       Some (b, _) \<Rightarrow> b
     | None \<Rightarrow> if cp < 0x100 then ucast cp else ucast (cp AND 0xFF))"

subsection \<open>Characters\<close>

text \<open>\<open>char::from_u32\<close> accepts scalar values only; \<open>push_char\<close> substitutes \<open>U+FFFD\<close>.\<close>

definition is_scalar :: "u32 \<Rightarrow> bool" where
  "is_scalar cp \<longleftrightarrow> cp < 0x110000 \<and> \<not> (0xD800 \<le> cp \<and> cp \<le> 0xDFFF)"

definition pushed_char :: "u32 \<Rightarrow> u32" where
  "pushed_char cp = (if is_scalar cp then cp else 0xFFFD)"

definition char_len_utf8 :: "u32 \<Rightarrow> nat" where
  "char_len_utf8 cp = (if cp < 0x80 then 1 else if cp < 0x800 then 2 else if cp < 0x10000 then 3 else 4)"

definition is_marker_code_point :: "u32 \<Rightarrow> bool" where
  "is_marker_code_point cp \<longleftrightarrow> 0x10 \<le> cp \<and> cp \<le> 0x13"

definition is_marker_byte :: "u8 \<Rightarrow> bool" where
  "is_marker_byte b \<longleftrightarrow> 0x10 \<le> b \<and> b \<le> 0x13"

definition is_passthrough :: "u32 \<Rightarrow> bool" where
  "is_passthrough cp \<longleftrightarrow> cp < 0x100 \<or> cp = 0xFEFF"

definition unencodable_kind :: "u32 \<Rightarrow> unencodable_kind option" where
  "unencodable_kind cp =
    (if cp < 0x100 \<or> cp = 0xFEFF then None
     else if cp \<le> 0xFFF then Some MangledLowPlane
     else if 0x10000 \<le> cp then Some BeyondBmp
     else None)"

definition file_unencodable_kind :: "u32 \<Rightarrow> profile \<Rightarrow> unencodable_kind option" where
  "file_unencodable_kind cp profile =
    (if profile = Script \<and> mapped_byte cp \<noteq> None then None else unencodable_kind cp)"

subsection \<open>Escape triples\<close>

definition escape_triple :: "u32 \<Rightarrow> escape_set \<Rightarrow> u8 \<times> u8 \<times> u8" where
  "escape_triple cp eset =
    (let low = (ucast (cp AND 0xFF) :: u8);
         high = (ucast (drop_bit 8 cp) :: u8);
         marker = (0x10 :: u8);
         marker = (if escape_set_contains eset high then marker + 2 else marker);
         marker = (if escape_set_contains eset low then marker + 1 else marker);
         low' = (if marker = 0x11 \<or> marker = 0x13 then low + 0x0E else low);
         high' = (if marker = 0x12 \<or> marker = 0x13 then high - 0x09 else high)
     in (marker, low', high'))"

definition reconstruct :: "u32 \<Rightarrow> u8 \<Rightarrow> u8 \<Rightarrow> u32" where
  "reconstruct marker low high =
    (let sp = (push_bit 8 (ucast high)) OR (ucast low) in
     if marker = 0x11 then sp - 0x0E
     else if marker = 0x12 then sp + 0x900
     else if marker = 0x13 then sp + 0x8F2
     else sp)"

subsection \<open>Encoding\<close>

definition finish :: "'a \<times> encode_error \<Rightarrow> encode_error + 'a" where
  "finish r = (case r of (output, unencodable) \<Rightarrow>
     if unencodable = [] then Inr output else Inl unencodable)"

text \<open>The \<open>char_indices\<close> loop of \<open>encode_text\<close>; \<open>off\<close> is the byte index of the head.\<close>

fun encode_text_loop :: "escape_set \<Rightarrow> nat \<Rightarrow> u32 list \<Rightarrow> u32 list \<times> encode_error" where
  "encode_text_loop eset off [] = ([], [])"
| "encode_text_loop eset off (cp # cps) =
    (let (out, un) = encode_text_loop eset (off + char_len_utf8 cp) cps in
     case unencodable_kind cp of
       Some k \<Rightarrow> (out, \<lparr>byte_index = off, code_point = cp, kind = k\<rparr> # un)
     | None \<Rightarrow>
         if is_passthrough cp then (cp # out, un)
         else (case escape_triple cp eset of (marker, low, high) \<Rightarrow>
           (pushed_char (ucast marker) # pushed_char (byte_to_char low)
              # pushed_char (byte_to_char high) # out, un)))"

definition encode_text :: "u32 list \<Rightarrow> escape_set \<Rightarrow> encode_error + u32 list" where
  "encode_text input eset = finish (encode_text_loop eset 0 input)"

text \<open>\<open>char::encode_utf8\<close>, hence \<open>String::into_bytes\<close>.\<close>

definition encode_utf8 :: "u32 \<Rightarrow> u8 list" where
  "encode_utf8 cp =
    (let n = unat cp in
     if n < 128 then [of_nat n]
     else if n < 2048 then [of_nat (192 + n div 64), of_nat (128 + n mod 64)]
     else if n < 65536 then
       [of_nat (224 + n div 4096), of_nat (128 + n div 64 mod 64), of_nat (128 + n mod 64)]
     else
       [of_nat (240 + n div 262144), of_nat (128 + n div 4096 mod 64),
        of_nat (128 + n div 64 mod 64), of_nat (128 + n mod 64)])"

definition into_bytes :: "u32 list \<Rightarrow> u8 list" where
  "into_bytes cps = concat (map encode_utf8 cps)"

fun encode_script_loop :: "escape_set \<Rightarrow> nat \<Rightarrow> u32 list \<Rightarrow> u8 list \<times> encode_error" where
  "encode_script_loop eset off [] = ([], [])"
| "encode_script_loop eset off (cp # cps) =
    (let (bytes, un) = encode_script_loop eset (off + char_len_utf8 cp) cps in
     if cp < 0x100 then (ucast cp # bytes, un)
     else if cp = 0xFEFF then (encode_utf8 0xFEFF @ bytes, un)
     else case mapped_byte cp of
       Some single \<Rightarrow> (single # bytes, un)
     | None \<Rightarrow>
        (case unencodable_kind cp of
           Some k \<Rightarrow> (bytes, \<lparr>byte_index = off, code_point = cp, kind = k\<rparr> # un)
         | None \<Rightarrow>
            (case escape_triple cp eset of (marker, low, high) \<Rightarrow>
               (marker # low # high # bytes, un))))"

fun encode_file :: "u32 list \<Rightarrow> profile \<Rightarrow> escape_set \<Rightarrow> encode_error + u8 list" where
  "encode_file input Localisation eset = map_sum id into_bytes (encode_text input eset)"
| "encode_file input Script eset = finish (encode_script_loop eset 0 input)"

subsection \<open>Decoding\<close>

record decoded =
  decoded_text :: "u32 list"
  broken_sequences :: "nat list"

text \<open>
  The index loop of \<open>decode_text\<close> over \<open>char_indices\<close>: a marker with two followers consumes
  three characters, any other marker is reported and passed through.
\<close>

fun decode_text_loop :: "nat \<Rightarrow> u32 list \<Rightarrow> u32 list \<times> nat list" where
  "decode_text_loop off [] = ([], [])"
| "decode_text_loop off (c # l # h # rest) =
    (if is_marker_code_point c then
       (let (text, broken) =
          decode_text_loop (off + char_len_utf8 c + char_len_utf8 l + char_len_utf8 h) rest
        in (pushed_char (reconstruct c (char_to_byte l) (char_to_byte h)) # text, broken))
     else
       (let (text, broken) = decode_text_loop (off + char_len_utf8 c) (l # h # rest)
        in (c # text, broken)))"
| "decode_text_loop off (c # cs) =
    (let (text, broken) = decode_text_loop (off + char_len_utf8 c) cs
     in (c # text, if is_marker_code_point c then off # broken else broken))"

definition decode_text :: "u32 list \<Rightarrow> decoded" where
  "decode_text input =
    (case decode_text_loop 0 input of (text, broken) \<Rightarrow>
      \<lparr>decoded_text = text, broken_sequences = broken\<rparr>)"

definition decode_value :: "u32 list \<Rightarrow> u32 list" where
  "decode_value value =
    (if \<not> list_ex is_marker_code_point value then value else decoded_text (decode_text value))"

text \<open>The index loop of the script branch of \<open>decode_file\<close>.\<close>

fun decode_script_loop :: "nat \<Rightarrow> u8 list \<Rightarrow> u32 list \<times> nat list" where
  "decode_script_loop off [] = ([], [])"
| "decode_script_loop off (b # l # h # rest) =
    (if is_marker_byte b then
       (let (text, broken) = decode_script_loop (off + 3) rest
        in (pushed_char (reconstruct (ucast b) l h) # text, broken))
     else
       (let (text, broken) = decode_script_loop (off + 1) (l # h # rest)
        in (pushed_char (byte_to_char b) # text, broken)))"
| "decode_script_loop off (b # bs) =
    (let (text, broken) = decode_script_loop (off + 1) bs
     in (pushed_char (byte_to_char b) # text, if is_marker_byte b then off # broken else broken))"

text \<open>Byte sequences as code points: \<open>std::str::from_utf8\<close> on well-formed input.\<close>

fun utf8_scalar :: "nat list \<Rightarrow> nat" where
  "utf8_scalar [a] = a"
| "utf8_scalar [a, b] = (a - 192) * 64 + (b - 128)"
| "utf8_scalar [a, b, c] = (a - 224) * 4096 + (b - 128) * 64 + (c - 128)"
| "utf8_scalar [a, b, c, d] =
    (a - 240) * 262144 + (b - 128) * 4096 + (c - 128) * 64 + (d - 128)"
| "utf8_scalar _ = 0"

function from_utf8 :: "u8 list \<Rightarrow> u32 list option" where
  "from_utf8 bs =
    (if bs = [] then Some []
     else case utf8_seq (map unat bs) of
       None \<Rightarrow> None
     | Some n \<Rightarrow>
         map_option (Cons (of_nat (utf8_scalar (map unat (take n bs))))) (from_utf8 (drop n bs)))"
  by pat_completeness auto
termination
  by (relation "measure length") (auto dest!: utf8_seq_bounds)

declare from_utf8.simps [simp del]

text \<open>\<open>decode_file\<close>; the only error is \<open>InvalidUtf8\<close>.\<close>

datatype invalid_utf8 = InvalidUtf8

fun decode_file :: "u8 list \<Rightarrow> profile \<Rightarrow> invalid_utf8 + decoded" where
  "decode_file bytes Localisation =
    (case from_utf8 bytes of None \<Rightarrow> Inl InvalidUtf8 | Some input \<Rightarrow> Inr (decode_text input))"
| "decode_file bytes Script =
    (case decode_script_loop 0 bytes of (text, broken) \<Rightarrow>
      Inr \<lparr>decoded_text = text, broken_sequences = broken\<rparr>)"

definition script_roundtrip_is_canonical :: "u32 list \<Rightarrow> bool" where
  "script_roundtrip_is_canonical text =
    (case encode_file (decoded_text (decode_text text)) Script Paratranz of
       Inl _ \<Rightarrow> False
     | Inr bytes \<Rightarrow> map (\<lambda>b. pushed_char (byte_to_char b)) bytes = text)"

subsection \<open>The code page\<close>

lemma unat_u8_less: "unat (b :: u8) < 256"
  using unsigned_less [of b, where ?'a = nat] by simp

lemma unat_ucast_up: "unat (ucast (b :: u8) :: u32) = unat b"
  using unat_u8_less [of b] by (simp add: unsigned_ucast_eq take_bit_nat_eq_self)

lemma unat_ucast_down: "unat (ucast (c :: u32) :: u8) = unat c mod 256"
  by (simp add: unsigned_ucast_eq take_bit_eq_mod)

lemma ucast_ucast_u8 [simp]: "ucast (ucast (b :: u8) :: u32) = b"
  using unat_u8_less [of b] by (simp add: word_unat_eq_iff unat_ucast_down unat_ucast_up)

lemma contains_const_iff [simp]: "contains_const xs b \<longleftrightarrow> b \<in> set xs"
  by (induction xs) auto

lemma contains_low_bound: "escape_set_contains eset b \<Longrightarrow> unat b + 14 < 256"
  by (cases eset)
    (auto simp: escape_set_contains_def paratranz_escape_bytes_def dll_full_escape_bytes_def)

text \<open>The CP1252 table is a partial bijection between bytes and code points.\<close>

lemma cp1252_map_distinct:
  "distinct (map fst cp1252_map)" "distinct (map snd cp1252_map)"
  by (simp_all add: cp1252_map_def)

lemma cp1252_map_range: "(b, cp) \<in> set cp1252_map \<Longrightarrow> 0x80 \<le> b \<and> b \<le> 0x9F \<and> 0x100 \<le> cp \<and> cp < 0x2123"
  by (auto simp: cp1252_map_def)

lemma find_fst_in: "distinct (map fst xs) \<Longrightarrow> (b, c) \<in> set xs \<Longrightarrow>
    find (\<lambda>(x, _). x = b) xs = Some (b, c)"
  by (induction xs) (auto, force)

lemma find_snd_in: "distinct (map snd xs) \<Longrightarrow> (b, c) \<in> set xs \<Longrightarrow>
    find (\<lambda>(_, x). x = c) xs = Some (b, c)"
  by (induction xs) (auto, force)

lemma find_fst_notin: "(\<And>c. (b, c) \<notin> set xs) \<Longrightarrow> find (\<lambda>(x, _). x = b) xs = None"
  by (induction xs) auto

lemma find_snd_Some: "find (\<lambda>(_, x). x = c) xs = Some r \<Longrightarrow> r \<in> set xs \<and> snd r = c"
  by (induction xs) (auto split: if_splits)

lemma byte_to_char_cases:
  "(\<exists>cp. (b, cp) \<in> set cp1252_map \<and> byte_to_char b = cp)
    \<or> ((\<forall>cp. (b, cp) \<notin> set cp1252_map) \<and> byte_to_char b = ucast b)"
proof (cases "\<exists>cp. (b, cp) \<in> set cp1252_map")
  case True
  then obtain cp where cp: "(b, cp) \<in> set cp1252_map" by blast
  with find_fst_in [OF cp1252_map_distinct(1) cp] show ?thesis by (auto simp: byte_to_char_def)
next
  case False
  with find_fst_notin [of b cp1252_map] show ?thesis by (auto simp: byte_to_char_def)
qed

lemma ucast_u8_less: "(ucast (b :: u8) :: u32) < 0x100"
  using unat_u8_less [of b] by (simp add: word_less_nat_alt unat_ucast_up)

lemma char_to_byte_to_char [simp]: "char_to_byte (byte_to_char b) = b"
proof (cases "\<exists>cp. (b, cp) \<in> set cp1252_map")
  case True
  then obtain cp where cp: "(b, cp) \<in> set cp1252_map" by blast
  have "byte_to_char b = cp"
    using find_fst_in [OF cp1252_map_distinct(1) cp] by (simp add: byte_to_char_def)
  moreover have "find (\<lambda>(_, x). x = cp) cp1252_map = Some (b, cp)"
    using find_snd_in [OF cp1252_map_distinct(2) cp] .
  ultimately show ?thesis by (simp add: char_to_byte_def)
next
  case False
  then have b: "byte_to_char b = ucast b" using byte_to_char_cases [of b] by auto
  have "find (\<lambda>(_, x). x = (ucast b :: u32)) cp1252_map = None"
    using cp1252_map_range ucast_u8_less [of b] by (fastforce simp: find_None_iff)
  then show ?thesis using ucast_u8_less [of b] by (simp add: char_to_byte_def b)
qed

lemma mapped_byte_Some: "mapped_byte cp = Some b \<longleftrightarrow> (b, cp) \<in> set cp1252_map"
proof
  assume "mapped_byte cp = Some b"
  then show "(b, cp) \<in> set cp1252_map"
    unfolding mapped_byte_def using find_snd_Some by fastforce
next
  assume "(b, cp) \<in> set cp1252_map"
  from find_snd_in [OF cp1252_map_distinct(2) this] show "mapped_byte cp = Some b"
    by (simp add: mapped_byte_def)
qed

lemma byte_to_mapped: "mapped_byte cp = Some b \<Longrightarrow> byte_to_char b = cp"
  unfolding mapped_byte_Some byte_to_char_def
  using find_fst_in [OF cp1252_map_distinct(1)] by auto

lemma byte_to_char_less: "byte_to_char b < 0x2123"
  using byte_to_char_cases [of b] cp1252_map_range [of b] ucast_u8_less [of b]
  by (auto intro: less_trans)

lemma pushed_byte_to_char [simp]: "pushed_char (byte_to_char b) = byte_to_char b"
proof -
  have "byte_to_char b < 0x2123" by (rule byte_to_char_less)
  then have "byte_to_char b < 0x110000" "byte_to_char b < 0xD800"
    by (auto intro: less_trans)
  then show ?thesis by (auto simp: pushed_char_def is_scalar_def)
qed

subsection \<open>Triples\<close>

lemma unat_combine:
  "unat ((push_bit 8 (ucast (h :: u8)) :: u32) OR ucast (l :: u8)) = unat h * 256 + unat l"
proof -
  let ?a = "push_bit 8 (ucast h) :: u32" and ?b = "ucast l :: u32"
  have l8: "bit l n \<Longrightarrow> n < 8" for n using bit_imp_le_length [of l n] by simp
  have "?a AND ?b = 0"
    by (rule bit_word_eqI) (auto simp: bit_simps dest: l8)
  then have sum: "?a OR ?b = ?a + ?b" by (simp add: disjunctive_add_eq_or)
  note h = unat_u8_less [of h] and l = unat_u8_less [of l]
  have a: "unat ?a = unat h * 256"
    using h by (simp add: push_bit_eq_mult unat_word_ariths unat_ucast_up)
  show ?thesis unfolding sum using h l by (simp add: unat_word_ariths a unat_ucast_up)
qed

lemma and_255_mod: "(cp :: u32) AND 0xFF = take_bit 8 cp"
  by (simp add: take_bit_eq_mask mask_eq_exp_minus_1)

lemma unat_low: "unat (ucast ((cp :: u32) AND 0xFF) :: u8) = unat cp mod 256"
  by (simp add: and_255_mod unat_ucast_down take_bit_eq_mod unat_mod)

lemma unat_high: "cp < 0x10000 \<Longrightarrow> unat (ucast (drop_bit 8 (cp :: u32)) :: u8) = unat cp div 256"
proof -
  assume "cp < 0x10000"
  then have "unat cp < 65536" by (simp add: word_less_nat_alt)
  then show ?thesis by (simp add: unat_ucast_down drop_bit_eq_div unat_div)
qed

text \<open>A triple reconstructs the code point it was made from, whichever set chose the marker.\<close>

lemma reconstruct_escape_triple:
  assumes "0x1000 \<le> cp" and "cp < 0x10000" and "escape_triple cp eset = (m, l, h)"
  shows "reconstruct (ucast m) l h = cp" and "is_marker_byte m"
proof -
  let ?l = "(ucast (cp AND 0xFF) :: u8)" and ?h = "(ucast (drop_bit 8 cp) :: u8)"
  have n: "4096 \<le> unat cp" "unat cp < 65536"
    using assms(1,2) by (simp_all add: word_le_nat_alt word_less_nat_alt)
  have lh: "unat ?l = unat cp mod 256" "unat ?h = unat cp div 256"
    using unat_low unat_high [OF assms(2)] by auto
  then have h16: "16 \<le> unat ?h" using n by linarith
  have cp: "unat cp = unat ?h * 256 + unat ?l" using lh by simp
  have L: "escape_set_contains eset ?l \<Longrightarrow> unat (?l + 14) = unat ?l + 14"
    using contains_low_bound [of eset ?l] by (simp add: unat_word_ariths)
  have H: "unat (?h - 9) = unat ?h - 9"
    using h16 by (simp add: unat_sub word_le_nat_alt)
  consider "\<not> escape_set_contains eset ?h" "\<not> escape_set_contains eset ?l"
    | "\<not> escape_set_contains eset ?h" "escape_set_contains eset ?l"
    | "escape_set_contains eset ?h" "\<not> escape_set_contains eset ?l"
    | "escape_set_contains eset ?h" "escape_set_contains eset ?l" by blast
  then have "unat (reconstruct (ucast m) l h) = unat cp \<and> is_marker_byte m"
  proof cases
    case 1
    then have "m = 0x10" "l = ?l" "h = ?h"
      using assms(3) by (auto simp: escape_triple_def Let_def)
    then show ?thesis using cp by (simp add: reconstruct_def unat_combine is_marker_byte_def)
  next
    case 2
    then have e: "m = 0x11" "l = ?l + 14" "h = ?h"
      using assms(3) by (auto simp: escape_triple_def Let_def)
    have "unat ((push_bit 8 (ucast h) OR ucast l :: u32) - 14) = unat ?h * 256 + (unat ?l + 14) - 14"
      using e L 2 by (subst unat_sub) (auto simp: word_le_nat_alt unat_combine)
    then show ?thesis using cp e by (simp add: reconstruct_def is_marker_byte_def)
  next
    case 3
    then have e: "m = 0x12" "l = ?l" "h = ?h - 9"
      using assms(3) by (auto simp: escape_triple_def Let_def)
    have "unat ((push_bit 8 (ucast h) OR ucast l :: u32) + 0x900) = unat ?h * 256 + unat ?l"
      using e H h16 cp n by (simp add: unat_word_ariths unat_combine)
    then show ?thesis using cp e by (simp add: reconstruct_def is_marker_byte_def)
  next
    case 4
    then have e: "m = 0x13" "l = ?l + 14" "h = ?h - 9"
      using assms(3) by (auto simp: escape_triple_def Let_def)
    have "unat ((push_bit 8 (ucast h) OR ucast l :: u32) + 0x8F2) = unat ?h * 256 + unat ?l"
      using e H L 4 h16 cp n by (simp add: unat_word_ariths unat_combine)
    then show ?thesis using cp e by (simp add: reconstruct_def is_marker_byte_def)
  qed
  then show "reconstruct (ucast m) l h = cp" "is_marker_byte m" by (auto simp: word_unat_eq_iff)
qed

subsection \<open>UTF-8 of scalar values\<close>

lemma unat_of_nat_u8 [simp]: "n < 256 \<Longrightarrow> unat (of_nat n :: u8) = n"
  by (simp add: unat_of_nat)

lemma scalar_bounds:
  "is_scalar cp \<Longrightarrow> unat cp < 1114112 \<and> \<not> (55296 \<le> unat cp \<and> unat cp \<le> 57343)"
  by (auto simp: is_scalar_def word_less_nat_alt word_le_nat_alt)

lemma digits_64:
  fixes n :: nat
  shows "n = 64 * (n div 64) + n mod 64" "n mod 64 < 64"
    "n div 64 = 64 * (n div 4096) + n div 64 mod 64" "n div 64 mod 64 < 64"
    "n div 4096 = 64 * (n div 262144) + n div 4096 mod 64" "n div 4096 mod 64 < 64"
proof -
  have "n div 4096 = n div 64 div 64" "n div 262144 = n div 4096 div 64"
    by (simp_all add: div_mult2_eq [symmetric])
  then show "n = 64 * (n div 64) + n mod 64" "n mod 64 < 64"
    "n div 64 = 64 * (n div 4096) + n div 64 mod 64" "n div 64 mod 64 < 64"
    "n div 4096 = 64 * (n div 262144) + n div 4096 mod 64" "n div 4096 mod 64 < 64"
    by simp_all
qed

lemma encode_utf8_unat:
  assumes "unat cp < 1114112"
  shows "map unat (encode_utf8 cp) =
    (let n = unat cp in
     if n < 128 then [n]
     else if n < 2048 then [192 + n div 64, 128 + n mod 64]
     else if n < 65536 then [224 + n div 4096, 128 + n div 64 mod 64, 128 + n mod 64]
     else [240 + n div 262144, 128 + n div 4096 mod 64, 128 + n div 64 mod 64, 128 + n mod 64])"
proof -
  define n where "n = unat cp"
  note d = digits_64 [of n]
  have b: "n < 2048 \<Longrightarrow> 192 + n div 64 < 256" "n < 65536 \<Longrightarrow> 224 + n div 4096 < 256"
    "240 + n div 262144 < 256" "128 + n mod 64 < 256" "128 + n div 64 mod 64 < 256"
    "128 + n div 4096 mod 64 < 256" "n < 128 \<Longrightarrow> n < 256"
    using d assms [folded n_def] by linarith+
  show ?thesis
    unfolding encode_utf8_def Let_def n_def [symmetric]
    by (auto simp only: list.map if_split unat_of_nat_u8 b split: if_splits)
qed

lemma encode_utf8_seq:
  assumes "is_scalar cp"
  shows "utf8_seq (map unat (encode_utf8 cp @ rest)) = Some (length (encode_utf8 cp))
    \<and> utf8_scalar (map unat (encode_utf8 cp)) = unat cp"
proof -
  define n where "n = unat cp"
  note b = scalar_bounds [OF assms, folded n_def] and d = digits_64 [of n]
  have l: "length (encode_utf8 cp) = length (map unat (encode_utf8 cp))" by simp
  have e: "map unat (encode_utf8 cp) =
     (if n < 128 then [n]
     else if n < 2048 then [192 + n div 64, 128 + n mod 64]
     else if n < 65536 then [224 + n div 4096, 128 + n div 64 mod 64, 128 + n mod 64]
     else [240 + n div 262144, 128 + n div 4096 mod 64, 128 + n div 64 mod 64, 128 + n mod 64])"
    using encode_utf8_unat [of cp] b by (simp add: n_def Let_def)
  consider "n < 128" | "128 \<le> n" "n < 2048" | "2048 \<le> n" "n < 65536" | "65536 \<le> n" by linarith
  then show ?thesis
  proof cases
    case 1
    then show ?thesis unfolding map_append l e by (simp add: utf8_seq.simps n_def)
  next
    case 2
    have "n div 64 < 32" "2 \<le> n div 64" using 2 d by linarith+
    then show ?thesis unfolding map_append l e n_def [symmetric] using 2 d(2)
      by (simp add: utf8_seq.simps is_cont_def)
  next
    case 3
    then have "n div 4096 < 16" using d by linarith
    moreover have "n div 4096 = 0 \<Longrightarrow> 32 \<le> n div 64 mod 64" using d 3 by linarith
    moreover have "n div 4096 = 13 \<Longrightarrow> n div 64 mod 64 < 32" using d b by linarith
    moreover have "n div 4096 * 4096 + n div 64 mod 64 * 64 + n mod 64 = n" using d by linarith
    ultimately show ?thesis unfolding map_append l e n_def [symmetric] using 3 d(2,4)
      by (simp add: utf8_seq.simps is_cont_def)
  next
    case 4
    then have "n div 262144 < 5" using d b by linarith
    moreover have "0 < n div 262144 \<or> 16 \<le> n div 4096 mod 64" using d 4 by linarith
    moreover have "16 \<le> n div 4096" using d 4 by linarith
    moreover have "n div 262144 = 4 \<Longrightarrow> n div 4096 mod 64 < 16" using d b by linarith
    moreover have "n div 262144 * 262144 + n div 4096 mod 64 * 4096 + n div 64 mod 64 * 64
        + n mod 64 = n" using d by linarith
    ultimately show ?thesis unfolding map_append l e n_def [symmetric] using 4 d(2,4,6)
      by (simp add: utf8_seq.simps is_cont_def)
  qed
qed

lemma encode_utf8_nonempty [simp]: "encode_utf8 cp \<noteq> []"
  by (simp add: encode_utf8_def Let_def)

lemma from_utf8_into_bytes:
  "list_all is_scalar cps \<Longrightarrow> from_utf8 (into_bytes cps) = Some cps"
proof (induction cps)
  case Nil
  then show ?case by (simp add: into_bytes_def from_utf8.simps)
next
  case (Cons cp cps)
  have e: "into_bytes (cp # cps) = encode_utf8 cp @ into_bytes cps" by (simp add: into_bytes_def)
  from Cons.prems have "is_scalar cp" by simp
  from encode_utf8_seq [OF this, of "into_bytes cps"] Cons show ?case
    unfolding e by (subst from_utf8.simps) simp
qed

subsection \<open>Round trips\<close>

lemma decode_text_plain:
  "\<not> is_marker_code_point c \<Longrightarrow> decode_text_loop off (c # cs) =
    (case decode_text_loop (off + char_len_utf8 c) cs of (t, b) \<Rightarrow> (c # t, b))"
  by (cases "(off, c # cs)" rule: decode_text_loop.cases) (auto split: prod.splits)

lemma decode_script_plain:
  "\<not> is_marker_byte b \<Longrightarrow> decode_script_loop off (b # bs) =
    (case decode_script_loop (off + 1) bs of (t, br) \<Rightarrow> (byte_to_char b # t, br))"
  by (cases "(off, b # bs)" rule: decode_script_loop.cases) (auto split: prod.splits)

lemma marker_byte_unat: "is_marker_byte m \<longleftrightarrow> 16 \<le> unat m \<and> unat m \<le> 19"
  by (simp add: is_marker_byte_def word_le_nat_alt)

lemma marker_code_point_unat: "is_marker_code_point c \<longleftrightarrow> 16 \<le> unat c \<and> unat c \<le> 19"
  by (simp add: is_marker_code_point_def word_le_nat_alt)

lemma marker_ucast [simp]: "is_marker_code_point (ucast (m :: u8)) = is_marker_byte m"
  by (simp add: marker_byte_unat marker_code_point_unat unat_ucast_up)

lemma marker_byte_to_char:
  "is_marker_byte m \<Longrightarrow> byte_to_char m = ucast m"
  using byte_to_char_cases [of m] cp1252_map_range [of m]
  by (auto simp: marker_byte_unat word_le_nat_alt)

lemma marker_char_iff [simp]: "is_marker_code_point (byte_to_char b) = is_marker_byte b"
proof (cases "\<exists>cp. (b, cp) \<in> set cp1252_map")
  case True
  then have m: "(b, byte_to_char b) \<in> set cp1252_map"
    using byte_to_char_cases [of b] by auto
  from cp1252_map_range [OF m] have "128 \<le> unat b" "256 \<le> unat (byte_to_char b)"
    by (simp_all add: word_le_nat_alt)
  then show ?thesis by (simp add: marker_byte_unat marker_code_point_unat)
next
  case False
  then show ?thesis using byte_to_char_cases [of b] by auto
qed

lemma pushed_marker [simp]: "is_marker_byte m \<Longrightarrow> pushed_char (ucast m) = ucast m"
  using pushed_byte_to_char [of m] marker_byte_to_char by simp

lemma encodable_range:
  "unencodable_kind cp = None \<Longrightarrow> \<not> is_passthrough cp \<Longrightarrow> 0x1000 \<le> cp \<and> cp < 0x10000"
  by (auto simp: unencodable_kind_def is_passthrough_def word_le_nat_alt word_less_nat_alt
      split: if_splits)

lemma encode_text_loop_errors:
  "snd (encode_text_loop eset off cps) = [] \<longleftrightarrow> list_all (\<lambda>c. unencodable_kind c = None) cps"
  by (induction cps arbitrary: off) (auto split: prod.splits option.splits if_splits, (metis snd_conv)+)

lemma decode_encode_text_loop:
  assumes "list_all (\<lambda>c. is_scalar c \<and> \<not> is_marker_code_point c) cps"
    and "list_all (\<lambda>c. unencodable_kind c = None) cps"
  shows "decode_text_loop off (fst (encode_text_loop eset off' cps)) = (cps, [])"
  using assms
proof (induction cps arbitrary: off off')
  case Nil
  then show ?case by simp
next
  case (Cons c cs)
  obtain out un where l: "encode_text_loop eset (off' + char_len_utf8 c) cs = (out, un)"
    by fastforce
  have IH: "decode_text_loop o' out = (cs, [])" for o'
    using Cons.IH [of o' "off' + char_len_utf8 c"] Cons.prems l by simp
  have k: "unencodable_kind c = None" and sc: "is_scalar c" and nm: "\<not> is_marker_code_point c"
    using Cons.prems by auto
  show ?case
  proof (cases "is_passthrough c")
    case True
    then show ?thesis using l k IH nm by (simp add: decode_text_plain)
  next
    case False
    obtain m lo hi where t: "escape_triple c eset = (m, lo, hi)" by (cases "escape_triple c eset")
    from encodable_range [OF k False] have "0x1000 \<le> c" "c < 0x10000" by auto
    from reconstruct_escape_triple [OF this t]
    have "reconstruct (ucast m) lo hi = c" "is_marker_byte m" .
    moreover have "pushed_char c = c" using sc by (simp add: pushed_char_def)
    ultimately show ?thesis using l k False t IH by simp
  qed
qed

lemma decode_encode_text_inverse:
  assumes "list_all (\<lambda>c. is_scalar c \<and> \<not> is_marker_code_point c) s"
    and "encode_text s eset = Inr e"
  shows "decode_text e = \<lparr>decoded_text = s, broken_sequences = []\<rparr>"
proof -
  have "snd (encode_text_loop eset 0 s) = []" and e: "e = fst (encode_text_loop eset 0 s)"
    using assms(2) by (auto simp: encode_text_def finish_def split: prod.splits if_splits)
  then have "list_all (\<lambda>c. unencodable_kind c = None) s" by (simp add: encode_text_loop_errors)
  from decode_encode_text_loop [OF assms(1) this, of 0 eset 0] e show ?thesis
    by (simp add: decode_text_def)
qed

text \<open>
  C38. At text level decoding inverts encoding: whenever a text without escape-marker characters
  encodes under either escape set, decoding the result gives back exactly that text and
  reports no broken sequence.
\<close>

theorem decode_encode_text:
  assumes "list_all (\<lambda>c. is_scalar c \<and> \<not> is_marker_code_point c) s"
    and "encode_text s eset = Inr e"
  shows "decode_text e = \<lparr>decoded_text = s, broken_sequences = []\<rparr>"
  using assms by (rule decode_encode_text_inverse)

theorem decode_encode_text_witness:
  "decode_text (map of_nat [0x61, 0x10, 0x160, 0x5E]) = \<lparr>decoded_text = [0x61, 0x5E8A], broken_sequences = []\<rparr>"
proof -
  have e: "encode_text [0x61, 0x5E8A] Paratranz = Inr (map of_nat [0x61, 0x10, 0x160, 0x5E])"
    by code_simp
  have s: "list_all (\<lambda>c. is_scalar c \<and> \<not> is_marker_code_point c) [0x61, 0x5E8A]" by code_simp
  show ?thesis using decode_encode_text [OF s e] .
qed

text \<open>C1 control codes that a CP1252 byte denotes something else for.\<close>

definition is_mapped_c1 :: "u32 \<Rightarrow> bool" where
  "is_mapped_c1 cp \<longleftrightarrow> list_ex (\<lambda>(b, _). ucast b = cp) cp1252_map"

text \<open>What a profile can carry: scalar values that are not escape markers; in script files also
  neither the byte order mark nor one of the 27 mapped C1 codes.\<close>

definition carried :: "profile \<Rightarrow> u32 \<Rightarrow> bool" where
  "carried profile cp \<longleftrightarrow>
    is_scalar cp \<and> \<not> is_marker_code_point cp
    \<and> (profile = Script \<longrightarrow> cp \<noteq> 0xFEFF \<and> \<not> is_mapped_c1 cp)"

lemma byte_to_char_ucast:
  assumes "cp < 0x100" and "\<not> is_mapped_c1 cp"
  shows "byte_to_char (ucast cp) = cp"
proof -
  have n: "unat cp < 256" using assms(1) by (simp add: word_less_nat_alt)
  then have u: "ucast (ucast cp :: u8) = cp"
    by (simp add: word_unat_eq_iff unat_ucast_up unat_ucast_down)
  have "(ucast cp, c) \<notin> set cp1252_map" for c
    using assms(2) u by (auto simp: is_mapped_c1_def list_ex_iff)
  then show ?thesis using byte_to_char_cases [of "ucast cp"] u by auto
qed

lemma mapped_byte_not_marker: "mapped_byte cp = Some b \<Longrightarrow> \<not> is_marker_byte b"
  using cp1252_map_range [of b cp] by (auto simp: mapped_byte_Some marker_byte_unat word_le_nat_alt)

lemma encode_script_loop_errors:
  "snd (encode_script_loop eset off cps) = [] \<longleftrightarrow> list_all (\<lambda>c. file_unencodable_kind c Script = None) cps"
proof (induction cps arbitrary: off)
  case Nil
  then show ?case by simp
next
  case (Cons c cs)
  obtain out un where l: "encode_script_loop eset (off + char_len_utf8 c) cs = (out, un)"
    by fastforce
  have IH: "un = [] \<longleftrightarrow> list_all (\<lambda>c. file_unencodable_kind c Script = None) cs"
    using Cons.IH [of "off + char_len_utf8 c"] l by simp
  show ?case
  proof (cases "c < 0x100 \<or> c = 0xFEFF")
    case True
    then have "unencodable_kind c = None" by (auto simp: unencodable_kind_def)
    then have "file_unencodable_kind c Script = None"
      by (auto simp: file_unencodable_kind_def split: option.splits)
    then show ?thesis using l IH True by (auto split: option.splits)
  next
    case False
    show ?thesis
    proof (cases "mapped_byte c")
      case None
      then show ?thesis using l IH False
        by (cases "unencodable_kind c") (auto simp: file_unencodable_kind_def split: prod.splits)
    next
      case (Some b)
      then show ?thesis using l IH False by (simp add: file_unencodable_kind_def)
    qed
  qed
qed

lemma decode_encode_script_loop:
  assumes "list_all (carried Script) cps"
    and "list_all (\<lambda>c. file_unencodable_kind c Script = None) cps"
  shows "decode_script_loop off (fst (encode_script_loop eset off' cps)) = (cps, [])"
  using assms
proof (induction cps arbitrary: off off')
  case Nil
  then show ?case by simp
next
  case (Cons c cs)
  obtain out un where l: "encode_script_loop eset (off' + char_len_utf8 c) cs = (out, un)"
    by fastforce
  have IH: "decode_script_loop o' out = (cs, [])" for o'
    using Cons.IH [of o' "off' + char_len_utf8 c"] Cons.prems l by simp
  have k: "file_unencodable_kind c Script = None" and sc: "is_scalar c"
    and nm: "\<not> is_marker_code_point c" and nb: "c \<noteq> 0xFEFF" and nc: "\<not> is_mapped_c1 c"
    using Cons.prems by (auto simp: carried_def)
  show ?case
  proof (cases "c < 0x100")
    case True
    have b: "byte_to_char (ucast c) = c" using byte_to_char_ucast [OF True nc] .
    then have "\<not> is_marker_byte (ucast c)" using nm marker_char_iff [of "ucast c"] by simp
    then show ?thesis using l True IH b by (simp add: decode_script_plain)
  next
    case ge: False
    show ?thesis
    proof (cases "mapped_byte c")
      case (Some b)
      then show ?thesis using l ge nb IH mapped_byte_not_marker [OF Some] byte_to_mapped [OF Some]
        by (simp add: decode_script_plain)
    next
      case None
      then have u: "unencodable_kind c = None" using k by (simp add: file_unencodable_kind_def)
      have "\<not> is_passthrough c" using ge nb by (simp add: is_passthrough_def)
      from encodable_range [OF u this] have r: "0x1000 \<le> c" "c < 0x10000" by auto
      obtain m lo hi where t: "escape_triple c eset = (m, lo, hi)" by (cases "escape_triple c eset")
      have "pushed_char c = c" using sc by (simp add: pushed_char_def)
      then show ?thesis using l ge nb None u t IH reconstruct_escape_triple [OF r t] by simp
    qed
  qed
qed

lemma is_scalar_pushed_char: "is_scalar (pushed_char c)"
  by (simp add: pushed_char_def is_scalar_def)

lemma is_scalar_byte_to_char: "is_scalar (byte_to_char b)"
  using is_scalar_pushed_char [of "byte_to_char b"] by (simp add: pushed_byte_to_char)

lemma encode_text_loop_scalar:
  "list_all is_scalar s \<Longrightarrow> list_all is_scalar (fst (encode_text_loop eset off s))"
proof (induction s arbitrary: off)
  case Nil
  then show ?case by simp
next
  case (Cons c cs)
  obtain out un where "encode_text_loop eset (off + char_len_utf8 c) cs = (out, un)"
    by fastforce
  then show ?case using Cons.IH [of "off + char_len_utf8 c"] Cons.prems
    by (auto simp: is_scalar_byte_to_char is_scalar_pushed_char split: option.splits prod.splits)
qed

text \<open>
  Files round-trip under both profiles and both escape sets: whenever a text of characters
  the profile can carry encodes, decoding the bytes gives back exactly the text, with no broken
  sequence, independently of the escape set it was written with.
\<close>

lemma decode_encode_file:
  assumes s: "list_all (carried profile) s" and e: "encode_file s profile eset = Inr bytes"
  shows "decode_file bytes profile = Inr \<lparr>decoded_text = s, broken_sequences = []\<rparr>"
proof (cases profile)
  case Localisation
  from e Localisation obtain t where t: "encode_text s eset = Inr t" "bytes = into_bytes t"
    by (cases "encode_text s eset") auto
  have s': "list_all (\<lambda>c. is_scalar c \<and> \<not> is_marker_code_point c) s"
    using s by (auto simp: list_all_iff carried_def)
  have "list_all is_scalar s" using s' by (auto simp: list_all_iff)
  then have "list_all is_scalar t"
    using t(1) encode_text_loop_scalar [of s eset 0]
    by (auto simp: encode_text_def finish_def split: prod.splits if_splits)
  then show ?thesis using from_utf8_into_bytes t decode_encode_text_inverse [OF s' t(1)] Localisation by simp
next
  case Script
  from e Script have b: "bytes = fst (encode_script_loop eset 0 s)"
    "snd (encode_script_loop eset 0 s) = []"
    by (auto simp: finish_def split: prod.splits if_splits)
  then show ?thesis
    using decode_encode_script_loop [of s 0 eset 0] s Script
    by (simp add: encode_script_loop_errors)
qed

lemma decode_encode_file_witness:
  "decode_file [0x91, 0x78, 0x13, 0x30, 0x32] Script =
    Inr \<lparr>decoded_text = [0x2018, 0x78, 0x3B22], broken_sequences = []\<rparr>"
proof -
  have e: "encode_file [0x2018, 0x78, 0x3B22] Script DllFull = Inr [0x91, 0x78, 0x13, 0x30, 0x32]"
    by code_simp
  have s: "list_all (carried Script) [0x2018, 0x78, 0x3B22]" by code_simp
  show ?thesis using decode_encode_file [OF s e] .
qed

end
