(* ===== verification/Transcode_Classify.thy ===== *)
theory Transcode_Classify
  imports Transcode_Core
begin

text \<open>
  Content classification of the crate \<open>transcode\<close> (\<open>classify.rs\<close>): the scanner that counts
  escape triples, broken markers and raw CJK characters, and the four-way category built on
  it. The theorems relate the counts to what the decoder and the encoder of
  \<open>Transcode_Core\<close> do.
\<close>

datatype classification = Readable | Escaped | Mixed | Ascii

record classification_counts =
  escaped_triples :: nat
  broken_markers :: nat
  raw_cjk :: nat

definition is_raw_cjk :: "u32 \<Rightarrow> bool" where
  "is_raw_cjk cp \<longleftrightarrow>
    (0x2E80 \<le> cp \<and> cp \<le> 0x9FFF) \<or> (0xAC00 \<le> cp \<and> cp \<le> 0xD7AF)
    \<or> (0xF900 \<le> cp \<and> cp \<le> 0xFAFF) \<or> (0xFF00 \<le> cp \<and> cp \<le> 0xFFEF)
    \<or> (0x20000 \<le> cp \<and> cp \<le> 0x2FA1F) \<or> (0x30000 \<le> cp \<and> cp \<le> 0x3134F)"

text \<open>The index loop of \<open>count_code_points\<close>: a marker with two followers is a triple.\<close>

fun count_loop :: "classification_counts \<Rightarrow> u32 list \<Rightarrow> classification_counts" where
  "count_loop counts [] = counts"
| "count_loop counts (c # l # h # rest) =
    (if is_marker_code_point c then
       count_loop (counts\<lparr>escaped_triples := escaped_triples counts + 1\<rparr>) rest
     else if is_raw_cjk c then
       count_loop (counts\<lparr>raw_cjk := raw_cjk counts + 1\<rparr>) (l # h # rest)
     else count_loop counts (l # h # rest))"
| "count_loop counts (c # cs) =
    (if is_marker_code_point c then
       count_loop (counts\<lparr>broken_markers := broken_markers counts + 1\<rparr>) cs
     else if is_raw_cjk c then count_loop (counts\<lparr>raw_cjk := raw_cjk counts + 1\<rparr>) cs
     else count_loop counts cs)"

definition count_code_points :: "u32 list \<Rightarrow> classification_counts" where
  "count_code_points = count_loop \<lparr>escaped_triples = 0, broken_markers = 0, raw_cjk = 0\<rparr>"

definition classify_code_points :: "u32 list \<Rightarrow> classification" where
  "classify_code_points cps =
    (let counts = count_code_points cps;
         triples = escaped_triples counts; broken = broken_markers counts; cjk = raw_cjk counts in
     if 3 \<le> triples \<and> broken = 0 \<and> cjk = 0 then Escaped
     else if 0 < cjk \<and> triples = 0 \<and> broken = 0 then Readable
     else if triples = 0 \<and> broken = 0 \<and> cjk = 0 then Ascii
     else Mixed)"

definition classify_text :: "u32 list \<Rightarrow> classification" where
  "classify_text text = classify_code_points text"

definition classify_text_counts :: "u32 list \<Rightarrow> classification_counts" where
  "classify_text_counts text = count_code_points text"

fun classify_file :: "u8 list \<Rightarrow> profile \<Rightarrow> classification" where
  "classify_file bytes Localisation =
    (case from_utf8 bytes of Some text \<Rightarrow> classify_text text | None \<Rightarrow> Mixed)"
| "classify_file bytes Script =
    (case from_utf8 bytes of
       Some text \<Rightarrow> classify_text text
     | None \<Rightarrow> classify_code_points (map byte_to_char bytes))"

subsection \<open>The scanner and the decoder\<close>

lemma count_loop_decode:
  "broken_markers (count_loop counts cps)
     = broken_markers counts + length (snd (decode_text_loop off cps))
   \<and> escaped_triples counts \<le> escaped_triples (count_loop counts cps)
   \<and> length (fst (decode_text_loop off cps))
       + 2 * (escaped_triples (count_loop counts cps) - escaped_triples counts) = length cps
   \<and> (escaped_triples (count_loop counts cps) = escaped_triples counts \<longrightarrow>
        fst (decode_text_loop off cps) = cps)"
proof (induction off cps arbitrary: counts rule: decode_text_loop.induct)
  case (2 off c l h rest)
  show ?case
  proof (cases "is_marker_code_point c")
    case True
    then show ?thesis
      using "2.IH"(1) [of "counts\<lparr>escaped_triples := escaped_triples counts + 1\<rparr>"]
      by (auto split: prod.splits)
  next
    case False
    then show ?thesis
      using "2.IH"(2) [of counts] "2.IH"(2) [of "counts\<lparr>raw_cjk := raw_cjk counts + 1\<rparr>"]
      by (auto split: prod.splits)
  qed
qed auto

text \<open>
  C40. The classifier mirrors the decoder on every text: it counts exactly the broken sequences
  the decoder reports, and every triple it counts is one the decoder folds from three
  characters into one.
\<close>

theorem counts_match_decoder:
  "broken_markers (classify_text_counts s) = length (broken_sequences (decode_text s))
   \<and> length (decoded_text (decode_text s)) + 2 * escaped_triples (classify_text_counts s)
       = length s"
  using count_loop_decode [of "\<lparr>escaped_triples = 0, broken_markers = 0, raw_cjk = 0\<rparr>" s 0]
  by (auto simp: classify_text_counts_def count_code_points_def decode_text_def split: prod.splits)

lemma classify_decode_identity:
  assumes "classify_text s = Readable \<or> classify_text s = Ascii"
  shows "decode_text s = \<lparr>decoded_text = s, broken_sequences = []\<rparr>"
proof -
  let ?z = "\<lparr>escaped_triples = 0, broken_markers = 0, raw_cjk = 0\<rparr>"
  have "escaped_triples (count_loop ?z s) = 0" "broken_markers (count_loop ?z s) = 0"
    using assms
    by (auto simp: classify_text_def classify_code_points_def count_code_points_def Let_def
        split: if_splits)
  with count_loop_decode [of ?z s 0] show ?thesis
    by (auto simp: decode_text_def split: prod.splits)
qed

subsection \<open>The scanner and the encoder\<close>

lemma count_loop_plain:
  "\<not> is_marker_code_point c \<Longrightarrow> \<not> is_raw_cjk c \<Longrightarrow> count_loop counts (c # cs) = count_loop counts cs"
  by (cases "(counts, c # cs)" rule: count_loop.cases) auto

lemma plain_not_cjk: "is_passthrough c \<Longrightarrow> \<not> is_raw_cjk c"
  by (auto simp: is_passthrough_def is_raw_cjk_def word_le_nat_alt word_less_nat_alt)

lemma count_loop_encoded:
  assumes "list_all (\<lambda>c. is_scalar c \<and> \<not> is_marker_code_point c) cps"
    and "list_all (\<lambda>c. unencodable_kind c = None) cps"
  shows "count_loop counts (fst (encode_text_loop eset off cps)) =
    counts\<lparr>escaped_triples := escaped_triples counts
      + length (filter (\<lambda>c. \<not> is_passthrough c) cps)\<rparr>"
  using assms
proof (induction cps arbitrary: counts off)
  case Nil
  then show ?case by simp
next
  case (Cons c cs)
  obtain out un where l: "encode_text_loop eset (off + char_len_utf8 c) cs = (out, un)"
    by fastforce
  note IH = Cons.IH [of _ "off + char_len_utf8 c", unfolded l fst_conv]
  show ?case
  proof (cases "is_passthrough c")
    case True
    then show ?thesis using l IH Cons.prems by (simp add: count_loop_plain plain_not_cjk)
  next
    case False
    obtain m lo hi where t: "escape_triple c eset = (m, lo, hi)" by (cases "escape_triple c eset")
    from Cons.prems False have r: "0x1000 \<le> c" "c < 0x10000"
      using encodable_range by auto
    show ?thesis using l IH Cons.prems False t reconstruct_escape_triple [OF r t] by simp
  qed
qed

text \<open>
  What the encoder writes is classified by the number of characters it had to escape: none
  gives a fixed point (\<open>Ascii\<close>), three or more give \<open>Escaped\<close>, one or two stay below the
  threshold and give \<open>Mixed\<close>; raw CJK never survives encoding.
\<close>

lemma classify_encoded:
  assumes "list_all (\<lambda>c. is_scalar c \<and> \<not> is_marker_code_point c) s"
    and "encode_text s eset = Inr e"
  shows "classify_text e =
    (let n = length (filter (\<lambda>c. \<not> is_passthrough c) s) in
     if n = 0 then Ascii else if n < 3 then Mixed else Escaped)"
proof -
  have "snd (encode_text_loop eset 0 s) = []" and e: "e = fst (encode_text_loop eset 0 s)"
    using assms(2) by (auto simp: encode_text_def finish_def split: prod.splits if_splits)
  then have "list_all (\<lambda>c. unencodable_kind c = None) s" by (simp add: encode_text_loop_errors)
  from count_loop_encoded [OF assms(1) this] show ?thesis
    by (simp add: e classify_text_def classify_code_points_def count_code_points_def Let_def)
qed

theorem classify_encoded_witness:
  "classify_text (map of_nat [0x10, 0x2D, 0x4E, 0x61, 0x10, 0x160, 0x5E, 0x10, 0xD5, 0x152]) = Escaped"
proof -
  have e: "encode_text [0x4E2D, 0x61, 0x5E8A, 0x8CD5] Paratranz =
    Inr (map of_nat [0x10, 0x2D, 0x4E, 0x61, 0x10, 0x160, 0x5E, 0x10, 0xD5, 0x152])" by code_simp
  have s: "list_all (\<lambda>c. is_scalar c \<and> \<not> is_marker_code_point c) [0x4E2D, 0x61, 0x5E8A, 0x8CD5]"
    by code_simp
  show ?thesis using classify_encoded [OF s e] by (simp add: Let_def is_passthrough_def)
qed

end
