(* ===== verification/Transcode_File.thy ===== *)
theory Transcode_File
  imports Transcode_Core
begin

text \<open>
  Whole-file conversion of the crate \<open>transcode\<close> (\<open>file.rs\<close>): runs of readable content are
  encoded or decoded, escape triples are validated one by one and preserved or replaced, and
  legacy CP1252 bytes mixed into a script file are handled run by run. The loops over
  \<open>&input[index..]\<close> are recursions over the remaining bytes that carry the index.
\<close>

datatype file_conversion_error =
    FileInvalidUtf8
  | BrokenEscape nat
  | Unencodable encode_error

datatype direction = Encode escape_set | Decode

subsection \<open>Where \<open>str::from_utf8\<close> stops\<close>

text \<open>\<open>Utf8Error::valid_up_to\<close>: the length of the longest well-formed prefix.\<close>

function valid_up_to :: "u8 list \<Rightarrow> nat" where
  "valid_up_to bs =
    (case utf8_seq (map unat bs) of None \<Rightarrow> 0 | Some n \<Rightarrow> n + valid_up_to (drop n bs))"
  by pat_completeness auto
termination
  by (relation "measure length") (auto dest!: utf8_seq_bounds)

declare valid_up_to.simps [simp del]

text \<open>The second byte a lead byte admits.\<close>

definition second_byte_ok :: "nat \<Rightarrow> nat \<Rightarrow> bool" where
  "second_byte_ok a b \<longleftrightarrow>
    is_cont b \<and> (a = 224 \<longrightarrow> 160 \<le> b) \<and> (a = 237 \<longrightarrow> b < 160)
    \<and> (a = 240 \<longrightarrow> 144 \<le> b) \<and> (a = 244 \<longrightarrow> b < 144)"

text \<open>
  \<open>Utf8Error::error_len\<close> on the bytes at the error: the number of bytes that can be skipped,
  \<open>None\<close> where the input ends inside a sequence.
\<close>

definition error_len :: "nat list \<Rightarrow> nat option" where
  "error_len bs =
    (case bs of
       [] \<Rightarrow> None
     | a # as \<Rightarrow>
        if a < 194 \<or> 244 < a then Some 1
        else (case as of
          [] \<Rightarrow> None
        | b # bs' \<Rightarrow>
           if \<not> second_byte_ok a b then Some 1
           else (case bs' of
             [] \<Rightarrow> None
           | c # cs \<Rightarrow>
              if \<not> is_cont c then Some 2
              else (case cs of
                [] \<Rightarrow> None
              | d # _ \<Rightarrow> if \<not> is_cont d then Some 3 else None))))"

lemma from_utf8_prefix: "from_utf8 bs = None \<Longrightarrow> valid_up_to bs < length bs"
proof (induction bs rule: valid_up_to.induct)
  case (1 bs)
  have ne: "bs \<noteq> []" using 1(2) by (auto simp: from_utf8.simps)
  show ?case
  proof (cases "utf8_seq (map unat bs)")
    case None
    then show ?thesis using ne by (simp add: valid_up_to.simps)
  next
    case (Some n)
    then have "from_utf8 (drop n bs) = None" using 1(2) ne
      by (subst (asm) from_utf8.simps) simp
    with 1(1) [OF Some] Some show ?thesis
      by (subst valid_up_to.simps) simp
  qed
qed

lemma error_len_pos: "error_len bs = Some n \<Longrightarrow> 0 < n"
  by (auto simp: error_len_def split: list.splits if_splits)

subsection \<open>Runs\<close>

text \<open>The number of bytes \<open>decode_run\<close> and \<open>encode_run\<close> step over after the valid prefix.\<close>

definition legacy_width :: "u8 list \<Rightarrow> nat" where
  "legacy_width bs =
    (case error_len (map unat (drop (valid_up_to bs) bs)) of
       Some n \<Rightarrow> n | None \<Rightarrow> length bs - valid_up_to bs)"

lemma legacy_width_pos: "from_utf8 bs = None \<Longrightarrow> 0 < legacy_width bs"
  using from_utf8_prefix [of bs] by (auto simp: legacy_width_def error_len_pos split: option.splits)

lemma run_progress:
  "from_utf8 bs = None \<Longrightarrow> length bs - (valid_up_to bs + legacy_width bs) < length bs"
  using from_utf8_prefix [of bs] legacy_width_pos [of bs] by linarith

function decode_run :: "u8 list \<Rightarrow> u8 list" where
  "decode_run input =
    (case from_utf8 input of
       Some _ \<Rightarrow> input
     | None \<Rightarrow>
        (let prefix = valid_up_to input; width = legacy_width input in
         take prefix input
         @ concat (map (\<lambda>b. encode_utf8 (byte_to_char b)) (take width (drop prefix input)))
         @ decode_run (drop (prefix + width) input)))"
  by pat_completeness auto
termination
  by (relation "measure length") (auto intro: run_progress)

declare decode_run.simps [simp del]

definition shift_errors :: "nat \<Rightarrow> encode_error \<Rightarrow> encode_error" where
  "shift_errors base un = map (\<lambda>point. point\<lparr>byte_index := byte_index point + base\<rparr>) un"

text \<open>\<open>encode_run\<close>, with the code units it appends to the output as its result.\<close>

function encode_run ::
  "u8 list \<Rightarrow> profile \<Rightarrow> escape_set \<Rightarrow> nat \<Rightarrow> file_conversion_error + u8 list" where
  "encode_run input profile eset base =
    (if input = [] then Inr []
     else case from_utf8 input of
       Some text \<Rightarrow>
         (case encode_file text profile eset of
            Inl un \<Rightarrow> Inl (Unencodable (shift_errors base un))
          | Inr encoded \<Rightarrow> Inr encoded)
     | None \<Rightarrow>
         if profile = Script then
           (let prefix = valid_up_to input; legacy = legacy_width input;
                consumed = prefix + legacy in
            case from_utf8 (take prefix input) of
              None \<Rightarrow> Inl FileInvalidUtf8
            | Some text \<Rightarrow>
               (case encode_file text profile eset of
                  Inl un \<Rightarrow> Inl (Unencodable (shift_errors base un))
                | Inr encoded \<Rightarrow>
                   (case encode_run (drop consumed input) profile eset (base + consumed) of
                      Inl e \<Rightarrow> Inl e
                    | Inr rest \<Rightarrow> Inr (encoded @ take legacy (drop prefix input) @ rest))))
         else Inl FileInvalidUtf8)"
  by pat_completeness auto
termination
  by (relation "measure (\<lambda>(i, _, _, _). length i)") (auto intro: run_progress)

declare encode_run.simps [simp del]

subsection \<open>Escape triples\<close>

text \<open>\<open>payload_character\<close> on the bytes from \<open>start\<close> to \<open>end\<close>: the width and the byte carried.\<close>

definition payload_character :: "u8 list \<Rightarrow> (nat \<times> u8) option" where
  "payload_character bs =
    (case bs of
       [] \<Rightarrow> None
     | first # _ \<Rightarrow>
        (let f = unat first;
             width = (if f \<le> 0x7F then Some 1
               else if 0xC2 \<le> f \<and> f \<le> 0xDF then Some 2
               else if 0xE0 \<le> f \<and> f \<le> 0xEF then Some 3
               else if 0xF0 \<le> f \<and> f \<le> 0xF4 then Some 4 else None) in
         case width of
           None \<Rightarrow> None
         | Some n \<Rightarrow>
            if length bs < n then None
            else (case from_utf8 (take n bs) of
              Some (cp # _) \<Rightarrow>
                if cp < 0x100 then Some (n, ucast cp) else map_option (Pair n) (mapped_byte cp)
            | _ \<Rightarrow> None)))"

text \<open>The three parts of a triple at the head of the input: total width, low and high byte.\<close>

fun triple_parts :: "u8 list \<Rightarrow> profile \<Rightarrow> (nat \<times> u8 \<times> u8) option" where
  "triple_parts input Script =
    (case input of _ # low # high # _ \<Rightarrow> Some (3, low, high) | _ \<Rightarrow> None)"
| "triple_parts input Localisation =
    (case payload_character (drop 1 input) of
       None \<Rightarrow> None
     | Some (wl, low) \<Rightarrow>
        (case payload_character (drop (1 + wl) input) of
           None \<Rightarrow> None
         | Some (wh, high) \<Rightarrow> Some (1 + wl + wh, low, high)))"

text \<open>
  \<open>escape_at\<close> on the bytes from \<open>start\<close>; the result is the width of the triple (the code's
  \<open>triple_end - start\<close>) and the character it stands for.
\<close>

definition escape_at :: "u8 list \<Rightarrow> nat \<Rightarrow> profile \<Rightarrow> file_conversion_error + (nat \<times> u32)" where
  "escape_at input start profile =
    (case triple_parts input profile of
       None \<Rightarrow> Inl (BrokenEscape start)
     | Some (width, low, high) \<Rightarrow>
        (let marker = hd input;
             compensated_delimiter = (marker \<in> {0x11, 0x13} \<and> low \<in> {0x3D, 0x2F}) in
         if (escape_set_contains Paratranz low \<and> \<not> compensated_delimiter)
            \<or> escape_set_contains Paratranz high
         then Inl (BrokenEscape start)
         else
           (let cp = reconstruct (ucast marker) low high in
            if \<not> (0x1000 \<le> cp \<and> cp \<le> 0xFFFF) then Inl (BrokenEscape start)
            else if \<not> is_scalar cp then Inl (BrokenEscape start)
            else Inr (width, cp))))"

lemma escape_at_width: "escape_at input start profile = Inr (w, c) \<Longrightarrow> 0 < w"
  by (cases profile)
    (auto simp: escape_at_def Let_def split: option.splits if_splits list.splits prod.splits)

subsection \<open>Files\<close>

definition convert_triple :: "direction \<Rightarrow> u8 list \<Rightarrow> u32 \<Rightarrow> u8 list" where
  "convert_triple dir triple character =
    (case dir of Encode _ \<Rightarrow> triple | Decode \<Rightarrow> encode_utf8 character)"

definition convert_run ::
  "u8 list \<Rightarrow> profile \<Rightarrow> direction \<Rightarrow> nat \<Rightarrow> file_conversion_error + u8 list" where
  "convert_run run profile dir index =
    (case dir of Encode eset \<Rightarrow> encode_run run profile eset index | Decode \<Rightarrow> Inr (decode_run run))"

text \<open>The \<open>while\<close> loop of \<open>convert\<close>; the output of an iteration precedes that of the rest.\<close>

function convert_loop ::
  "u8 list \<Rightarrow> profile \<Rightarrow> direction \<Rightarrow> nat \<Rightarrow> file_conversion_error + u8 list" where
  "convert_loop input profile dir index =
    (if input = [] then Inr []
     else if is_marker_byte (hd input) then
       (case escape_at input index profile of
          Inl e \<Rightarrow> Inl e
        | Inr (w, character) \<Rightarrow>
           map_sum id (\<lambda>out. convert_triple dir (take w input) character @ out)
             (convert_loop (drop w input) profile dir (index + w)))
     else
       (let run = takeWhile (\<lambda>b. \<not> is_marker_byte b) input in
        case convert_run run profile dir index of
          Inl e \<Rightarrow> Inl e
        | Inr converted \<Rightarrow>
           map_sum id (\<lambda>out. converted @ out)
             (convert_loop (drop (length run) input) profile dir (index + length run))))"
  by pat_completeness auto
termination
proof (relation "measure (\<lambda>(i, _, _, _). length i)", goal_cases)
  case (3 input profile dir index run converted)
  then show ?case by (cases input) (auto simp: length_takeWhile_le less_Suc_eq_le)
qed (auto dest: escape_at_width)

declare convert_loop.simps [simp del]

definition convert :: "u8 list \<Rightarrow> profile \<Rightarrow> direction \<Rightarrow> file_conversion_error + u8 list" where
  "convert input profile dir =
    (if profile = Localisation \<and> from_utf8 input = None then Inl FileInvalidUtf8
     else convert_loop input profile dir 0)"

definition encode_buffer :: "u8 list \<Rightarrow> profile \<Rightarrow> escape_set \<Rightarrow> file_conversion_error + u8 list" where
  "encode_buffer input profile eset = convert input profile (Encode eset)"

definition decode_buffer :: "u8 list \<Rightarrow> profile \<Rightarrow> file_conversion_error + u8 list" where
  "decode_buffer input profile = convert input profile Decode"

text \<open>Sample files, evaluated.\<close>

lemma sample_localisation:
  "encode_buffer [0x61, 0x11, 0x3D, 0x66, 0xE4, 0xB8, 0xAD] Localisation Paratranz =
    Inr [0x61, 0x11, 0x3D, 0x66, 0x10, 0x2D, 0x4E]"
  by code_simp

lemma sample_script:
  "encode_buffer [0x78, 0x3D, 0xE4, 0xB8, 0xAD] Script Paratranz =
    Inr [0x78, 0x3D, 0x10, 0x2D, 0x4E]"
  by code_simp

lemma sample_script_twice:
  "encode_buffer [0xC3, 0x83, 0xC2, 0xA9] Script Paratranz = Inr [0xC3, 0xA9]"
  "encode_buffer [0xC3, 0xA9] Script Paratranz = Inr [0xE9]"
  by code_simp+

subsection \<open>Reading UTF-8 back\<close>

lemma digits_of:
  fixes p q r t :: nat
  assumes "q < 64" "r < 64"
  shows "(p * 64 + r) div 64 = p" "(p * 64 + r) mod 64 = r"
    "(p * 4096 + q * 64 + r) div 4096 = p" "(p * 4096 + q * 64 + r) div 64 mod 64 = q"
    "(p * 4096 + q * 64 + r) mod 64 = r"
proof -
  show 1: "(p * 64 + r) div 64 = p" "(p * 64 + r) mod 64 = r" for p using assms by simp_all
  have e: "p * 4096 + q * 64 + r = (p * 64 + q) * 64 + r" by simp
  have d: "(p * 4096 + q * 64 + r) div 64 = p * 64 + q" unfolding e by (rule 1)
  show "(p * 4096 + q * 64 + r) mod 64 = r" unfolding e by (rule 1)
  show "(p * 4096 + q * 64 + r) div 64 mod 64 = q" unfolding d using assms by simp
  have "(p * 4096 + q * 64 + r) div 4096 = (p * 4096 + q * 64 + r) div 64 div 64"
    by (simp add: div_mult2_eq [symmetric])
  then show "(p * 4096 + q * 64 + r) div 4096 = p" unfolding d using assms by simp
qed

lemma digits_of4:
  fixes p q r t :: nat
  assumes "q < 64" "r < 64" "t < 64"
  shows "(p * 262144 + q * 4096 + r * 64 + t) div 262144 = p"
    "(p * 262144 + q * 4096 + r * 64 + t) div 4096 mod 64 = q"
    "(p * 262144 + q * 4096 + r * 64 + t) div 64 mod 64 = r"
    "(p * 262144 + q * 4096 + r * 64 + t) mod 64 = t"
proof -
  have e: "p * 262144 + q * 4096 + r * 64 + t = (p * 64 + q) * 4096 + r * 64 + t" by simp
  note d = digits_of [of r t "p * 64 + q", OF assms(2,3)]
  show "(p * 262144 + q * 4096 + r * 64 + t) div 64 mod 64 = r"
    "(p * 262144 + q * 4096 + r * 64 + t) mod 64 = t" unfolding e by (rule d(4)) (rule d(5))
  show "(p * 262144 + q * 4096 + r * 64 + t) div 4096 mod 64 = q"
    unfolding e d(3) using assms by simp
  have "(p * 262144 + q * 4096 + r * 64 + t) div 262144
      = (p * 262144 + q * 4096 + r * 64 + t) div 4096 div 64"
    by (simp add: div_mult2_eq [symmetric])
  then show "(p * 262144 + q * 4096 + r * 64 + t) div 262144 = p" unfolding e d(3) using assms by simp
qed

lemma map_unat_inject: "map unat (xs :: u8 list) = map unat ys \<Longrightarrow> xs = ys"
  by (induction xs arbitrary: ys) (auto simp: word_unat_eq_iff)

lemma unat_of_nat_u32: "n < 1114112 \<Longrightarrow> unat (of_nat n :: u32) = n"
  by (simp add: unat_of_nat)

lemma is_scalar_of_nat:
  "n < 1114112 \<Longrightarrow> \<not> (55296 \<le> n \<and> n \<le> 57343) \<Longrightarrow> is_scalar (of_nat n)"
  by (auto simp: is_scalar_def word_less_nat_alt word_le_nat_alt unat_of_nat_u32)

definition scalar_ok :: "nat \<Rightarrow> nat list \<Rightarrow> bool" where
  "scalar_ok n xs \<longleftrightarrow> n < 1114112 \<and> \<not> (55296 \<le> n \<and> n \<le> 57343) \<and> xs =
    (if n < 128 then [n]
     else if n < 2048 then [192 + n div 64, 128 + n mod 64]
     else if n < 65536 then [224 + n div 4096, 128 + n div 64 mod 64, 128 + n mod 64]
     else [240 + n div 262144, 128 + n div 4096 mod 64, 128 + n div 64 mod 64, 128 + n mod 64])"

lemma scalar_ok_2:
  assumes "194 \<le> a" "a \<le> 223" "is_cont b"
  shows "scalar_ok ((a - 192) * 64 + (b - 128)) [a, b]"
proof -
  define p q where "p = a - 192" and "q = b - 128"
  have v: "a = 192 + p" "b = 128 + q" "2 \<le> p" "p < 32" "q < 64"
    using assms by (auto simp: p_def q_def is_cont_def)
  have n: "128 \<le> p * 64 + q" "p * 64 + q < 2048" using v by linarith+
  then show ?thesis unfolding p_def [symmetric] q_def [symmetric]
    using digits_of(1,2) [of q q p] v by (simp add: scalar_ok_def)
qed

lemma scalar_ok_3:
  assumes "224 \<le> a" "a \<le> 239" "is_cont b" "is_cont c" "a = 224 \<longrightarrow> 160 \<le> b" "a = 237 \<longrightarrow> b < 160"
  shows "scalar_ok ((a - 224) * 4096 + (b - 128) * 64 + (c - 128)) [a, b, c]"
proof -
  define p q r where "p = a - 224" and "q = b - 128" and "r = c - 128"
  have v: "a = 224 + p" "b = 128 + q" "c = 128 + r" "p < 16" "q < 64" "r < 64"
    "p = 0 \<longrightarrow> 32 \<le> q" "p = 13 \<longrightarrow> q < 32"
    using assms by (auto simp: p_def q_def r_def is_cont_def)
  let ?n = "p * 4096 + q * 64 + r"
  have n: "2048 \<le> ?n" "?n < 65536" using v by (cases "p = 0"; linarith)+
  have "\<not> (55296 \<le> ?n \<and> ?n \<le> 57343)"
    using v by (cases "p < 13"; cases "p = 13") auto
  then show ?thesis unfolding p_def [symmetric] q_def [symmetric] r_def [symmetric]
    using n digits_of [of q r p] v by (simp add: scalar_ok_def)
qed

lemma scalar_ok_4:
  assumes "240 \<le> a" "a \<le> 244" "is_cont b" "is_cont c" "is_cont d" "a = 240 \<longrightarrow> 144 \<le> b"
    "a = 244 \<longrightarrow> b < 144"
  shows "scalar_ok ((a - 240) * 262144 + (b - 128) * 4096 + (c - 128) * 64 + (d - 128)) [a, b, c, d]"
proof -
  define p q r t where "p = a - 240" and "q = b - 128" and "r = c - 128" and "t = d - 128"
  have v: "a = 240 + p" "b = 128 + q" "c = 128 + r" "d = 128 + t" "p \<le> 4" "q < 64" "r < 64" "t < 64"
    "p = 0 \<longrightarrow> 16 \<le> q" "p = 4 \<longrightarrow> q < 16"
    using assms by (auto simp: p_def q_def r_def t_def is_cont_def)
  let ?n = "p * 262144 + q * 4096 + r * 64 + t"
  have n: "65536 \<le> ?n" using v by (cases "p = 0") linarith+
  have "?n < 1114112" using v by (cases "p = 4") linarith+
  then show ?thesis unfolding p_def [symmetric] q_def [symmetric] r_def [symmetric] t_def [symmetric]
    using n digits_of4 [of q r t p] v by (simp add: scalar_ok_def)
qed

lemma utf8_seq_scalar_ok:
  "utf8_seq bs = Some n \<Longrightarrow> scalar_ok (utf8_scalar (take n bs)) (take n bs)"
  by (cases bs)
    (auto simp: utf8_seq.simps scalar_ok_2 scalar_ok_3 scalar_ok_4 scalar_ok_def [of _ "[_]"]
      split: if_splits list.splits)

lemma utf8_seq_encode:
  assumes "utf8_seq (map unat bs) = Some n"
  defines "cp \<equiv> of_nat (utf8_scalar (map unat (take n bs))) :: u32"
  shows "is_scalar cp" "encode_utf8 cp = take n bs"
proof -
  from utf8_seq_scalar_ok [OF assms(1)]
  have ok: "scalar_ok (utf8_scalar (map unat (take n bs))) (map unat (take n bs))"
    by (simp add: take_map)
  then show "is_scalar cp" unfolding cp_def scalar_ok_def by (blast intro: is_scalar_of_nat)
  from ok have u: "unat cp = utf8_scalar (map unat (take n bs))" "unat cp < 1114112"
    by (simp_all add: cp_def scalar_ok_def unat_of_nat_u32)
  show "encode_utf8 cp = take n bs"
    by (rule map_unat_inject)
      (use ok u encode_utf8_unat [OF u(2)] in \<open>simp add: scalar_ok_def Let_def\<close>)
qed

lemma from_utf8_Some:
  "from_utf8 bs = Some cs \<Longrightarrow> into_bytes cs = bs \<and> list_all is_scalar cs"
proof (induction bs arbitrary: cs rule: from_utf8.induct)
  case (1 bs)
  show ?case
  proof (cases "bs = []")
    case True
    then show ?thesis using 1(2) by (simp add: from_utf8.simps into_bytes_def)
  next
    case False
    then obtain n cs' where n: "utf8_seq (map unat bs) = Some n" "from_utf8 (drop n bs) = Some cs'"
      and cs: "cs = of_nat (utf8_scalar (map unat (take n bs))) # cs'"
      using 1(2) by (subst (asm) from_utf8.simps) (auto split: option.splits)
    from 1(1) [OF False n] utf8_seq_encode [OF n(1)] show ?thesis
      by (simp add: cs into_bytes_def)
  qed
qed

lemma from_utf8_append:
  assumes "from_utf8 xs = Some cs" and "from_utf8 ys = Some ds"
  shows "from_utf8 (xs @ ys) = Some (cs @ ds)"
proof -
  from from_utf8_Some [OF assms(1)] from_utf8_Some [OF assms(2)]
  have "xs @ ys = into_bytes (cs @ ds)" "list_all is_scalar (cs @ ds)"
    by (simp_all add: into_bytes_def)
  then show ?thesis using from_utf8_into_bytes by metis
qed

lemma into_bytes_simps [simp]:
  "into_bytes [] = []" "into_bytes (c # cs) = encode_utf8 c @ into_bytes cs"
  "into_bytes (cs @ ds) = into_bytes cs @ into_bytes ds"
  by (simp_all add: into_bytes_def)

lemma encode_utf8_low:
  "c < 0x80 \<Longrightarrow> encode_utf8 c = [ucast c]"
  by (simp add: encode_utf8_def Let_def word_less_nat_alt word_unat_eq_iff unat_ucast_down
      unsigned_of_nat)

lemma encode_utf8_marker: "is_marker_code_point c \<Longrightarrow> encode_utf8 c = [ucast c]"
  by (rule encode_utf8_low) (auto simp: marker_code_point_unat word_less_nat_alt)

lemma encode_utf8_no_marker:
  assumes "is_scalar c" and "\<not> is_marker_code_point c" and b: "b \<in> set (encode_utf8 c)"
  shows "\<not> is_marker_byte b"
proof (cases "c < 0x80")
  case True
  then show ?thesis using assms encode_utf8_low [OF True]
    by (auto simp: marker_byte_unat marker_code_point_unat unat_ucast_down word_less_nat_alt)
next
  case False
  then have n: "\<not> unat c < 128" by (simp add: word_less_nat_alt)
  from b have "unat b \<in> set (map unat (encode_utf8 c))" by auto
  then have "128 \<le> unat b"
    using encode_utf8_unat [of c] scalar_bounds [OF assms(1)] n
    by (auto simp: Let_def split: if_splits)
  then show ?thesis by (simp add: marker_byte_unat)
qed

lemma into_bytes_no_marker:
  "list_all (\<lambda>c. is_scalar c \<and> \<not> is_marker_code_point c) cs \<Longrightarrow> b \<in> set (into_bytes cs) \<Longrightarrow>
    \<not> is_marker_byte b"
  by (induction cs) (auto dest: encode_utf8_no_marker)

lemma no_marker_text:
  assumes "from_utf8 bs = Some cs" and "\<forall>b\<in>set bs. \<not> is_marker_byte b"
  shows "list_all (\<lambda>c. is_scalar c \<and> \<not> is_marker_code_point c) cs"
proof -
  from from_utf8_Some [OF assms(1)] have bs: "bs = into_bytes cs" and sc: "list_all is_scalar cs"
    by auto
  have "\<not> is_marker_code_point c" if c: "c \<in> set cs" for c
  proof
    assume m: "is_marker_code_point c"
    from c have "set (encode_utf8 c) \<subseteq> set bs" by (auto simp: bs into_bytes_def)
    then have "ucast c \<in> set bs" using encode_utf8_marker [OF m] by simp
    moreover have "is_marker_byte (ucast c)"
      using m by (auto simp: marker_byte_unat marker_code_point_unat unat_ucast_down)
    ultimately show False using assms(2) by auto
  qed
  with sc show ?thesis by (auto simp: list_all_iff)
qed

subsection \<open>Conversion of what the encoder wrote\<close>

text \<open>
  The interface between the codec and the whole-file loop: \<open>piece eset c\<close> is what the encoder
  writes for the character \<open>c\<close>, and the loop recognises it.
\<close>

locale piece_codec =
  fixes profile :: profile and ok :: "u32 \<Rightarrow> bool" and piece :: "escape_set \<Rightarrow> u32 \<Rightarrow> u8 list"
  assumes ok_plain: "ok c \<Longrightarrow> is_scalar c \<and> \<not> is_marker_code_point c"
    and encoded: "list_all ok s \<Longrightarrow> encode_file s profile eset = Inr b \<Longrightarrow>
      b = concat (map (piece eset) s) \<and> list_all (\<lambda>c. unencodable_kind c = None) s"
    and encoded_plain: "list_all (\<lambda>c. ok c \<and> is_passthrough c) s \<Longrightarrow>
      encode_file s profile eset = Inr (into_bytes s)"
    and piece_plain: "ok c \<Longrightarrow> is_passthrough c \<Longrightarrow> piece eset c = encode_utf8 c"
    and piece_triple: "ok c \<Longrightarrow> \<not> is_passthrough c \<Longrightarrow> unencodable_kind c = None \<Longrightarrow>
      piece eset c \<noteq> [] \<and> is_marker_byte (hd (piece eset c))
      \<and> escape_at (piece eset c @ r) i profile = Inr (length (piece eset c), c)"
begin

definition pieces :: "escape_set \<Rightarrow> u32 list \<Rightarrow> u8 list" where
  "pieces eset s = concat (map (piece eset) s)"

definition target :: "escape_set \<Rightarrow> direction \<Rightarrow> u32 list \<Rightarrow> u8 list" where
  "target eset dir s = (case dir of Encode _ \<Rightarrow> pieces eset s | Decode \<Rightarrow> into_bytes s)"

lemma pieces_append: "pieces eset (s @ t) = pieces eset s @ pieces eset t"
  by (simp add: pieces_def)

lemma target_append: "target eset dir (s @ t) = target eset dir s @ target eset dir t"
  by (cases dir) (simp_all add: target_def pieces_append)

lemma plain_run:
  assumes s: "list_all (\<lambda>c. ok c \<and> is_passthrough c) s"
    and rest: "rest = [] \<or> is_marker_byte (hd rest)"
  shows "convert_loop (into_bytes s @ rest) profile dir i =
    map_sum id ((@) (into_bytes s)) (convert_loop rest profile dir (i + length (into_bytes s)))"
proof (cases "s = []")
  case True
  then show ?thesis by (cases "convert_loop rest profile dir i") simp_all
next
  case False
  have sc: "list_all (\<lambda>c. is_scalar c \<and> \<not> is_marker_code_point c) s"
    using s ok_plain by (auto simp: list_all_iff)
  from False have ne: "into_bytes s \<noteq> []" by (cases s) auto
  have nm: "\<forall>b\<in>set (into_bytes s). \<not> is_marker_byte b" using into_bytes_no_marker [OF sc] by blast
  have tw: "takeWhile (\<lambda>b. \<not> is_marker_byte b) (into_bytes s @ rest) = into_bytes s"
    using nm rest by (cases rest) (auto simp: takeWhile_append takeWhile_eq_all_conv)
  have hd: "\<not> is_marker_byte (hd (into_bytes s @ rest))" using ne nm by (cases "into_bytes s") auto
  have u: "from_utf8 (into_bytes s) = Some s"
    using sc by (intro from_utf8_into_bytes) (auto simp: list_all_iff)
  have "convert_run (into_bytes s) profile dir i = Inr (into_bytes s)"
    using ne u encoded_plain [OF s]
    by (cases dir) (simp_all add: convert_run_def encode_run.simps decode_run.simps)
  then show ?thesis using ne hd tw by (subst convert_loop.simps) (simp add: Let_def)
qed

lemma pieces_loop:
  assumes "list_all ok s" and "list_all (\<lambda>c. unencodable_kind c = None) s"
    and rest: "rest = [] \<or> is_marker_byte (hd rest)"
  shows "\<exists>j. convert_loop (pieces eset s @ rest) profile dir i =
    map_sum id ((@) (target eset dir s)) (convert_loop rest profile dir j)"
  using assms(1,2)
proof (induction s arbitrary: i rule: length_induct)
  case (1 s)
  define ps where "ps = takeWhile is_passthrough s"
  define rs where "rs = dropWhile is_passthrough s"
  have psr: "list_all (\<lambda>c. ok c \<and> is_passthrough c) ps"
    using 1(2) by (auto simp: ps_def list_all_iff dest: set_takeWhileD)
  have pp: "pieces eset ps = into_bytes ps"
    using psr piece_plain by (auto simp: pieces_def into_bytes_def list_all_iff
        intro!: arg_cong [where f = concat])
  have s: "s = ps @ rs" by (simp add: ps_def rs_def)
  have tp: "target eset dir ps = into_bytes ps" using pp by (cases dir) (simp_all add: target_def)
  have split: "pieces eset s = into_bytes ps @ pieces eset rs"
    unfolding s pieces_append pp ..
  have split': "target eset dir s = into_bytes ps @ target eset dir rs"
    unfolding s target_append tp ..
  show ?case
  proof (cases rs)
    case Nil
    then have "pieces eset s = into_bytes ps" "target eset dir s = into_bytes ps"
      using split split' by (auto simp: pieces_def target_def split: direction.splits)
    then show ?thesis using plain_run [OF psr rest, of dir i] by (simp only:) blast
  next
    case (Cons c cs)
    then have np: "\<not> is_passthrough c" by (simp add: rs_def dropWhile_eq_Cons_conv)
    have in_s: "set (c # cs) \<subseteq> set s" using s Cons by auto
    with 1(2,3) have c: "ok c" "unencodable_kind c = None" and cs: "list_all ok cs"
      "list_all (\<lambda>c. unencodable_kind c = None) cs" by (auto simp: list_all_iff)
    have l: "length cs < length s"
      using s Cons by simp
    let ?rest = "pieces eset (c # cs) @ rest"
    have rest': "?rest = piece eset c @ pieces eset cs @ rest" by (simp add: pieces_def)
    note t = piece_triple [OF c(1) np c(2), of eset "pieces eset cs @ rest"]
    have hd_rest: "is_marker_byte (hd ?rest)" unfolding rest' using t by auto
    have r: "convert_loop (pieces eset s @ rest) profile dir i =
      map_sum id ((@) (into_bytes ps))
        (convert_loop ?rest profile dir (i + length (into_bytes ps)))"
      unfolding split Cons append_assoc by (rule plain_run [OF psr]) (simp add: hd_rest)
    obtain j where j: "convert_loop (pieces eset cs @ rest) profile dir
        (i + length (into_bytes ps) + length (piece eset c)) =
      map_sum id ((@) (target eset dir cs)) (convert_loop rest profile dir j)"
      using 1(1) l cs by blast
    have "convert_loop ?rest profile dir (i + length (into_bytes ps)) =
      map_sum id ((@) (target eset dir (c # cs))) (convert_loop rest profile dir j)"
      using t j unfolding rest'
      by (subst convert_loop.simps)
        (cases "convert_loop rest profile dir j"; cases dir;
          simp add: target_def pieces_def convert_triple_def)
    then show ?thesis unfolding r
      by (intro exI [of _ j]) (cases "convert_loop rest profile dir j"; simp add: split' Cons)
  qed
qed

end

subsection \<open>Triples the encoder writes pass the validation\<close>

lemma shifted_payload:
  "\<forall>b\<in>set (escape_bytes eset).
    (escape_set_contains Paratranz (b + 0x0E) \<longrightarrow> b + 0x0E = 0x3D)
    \<and> \<not> escape_set_contains Paratranz (b - 0x09)"
  by (cases eset)
    (simp_all add: escape_set_contains_def paratranz_escape_bytes_def dll_full_escape_bytes_def)

lemma paratranz_subset: "escape_set_contains Paratranz b \<Longrightarrow> escape_set_contains eset b"
  by (cases eset)
    (auto simp: escape_set_contains_def paratranz_escape_bytes_def dll_full_escape_bytes_def)

lemma escape_payload_ok:
  assumes "escape_triple c eset = (m, lo, hi)"
  shows "escape_set_contains Paratranz lo \<Longrightarrow> m \<in> {0x11, 0x13} \<and> lo \<in> {0x3D, 0x2F}"
    and "\<not> escape_set_contains Paratranz hi"
proof -
  let ?l = "ucast (c AND 0xFF) :: u8" and ?h = "ucast (drop_bit 8 c) :: u8"
  have t: "m = 0x10 + (if escape_set_contains eset ?h then 2 else 0)
      + (if escape_set_contains eset ?l then 1 else 0)"
    "lo = (if escape_set_contains eset ?l then ?l + 0x0E else ?l)"
    "hi = (if escape_set_contains eset ?h then ?h - 0x09 else ?h)"
    using assms by (auto simp: escape_triple_def Let_def split: if_splits)
  have mem: "b \<in> set (escape_bytes eset) \<longleftrightarrow> escape_set_contains eset b" for b
    by (simp add: escape_set_contains_def)
  show "escape_set_contains Paratranz lo \<Longrightarrow> m \<in> {0x11, 0x13} \<and> lo \<in> {0x3D, 0x2F}"
    using t shifted_payload [of eset] paratranz_subset [of ?l eset] mem [of ?l]
    by (auto split: if_splits)
  show "\<not> escape_set_contains Paratranz hi"
    using t shifted_payload [of eset] paratranz_subset [of ?h eset] mem [of ?h]
    by (auto split: if_splits)
qed

lemma escape_at_written:
  assumes "0x1000 \<le> c" "c < 0x10000" "is_scalar c" and t: "escape_triple c eset = (m, lo, hi)"
    and "triple_parts (m # bs) profile = Some (w, lo, hi)"
  shows "escape_at (m # bs) i profile = Inr (w, c)"
proof -
  have "reconstruct (ucast m) lo hi = c" using reconstruct_escape_triple [OF assms(1,2) t] by simp
  moreover have "c \<le> 0xFFFF" using assms(2) by (simp add: word_le_nat_alt word_less_nat_alt)
  ultimately show ?thesis
    using assms escape_payload_ok [OF t] by (auto simp: escape_at_def Let_def)
qed

definition triple_piece :: "(u8 \<Rightarrow> u8 list) \<Rightarrow> escape_set \<Rightarrow> u32 \<Rightarrow> u8 list" where
  "triple_piece payload eset c =
    (if is_passthrough c then encode_utf8 c
     else case escape_triple c eset of (m, lo, hi) \<Rightarrow> m # payload lo @ payload hi)"

definition text_piece :: "escape_set \<Rightarrow> u32 \<Rightarrow> u8 list" where
  "text_piece = triple_piece (\<lambda>b. encode_utf8 (byte_to_char b))"

definition script_piece :: "escape_set \<Rightarrow> u32 \<Rightarrow> u8 list" where
  "script_piece = triple_piece (\<lambda>b. [b])"

definition text_ok :: "u32 \<Rightarrow> bool" where
  "text_ok c \<longleftrightarrow> is_scalar c \<and> \<not> is_marker_code_point c"

text \<open>Script text no byte of which can be read in two ways: ASCII, and everything that is
  escaped.\<close>

definition script_ok :: "u32 \<Rightarrow> bool" where
  "script_ok c \<longleftrightarrow> text_ok c \<and> (c < 0x80 \<or> 0x100 \<le> c \<and> mapped_byte c = None)"

lemma payload_character_decoded:
  assumes w: "(unat f \<le> 127 \<and> length fs = 0)
    \<or> (194 \<le> unat f \<and> unat f \<le> 223 \<and> length fs = 1)
    \<or> (224 \<le> unat f \<and> unat f \<le> 239 \<and> length fs = 2)"
   and u: "from_utf8 (f # fs) = Some [c]" 
   and b: "if c < 0x100 then (ucast c :: u8) = b else mapped_byte c = Some b"
  shows "payload_character ((f # fs) @ rest) = Some (length (f # fs), b)"
proof -
  have t: "take (length (f # fs)) ((f # fs) @ rest) = f # fs" by simp
  consider "unat f \<le> 127 \<and> length fs = 0" | "194 \<le> unat f \<and> unat f \<le> 223 \<and> length fs = 1" | "224 \<le> unat f \<and> unat f \<le> 239 \<and> length fs = 2" using w by blast
  then show ?thesis
    using u b by cases (simp_all add: payload_character_def Let_def split: if_splits)
qed

lemma payload_written:
  "payload_character (encode_utf8 (byte_to_char b) @ rest) = Some (length (encode_utf8 (byte_to_char b)), b)"
proof -
  let ?c = "byte_to_char b"
  have sc: "is_scalar ?c" by (rule is_scalar_byte_to_char)
  have c: "?c < 0x2123" by (rule byte_to_char_less)
  then have "unat ?c < 0x2123" by (simp add: word_less_nat_alt)
  then have e: "map unat (encode_utf8 ?c) =
    (if unat ?c < 128 then [unat ?c]
     else if unat ?c < 2048 then [192 + unat ?c div 64, 128 + unat ?c mod 64]
     else [224 + unat ?c div 4096, 128 + unat ?c div 64 mod 64, 128 + unat ?c mod 64])"
    using encode_utf8_unat [of ?c] by (simp add: Let_def)
  obtain f fs where fs: "encode_utf8 ?c = f # fs" by (cases "encode_utf8 ?c") auto
  have w: "(unat f \<le> 127 \<and> length fs = 0)
    \<or> (194 \<le> unat f \<and> unat f \<le> 223 \<and> length fs = 1)
    \<or> (224 \<le> unat f \<and> unat f \<le> 239 \<and> length fs = 2)"
    using e \<open>unat ?c < 0x2123\<close> unfolding fs
    by (auto split: if_splits dest!: arg_cong [where f = length])
  have u: "from_utf8 (f # fs) = Some [?c]"
    using from_utf8_into_bytes [of "[?c]"] sc by (simp add: fs)
  have b: "if ?c < 0x100 then (ucast ?c :: u8) = b else mapped_byte ?c = Some b"
  proof (cases "(b, ?c) \<in> set cp1252_map")
    case True
    then have "0x100 \<le> ?c" using cp1252_map_range by blast
    then show ?thesis using True by (auto simp: mapped_byte_Some)
  next
    case False
    then have "?c = ucast b" using byte_to_char_cases [of b] by auto
    then show ?thesis using ucast_u8_less [of b] by simp
  qed
  then show ?thesis using payload_character_decoded [OF w u] unfolding fs by blast
qed

lemma encode_utf8_marker_byte: "is_marker_byte m \<Longrightarrow> encode_utf8 (ucast m) = [m]"
  using encode_utf8_marker [of "ucast m"] by simp

lemma triple_piece_simps:
  "is_passthrough c \<Longrightarrow> triple_piece payload eset c = encode_utf8 c"
  "\<not> is_passthrough c \<Longrightarrow> escape_triple c eset = (m, lo, hi) \<Longrightarrow>
    triple_piece payload eset c = m # payload lo @ payload hi"
  by (simp_all add: triple_piece_def)

lemma text_piece_loop:
  assumes "list_all text_ok s" and "list_all (\<lambda>c. unencodable_kind c = None) s"
  shows "into_bytes (fst (encode_text_loop eset off s)) = concat (map (text_piece eset) s)"
  using assms
proof (induction s arbitrary: off)
  case Nil
  then show ?case by simp
next
  case (Cons c cs)
  obtain out un where l: "encode_text_loop eset (off + char_len_utf8 c) cs = (out, un)"
    by fastforce
  have IH: "into_bytes out = concat (map (text_piece eset) cs)"
    using Cons.IH [of "off + char_len_utf8 c"] Cons.prems l by simp
  obtain m lo hi where t: "escape_triple c eset = (m, lo, hi)" by (cases "escape_triple c eset")
  show ?case
  proof (cases "is_passthrough c")
    case True
    then show ?thesis using l IH Cons.prems by (simp add: text_piece_def triple_piece_simps)
  next
    case False
    with Cons.prems have r: "0x1000 \<le> c" "c < 0x10000" using encodable_range by auto
    show ?thesis
      using l IH Cons.prems False t reconstruct_escape_triple(2) [OF r t]
      by (simp add: text_piece_def triple_piece_simps encode_utf8_marker_byte)
  qed
qed

lemma script_piece_loop:
  assumes "list_all script_ok s" and "list_all (\<lambda>c. unencodable_kind c = None) s"
  shows "fst (encode_script_loop eset off s) = concat (map (script_piece eset) s)"
  using assms
proof (induction s arbitrary: off)
  case Nil
  then show ?case by simp
next
  case (Cons c cs)
  obtain out un where l: "encode_script_loop eset (off + char_len_utf8 c) cs = (out, un)"
    by fastforce
  have IH: "out = concat (map (script_piece eset) cs)"
    using Cons.IH [of "off + char_len_utf8 c"] Cons.prems l by simp
  obtain m lo hi where t: "escape_triple c eset = (m, lo, hi)" by (cases "escape_triple c eset")
  have c: "c < 0x80 \<or> 0x100 \<le> c \<and> mapped_byte c = None"
    using Cons.prems by (simp add: script_ok_def)
  have lt: "c < 0x80 \<Longrightarrow> c < 0x100" by (simp add: word_less_nat_alt)
  show ?case
  proof (cases "is_passthrough c")
    case True
    then have "c < 0x80 \<or> c = 0xFEFF" using c by (auto simp: is_passthrough_def)
    then show ?thesis using l IH lt encode_utf8_low [of c] True
      by (auto simp: script_piece_def triple_piece_simps)
  next
    case False
    then have "\<not> c < 0x100" "c \<noteq> 0xFEFF" "mapped_byte c = None" "unencodable_kind c = None"
      using c lt Cons.prems by (auto simp: is_passthrough_def)
    then show ?thesis using l IH False t by (simp add: script_piece_def triple_piece_simps)
  qed
qed

lemma text_ok_iff: "text_ok c \<longleftrightarrow> is_scalar c \<and> \<not> is_marker_code_point c"
  by (simp add: text_ok_def)

interpretation text_codec: piece_codec Localisation text_ok text_piece
proof
  fix c assume "text_ok c"
  then show "is_scalar c \<and> \<not> is_marker_code_point c" by (simp add: text_ok_def)
next
  fix s eset b
  assume ok: "list_all text_ok s" and e: "encode_file s Localisation eset = Inr b"
  then have un: "list_all (\<lambda>c. unencodable_kind c = None) s"
    and b: "b = into_bytes (fst (encode_text_loop eset 0 s))"
    by (auto simp: encode_text_def finish_def encode_text_loop_errors [symmetric, where off = 0 and eset = eset]
        split: prod.splits if_splits)
  then show "b = concat (map (text_piece eset) s) \<and> list_all (\<lambda>c. unencodable_kind c = None) s"
    using text_piece_loop [OF ok un] by simp
next
  fix s eset
  assume a: "list_all (\<lambda>c. text_ok c \<and> is_passthrough c) s"
  have "list_all (\<lambda>c. is_passthrough c) s \<Longrightarrow> encode_text_loop eset off s = (s, [])" for off
    by (induction s arbitrary: off)
      (auto simp: unencodable_kind_def is_passthrough_def split: option.splits)
  moreover have "list_all is_passthrough s" using a by (auto simp: list_all_iff)
  ultimately show "encode_file s Localisation eset = Inr (into_bytes s)"
    by (simp add: encode_text_def finish_def)
next
  fix c eset assume "text_ok c" "is_passthrough c"
  then show "text_piece eset c = encode_utf8 c" by (simp add: text_piece_def triple_piece_def)
next
  fix c eset r i
  assume ok: "text_ok c" and np: "\<not> is_passthrough c" and un: "unencodable_kind c = None"
  obtain m lo hi where t: "escape_triple c eset = (m, lo, hi)" by (cases "escape_triple c eset")
  note rng = encodable_range [OF un np]
  have p: "text_piece eset c = m # encode_utf8 (byte_to_char lo) @ encode_utf8 (byte_to_char hi)"
    using np t by (simp add: text_piece_def triple_piece_def)
  have "triple_parts (text_piece eset c @ r) Localisation
      = Some (length (text_piece eset c), lo, hi)"
    by (simp add: p payload_written)
  then show "text_piece eset c \<noteq> [] \<and> is_marker_byte (hd (text_piece eset c))
      \<and> escape_at (text_piece eset c @ r) i Localisation = Inr (length (text_piece eset c), c)"
    using escape_at_written [of c eset m lo hi] rng t ok reconstruct_escape_triple(2) [of c eset]
    unfolding p by (auto simp: text_ok_def)
qed

interpretation script_codec: piece_codec Script script_ok script_piece
proof
  fix c assume "script_ok c"
  then show "is_scalar c \<and> \<not> is_marker_code_point c" by (simp add: text_ok_def script_ok_def)
next
  fix s eset b
  assume ok: "list_all script_ok s" and e: "encode_file s Script eset = Inr b"
  then have f: "list_all (\<lambda>c. file_unencodable_kind c Script = None) s"
    and b: "b = fst (encode_script_loop eset 0 s)"
    by (auto simp: finish_def encode_script_loop_errors [symmetric, where off = 0 and eset = eset]
        split: prod.splits if_splits)
  have un: "list_all (\<lambda>c. unencodable_kind c = None) s"
    unfolding list_all_iff
  proof
    fix c assume c: "c \<in> set s"
    then have "script_ok c" and k: "file_unencodable_kind c Script = None"
      using f ok by (simp_all add: list_all_iff)
    then consider "c < 0x80" | "mapped_byte c = None" by (auto simp: script_ok_def)
    then show "unencodable_kind c = None"
    proof cases
      case 1
      then have "c < 0x100" by (simp add: word_less_nat_alt)
      then show ?thesis by (simp add: unencodable_kind_def)
    next
      case 2
      then show ?thesis using k by (simp add: file_unencodable_kind_def)
    qed
  qed
  with b show "b = concat (map (script_piece eset) s) \<and> list_all (\<lambda>c. unencodable_kind c = None) s"
    using script_piece_loop [OF ok un] by simp
next
  fix s eset
  assume a: "list_all (\<lambda>c. script_ok c \<and> is_passthrough c) s"
  have "list_all (\<lambda>c. c < 0x80 \<or> c = 0xFEFF) s \<Longrightarrow>
      encode_script_loop eset off s = (into_bytes s, [])" for off
    by (induction s arbitrary: off)
      (auto simp: encode_utf8_low word_less_nat_alt)
  moreover have "list_all (\<lambda>c. c < 0x80 \<or> c = 0xFEFF) s"
    using a by (auto simp: list_all_iff script_ok_def is_passthrough_def)
  ultimately show "encode_file s Script eset = Inr (into_bytes s)"
    by (simp add: finish_def)
next
  fix c eset assume "script_ok c" "is_passthrough c"
  then show "script_piece eset c = encode_utf8 c" by (simp add: script_piece_def triple_piece_def)
next
  fix c eset r i
  assume ok: "script_ok c" and np: "\<not> is_passthrough c" and un: "unencodable_kind c = None"
  obtain m lo hi where t: "escape_triple c eset = (m, lo, hi)" by (cases "escape_triple c eset")
  note rng = encodable_range [OF un np]
  have p: "script_piece eset c = [m, lo, hi]"
    using np t by (simp add: script_piece_def triple_piece_def)
  show "script_piece eset c \<noteq> [] \<and> is_marker_byte (hd (script_piece eset c))
      \<and> escape_at (script_piece eset c @ r) i Script = Inr (length (script_piece eset c), c)"
    using escape_at_written [of c eset m lo hi "lo # hi # r" Script 3] rng t ok
      reconstruct_escape_triple(2) [of c eset]
    unfolding p by (auto simp: text_ok_def script_ok_def)
qed

subsection \<open>Idempotence and round trips of whole files\<close>

lemma payload_prefix:
  assumes "payload_character bs = Some (n, b)"
  shows "n \<le> length bs" and "payload_character (take n bs @ r) = Some (n, b)"
    and "from_utf8 (take n bs) \<noteq> None"
proof -
  obtain f fs where bs: "bs = f # fs"
    using assms by (cases bs) (auto simp: payload_character_def)
  have n: "0 < n" "n \<le> length bs"
    using assms
    by (auto simp: bs payload_character_def Let_def Suc_le_eq split: if_splits option.splits list.splits)
  then show "n \<le> length bs" by simp
  have t: "take n bs = f # take (n - 1) fs" using n by (cases n) (simp_all add: bs)
  have l: "length (take n bs) = n" using n by simp
  show "payload_character (take n bs @ r) = Some (n, b)"
    using assms l n unfolding t payload_character_def
    by (auto simp: bs Let_def split: if_splits option.splits list.splits)
  show "from_utf8 (take n bs) \<noteq> None"
    using assms
    by (auto simp: bs payload_character_def Let_def split: if_splits option.splits list.splits)
qed

lemma escape_at_cong:
  "triple_parts x profile = Some (w, lo, hi) \<Longrightarrow> triple_parts y profile = Some (w, lo, hi) \<Longrightarrow>
    hd x = hd y \<Longrightarrow> escape_at x i profile = Inr r \<Longrightarrow> escape_at y j profile = Inr r"
  by (simp add: escape_at_def Let_def split: if_splits)

lemma escape_at_localisation_prefix:
  assumes m: "is_marker_byte (hd x)" and x: "x \<noteq> []"
    and e: "escape_at x i Localisation = Inr (w, c)"
  shows "w \<le> length x" and "escape_at (take w x @ r) j Localisation = Inr (w, c)"
    and "from_utf8 (take w x) \<noteq> None"
proof -
  obtain wl lo wh hi where p: "payload_character (drop 1 x) = Some (wl, lo)"
    "payload_character (drop (1 + wl) x) = Some (wh, hi)" and w: "w = 1 + wl + wh"
    using e by (auto simp: escape_at_def Let_def split: option.splits if_splits)
  obtain h t where ht: "x = h # t" using x by (cases x) auto
  note p1 = payload_prefix [OF p(1)] and p2 = payload_prefix [OF p(2)]
  have len: "wl \<le> length t" "wh \<le> length t - wl" using p1(1) p2(1) by (auto simp: ht)
  then show "w \<le> length x" by (simp add: w ht)
  have tk: "take w x = h # take wl t @ take wh (drop wl t)"
    using len by (simp add: w ht take_add)
  have "triple_parts (take w x @ r) Localisation = Some (w, lo, hi)"
  proof -
    have dd: "drop 1 (take w x @ r) = take wl (drop 1 x) @ take wh (drop wl t) @ r"
      "drop (1 + wl) (take w x @ r) = take wh (drop (1 + wl) x) @ r"
      unfolding tk using len by (simp_all add: ht)
    show ?thesis
      by (simp only: triple_parts.simps dd p1(2) p2(2) option.case prod.case w [symmetric])
  qed
  moreover have "triple_parts x Localisation = Some (w, lo, hi)" using p by (simp add: w)
  moreover have "hd x = hd (take w x @ r)" unfolding tk by (simp add: ht)
  ultimately show "escape_at (take w x @ r) j Localisation = Inr (w, c)"
    using e by (blast intro: escape_at_cong)
  obtain a b where "from_utf8 (take wl t) = Some a" "from_utf8 (take wh (drop wl t)) = Some b"
    using p1(3) p2(3) by (auto simp: ht)
  moreover have "from_utf8 [h] = Some [ucast h]"
    using from_utf8_into_bytes [of "[ucast h]"] m encode_utf8_marker_byte [of h]
      is_scalar_byte_to_char [of h] marker_byte_to_char [of h] by (simp add: ht)
  ultimately show "from_utf8 (take w x) \<noteq> None"
    unfolding tk using from_utf8_append [of "[h]"] from_utf8_append by fastforce
qed

lemma takeWhile_run:
  assumes "x \<noteq> []" and "\<not> is_marker_byte (hd x)" and "run = takeWhile (\<lambda>b. \<not> is_marker_byte b) x"
  shows "run \<noteq> []" and "\<forall>b\<in>set run. \<not> is_marker_byte b"
    and "drop (length run) x = [] \<or> is_marker_byte (hd (drop (length run) x))"
    and "length (drop (length run) x) < length x"
proof -
  show ne: "run \<noteq> []" using assms by (cases x) auto
  show "\<forall>b\<in>set run. \<not> is_marker_byte b" using assms(3) set_takeWhileD by fast
  have d: "drop (length run) x = dropWhile (\<lambda>b. \<not> is_marker_byte b) x"
    by (simp add: assms(3) dropWhile_eq_drop)
  show "drop (length run) x = [] \<or> is_marker_byte (hd (drop (length run) x))"
    unfolding d using hd_dropWhile by blast
  show "length (drop (length run) x) < length x" using ne assms(1) by (cases run) auto
qed

definition loop_agrees :: "u8 list \<Rightarrow> u8 list \<Rightarrow> bool" where
  "loop_agrees x y \<longleftrightarrow>
    (x = [] \<longrightarrow> y = []) \<and> (x \<noteq> [] \<and> is_marker_byte (hd x) \<longrightarrow> y \<noteq> [] \<and> is_marker_byte (hd y))
    \<and> from_utf8 y \<noteq> None
    \<and> (\<forall>eset j. convert_loop y Localisation (Encode eset) j = Inr y)
    \<and> (\<exists>z. \<forall>j k. convert_loop y Localisation Decode j = Inr z \<and>
          convert_loop x Localisation Decode k = Inr z)"

lemma loop_agrees_step:
  assumes x: "x \<noteq> []" and m: "is_marker_byte (hd x)"
    and e: "escape_at x i Localisation = Inr (w, c)" and IH: "loop_agrees (drop w x) y"
  shows "loop_agrees x (take w x @ y)"
proof -
  note w = escape_at_localisation_prefix [OF m x e]
  have e0: "escape_at x j Localisation = Inr (w, c)" for j
    using w(2) [of "drop w x" j] by simp
  have pos: "0 < w" using e by (rule escape_at_width)
  have hd: "hd (take w x @ y) = hd x" "take w x @ y \<noteq> []" "take w x \<noteq> []"
    using x pos by (cases x; cases w; simp)+
  obtain z where z: "convert_loop y Localisation Decode j = Inr z"
    "convert_loop (drop w x) Localisation Decode k = Inr z" for j k
    using IH by (auto simp: loop_agrees_def)
  have d: "drop w (take w x @ y) = y" "take w (take w x @ y) = take w x" using w(1) by simp_all
  have en: "convert_loop (take w x @ y) Localisation (Encode eset) j = Inr (take w x @ y)" for eset j
    using IH by (subst convert_loop.simps)
      (simp only: hd m w(2) d if_True if_False sum.case prod.case convert_triple_def direction.case
        loop_agrees_def map_sum.simps)
  have de: "convert_loop (take w x @ y) Localisation Decode j = Inr (encode_utf8 c @ z)" for j
    by (subst convert_loop.simps)
      (simp only: hd m w(2) d if_True if_False sum.case prod.case convert_triple_def direction.case
        map_sum.simps z)
  have dx: "convert_loop x Localisation Decode j = Inr (encode_utf8 c @ z)" for j
    by (subst convert_loop.simps)
      (simp only: x m e0 if_True if_False sum.case prod.case convert_triple_def direction.case
        map_sum.simps z)
  obtain a b where "from_utf8 (take w x) = Some a" "from_utf8 y = Some b"
    using w(3) IH by (auto simp: loop_agrees_def)
  from from_utf8_append [OF this] show ?thesis
    unfolding loop_agrees_def using x hd m en de dx by simp
qed

lemma loop_agrees_run:
  assumes x: "x \<noteq> []" and m: "\<not> is_marker_byte (hd x)"
    and r: "run = takeWhile (\<lambda>b. \<not> is_marker_byte b) x"
    and enc: "encode_run run Localisation eset i = Inr enc"
    and IH: "loop_agrees (drop (length run) x) y"
  shows "loop_agrees x (enc @ y)"
proof -
  note tw = takeWhile_run [OF x m r]
  obtain s where s: "from_utf8 run = Some s" and b: "encode_file s Localisation eset = Inr enc"
    using enc tw(1) by (subst (asm) encode_run.simps) (auto split: option.splits sum.splits)
  have ok: "list_all text_ok s" using no_marker_text [OF s tw(2)] by (simp add: text_ok_def list_all_iff)
  from text_codec.encoded [OF ok b] have p: "enc = text_codec.pieces eset s"
    and un: "list_all (\<lambda>c. unencodable_kind c = None) s" by (simp_all add: text_codec.pieces_def)
  have rest: "y = [] \<or> is_marker_byte (hd y)"
    using IH tw(3) by (auto simp: loop_agrees_def)
  obtain z where z: "convert_loop y Localisation Decode j = Inr z"
    "convert_loop (drop (length run) x) Localisation Decode k = Inr z" for j k
    using IH by (auto simp: loop_agrees_def)
  have en: "convert_loop (enc @ y) Localisation (Encode es) j = Inr (enc @ y)" for es j
    using text_codec.pieces_loop [OF ok un rest, of eset "Encode es" j] IH
    by (auto simp: p loop_agrees_def text_codec.target_def)
  have bs: "into_bytes s = run" using from_utf8_Some [OF s] by simp
  have de: "convert_loop (enc @ y) Localisation Decode j = Inr (run @ z)" for j
    using text_codec.pieces_loop [OF ok un rest, of eset Decode j] z
    by (auto simp: p text_codec.target_def bs)
  have dr: "decode_run run = run" using s by (simp add: decode_run.simps)
  have dx: "convert_loop x Localisation Decode j = Inr (run @ z)" for j
    by (subst convert_loop.simps)
      (simp only: x m r [symmetric] Let_def dr if_False sum.case convert_run_def direction.case
        map_sum.simps z)
  have "from_utf8 enc \<noteq> None"
  proof -
    obtain t where t: "encode_text s eset = Inr t" "enc = into_bytes t"
      using b by (cases "encode_text s eset") auto
    have "list_all is_scalar s" using ok by (auto simp: list_all_iff text_ok_def)
    then have "list_all is_scalar t" using t(1) encode_text_loop_scalar [of s eset 0]
      by (auto simp: encode_text_def finish_def split: prod.splits if_splits)
    then show ?thesis by (simp add: t(2) from_utf8_into_bytes)
  qed
  moreover have "from_utf8 y \<noteq> None" using IH by (simp add: loop_agrees_def)
  ultimately have "from_utf8 (enc @ y) \<noteq> None" using from_utf8_append by fastforce
  then show ?thesis unfolding loop_agrees_def using x m en de dx by simp
qed

lemma convert_loop_agrees:
  "convert_loop x Localisation (Encode eset) i = Inr y \<Longrightarrow> loop_agrees x y"
proof (induction x arbitrary: i y rule: length_induct)
  case (1 x)
  show ?case
  proof (cases "x = []")
    case True
    then show ?thesis using 1(2)
      by (simp add: loop_agrees_def convert_loop.simps from_utf8.simps)
  next
    case x: False
    show ?thesis
    proof (cases "is_marker_byte (hd x)")
      case m: True
      obtain w c where e: "escape_at x i Localisation = Inr (w, c)"
        using 1(2) x m by (subst (asm) convert_loop.simps) (auto split: sum.splits)
      obtain y' where y: "convert_loop (drop w x) Localisation (Encode eset) (i + w) = Inr y'"
          "y = take w x @ y'"
        using 1(2) x m e
        by (subst (asm) convert_loop.simps)
          (cases "convert_loop (drop w x) Localisation (Encode eset) (i + w)";
            simp add: convert_triple_def)
      have "length (drop w x) < length x" using escape_at_width [OF e] x by simp
      then have "loop_agrees (drop w x) y'" using 1(1) y(1) by blast
      from loop_agrees_step [OF x m e this] show ?thesis by (simp add: y(2))
    next
      case m: False
      define run where "run = takeWhile (\<lambda>b. \<not> is_marker_byte b) x"
      obtain enc where enc: "encode_run run Localisation eset i = Inr enc"
        using 1(2) x m
        by (subst (asm) convert_loop.simps)
          (auto simp: Let_def convert_run_def run_def split: sum.splits)
      obtain y' where y: "convert_loop (drop (length run) x) Localisation (Encode eset)
          (i + length run) = Inr y'" "y = enc @ y'"
        using 1(2) x m enc
        by (subst (asm) convert_loop.simps)
          (cases "convert_loop (drop (length run) x) Localisation (Encode eset) (i + length run)";
            simp add: Let_def convert_run_def run_def)
      have "loop_agrees (drop (length run) x) y'"
        using 1(1) takeWhile_run(4) [OF x m run_def] y(1) by blast
      from loop_agrees_run [OF x m run_def enc this] show ?thesis by (simp add: y(2))
    qed
  qed
qed

text \<open>
  C37. Whole-file encoding of localisation files is idempotent and keeps what the file says: once
  a file has been encoded, encoding it again under either escape set changes nothing, and the
  encoded file decodes to exactly what the original file decodes to.
\<close>

theorem encode_buffer_idempotent:
  assumes "encode_buffer x Localisation eset = Inr y"
  shows "encode_buffer y Localisation eset' = Inr y
    \<and> (\<exists>z. decode_buffer x Localisation = Inr z \<and> decode_buffer y Localisation = Inr z)"
proof -
  have x: "from_utf8 x \<noteq> None" and c: "convert_loop x Localisation (Encode eset) 0 = Inr y"
    using assms by (auto simp: encode_buffer_def convert_def split: if_splits)
  from convert_loop_agrees [OF c] x show ?thesis
    by (auto simp: loop_agrees_def encode_buffer_def decode_buffer_def convert_def)
qed

theorem encode_buffer_idempotent_witness:
  "encode_buffer [0x61, 0x11, 0x3D, 0x66, 0x10, 0x2D, 0x4E] Localisation DllFull
     = Inr [0x61, 0x11, 0x3D, 0x66, 0x10, 0x2D, 0x4E]
   \<and> (\<exists>z. decode_buffer [0x61, 0x11, 0x3D, 0x66, 0xE4, 0xB8, 0xAD] Localisation = Inr z
      \<and> decode_buffer [0x61, 0x11, 0x3D, 0x66, 0x10, 0x2D, 0x4E] Localisation = Inr z)"
proof -
  show ?thesis using encode_buffer_idempotent [OF sample_localisation] .
qed

text \<open>
  C36. For script files made of ASCII and of characters that are escaped (no character the code
  page carries in one byte above \<open>0x7F\<close>), encoding a readable file is idempotent and decoding
  the result gives the file back byte for byte.
\<close>

theorem script_file_round_trip:
  assumes ok: "list_all script_ok s" and e: "encode_buffer (into_bytes s) Script eset = Inr y"
  shows "encode_buffer y Script eset' = Inr y \<and> decode_buffer y Script = Inr (into_bytes s)"
proof (cases "s = []")
  case True
  then show ?thesis using e
    by (simp add: encode_buffer_def decode_buffer_def convert_def convert_loop.simps)
next
  case False
  then have ne: "into_bytes s \<noteq> []" by (cases s) auto
  have sc: "list_all (\<lambda>c. is_scalar c \<and> \<not> is_marker_code_point c) s"
    using ok by (auto simp: list_all_iff script_ok_def text_ok_def)
  have nm: "\<forall>b\<in>set (into_bytes s). \<not> is_marker_byte b" using into_bytes_no_marker [OF sc] by blast
  then have tw: "takeWhile (\<lambda>b. \<not> is_marker_byte b) (into_bytes s) = into_bytes s"
    by (simp add: takeWhile_eq_all_conv)
  have hd: "\<not> is_marker_byte (hd (into_bytes s))" using nm ne by simp
  have u: "from_utf8 (into_bytes s) = Some s"
    using sc by (intro from_utf8_into_bytes) (auto simp: list_all_iff)
  have nil: "convert_loop [] p d i = Inr []" for p d i by (simp add: convert_loop.simps)
  from e have "convert_loop (into_bytes s) Script (Encode eset) 0 = Inr y"
    by (simp add: encode_buffer_def convert_def)
  then have "encode_run (into_bytes s) Script eset 0 = Inr y"
    using ne hd tw nil
    by (subst (asm) convert_loop.simps) (auto simp: Let_def convert_run_def split: sum.splits)
  then have "encode_file s Script eset = Inr y"
    using ne u by (subst (asm) encode_run.simps) (auto split: sum.splits)
  from script_codec.encoded [OF ok this] have y: "y = script_codec.pieces eset s"
    and un: "list_all (\<lambda>c. unencodable_kind c = None) s"
    by (simp_all add: script_codec.pieces_def)
  note l = script_codec.pieces_loop [OF ok un, of "[]" eset]
  have "convert_loop y Script (Encode eset') 0 = Inr y"
    using l [of "Encode eset'" 0] nil by (auto simp: y script_codec.target_def)
  moreover have "convert_loop y Script Decode 0 = Inr (into_bytes s)"
    using l [of Decode 0] nil by (auto simp: y script_codec.target_def)
  ultimately show ?thesis by (simp add: encode_buffer_def decode_buffer_def convert_def)
qed

theorem script_file_round_trip_witness:
  "encode_buffer [0x78, 0x3D, 0x10, 0x2D, 0x4E] Script DllFull = Inr [0x78, 0x3D, 0x10, 0x2D, 0x4E]
   \<and> decode_buffer [0x78, 0x3D, 0x10, 0x2D, 0x4E] Script = Inr (into_bytes [0x78, 0x3D, 0x4E2D])"
proof -
  have s: "list_all script_ok [0x78, 0x3D, 0x4E2D]" by code_simp
  have b: "into_bytes [0x78, 0x3D, 0x4E2D] = [0x78, 0x3D, 0xE4, 0xB8, 0xAD]" by code_simp
  show ?thesis using script_file_round_trip [OF s, unfolded b, OF sample_script]
    unfolding b .
qed

text \<open>
  Outside that class script encoding is not idempotent: two characters of the upper half of
  the code page are written as single bytes that together read as UTF-8 again, so a second
  encoding changes the file.
\<close>

theorem encode_buffer_script_not_idempotent:
  "encode_buffer [0xC3, 0x83, 0xC2, 0xA9] Script Paratranz = Inr [0xC3, 0xA9]
   \<and> encode_buffer [0xC3, 0xA9] Script Paratranz = Inr [0xE9]"
  using sample_script_twice by (rule conjI)

end
