(* ===== verification/Cst.thy ===== *)
theory Cst
  imports Text_Model
begin

text \<open>
  The syntax tree of the crate \<open>parser\<close> (\<open>cst.rs\<close>): node, token and error kinds, the flat
  arena with its incremental builder, and handles to its nodes. The two front ends of the
  parser are modelled over the tree a handle denotes (\<open>cst\<close>); the refinement lemmas below show
  that every builder operation and every accessor of the arena implements the operation on
  trees.
\<close>

subsection \<open>Kinds\<close>

datatype cst_kind =
    Document | Property | Key | Operator | Value | Block | BareValue | QuotedString
  | HeaderBlock | ParameterBlock | ParameterCondition | Comment | Bom
  | LocalisationDocument | LanguageHeader | LocalisationEntry | LocalisationKey | Version
  | LocalisationString | UnquotedValue | ErrorNode

datatype token_kind =
    BareToken | QuotedToken | OperatorToken | OpenDelimiter | CloseDelimiter | ColonToken
  | CommentToken | BomToken

definition is_trivia :: "token_kind \<Rightarrow> bool" where
  "is_trivia k \<longleftrightarrow> k = CommentToken \<or> k = BomToken"

record syntax_token =
  token_kind :: token_kind
  token_range :: text_range

datatype syntax_error_kind =
    UnexpectedToken | MissingValue | UnterminatedString | UnterminatedBlock
  | UnterminatedParameterBlock | InvalidLocalisationEntry | UnterminatedLocalisationString

fun error_code :: "syntax_error_kind \<Rightarrow> string" where
  "error_code UnexpectedToken = ''pdc-parser-unexpected-token''"
| "error_code MissingValue = ''pdc-parser-missing-value''"
| "error_code UnterminatedString = ''pdc-parser-unterminated-string''"
| "error_code UnterminatedBlock = ''pdc-parser-unterminated-block''"
| "error_code UnterminatedParameterBlock = ''pdc-parser-unterminated-parameter-block''"
| "error_code InvalidLocalisationEntry = ''pdc-localisation-invalid-entry''"
| "error_code UnterminatedLocalisationString = ''pdc-localisation-unterminated-string''"

record syntax_error =
  error_kind :: syntax_error_kind
  error_range :: text_range
  error_message :: string

definition error_display :: "syntax_error \<Rightarrow> string" where
  "error_display e = error_code (error_kind e) @ '': '' @ error_message e"

subsection \<open>Trees\<close>

text \<open>What a handle denotes: kind, range and the children in source order.\<close>

datatype cst = Node (cst_kind: cst_kind) (cst_range: text_range) (cst_children: "cst list")

abbreviation cst_start :: "cst \<Rightarrow> nat" where "cst_start t \<equiv> range_start (cst_range t)"
abbreviation cst_end :: "cst \<Rightarrow> nat" where "cst_end t \<equiv> range_end (cst_range t)"

definition cst_child_count :: "cst \<Rightarrow> nat" where
  "cst_child_count t = length (cst_children t)"

definition cst_child :: "cst \<Rightarrow> nat \<Rightarrow> cst option" where
  "cst_child t i = (if i < length (cst_children t) then Some (cst_children t ! i) else None)"

definition cst_is_error :: "cst \<Rightarrow> bool" where
  "cst_is_error t \<longleftrightarrow> cst_kind t = ErrorNode"

fun cst_nodes :: "cst \<Rightarrow> nat" where
  "cst_nodes (Node k r cs) = 1 + sum_list (map cst_nodes cs)"

subsection \<open>The arena\<close>

record node_core =
  core_range :: text_range
  first_edge :: nat
  edge_count :: nat

record syntax_tree =
  st_kinds :: "cst_kind list"
  st_cores :: "node_core list"
  st_edges :: "nat list"
  st_root :: nat

record builder =
  sb_tree :: syntax_tree
  sb_children :: "nat list"
  sb_saturated :: bool

definition builder_default :: builder where
  "builder_default =
    \<lparr>sb_tree = \<lparr>st_kinds = [], st_cores = [], st_edges = [], st_root = 0\<rparr>, sb_children = [], sb_saturated = False\<rparr>"

text \<open>\<open>SyntaxTreeBuilder::node\<close>; indices are \<open>u32\<close>, the casts are written as \<open>mod\<close>.\<close>

definition builder_node ::
  "cst_kind \<Rightarrow> text_range \<Rightarrow> nat \<Rightarrow> builder \<Rightarrow> nat \<times> builder" where
  "builder_node k r child_count b =
    (let t = sb_tree b;
         first = length (st_edges t);
         mark = length (sb_children b) - child_count;
         edges' = st_edges t @ drop mark (sb_children b);
         index = length (st_cores t) mod u32_limit;
         core = \<lparr>core_range = r, first_edge = first mod u32_limit,
                 edge_count = child_count mod u32_limit\<rparr>;
         cores' = st_cores t @ [core]
     in (index,
         b\<lparr>sb_tree := t\<lparr>st_kinds := st_kinds t @ [k], st_cores := cores', st_edges := edges'\<rparr>,
           sb_children := take mark (sb_children b),
           sb_saturated := u32_max \<le> length cores'\<rparr>))"

definition push_child :: "nat \<Rightarrow> builder \<Rightarrow> builder" where
  "push_child index b = b\<lparr>sb_children := sb_children b @ [index]\<rparr>"

definition child_mark :: "builder \<Rightarrow> nat" where
  "child_mark b = length (sb_children b)"

definition children_since :: "nat \<Rightarrow> builder \<Rightarrow> nat" where
  "children_since mark b = length (sb_children b) - mark"

definition is_saturated :: "builder \<Rightarrow> bool" where
  "is_saturated b = sb_saturated b"

definition node_range :: "nat \<Rightarrow> builder \<Rightarrow> text_range" where
  "node_range index b = core_range (st_cores (sb_tree b) ! index)"

text \<open>\<open>finish\<close>: \<open>wrapping_sub(1)\<close> on the node count.\<close>

definition builder_finish :: "builder \<Rightarrow> syntax_tree" where
  "builder_finish b =
    (sb_tree b)\<lparr>st_root := (length (st_cores (sb_tree b)) + u32_max) mod u32_limit\<rparr>"

definition node_count :: "syntax_tree \<Rightarrow> nat" where
  "node_count t = length (st_cores t)"

subsection \<open>Handles\<close>

definition handle_kind :: "syntax_tree \<Rightarrow> nat \<Rightarrow> cst_kind" where
  "handle_kind t i = st_kinds t ! i"

definition handle_range :: "syntax_tree \<Rightarrow> nat \<Rightarrow> text_range" where
  "handle_range t i = core_range (st_cores t ! i)"

text \<open>\<open>edges.get(first..end).unwrap_or_default()\<close>.\<close>

definition handle_children :: "syntax_tree \<Rightarrow> nat \<Rightarrow> nat list" where
  "handle_children t i =
    (let first = first_edge (st_cores t ! i); n = edge_count (st_cores t ! i) in
     if first + n \<le> length (st_edges t) then take n (drop first (st_edges t)) else [])"

definition handle_child_count :: "syntax_tree \<Rightarrow> nat \<Rightarrow> nat" where
  "handle_child_count t i = edge_count (st_cores t ! i)"

definition handle_child :: "syntax_tree \<Rightarrow> nat \<Rightarrow> nat \<Rightarrow> nat option" where
  "handle_child t i position =
    (let core = st_cores t ! i in
     if edge_count core \<le> position then None
     else if first_edge core + position < length (st_edges t)
     then Some (st_edges t ! (first_edge core + position)) else None)"

definition handle_is_error :: "syntax_tree \<Rightarrow> nat \<Rightarrow> bool" where
  "handle_is_error t i \<longleftrightarrow> handle_kind t i = ErrorNode"

subsection \<open>Refinement\<close>

text \<open>The tree a node index of an arena denotes.\<close>

inductive denotes :: "syntax_tree \<Rightarrow> nat \<Rightarrow> cst \<Rightarrow> bool" for t where
  denotesI: "i < length (st_cores t) \<Longrightarrow> length (st_kinds t) = length (st_cores t) \<Longrightarrow>
    first_edge (st_cores t ! i) + edge_count (st_cores t ! i) \<le> length (st_edges t) \<Longrightarrow>
    list_all2 (denotes t)
      (take (edge_count (st_cores t ! i)) (drop (first_edge (st_cores t ! i)) (st_edges t))) cs \<Longrightarrow>
    denotes t i (Node (st_kinds t ! i) (core_range (st_cores t ! i)) cs)"
monos list_all2_mono

inductive_cases denotesE: "denotes t i c"

lemma denotes_unique: "denotes t i c \<Longrightarrow> denotes t i d \<Longrightarrow> c = d"
proof (induction c arbitrary: i d)
  case (Node k r cs)
  from Node.prems(1) have c: "k = st_kinds t ! i" "r = core_range (st_cores t ! i)"
    "list_all2 (denotes t)
      (take (edge_count (st_cores t ! i)) (drop (first_edge (st_cores t ! i)) (st_edges t))) cs"
    by (auto elim: denotesE)
  from Node.prems(2) obtain ds where d: "d = Node (st_kinds t ! i) (core_range (st_cores t ! i)) ds"
    "list_all2 (denotes t)
      (take (edge_count (st_cores t ! i)) (drop (first_edge (st_cores t ! i)) (st_edges t))) ds"
    by (auto elim: denotesE)
  have "list_all2 (denotes t) xs cs \<Longrightarrow> list_all2 (denotes t) xs ds \<Longrightarrow> cs = ds" for xs
    using Node.IH
  proof (induction xs arbitrary: cs ds)
    case (Cons x xs)
    then show ?case by (auto simp: list_all2_Cons1)
  qed auto
  with c d show ?case by blast
qed

text \<open>The arena only grows, so what an index denotes stays.\<close>

definition extends :: "syntax_tree \<Rightarrow> syntax_tree \<Rightarrow> bool" where
  "extends t u \<longleftrightarrow> length (st_kinds u) = length (st_cores u) \<and>
    (\<exists>a b c. st_kinds u = st_kinds t @ a \<and> st_cores u = st_cores t @ b \<and> st_edges u = st_edges t @ c)"

lemma denotes_extends:
  assumes "denotes t i c" and "extends t u"
  shows "denotes u i c"
  using assms
proof (induction rule: denotes.induct)
  case (denotesI i cs)
  obtain a b e where u: "st_kinds u = st_kinds t @ a" "st_cores u = st_cores t @ b" "st_edges u = st_edges t @ e"
    and l: "length (st_kinds u) = length (st_cores u)"
    using denotesI.prems by (auto simp: extends_def)
  have c: "st_cores u ! i = st_cores t ! i" "st_kinds u ! i = st_kinds t ! i"
    using denotesI.hyps by (simp_all add: u nth_append)
  have "take (edge_count (st_cores u ! i)) (drop (first_edge (st_cores u ! i)) (st_edges u)) =
    take (edge_count (st_cores t ! i)) (drop (first_edge (st_cores t ! i)) (st_edges t))"
    unfolding c(1) using denotesI.hyps(3) by (simp add: u(3))
  then have "list_all2 (denotes u)
      (take (edge_count (st_cores u ! i)) (drop (first_edge (st_cores u ! i)) (st_edges u))) cs"
    using denotesI.IH denotesI.prems by (auto elim: list_all2_mono)
  then have "denotes u i (Node (st_kinds u ! i) (core_range (st_cores u ! i)) cs)"
  proof (intro denotes.denotesI)
    show "i < length (st_cores u)" using denotesI.hyps(1) by (simp add: u(2))
    show "first_edge (st_cores u ! i) + edge_count (st_cores u ! i) \<le> length (st_edges u)"
      unfolding c(1) using denotesI.hyps(3) by (simp add: u(3))
  qed (simp_all add: l)
  then show ?case by (simp add: c)
qed

text \<open>An arena builder implements a list of pending trees and a node count.\<close>

definition represents :: "builder \<Rightarrow> cst list \<Rightarrow> nat \<Rightarrow> bool" where
  "represents b pending n \<longleftrightarrow>
    list_all2 (denotes (sb_tree b)) (sb_children b) pending
    \<and> length (st_kinds (sb_tree b)) = n \<and> length (st_cores (sb_tree b)) = n
    \<and> sb_saturated b = (u32_max \<le> n \<and> 0 < n)"

lemma builder_default_represents: "represents builder_default [] 0"
  by (simp add: represents_def builder_default_def)

lemma represents_mark: "represents b pending n \<Longrightarrow> child_mark b = length pending"
  by (auto simp: represents_def child_mark_def dest: list_all2_lengthD)

lemma represents_since: "represents b pending n \<Longrightarrow> children_since m b = length pending - m"
  by (auto simp: represents_def children_since_def dest: list_all2_lengthD)

lemma represents_push:
  "represents b pending n \<Longrightarrow> denotes (sb_tree b) i c \<Longrightarrow> represents (push_child i b) (pending @ [c]) n"
  by (simp add: represents_def push_child_def list_all2_appendI)

lemma builder_node_denotes:
  assumes rep: "represents b pending n" and cnt: "count \<le> length pending"
    and small: "n < u32_limit" "length (st_edges (sb_tree b)) + count < u32_limit"
    and e: "builder_node k r count b = (i, b')"
  shows "denotes (sb_tree b') i (Node k r (drop (length pending - count) pending))"
    and "represents b' (take (length pending - count) pending) (Suc n)"
    and "extends (sb_tree b) (sb_tree b')"
proof -
  let ?t = "sb_tree b" and ?t' = "sb_tree b'" and ?mark = "length pending - count"
  from rep have ch: "list_all2 (denotes ?t) (sb_children b) pending" and len: "length (st_kinds ?t) = n"
    "length (st_cores ?t) = n" by (auto simp: represents_def)
  have lc: "length (sb_children b) = length pending" using list_all2_lengthD [OF ch] .
  have mods: "n mod u32_limit = n" "length (st_edges ?t) mod u32_limit = length (st_edges ?t)"
    "count mod u32_limit = count" using small by simp_all
  have b': "i = n" "st_kinds ?t' = st_kinds ?t @ [k]"
    "st_cores ?t' = st_cores ?t @ [\<lparr>core_range = r, first_edge = length (st_edges ?t), edge_count = count\<rparr>]"
    "st_edges ?t' = st_edges ?t @ drop ?mark (sb_children b)" "sb_children b' = take ?mark (sb_children b)"
    "sb_saturated b' = (u32_max \<le> Suc n)"
    using e lc len mods by (auto simp: builder_node_def Let_def)
  show ext: "extends ?t ?t'" using b' len by (simp add: extends_def)
  have up: "list_all2 (denotes ?t') (sb_children b) pending"
    using ch denotes_extends [OF _ ext] by (rule list_all2_mono)
  have "list_all2 (denotes ?t') (drop ?mark (sb_children b)) (drop ?mark pending)"
    using up by (rule list_all2_dropI)
  moreover have "length (drop ?mark (sb_children b)) = count" using lc cnt by simp
  ultimately have "denotes ?t' n (Node (st_kinds ?t' ! n) (core_range (st_cores ?t' ! n)) (drop ?mark pending))"
    using b' len by (intro denotes.denotesI) (auto simp: nth_append)
  then show "denotes ?t' i (Node k r (drop ?mark pending))"
    using b' len by (simp add: nth_append)
  have "list_all2 (denotes ?t') (take ?mark (sb_children b)) (take ?mark pending)"
    using up by (rule list_all2_takeI)
  then show "represents b' (take ?mark pending) (Suc n)"
    using b' len by (simp add: represents_def)
qed

lemma denotes_accessors:
  assumes "denotes t i c"
  shows "handle_kind t i = cst_kind c" "handle_range t i = cst_range c"
    "list_all2 (denotes t) (handle_children t i) (cst_children c)"
    "handle_child_count t i = cst_child_count c"
proof -
  obtain cs where c: "c = Node (st_kinds t ! i) (core_range (st_cores t ! i)) cs"
    and l: "first_edge (st_cores t ! i) + edge_count (st_cores t ! i) \<le> length (st_edges t)"
    and a: "list_all2 (denotes t)
      (take (edge_count (st_cores t ! i)) (drop (first_edge (st_cores t ! i)) (st_edges t))) cs"
    using assms by (auto elim: denotesE)
  show "handle_kind t i = cst_kind c" "handle_range t i = cst_range c"
    by (simp_all add: c handle_kind_def handle_range_def)
  show "list_all2 (denotes t) (handle_children t i) (cst_children c)"
    using l a by (simp add: c handle_children_def Let_def)
  show "handle_child_count t i = cst_child_count c"
    using list_all2_lengthD [OF a] l by (simp add: c handle_child_count_def cst_child_count_def)
qed

lemma denotes_child:
  assumes "denotes t i c"
  shows "rel_option (denotes t) (handle_child t i p) (cst_child c p)"
proof -
  note a = denotes_accessors [OF assms]
  have l: "first_edge (st_cores t ! i) + edge_count (st_cores t ! i) \<le> length (st_edges t)"
    using assms by (auto elim: denotesE)
  then have ch: "handle_children t i =
      take (edge_count (st_cores t ! i)) (drop (first_edge (st_cores t ! i)) (st_edges t))"
    by (simp add: handle_children_def Let_def)
  have n: "edge_count (st_cores t ! i) = length (cst_children c)"
    using a(4) by (simp add: handle_child_count_def cst_child_count_def)
  show ?thesis
  proof (cases "p < length (cst_children c)")
    case True
    then have "denotes t (handle_children t i ! p) (cst_children c ! p)"
      using a(3) n l by (auto simp: list_all2_conv_all_nth)
    then show ?thesis using True l n
      by (simp add: handle_child_def cst_child_def Let_def ch)
  next
    case False
    then show ?thesis using n by (simp add: handle_child_def cst_child_def Let_def)
  qed
qed

text \<open>
  What a walk over the handles of an arena sees at an index: kind, range, number of children, the
  children in order (each again walked), and the same children by position.
\<close>

fun walks :: "syntax_tree \<Rightarrow> nat \<Rightarrow> cst \<Rightarrow> bool" where
  "walks t i (Node k r cs) \<longleftrightarrow>
    i < node_count t \<and> handle_kind t i = k \<and> handle_range t i = r
    \<and> handle_child_count t i = length cs
    \<and> list_all2 (walks t) (handle_children t i) cs
    \<and> map (handle_child t i) [0..<Suc (length cs)] = map Some (handle_children t i) @ [None]"

lemma denotes_positions:
  assumes "denotes t i c"
  shows "map (handle_child t i) [0..<Suc (length (cst_children c))] = map Some (handle_children t i) @ [None]"
proof -
  note a = denotes_accessors [OF assms]
  have l: "first_edge (st_cores t ! i) + edge_count (st_cores t ! i) \<le> length (st_edges t)"
    using assms by (auto elim: denotesE)
  have n: "edge_count (st_cores t ! i) = length (cst_children c)"
    using a(4) by (simp add: handle_child_count_def cst_child_count_def)
  have ch: "handle_children t i =
      take (length (cst_children c)) (drop (first_edge (st_cores t ! i)) (st_edges t))"
    using l n by (simp add: handle_children_def Let_def)
  have child: "handle_child t i p =
      (if p < length (cst_children c) then Some (handle_children t i ! p) else None)" for p
    using l n by (simp add: handle_child_def Let_def ch)
  show ?thesis
    using list_all2_lengthD [OF a(3)] by (intro nth_equalityI) (auto simp: child nth_append)
qed

lemma denotes_walks: "denotes t i c \<Longrightarrow> walks t i c"
proof (induction c arbitrary: i)
  case (Node k r cs)
  note a = denotes_accessors [OF Node.prems] and p = denotes_positions [OF Node.prems]
  have "i < node_count t" using Node.prems by (auto elim: denotesE simp: node_count_def)
  moreover have "list_all2 (walks t) (handle_children t i) cs"
    using a(3) Node.IH by (auto simp: list_all2_conv_all_nth)
  ultimately show ?case using a p by (simp add: cst_child_count_def)
qed

text \<open>
  C35. The arena implements trees. Emitting a node over the last \<open>count\<close> pending children returns an
  index at which the handles read the new node with exactly those children, in order; the other
  pending indices stay pending, and each still reads the tree it read before; the builder goes on
  representing them; and the finished tree reads the new node at its root. All this within the
  32-bit index space.
\<close>

theorem arena_implements_trees:
  assumes "represents b pending n" and "count \<le> length pending"
    and "n < u32_max" and "length (st_edges (sb_tree b)) + count < u32_limit"
    and "builder_node k r count b = (i, b')"
  shows "walks (sb_tree b') i (Node k r (drop (length pending - count) pending))
    \<and> list_all2 (walks (sb_tree b')) (sb_children b') (take (length pending - count) pending)
    \<and> sb_children b' = take (length pending - count) (sb_children b)
    \<and> represents b' (take (length pending - count) pending) (n + 1)
    \<and> node_range i b' = r
    \<and> walks (builder_finish b') (st_root (builder_finish b'))
        (Node k r (drop (length pending - count) pending))"
proof -
  have n: "n < u32_limit" using assms(3) by (simp add: u32_max_def u32_limit_def)
  note d = builder_node_denotes [OF assms(1,2) n assms(4,5)]
  have i: "i = n" using assms(1,5) n
    by (auto simp: builder_node_def Let_def represents_def)
  have st_root: "st_root (builder_finish b') = n"
    using d(2) assms(3) by (simp add: builder_finish_def represents_def u32_max_def u32_limit_def)
  have "denotes (sb_tree b') n c \<Longrightarrow> denotes (builder_finish b') n c" for c
  proof (erule denotes_extends)
    show "extends (sb_tree b') (builder_finish b')"
      using d(2) by (simp add: extends_def builder_finish_def represents_def)
  qed
  then have "walks (builder_finish b') (st_root (builder_finish b'))
      (Node k r (drop (length pending - count) pending))"
    using d(1) st_root i by (simp only: denotes_walks)
  moreover have "node_range i b' = r"
    using denotes_accessors(2) [OF d(1)] by (simp add: node_range_def handle_range_def)
  moreover have "list_all2 (walks (sb_tree b')) (sb_children b') (take (length pending - count) pending)"
    using d(2) unfolding represents_def by (blast intro: list_all2_mono denotes_walks)
  moreover have "sb_children b' = take (length pending - count) (sb_children b)"
  proof -
    have "length (sb_children b) = length pending"
      using assms(1) by (auto simp: represents_def dest: list_all2_lengthD)
    then show ?thesis using assms(5) by (auto simp: builder_node_def Let_def)
  qed
  moreover have "represents b' (take (length pending - count) pending) (n + 1)" using d(2) by simp
  ultimately show ?thesis using denotes_walks [OF d(1)] by blast
qed

text \<open>Three leaves are pending; a property is emitted over the last two.\<close>

definition leaf_at :: "nat \<Rightarrow> cst" where
  "leaf_at a = Node BareValue \<lparr>range_start = a, range_end = a + 1\<rparr> []"

fun push_leaves :: "nat list \<Rightarrow> builder \<Rightarrow> builder" where
  "push_leaves [] b = b"
| "push_leaves (a # as) b =
    (case builder_node BareValue \<lparr>range_start = a, range_end = a + 1\<rparr> 0 b of
       (i, b') \<Rightarrow> push_leaves as (push_child i b'))"

lemma push_leaves_represents:
  assumes "represents b pending n" and "n + length as < u32_limit" "length (st_edges (sb_tree b)) < u32_limit"
  shows "represents (push_leaves as b) (pending @ map leaf_at as) (n + length as)"
  using assms
proof (induction as arbitrary: b pending n)
  case (Cons a as)
  obtain i b' where e: "builder_node BareValue \<lparr>range_start = a, range_end = a + 1\<rparr> 0 b = (i, b')"
    by fastforce
  have small: "n < u32_limit" "length (st_edges (sb_tree b)) + 0 < u32_limit" using Cons.prems by simp_all
  note d = builder_node_denotes [OF Cons.prems(1) le0 small e]
  have "denotes (sb_tree b') i (leaf_at a)" using d(1) by (simp add: leaf_at_def)
  then have r: "represents (push_child i b') (pending @ [leaf_at a]) (Suc n)"
    using represents_push d(2) by simp
  have "length (st_edges (sb_tree (push_child i b'))) < u32_limit"
  proof -
    have "length (sb_children b) = length pending"
      using Cons.prems(1) by (auto simp: represents_def dest: list_all2_lengthD)
    then show ?thesis using e Cons.prems(3) by (auto simp: builder_node_def push_child_def Let_def)
  qed
  from Cons.IH [OF r _ this] Cons.prems(2) e show ?case by simp
qed simp

theorem arena_implements_trees_witness:
  "\<exists>i b'. builder_node Property \<lparr>range_start = 2, range_end = 6\<rparr> 2
        (push_leaves [0, 2, 5] builder_default) = (i, b')
    \<and> walks (sb_tree b') i (Node Property \<lparr>range_start = 2, range_end = 6\<rparr> [leaf_at 2, leaf_at 5])
    \<and> sb_children b' = [0]
    \<and> walks (builder_finish b') (st_root (builder_finish b'))
        (Node Property \<lparr>range_start = 2, range_end = 6\<rparr> [leaf_at 2, leaf_at 5])"
proof -
  let ?r = "\<lparr>range_start = 2, range_end = 6\<rparr>" and ?b = "push_leaves [0, 2, 5] builder_default"
  obtain i b' where e: "builder_node Property ?r 2 ?b = (i, b')" by fastforce
  have "represents ?b ([] @ map leaf_at [0, 2, 5]) (0 + length [0 :: nat, 2, 5])"
    by (rule push_leaves_represents [OF builder_default_represents])
      (simp_all add: u32_limit_def builder_default_def)
  then have rep: "represents ?b (map leaf_at [0, 2, 5]) 3"
    by (simp only: append_Nil list.size add_0 add_Suc_right add_0_right numeral_3_eq_3)
  have small: "(3::nat) < u32_max" "length (st_edges (sb_tree ?b)) + 2 < u32_limit"
    and children: "sb_children ?b = [0, 1, 2]" by code_simp+
  from arena_implements_trees [OF rep _ small e] e children show ?thesis by simp
qed

subsection \<open>Ranges and validity\<close>

text \<open>\<open>super::range\<close>: offsets beyond \<open>u32\<close> saturate, and the end never precedes the start.\<close>

definition make_range :: "nat \<Rightarrow> nat \<Rightarrow> text_range" where
  "make_range s e =
    (let s' = min s u32_max; e' = max (min e u32_max) s' in
     case text_range_new s' e' of Some r \<Rightarrow> r | None \<Rightarrow> text_range_empty s')"

definition valid_range :: "string \<Rightarrow> text_range \<Rightarrow> bool" where
  "valid_range src r \<longleftrightarrow>
    range_start r \<le> range_end r \<and> range_end r \<le> length src
    \<and> str_get src (range_start r) (range_end r) \<noteq> None"

fun valid_node :: "string \<Rightarrow> text_range option \<Rightarrow> cst \<Rightarrow> bool" where
  "valid_node src parent (Node k r cs) \<longleftrightarrow>
    valid_range src r
    \<and> (case parent of None \<Rightarrow> True
       | Some q \<Rightarrow> range_start q \<le> range_start r \<and> range_end r \<le> range_end q)
    \<and> list_all (valid_node src (Some r)) cs"

lemma make_range_simps [simp]:
  "s \<le> e \<Longrightarrow> e \<le> u32_max \<Longrightarrow> range_start (make_range s e) = s"
  "s \<le> e \<Longrightarrow> e \<le> u32_max \<Longrightarrow> range_end (make_range s e) = e"
  by (simp_all add: make_range_def Let_def text_range_new_def)

lemma valid_range_iff:
  "valid_range src r \<longleftrightarrow>
    range_start r \<le> range_end r \<and> is_boundary src (range_start r) \<and> is_boundary src (range_end r)"
  using is_boundary_le by (auto simp: valid_range_def str_get_def)

lemma valid_range_make:
  "s \<le> e \<Longrightarrow> is_boundary src s \<Longrightarrow> is_boundary src e \<Longrightarrow> length src \<le> u32_max \<Longrightarrow>
    valid_range src (make_range s e)"
  using is_boundary_le [of src e] by (simp add: valid_range_iff)

text \<open>What the parsers of the crate return: \<open>ParseParts\<close>.\<close>

record parse_parts =
  parts_tree :: cst
  parts_tokens :: "syntax_token list"
  parts_errors :: "syntax_error list"

end
