(* ===== verification/Script_Parser.thy ===== *)
theory Script_Parser
  imports Cst "HOL-Library.Monad_Syntax"
begin

text \<open>
  The script front end of the crate \<open>parser\<close> (\<open>script.rs\<close>): one definition per method of
  \<open>Parser\<close>, over a record with the fields of the struct. The pending children of the tree
  builder are the trees their indices denote (theory \<open>Cst\<close> proves that the arena implements
  this). A guard is a function of the number of calls made to it so far and of the three
  arguments it receives, so that it can behave like the \<open>FnMut\<close> closures of the callers.

  \<open>None\<close> is the outcome of a slice off a character boundary (a panic in Rust) and of a
  container loop that uses up its fuel; the theorems show that neither happens.
\<close>

type_synonym guard = "nat \<Rightarrow> nat \<Rightarrow> nat \<Rightarrow> nat \<Rightarrow> bool"

record parser =
  ps_guard :: "guard option"
  ps_guard_calls :: nat
  ps_last_call :: "(nat \<times> nat \<times> nat \<times> nat) option"
  ps_work :: nat
  ps_nodes :: nat
  ps_depth :: nat
  ps_stopped :: bool
  ps_source :: string
  ps_position :: nat
  ps_tokens :: "syntax_token list"
  ps_errors :: "syntax_error list"
  ps_pending :: "cst list"

definition parser_new :: "string \<Rightarrow> parser" where
  "parser_new src =
    \<lparr>ps_guard = None, ps_guard_calls = 0, ps_last_call = None, ps_work = 0, ps_nodes = 0,
     ps_depth = 0, ps_stopped = False, ps_source = src, ps_position = 0, ps_tokens = [],
     ps_errors = [], ps_pending = []\<rparr>"

abbreviation source_len :: "parser \<Rightarrow> nat" where
  "source_len p \<equiv> length (ps_source p)"

subsection \<open>Work, nodes and text\<close>

text \<open>
  \<open>check_work\<close>: every 256th unit of work, and every forced check, asks the guard; a refusal
  stops the parser for good and moves it to the end of the source. The result of the method
  is \<open>\<not> ps_stopped\<close> of the state it leaves.
\<close>

definition ask_guard :: "parser \<Rightarrow> parser" where
  "ask_guard p =
    (case ps_guard p of
       None \<Rightarrow> p
     | Some g \<Rightarrow>
        (let p' = p\<lparr>ps_guard_calls := ps_guard_calls p + 1,
                    ps_last_call := Some (ps_guard_calls p, ps_position p, ps_nodes p, ps_depth p)\<rparr>
         in if \<not> g (ps_guard_calls p) (ps_position p) (ps_nodes p) (ps_depth p)
            then p'\<lparr>ps_stopped := True, ps_position := source_len p\<rparr> else p'))"

definition check_work :: "bool \<Rightarrow> parser \<Rightarrow> parser" where
  "check_work force p =
    (if ps_stopped p then p
     else
       (let p1 = p\<lparr>ps_work := ps_work p + 1\<rparr> in
        if force \<or> ps_work p1 mod 256 = 0 then ask_guard p1 else p1))"

text \<open>\<open>node\<close>: emits one node over the \<open>child_count\<close> most recently pushed children.\<close>

definition emit :: "cst_kind \<Rightarrow> nat \<Rightarrow> nat \<Rightarrow> nat \<Rightarrow> parser \<Rightarrow> cst \<times> parser" where
  "emit k s e child_count p =
    (let p1 = check_work True p;
         mark = length (ps_pending p1) - child_count
     in (Node k (make_range s e) (drop mark (ps_pending p1)),
         p1\<lparr>ps_nodes := ps_nodes p1 + 1, ps_pending := take mark (ps_pending p1)\<rparr>))"

definition push :: "cst \<Rightarrow> parser \<Rightarrow> parser" where
  "push t p = p\<lparr>ps_pending := ps_pending p @ [t]\<rparr>"

definition tree_saturated :: "parser \<Rightarrow> bool" where
  "tree_saturated p \<longleftrightarrow> u32_max \<le> ps_nodes p"

definition slice :: "nat \<Rightarrow> nat \<Rightarrow> parser \<Rightarrow> string" where
  "slice s e p =
    (let e' = min e (source_len p); s' = min s e' in
     case str_get (ps_source p) s' e' of Some t \<Rightarrow> t | None \<Rightarrow> [])"

definition snippet :: "nat \<Rightarrow> nat \<Rightarrow> parser \<Rightarrow> string" where
  "snippet s e p =
    (let t = slice s e p in
     if 24 < length (str_chars t) then concat (take 24 (str_chars t)) @ ''...'' else t)"

definition report :: "syntax_error_kind \<Rightarrow> nat \<Rightarrow> nat \<Rightarrow> string \<Rightarrow> parser \<Rightarrow> parser" where
  "report k s e msg p =
    p\<lparr>ps_errors := ps_errors p
        @ [\<lparr>error_kind = k, error_range = make_range s e, error_message = msg\<rparr>]\<rparr>"

definition push_token :: "token_kind \<Rightarrow> nat \<Rightarrow> nat \<Rightarrow> parser \<Rightarrow> parser" where
  "push_token k s e p =
    p\<lparr>ps_tokens := ps_tokens p @ [\<lparr>token_kind = k, token_range = make_range s e\<rparr>]\<rparr>"

definition peek :: "parser \<Rightarrow> char option" where
  "peek p = (if ps_position p < source_len p then Some (ps_source p ! ps_position p) else None)"

definition advance :: "nat \<Rightarrow> parser \<Rightarrow> parser" where
  "advance n p = p\<lparr>ps_position := ps_position p + n\<rparr>"

text \<open>\<open>self.position = self.position.saturating_add(1).min(self.source.len())\<close>.\<close>

definition advance_clamped :: "parser \<Rightarrow> parser" where
  "advance_clamped p = p\<lparr>ps_position := min (ps_position p + 1) (source_len p)\<rparr>"

definition operator_starts_here :: "parser \<Rightarrow> bool" where
  "operator_starts_here p \<longleftrightarrow> (\<exists>c \<in> set (map Some ''=<>!?''). peek p = c)"

definition starts_parameter_block :: "parser \<Rightarrow> bool" where
  "starts_parameter_block p \<longleftrightarrow>
    ps_position p + 2 \<le> source_len p \<and> take 2 (drop (ps_position p) (ps_source p)) = ''[[''"

definition consume_delimiter :: "token_kind \<Rightarrow> parser \<Rightarrow> parser" where
  "consume_delimiter k p =
    (let p' = advance_clamped p in push_token k (ps_position p) (ps_position p') p')"

definition consume_expected :: "char \<Rightarrow> parser \<Rightarrow> parser" where
  "consume_expected expected p =
    (if peek p = Some expected then
       consume_delimiter (if expected = CHR ''{'' then OpenDelimiter else CloseDelimiter) p
     else p)"

subsection \<open>Scanning loops\<close>

lemma ask_guard_simps [simp]:
  "ps_source (ask_guard p) = ps_source p" "ps_guard (ask_guard p) = ps_guard p"
  "ps_tokens (ask_guard p) = ps_tokens p" "ps_errors (ask_guard p) = ps_errors p"
  "ps_pending (ask_guard p) = ps_pending p" "ps_nodes (ask_guard p) = ps_nodes p"
  "ps_depth (ask_guard p) = ps_depth p" "ps_work (ask_guard p) = ps_work p"
  by (auto simp: ask_guard_def Let_def split: option.splits)

lemma check_work_simps [simp]:
  "ps_source (check_work f p) = ps_source p" "ps_guard (check_work f p) = ps_guard p"
  "ps_tokens (check_work f p) = ps_tokens p" "ps_errors (check_work f p) = ps_errors p"
  "ps_pending (check_work f p) = ps_pending p" "ps_nodes (check_work f p) = ps_nodes p"
  "ps_depth (check_work f p) = ps_depth p"
  by (simp_all add: check_work_def Let_def)

lemma check_work_position:
  "ps_position (check_work f p) = (if ps_stopped (check_work f p) \<and> \<not> ps_stopped p
     then source_len p else ps_position p)"
  by (auto simp: check_work_def ask_guard_def Let_def split: option.splits)

lemma check_work_running: "\<not> ps_stopped (check_work f p) \<Longrightarrow>
    ps_position (check_work f p) = ps_position p \<and> \<not> ps_stopped p"
  by (simp add: check_work_position) (auto simp: check_work_def)

lemma check_work_stopped [simp]: "ps_stopped p \<Longrightarrow> check_work f p = p"
  by (simp add: check_work_def)

text \<open>The loops of \<open>skip_whitespace\<close> and \<open>parse_comment\<close>: test, account for the work, step.\<close>

function scan_while :: "(char \<Rightarrow> bool) \<Rightarrow> parser \<Rightarrow> parser" where
  "scan_while keep p =
    (if ps_position p < source_len p \<and> keep (ps_source p ! ps_position p) then
       (let p1 = check_work False p in
        if ps_stopped p1 then p1 else scan_while keep (advance 1 p1))
     else p)"
  by pat_completeness auto
termination
  by (relation "measure (\<lambda>(_, p). source_len p - ps_position p)")
    (auto simp: advance_def dest!: check_work_running)

declare scan_while.simps [simp del]

definition skip_whitespace :: "parser \<Rightarrow> parser" where
  "skip_whitespace p = scan_while is_ascii_whitespace p"

definition parse_comment :: "parser \<Rightarrow> cst \<times> parser" where
  "parse_comment p =
    (let p1 = scan_while (\<lambda>b. b \<noteq> CR \<and> b \<noteq> NL) p;
         p2 = push_token CommentToken (ps_position p) (ps_position p1) p1
     in emit Comment (ps_position p) (ps_position p2) 0 p2)"

definition bare_delimiter :: "char \<Rightarrow> bool" where
  "bare_delimiter b \<longleftrightarrow> is_ascii_whitespace b \<or> b \<in> set ''{}[]#=<>!?'' \<or> b = QUOTE"

text \<open>The loop of \<open>parse_bare\<close> accounts for the work before it looks at the byte.\<close>

function bare_loop :: "parser \<Rightarrow> parser" where
  "bare_loop p =
    (if ps_position p < source_len p then
       (let p1 = check_work False p in
        if ps_stopped p1 then p1
        else if bare_delimiter (ps_source p1 ! ps_position p1) then p1
        else bare_loop (advance 1 p1))
     else p)"
  by pat_completeness auto
termination
  by (relation "measure (\<lambda>p. source_len p - ps_position p)")
    (auto simp: advance_def dest!: check_work_running)

declare bare_loop.simps [simp del]

definition parse_bare :: "parser \<Rightarrow> cst option \<times> parser" where
  "parse_bare p =
    (let p1 = bare_loop p in
     if ps_position p1 = ps_position p then (None, p1)
     else
       (let p2 = push_token BareToken (ps_position p) (ps_position p1) p1;
            (t, p3) = emit BareValue (ps_position p) (ps_position p2) 0 p2
        in (Some t, p3)))"

text \<open>\<open>self.source[self.position..].chars().next()\<close> steps by one character.\<close>

definition step_char :: "parser \<Rightarrow> parser option" where
  "step_char p =
    (if is_boundary (ps_source p) (ps_position p) then
       (case char_width_at (ps_source p) (ps_position p) of
          Some w \<Rightarrow> Some (advance w p) | None \<Rightarrow> None)
     else None)"

function quoted_loop :: "parser \<Rightarrow> (bool \<times> parser) option" where
  "quoted_loop p =
    (if ps_position p < source_len p then
       (let p1 = check_work False p in
        if ps_stopped p1 then Some (False, p1)
        else
          (let byte = ps_source p1 ! ps_position p1 in
           if byte = QUOTE then Some (True, advance 1 p1)
           else if byte = BACKSLASH then
             (let p2 = advance 1 p1 in
              if ps_position p2 < source_len p2 then
                (case step_char p2 of None \<Rightarrow> None | Some p3 \<Rightarrow> quoted_loop p3)
              else quoted_loop p2)
           else (case step_char p1 of None \<Rightarrow> None | Some p2 \<Rightarrow> quoted_loop p2)))
     else Some (False, p))"
  by pat_completeness auto
termination
  by (relation "measure (\<lambda>p. source_len p - ps_position p)")
    (auto simp: advance_def step_char_def char_width_at_def dest!: check_work_running
      split: if_splits intro!: diff_less_mono2)

declare quoted_loop.simps [simp del]

definition parse_quoted :: "cst_kind \<Rightarrow> parser \<Rightarrow> (cst \<times> parser) option" where
  "parse_quoted k p =
    (case quoted_loop (advance 1 p) of
       None \<Rightarrow> None
     | Some (closed, p1) \<Rightarrow>
        (let p2 = push_token QuotedToken (ps_position p) (ps_position p1) p1;
             p3 = (if closed then p2 else
               report UnterminatedString (ps_position p) (ps_position p1)
                 (''quoted string is missing `'' @ [QUOTE] @ ''`'') p2)
         in Some (emit k (ps_position p) (ps_position p1) 0 p3)))"

definition operator_length :: "string \<Rightarrow> nat option" where
  "operator_length rest =
    (if take 2 rest \<in> {''>='', ''<='', ''!='', ''=='', ''?=''} then Some 2
     else if take 1 rest \<in> {''='', ''>'', ''<''} then Some 1
     else None)"

definition parse_operator :: "parser \<Rightarrow> (cst \<times> parser) option" where
  "parse_operator p =
    (case operator_length (drop (ps_position p) (ps_source p)) of
       None \<Rightarrow> None
     | Some n \<Rightarrow>
        (let p1 = advance n p;
             p2 = push_token OperatorToken (ps_position p) (ps_position p1) p1
         in Some (emit Operator (ps_position p) (ps_position p2) 0 p2)))"

subsection \<open>Grammar\<close>

text \<open>
  \<open>parse_container\<close> is a loop whose body calls the other methods, which call it again for
  nested blocks. The recursion is tied by fuel: \<open>loop\<close> is what remains of the loop (and every
  nested loop) with less fuel, and the other methods take the container parser as \<open>rec\<close>.
\<close>

type_synonym container = "char option \<Rightarrow> parser \<Rightarrow> parser option"

text \<open>The closing delimiter of a block, or the report that it is missing.\<close>

definition close_block :: "char \<Rightarrow> syntax_error_kind \<Rightarrow> nat \<Rightarrow> string \<Rightarrow> parser \<Rightarrow> parser" where
  "close_block delimiter k start msg p =
    (if peek p = Some delimiter then consume_delimiter CloseDelimiter p
     else report k start (source_len p) msg p)"

definition parse_block :: "container \<Rightarrow> parser \<Rightarrow> (cst \<times> parser) option" where
  "parse_block rec p = do {
     let start = ps_position p;
     let p = consume_expected CHR ''{'' p;
     let mark = length (ps_pending p);
     p \<leftarrow> rec (Some CHR ''}'') p;
     let children = length (ps_pending p) - mark;
     let p = close_block CHR ''}'' UnterminatedBlock start ''script block is missing `}`'' p;
     Some (emit Block start (max (ps_position p) start) children p)
   }"

text \<open>The condition after \<open>[[\<close>: an optional \<open>!\<close> and a bare value, or an error node in its place;
  the second result is \<open>condition_end\<close>.\<close>

definition parse_condition :: "parser \<Rightarrow> cst \<times> nat \<times> parser" where
  "parse_condition p =
    (let condition_start = ps_position p;
         p1 = (if peek p = Some CHR ''!'' then advance 1 p else p);
         (condition, p2) = parse_bare p1;
         condition_end = ps_position p2;
         (node, p3) = (case condition of
             Some c \<Rightarrow> (c, p2)
           | None \<Rightarrow> emit ErrorNode condition_start condition_end 0
               (report UnexpectedToken condition_start condition_end
                  ''parameter block is missing a condition'' p2))
     in (node, condition_end, p3))"

definition close_condition :: "parser \<Rightarrow> parser" where
  "close_condition p =
    (if peek p = Some CHR '']'' then consume_delimiter CloseDelimiter p
     else report UnexpectedToken (ps_position p) (ps_position p)
            ''parameter condition is missing `]`'' p)"

definition parse_parameter_block :: "container \<Rightarrow> parser \<Rightarrow> (cst \<times> parser) option" where
  "parse_parameter_block rec p = do {
     let start = ps_position p;
     let p = consume_delimiter OpenDelimiter p;
     let p = consume_delimiter OpenDelimiter p;
     let condition_start = ps_position p;
     let (condition, condition_end, p) = parse_condition p;
     let p = close_condition (skip_whitespace p);
     let (condition_node, p) =
       emit ParameterCondition condition_start condition_end 1 (push condition p);
     let p = push condition_node p;
     let mark = length (ps_pending p);
     p \<leftarrow> rec (Some CHR '']'') p;
     let children = length (ps_pending p) - mark + 1;
     let p = close_block CHR '']'' UnterminatedParameterBlock start
       ''parameter block is missing `]`'' p;
     Some (emit ParameterBlock start (max (ps_position p) start) children p)
   }"

text \<open>The recovery shared by three methods: one byte is skipped, reported and kept as an error node.\<close>

definition skip_invalid :: "string \<Rightarrow> parser \<Rightarrow> cst \<times> parser" where
  "skip_invalid prefix p =
    (let start = ps_position p;
         p1 = advance_clamped p;
         e = ps_position p1;
         p2 = report UnexpectedToken start e (prefix @ ''`'' @ snippet start e p1 @ ''`'') p1
     in emit ErrorNode start e 0 p2)"

definition header_block :: "nat \<Rightarrow> cst \<Rightarrow> cst \<Rightarrow> parser \<Rightarrow> cst \<times> parser" where
  "header_block start header block p =
    emit HeaderBlock start (cst_end block) 2 (push block (push header p))"

definition parse_value :: "container \<Rightarrow> parser \<Rightarrow> (cst \<times> parser) option" where
  "parse_value rec p =
    (let start = ps_position p in
     if peek p = Some QUOTE then parse_quoted QuotedString p
     else if peek p = Some CHR ''{'' then parse_block rec p
     else if starts_parameter_block p then parse_parameter_block rec p
     else
       (case parse_bare p of
          (None, p1) \<Rightarrow> Some (skip_invalid ''expected a value, found '' p1)
        | (Some value, p1) \<Rightarrow>
           (let p2 = skip_whitespace p1 in
            if peek p2 = Some CHR ''{'' then do {
              (block, p3) \<leftarrow> parse_block rec p2;
              Some (header_block start value block p3)
            } else Some (value, p2))))"

definition missing_value :: "cst \<Rightarrow> parser \<Rightarrow> cst \<times> parser" where
  "missing_value key p =
    (let at = ps_position p;
         p1 = report MissingValue (cst_start key) at
                (''`'' @ snippet (cst_start key) (cst_end key) p @ ''` is missing a value'') p
     in emit ErrorNode at at 0 p1)"

definition parse_property ::
  "container \<Rightarrow> nat \<Rightarrow> cst \<Rightarrow> parser \<Rightarrow> (cst \<times> parser) option" where
  "parse_property rec start key p = do {
     let (operator, p) = (case parse_operator p of
         Some r \<Rightarrow> r
       | None \<Rightarrow> skip_invalid ''invalid operator '' p);
     let p = skip_whitespace p;
     (value, p) \<leftarrow>
       (if source_len p \<le> ps_position p
           \<or> peek p \<in> {Some CHR ''#'', Some CHR ''}'', Some CHR '']''}
        then Some (missing_value key p) else parse_value rec p);
     let (key_node, p) = emit Key (cst_start key) (cst_end key) 1 (push key p);
     let end = cst_end value;
     let (value_node, p) = emit Value (cst_start value) end 1 (push value p);
     Some (emit Property start end 3 (push value_node (push operator (push key_node p))))
   }"

text \<open>One element of a container, after whitespace, the end tests and comments.\<close>

definition parse_stray_delimiter :: "char \<Rightarrow> parser \<Rightarrow> cst \<times> parser" where
  "parse_stray_delimiter delimiter p =
    (let start = ps_position p;
         p1 = advance 1 p;
         p2 = report UnexpectedToken start (ps_position p1)
                (''unexpected `'' @ [delimiter] @ ''`'') p1
     in emit ErrorNode start (ps_position p2) 0 p2)"

definition parse_quoted_element ::
  "container \<Rightarrow> char option \<Rightarrow> parser \<Rightarrow> parser option" where
  "parse_quoted_element rec terminator p = do {
     let start = ps_position p;
     (quoted, p) \<leftarrow> parse_quoted QuotedString p;
     let p = skip_whitespace p;
     if operator_starts_here p then do {
       (property, p) \<leftarrow> parse_property rec start quoted p;
       Some (push property p)
     } else if peek p = Some CHR ''{'' then do {
       (block, p) \<leftarrow> parse_block rec p;
       let (header, p) = header_block start quoted block p;
       Some (push header p)
     } else
       (let p = (if terminator = None then
            report UnexpectedToken start (cst_end quoted)
              ''a top-level script value must be assigned to a key'' p else p)
        in Some (push quoted p))
   }"

definition parse_bare_element :: "container \<Rightarrow> nat \<Rightarrow> cst \<Rightarrow> parser \<Rightarrow> parser option" where
  "parse_bare_element rec start first p =
    (let p = skip_whitespace p in
     if operator_starts_here p then do {
       (property, p) \<leftarrow> parse_property rec start first p;
       Some (push property p)
     } else if peek p = Some CHR ''{'' then do {
       (block, p) \<leftarrow> parse_block rec p;
       let (header, p) = header_block start first block p;
       Some (push header p)
     } else Some (push first p))"

definition parse_other_element ::
  "container \<Rightarrow> char option \<Rightarrow> parser \<Rightarrow> parser option" where
  "parse_other_element rec terminator p =
    (if peek p = Some CHR ''{'' then do {
       (block, p) \<leftarrow> parse_block rec p;
       Some (push block p)
     } else if peek p = Some QUOTE then parse_quoted_element rec terminator p
     else if starts_parameter_block p then do {
       (parameter, p) \<leftarrow> parse_parameter_block rec p;
       Some (push parameter p)
     } else
       (let (recovery, p) = skip_invalid ''unexpected character '' p in Some (push recovery p)))"

definition parse_element :: "container \<Rightarrow> char option \<Rightarrow> parser \<Rightarrow> parser option" where
  "parse_element rec terminator p =
    (if peek p = Some CHR ''#'' then
       (let (comment, p) = parse_comment p in Some (push comment p))
     else if peek p = Some CHR ''}'' \<or> peek p = Some CHR '']'' then
       (let (recovery, p) = parse_stray_delimiter (the (peek p)) p in Some (push recovery p))
     else
       (case parse_bare p of
          (None, p1) \<Rightarrow> parse_other_element rec terminator p1
        | (Some first, p1) \<Rightarrow> parse_bare_element rec (ps_position p) first p1))"

definition enter_container :: "parser \<Rightarrow> parser" where
  "enter_container p = check_work True (p\<lparr>ps_depth := ps_depth p + 1\<rparr>)"

definition leave_container :: "parser \<Rightarrow> parser" where
  "leave_container p = p\<lparr>ps_depth := ps_depth p - 1\<rparr>"

definition parse_container_with :: "container \<Rightarrow> container" where
  "parse_container_with loop terminator p =
    map_option leave_container (loop terminator (enter_container p))"

definition container_step :: "container \<Rightarrow> container" where
  "container_step loop terminator p =
    (let p = check_work False p in
     if ps_stopped p then Some p
     else
       (let p = skip_whitespace p in
        if source_len p \<le> ps_position p \<or> tree_saturated p then Some p
        else if terminator \<noteq> None \<and> peek p = terminator then Some p
        else do {
          p \<leftarrow> parse_element (parse_container_with loop) terminator p;
          loop terminator p
        }))"

primrec container_loop :: "nat \<Rightarrow> container" where
  "container_loop 0 = (\<lambda>_ _. None)"
| "container_loop (Suc fuel) = container_step (container_loop fuel)"

definition parse_container :: "nat \<Rightarrow> container" where
  "parse_container fuel = parse_container_with (container_loop fuel)"

subsection \<open>Entry points\<close>

text \<open>Every pass through a container loop that goes on moves the position, so one unit of fuel more
  than the source has bytes is enough.\<close>

definition script_fuel :: "string \<Rightarrow> nat" where
  "script_fuel src = length src + 2"

definition parse_document :: "parser \<Rightarrow> (parse_parts \<times> parser) option" where
  "parse_document p = do {
     let mark = length (ps_pending p);
     p \<leftarrow> parse_container (script_fuel (ps_source p)) None p;
     let children = length (ps_pending p) - mark;
     let (document, p) = emit Document 0 (source_len p) children p;
     Some (\<lparr>parts_tree = document, parts_tokens = ps_tokens p, parts_errors = ps_errors p\<rparr>, p)
   }"

definition parse_script :: "string \<Rightarrow> parse_parts option" where
  "parse_script src = map_option fst (parse_document (parser_new src))"

text \<open>\<open>parse_guarded_prefix\<close> also returns the arguments of the last call to the guard, which the
  closures of the callers record.\<close>

definition parse_guarded_prefix ::
  "string \<Rightarrow> guard \<Rightarrow> (parse_parts \<times> bool \<times> (nat \<times> nat \<times> nat \<times> nat) option) option" where
  "parse_guarded_prefix src g =
    map_option (\<lambda>(parts, p). (parts, ps_stopped p, ps_last_call p))
      (parse_document ((parser_new src)\<lparr>ps_guard := Some g\<rparr>))"

definition parse_guarded ::
  "string \<Rightarrow> guard \<Rightarrow> (parse_parts option \<times> (nat \<times> nat \<times> nat \<times> nat) option) option" where
  "parse_guarded src g =
    map_option (\<lambda>(parts, stopped, call). (if stopped then None else Some parts, call))
      (parse_guarded_prefix src g)"

end
