(* ===== verification/Script_Correct.thy ===== *)
theory Script_Correct
  imports Script_Parser "HOL-Library.Multiset"
begin

text \<open>
  Correctness of the script front end of \<open>Script_Parser\<close>: every parse of a valid string returns,
  its tree, tokens and errors lie on character boundaries of the source with children inside
  their parents, tokens come in source order, and a guard that never refuses changes nothing.
  One relation, \<open>run\<close>, states what a method does to the parser; each method gets one lemma.
\<close>

subsection \<open>Trees, tokens and states\<close>

definition tree_ok :: "string \<Rightarrow> nat \<Rightarrow> nat \<Rightarrow> cst \<Rightarrow> bool" where
  "tree_ok src a b t \<longleftrightarrow> valid_node src None t \<and> a \<le> cst_start t \<and> cst_end t \<le> b"

lemma valid_node_parent:
  "valid_node src (Some r) t \<longleftrightarrow>
    valid_node src None t \<and> range_start r \<le> cst_start t \<and> cst_end t \<le> range_end r"
  by (cases t) auto

lemma tree_ok_mono: "tree_ok src a b t \<Longrightarrow> a' \<le> a \<Longrightarrow> b \<le> b' \<Longrightarrow> tree_ok src a' b' t"
  by (auto simp: tree_ok_def)

lemma tree_ok_range: "tree_ok src a b t \<Longrightarrow> valid_range src (cst_range t) \<and> cst_start t \<le> cst_end t"
  by (cases t) (auto simp: tree_ok_def valid_range_iff)

lemma tree_ok_Node:
  assumes "valid_range src (make_range s e)" "s \<le> e" "e \<le> u32_max" "a \<le> s" "e \<le> b"
    and "list_all (tree_ok src s e) cs"
  shows "tree_ok src a b (Node k (make_range s e) cs)"
  using assms by (auto simp: tree_ok_def list_all_iff valid_node_parent)

text \<open>Tokens between two positions: not empty, in source order, disjoint.\<close>

fun toks_in :: "nat \<Rightarrow> syntax_token list \<Rightarrow> nat \<Rightarrow> bool" where
  "toks_in a [] b \<longleftrightarrow> a \<le> b"
| "toks_in a (t # ts) b \<longleftrightarrow>
    a \<le> range_start (token_range t) \<and> range_start (token_range t) < range_end (token_range t)
    \<and> toks_in (range_end (token_range t)) ts b"

lemma toks_in_le: "toks_in a ts b \<Longrightarrow> a \<le> b"
  by (induction ts arbitrary: a) fastforce+

lemma toks_in_append: "toks_in a ts b \<Longrightarrow> toks_in b us c \<Longrightarrow> toks_in a (ts @ us) c"
proof (induction ts arbitrary: a)
  case Nil
  then show ?case by (cases us) (auto dest: toks_in_le)
qed auto

lemma toks_in_mono: "toks_in a ts b \<Longrightarrow> b \<le> c \<Longrightarrow> toks_in a ts c"
  by (induction ts arbitrary: a) auto

text \<open>How deep blocks nest in a tree, and the guards that enforce a budget.\<close>

fun block_depth :: "cst \<Rightarrow> nat" where
  "block_depth (Node k r cs) =
    (if k = Block \<or> k = ParameterBlock then 1 else 0) + fold max (map block_depth cs) 0"

definition limits :: "guard \<Rightarrow> nat \<Rightarrow> nat \<Rightarrow> bool" where
  "limits g N D \<longleftrightarrow> (\<forall>i pos n d. g i pos n d \<longrightarrow> n < N \<and> d \<le> D)"

definition within :: "nat \<Rightarrow> nat \<Rightarrow> parser \<Rightarrow> bool" where
  "within N D p \<longleftrightarrow> (\<exists>g. ps_guard p = Some g \<and> limits g N D) \<and> ps_nodes p \<le> N \<and> ps_depth p \<le> D"

lemma fold_max_le: "fold max xs (a::nat) \<le> m \<longleftrightarrow> a \<le> m \<and> (\<forall>x\<in>set xs. x \<le> m)"
  by (induction xs arbitrary: a) auto

lemma block_depth_le:
  "block_depth (Node k r cs) \<le> m \<longleftrightarrow>
    (\<forall>c\<in>set cs. (if k = Block \<or> k = ParameterBlock then 1 else 0) + block_depth c \<le> m)
    \<and> (if k = Block \<or> k = ParameterBlock then 1 else 0) \<le> m"
  using fold_max_le [of "map block_depth cs" 0 "m - 1"] fold_max_le [of "map block_depth cs" 0 m]
  by auto

definition well_placed :: "parser \<Rightarrow> bool" where
  "well_placed p \<longleftrightarrow>
    valid_utf8 (ps_source p) \<and> source_len p \<le> u32_max
    \<and> is_boundary (ps_source p) (ps_position p)
    \<and> (ps_stopped p \<longrightarrow> ps_position p = source_len p)"

text \<open>
  The record of the last call to the guard says whether the parser has stopped, and where.
\<close>

definition guard_agrees :: "parser \<Rightarrow> bool" where
  "guard_agrees p \<longleftrightarrow>
    (case ps_guard p of
       None \<Rightarrow> ps_last_call p = None \<and> \<not> ps_stopped p
     | Some g \<Rightarrow>
        (case ps_last_call p of
           None \<Rightarrow> \<not> ps_stopped p
         | Some (i, offset, n, d) \<Rightarrow>
            offset \<le> source_len p \<and> (ps_stopped p \<longleftrightarrow> \<not> g i offset n d)))"

lemma guard_agrees_simps [simp]:
  "guard_agrees (p\<lparr>ps_work := w\<rparr>) = guard_agrees p"
  "guard_agrees (p\<lparr>ps_position := n\<rparr>) = guard_agrees p"
  "guard_agrees (p\<lparr>ps_nodes := n\<rparr>) = guard_agrees p"
  "guard_agrees (p\<lparr>ps_depth := n\<rparr>) = guard_agrees p"
  "guard_agrees (p\<lparr>ps_tokens := ts\<rparr>) = guard_agrees p"
  "guard_agrees (p\<lparr>ps_errors := es\<rparr>) = guard_agrees p"
  "guard_agrees (p\<lparr>ps_pending := cs\<rparr>) = guard_agrees p"
  by (auto simp: guard_agrees_def split: option.splits)

lemma guard_agrees_steps [simp]:
  "guard_agrees (advance n p) = guard_agrees p"
  "guard_agrees (push t p) = guard_agrees p"
  "guard_agrees (report k s e m p) = guard_agrees p"
  "guard_agrees (push_token tk s e p) = guard_agrees p"
  by (simp_all add: advance_def push_def report_def push_token_def)

lemma guard_agrees_check_work:
  "ps_position p \<le> source_len p \<Longrightarrow> guard_agrees p \<Longrightarrow> guard_agrees (check_work f p)"
  by (auto simp: check_work_def ask_guard_def guard_agrees_def Let_def split: option.splits)

text \<open>
  \<open>run p q new out\<close>: on the way from \<open>p\<close> to \<open>q\<close> the trees \<open>new\<close> were pushed and the trees \<open>out\<close>
  were returned to the caller.
\<close>

text \<open>
  What the last call to the guard was told: no more nodes than have been emitted now, and a depth
  that the trees \<open>ts\<close> account for, nested below \<open>ps_depth p + b\<close> open containers.
\<close>

definition vouched :: "nat \<Rightarrow> parser \<Rightarrow> parser \<Rightarrow> cst list \<Rightarrow> bool" where
  "vouched b p q ts \<longleftrightarrow>
    ps_last_call q = ps_last_call p
    \<or> (\<exists>i offset n d. ps_last_call q = Some (i, offset, n, d) \<and> n \<le> ps_nodes q
        \<and> (\<forall>D. ps_depth p + b \<le> D \<longrightarrow> list_all (\<lambda>t. ps_depth p + b + block_depth t \<le> D) ts \<longrightarrow> d \<le> D))"

lemma vouched_refl [simp]: "vouched b p p ts"
  by (simp add: vouched_def)

lemma vouched_same: "ps_last_call q = ps_last_call p \<Longrightarrow> vouched b p q ts"
  by (simp add: vouched_def)

lemma vouched_mono:
  assumes "vouched b p q ts" and "b \<le> b'"
  shows "vouched b' p q ts"
proof (cases "ps_last_call q = ps_last_call p")
  case True
  then show ?thesis by (rule vouched_same)
next
  case False
  then obtain i offset n d where c: "ps_last_call q = Some (i, offset, n, d)" "n \<le> ps_nodes q"
    and d: "\<And>D. ps_depth p + b \<le> D \<Longrightarrow> list_all (\<lambda>t. ps_depth p + b + block_depth t \<le> D) ts \<Longrightarrow> d \<le> D"
    using assms(1) unfolding vouched_def by blast
  have "d \<le> D" if "ps_depth p + b' \<le> D" "list_all (\<lambda>t. ps_depth p + b' + block_depth t \<le> D) ts" for D
    using that assms(2) by (intro d) (auto simp: list_all_iff)
  then show ?thesis unfolding vouched_def using c by blast
qed

text \<open>A later state over more trees still accounts for the same call.\<close>

lemma vouched_later:
  assumes "vouched b p q ts" and "ps_last_call r = ps_last_call q" "ps_nodes q \<le> ps_nodes r"
    and us: "\<And>D. list_all (\<lambda>t. ps_depth p + b' + block_depth t \<le> D) us \<Longrightarrow> ps_depth p + b' \<le> D \<Longrightarrow>
      ps_depth p + b \<le> D \<and> list_all (\<lambda>t. ps_depth p + b + block_depth t \<le> D) ts"
  shows "vouched b' p r us"
proof (cases "ps_last_call q = ps_last_call p")
  case True
  then show ?thesis using assms(2) by (intro vouched_same) simp
next
  case False
  then obtain i offset n d where c: "ps_last_call q = Some (i, offset, n, d)" "n \<le> ps_nodes q"
    and d: "\<And>D. ps_depth p + b \<le> D \<Longrightarrow> list_all (\<lambda>t. ps_depth p + b + block_depth t \<le> D) ts \<Longrightarrow> d \<le> D"
    using assms(1) unfolding vouched_def by blast
  have "ps_last_call r = Some (i, offset, n, d)" "n \<le> ps_nodes r" using c assms(2,3) by simp_all
  moreover have "d \<le> D"
    if "ps_depth p + b' \<le> D" "list_all (\<lambda>t. ps_depth p + b' + block_depth t \<le> D) us" for D
    using us [OF that(2,1)] d by blast
  ultimately show ?thesis unfolding vouched_def by blast
qed

lemma vouched_trans:
  assumes "vouched b p q ts" and "vouched b q r us"
    and "ps_depth q = ps_depth p" "ps_nodes q \<le> ps_nodes r" "set ts \<union> set us \<subseteq> set vs"
  shows "vouched b p r vs"
proof (cases "ps_last_call r = ps_last_call q")
  case True
  show ?thesis
    by (rule vouched_later [OF assms(1) True assms(4)]) (use assms(5) in \<open>auto simp: list_all_iff\<close>)
next
  case False
  then obtain i offset n d where c: "ps_last_call r = Some (i, offset, n, d)" "n \<le> ps_nodes r"
    and d: "\<And>D. ps_depth p + b \<le> D \<Longrightarrow> list_all (\<lambda>t. ps_depth p + b + block_depth t \<le> D) us \<Longrightarrow> d \<le> D"
    using assms(2) unfolding vouched_def assms(3) by blast
  have "d \<le> D" if "ps_depth p + b \<le> D" "list_all (\<lambda>t. ps_depth p + b + block_depth t \<le> D) vs" for D
    using that assms(5) by (intro d) (auto simp: list_all_iff)
  then show ?thesis unfolding vouched_def using c by blast
qed

text \<open>
  \<open>run_in b p q new out\<close>: the above, with \<open>b\<close> containers just left whose node is not emitted yet.
\<close>

definition run_in :: "nat \<Rightarrow> parser \<Rightarrow> parser \<Rightarrow> cst list \<Rightarrow> cst list \<Rightarrow> bool" where
  "run_in b p q new out \<longleftrightarrow>
    ps_source q = ps_source p \<and> ps_guard q = ps_guard p \<and> ps_depth q = ps_depth p
    \<and> well_placed q \<and> ps_position p \<le> ps_position q \<and> (ps_stopped p \<longrightarrow> ps_stopped q)
    \<and> ps_pending q = ps_pending p @ new
    \<and> list_all (tree_ok (ps_source p) (ps_position p) (ps_position q)) (new @ out)
    \<and> (\<exists>ts. ps_tokens q = ps_tokens p @ ts \<and> toks_in (ps_position p) ts (ps_position q)
        \<and> list_all (\<lambda>t. valid_range (ps_source p) (token_range t)) ts)
    \<and> (\<exists>es. ps_errors q = ps_errors p @ es
        \<and> list_all (\<lambda>e. valid_range (ps_source p) (error_range e)) es)
    \<and> ps_nodes q = ps_nodes p + sum_list (map cst_nodes (new @ out))
    \<and> (guard_agrees p \<longrightarrow> guard_agrees q)
    \<and> (\<forall>N D. within N D p \<longrightarrow> \<not> ps_stopped q \<longrightarrow>
        ps_nodes q \<le> N \<and> list_all (\<lambda>t. ps_depth p + block_depth t \<le> D) (new @ out))
    \<and> vouched b p q (new @ out)"

abbreviation run :: "parser \<Rightarrow> parser \<Rightarrow> cst list \<Rightarrow> cst list \<Rightarrow> bool" where
  "run \<equiv> run_in 0"

lemma run_in_mono: "run_in b p q new out \<Longrightarrow> b \<le> b' \<Longrightarrow> run_in b' p q new out"
  unfolding run_in_def using vouched_mono by blast

named_theorems run_intros

lemma runD:
  assumes "run_in b p q new out"
  shows "ps_source q = ps_source p" "ps_guard q = ps_guard p" "ps_depth q = ps_depth p"
    "well_placed q" "ps_position p \<le> ps_position q" "ps_pending q = ps_pending p @ new"
    "ps_stopped p \<Longrightarrow> ps_stopped q"
    "list_all (tree_ok (ps_source p) (ps_position p) (ps_position q)) (new @ out)"
  using assms by (simp_all add: run_in_def)

lemma well_placed_le: "well_placed p \<Longrightarrow> ps_position p \<le> source_len p \<and> source_len p \<le> u32_max"
  by (auto simp: well_placed_def dest: is_boundary_le)

lemma run_refl [run_intros]: "well_placed p \<Longrightarrow> run_in b p p [] []"
  by (simp add: run_in_def within_def)

lemma run_trans:
  assumes 1: "run_in k p q a x" and 2: "run_in k q r b y"
  shows "run_in k p r (a @ b) (x @ y)"
proof -
  have src: "ps_source q = ps_source p" using runD [OF 1] by simp
  have le: "ps_position p \<le> ps_position q" "ps_position q \<le> ps_position r"
    using runD [OF 1] runD [OF 2] by simp_all
  obtain ts us where t: "ps_tokens q = ps_tokens p @ ts" "toks_in (ps_position p) ts (ps_position q)"
    "list_all (\<lambda>t. valid_range (ps_source p) (token_range t)) ts"
    and u: "ps_tokens r = ps_tokens q @ us" "toks_in (ps_position q) us (ps_position r)"
    "list_all (\<lambda>t. valid_range (ps_source p) (token_range t)) us"
    using 1 2 src unfolding run_in_def by metis
  obtain es fs where e: "ps_errors q = ps_errors p @ es" "ps_errors r = ps_errors q @ fs"
    "list_all (\<lambda>e. valid_range (ps_source p) (error_range e)) (es @ fs)"
    using 1 2 src unfolding run_in_def by (metis list_all_append)
  have trees: "list_all (tree_ok (ps_source p) (ps_position p) (ps_position r)) ((a @ b) @ x @ y)"
    using runD(8) [OF 1] runD(8) [OF 2] le src by (auto simp: list_all_iff intro: tree_ok_mono)
  have bud: "ps_nodes r \<le> N \<and> list_all (\<lambda>t. ps_depth p + block_depth t \<le> D) ((a @ b) @ x @ y)"
    if w: "within N D p" and ns: "\<not> ps_stopped r" for N D
  proof -
    have nq: "\<not> ps_stopped q" using ns runD(7) [OF 2] by blast
    with 1 w have q: "ps_nodes q \<le> N" "list_all (\<lambda>t. ps_depth p + block_depth t \<le> D) (a @ x)"
      by (auto simp: run_in_def)
    then have "within N D q" using w runD(2,3) [OF 1] by (simp add: within_def)
    with 2 ns have "ps_nodes r \<le> N" "list_all (\<lambda>t. ps_depth q + block_depth t \<le> D) (b @ y)"
      by (auto simp: run_in_def)
    with q runD(3) [OF 1] show ?thesis by simp
  qed
  have acc: "vouched k p r ((a @ b) @ x @ y)"
  proof (rule vouched_trans)
    show "vouched k p q (a @ x)" "vouched k q r (b @ y)" using 1 2 by (simp_all add: run_in_def)
    show "ps_depth q = ps_depth p" "ps_nodes q \<le> ps_nodes r" using 1 2 by (simp_all add: run_in_def)
  qed auto
  show ?thesis
    unfolding run_in_def
    using 1 2 src t u e trees bud le acc toks_in_append [OF t(2) u(2)]
    by (simp add: run_in_def)
qed

lemma run_then:
  "run p q a x \<Longrightarrow> run q r [] y \<Longrightarrow> run p r a (x @ y)"
  using run_trans [of 0 p q a x r "[]" y] by simp

lemma run_step: "run_in b p q a x \<Longrightarrow> run q r [] [] \<Longrightarrow> run_in b p r a x"
  using run_trans [of b p q a x r "[]" "[]"] run_in_mono [of 0 q r "[]" "[]" b] by simp

text \<open>The order in which trees were returned does not matter.\<close>

lemma run_perm: "run p q a x \<Longrightarrow> mset x = mset y \<Longrightarrow> run p q a y"
proof -
  assume r: "run p q a x" and m: "mset x = mset y"
  have "set x = set y" using m by (rule mset_eq_setD)
  moreover have "sum_list (map cst_nodes x) = sum_list (map cst_nodes y)"
    using m by (metis mset_map sum_mset_sum_list)
  ultimately have eqs: "list_all P (a @ y) = list_all P (a @ x)"
    "sum_list (map cst_nodes (a @ y)) = sum_list (map cst_nodes (a @ x))"
    "vouched 0 p q (a @ y) = vouched 0 p q (a @ x)" for P
    by (simp_all add: list_all_iff vouched_def)
  show "run p q a y" using r unfolding run_in_def eqs .
qed

lemma run_push:
  assumes "run p q a (t # x)"
  shows "run p (push t q) (a @ [t]) x"
  using assms by (auto simp: run_in_def push_def well_placed_def vouched_def)

subsection \<open>Single steps\<close>

lemma run_report [run_intros]:
  "run_in b p q a x \<Longrightarrow> valid_range (ps_source p) (make_range s e) \<Longrightarrow>
    run_in b p (report k s e m q) a x"
  by (auto simp: run_in_def report_def well_placed_def vouched_def)

text \<open>\<open>moves p q\<close>: the position advances and nothing else a caller can see changes.\<close>

definition moves :: "parser \<Rightarrow> parser \<Rightarrow> bool" where
  "moves p q \<longleftrightarrow>
    ps_source q = ps_source p \<and> ps_guard q = ps_guard p \<and> ps_depth q = ps_depth p
    \<and> ps_tokens q = ps_tokens p \<and> ps_errors q = ps_errors p \<and> ps_pending q = ps_pending p
    \<and> ps_nodes q = ps_nodes p \<and> (ps_stopped p \<longrightarrow> ps_stopped q)
    \<and> (guard_agrees p \<longrightarrow> guard_agrees q)
    \<and> ps_position p \<le> ps_position q \<and> (ps_stopped q \<longrightarrow> ps_position q = source_len p)
    \<and> (ps_last_call q = ps_last_call p
        \<or> (\<exists>i offset. ps_last_call q = Some (i, offset, ps_nodes q, ps_depth q)))"

lemma moves_vouched: "moves p q \<Longrightarrow> vouched b p q ts"
  unfolding moves_def vouched_def by auto

lemma check_work_last_call:
  "ps_last_call (check_work f p) = ps_last_call p
    \<or> (\<exists>i offset. ps_last_call (check_work f p) = Some (i, offset, ps_nodes p, ps_depth p))"
  by (auto simp: check_work_def ask_guard_def Let_def split: option.splits)

lemma moves_trans: "moves p q \<Longrightarrow> moves q r \<Longrightarrow> moves p r"
  by (auto simp: moves_def)

lemma moves_refl: "well_placed p \<Longrightarrow> moves p p"
  by (simp add: moves_def well_placed_def)

lemma moves_check_work:
  assumes "ps_position p \<le> source_len p" "ps_stopped p \<Longrightarrow> ps_position p = source_len p"
  shows "moves p (check_work f p)"
  using assms check_work_position [of f p] guard_agrees_check_work [of p f]
    check_work_last_call [of f p] unfolding moves_def
  by (cases "ps_stopped p") (auto split: if_splits)

lemma moves_advance:
  "\<not> ps_stopped p \<Longrightarrow> moves p (advance n p)"
  by (simp add: moves_def advance_def)

lemma moves_run:
  assumes w: "well_placed p" and m: "moves p q" and b: "is_boundary (ps_source p) (ps_position q)"
  shows "run p q [] []"
proof -
  have "\<exists>ts. ps_tokens q = ps_tokens p @ ts \<and> toks_in (ps_position p) ts (ps_position q)
      \<and> list_all (\<lambda>t. valid_range (ps_source p) (token_range t)) ts"
    by (rule exI [of _ "[]"]) (use m in \<open>simp add: moves_def\<close>)
  moreover have "\<exists>es. ps_errors q = ps_errors p @ es
      \<and> list_all (\<lambda>e. valid_range (ps_source p) (error_range e)) es"
    by (rule exI [of _ "[]"]) (use m in \<open>simp add: moves_def\<close>)
  moreover have "well_placed q" using w m b by (simp add: well_placed_def moves_def)
  ultimately show ?thesis using m moves_vouched [OF m, of 0 "[]"] unfolding run_in_def
    by (simp add: moves_def within_def)
qed

lemma run_check_work [run_intros]:
  assumes w: "well_placed p"
  shows "run p (check_work f p) [] []"
proof (rule moves_run [OF w])
  show "moves p (check_work f p)"
    using w well_placed_le [OF w] by (intro moves_check_work) (auto simp: well_placed_def)
  show "is_boundary (ps_source p) (ps_position (check_work f p))"
    using w by (simp add: check_work_position well_placed_def)
qed

lemma moves_token:
  assumes "well_placed p" and m: "moves p q" and b: "is_boundary (ps_source p) (ps_position q)"
    and lt: "ps_position p < ps_position q"
  shows "run p (push_token k (ps_position p) (ps_position q) q) [] []"
proof -
  have le: "ps_position q \<le> u32_max"
    using is_boundary_le [OF b] assms(1) by (simp add: well_placed_def)
  then have "valid_range (ps_source p) (make_range (ps_position p) (ps_position q))"
    using assms by (intro valid_range_make) (auto simp: well_placed_def)
  moreover have "vouched 0 p (push_token k (ps_position p) (ps_position q) q) []"
    using moves_vouched [OF m, of 0 "[]"] by (simp add: vouched_def push_token_def)
  ultimately show ?thesis using assms le
    by (auto simp: run_in_def moves_def well_placed_def within_def push_token_def)
qed

lemma run_token:
  assumes r: "run p q [] []" and "moves q s" "is_boundary (ps_source p) (ps_position s)"
    "ps_position q < ps_position s"
  shows "run p (push_token k (ps_position q) (ps_position s) s) [] []"
  using run_step [OF r moves_token] assms runD [OF r] by simp

lemma tree_ok_covers: "tree_ok src a b t \<Longrightarrow> a \<le> cst_end t \<and> cst_start t \<le> b"
  using tree_ok_range [of src a b t] by (auto simp: tree_ok_def)

text \<open>The trees of a nested container stay within the depth budget one level down.\<close>

definition deep :: "parser \<Rightarrow> parser \<Rightarrow> cst list \<Rightarrow> bool" where
  "deep p q cs \<longleftrightarrow>
    (\<forall>N D. within N D p \<longrightarrow> \<not> ps_stopped q \<longrightarrow>
      ps_depth p + 1 \<le> D \<and> list_all (\<lambda>t. ps_depth p + 1 + block_depth t \<le> D) cs)"

text \<open>Emitting a node over the last \<open>cs\<close> pending children.\<close>

lemma run_emit_gen:
  assumes r: "run_in b p q (a @ cs) x" and n: "length cs = n"
    and b: "b = 0 \<or> b = 1 \<and> (k = Block \<or> k = ParameterBlock) \<and> a = [] \<and> x = []"
    and v: "is_boundary (ps_source p) s" "is_boundary (ps_source p) e" "s \<le> e"
    and pos: "ps_position p \<le> s" "e \<le> ps_position q"
    and cs: "list_all (\<lambda>c. s \<le> cst_start c \<and> cst_end c \<le> e) cs"
    and dep: "k = Block \<or> k = ParameterBlock \<longrightarrow> deep p q cs"
    and e: "emit k s e n q = (t, q')"
  shows "run p q' a (t # x)" and "cst_range t = make_range s e" and "cst_children t = cs"
    and "cst_kind t = k" and "cst_start t = s" and "cst_end t = e"
    and "ps_position q \<le> ps_position q'"
proof -
  have wq: "well_placed q" and src: "ps_source q = ps_source p"
    and pend: "ps_pending q = ps_pending p @ a @ cs" using runD [OF r] by simp_all
  have le: "e \<le> u32_max" using is_boundary_le [OF v(2)] wq src by (simp add: well_placed_def)
  let ?c = "check_work True q"
  have t: "t = Node k (make_range s e) cs"
    and q': "q' = ?c\<lparr>ps_nodes := ps_nodes q + 1, ps_pending := ps_pending p @ a\<rparr>"
    using e n pend by (auto simp: emit_def Let_def)
  show "cst_range t = make_range s e" "cst_children t = cs" "cst_kind t = k"
    "cst_start t = s" "cst_end t = e" using v(3) le by (simp_all add: t)
  have rc: "run q ?c [] []" using wq by (rule run_check_work)
  show "ps_position q \<le> ps_position q'" using runD(5) [OF rc] by (simp add: q')
  have ok: "valid_range (ps_source p) (make_range s e)"
    using v le wq src by (intro valid_range_make) (auto simp: well_placed_def)
  have rr: "run_in b p ?c (a @ cs) x" using run_step [OF r rc] .
  have acc: "vouched 0 p q' (a @ t # x)"
  proof (rule vouched_later)
    show "vouched b p ?c ((a @ cs) @ x)" using rr by (simp add: run_in_def)
    show "ps_last_call q' = ps_last_call ?c" "ps_nodes ?c \<le> ps_nodes q'"
      using rc by (simp_all add: q' run_in_def)
    fix D assume D: "list_all (\<lambda>t. ps_depth p + 0 + block_depth t \<le> D) (a @ t # x)" "ps_depth p + 0 \<le> D"
    then obtain m where m: "D = ps_depth p + m" using le_Suc_ex by fastforce
    from D(1) have "block_depth t \<le> m" by (simp add: m)
    then have "(if k = Block \<or> k = ParameterBlock then 1 else 0) \<le> m"
      "\<forall>c\<in>set cs. (if k = Block \<or> k = ParameterBlock then 1 else 0) + block_depth c \<le> m"
      unfolding t block_depth_le by blast+
    then show "ps_depth p + b \<le> D
        \<and> list_all (\<lambda>t. ps_depth p + b + block_depth t \<le> D) ((a @ cs) @ x)"
      using b D(1) by (auto simp: m list_all_iff split: if_splits)
  qed
  have "list_all (tree_ok (ps_source p) s e) cs"
    using runD(8) [OF r] cs by (auto simp: list_all_iff tree_ok_def)
  then have tok: "tree_ok (ps_source p) (ps_position p) (ps_position ?c) t"
    unfolding t using ok v(3) le pos runD(5) [OF rc] by (intro tree_ok_Node) auto
  have bud: "ps_nodes q + 1 \<le> N \<and> list_all (\<lambda>t. ps_depth p + block_depth t \<le> D) (a @ t # x)"
    if w: "within N D p" and ns: "\<not> ps_stopped ?c" for N D
  proof -
    have nq: "\<not> ps_stopped q" using ns runD(7) [OF rc] by blast
    then have d: "list_all (\<lambda>t. ps_depth p + block_depth t \<le> D) ((a @ cs) @ x)"
      using r w by (simp add: run_in_def)
    obtain g where g: "ps_guard p = Some g" "limits g N D" using w by (auto simp: within_def)
    have "g (ps_guard_calls q) (ps_position q) (ps_nodes q) (ps_depth q)"
      using ns nq g(1) runD(2) [OF r]
      by (auto simp: check_work_def ask_guard_def Let_def split: if_splits)
    then have "ps_nodes q < N" using g(2) by (auto simp: limits_def)
    moreover have "ps_depth p + block_depth t \<le> D"
    proof -
      have dd: "ps_depth p \<le> D" using w by (simp add: within_def)
      then obtain m where m: "D = ps_depth p + m" using le_Suc_ex by blast
      have "k = Block \<or> k = ParameterBlock \<longrightarrow>
          ps_depth p + 1 \<le> D \<and> list_all (\<lambda>t. ps_depth p + 1 + block_depth t \<le> D) cs"
        using dep w nq unfolding deep_def by blast
      then have "block_depth t \<le> m"
        unfolding t block_depth_le using d by (auto simp: list_all_iff m)
      then show ?thesis by (simp add: m)
    qed
    ultimately show ?thesis using d by simp
  qed
  have tr: "list_all (tree_ok (ps_source p) (ps_position p) (ps_position q')) (a @ t # x)"
    using runD(8) [OF rr] tok by (simp add: q')
  have wq': "well_placed q'" using runD(4) [OF rr] by (simp add: q' well_placed_def)
  have nd: "ps_nodes q' = ps_nodes p + sum_list (map cst_nodes (a @ t # x))"
    using r by (simp add: q' t run_in_def)
  show "run p q' a (t # x)"
    using rr tr nd bud wq' acc unfolding run_in_def by (simp add: q')
qed

text \<open>Emission of leaves and of nodes that are not containers.\<close>

lemma run_parent:
  assumes r: "run p q cs x" and n: "length cs = n"
    and v: "is_boundary (ps_source p) s" "is_boundary (ps_source p) e" "s \<le> e"
    "ps_position p \<le> s" "e \<le> ps_position q"
    and cs: "list_all (\<lambda>c. s \<le> cst_start c \<and> cst_end c \<le> e) cs"
    and k: "k \<noteq> Block" "k \<noteq> ParameterBlock" and e: "emit k s e n q = (t, q')"
  shows "run p q' [] (t # x) \<and> cst_start t = s \<and> cst_end t = e \<and> ps_position q \<le> ps_position q'"
proof -
  have r': "run p q ([] @ cs) x" using r by simp
  have d: "k = Block \<or> k = ParameterBlock \<longrightarrow> deep p q cs" using k by blast
  have z: "(0::nat) = 0 \<or> (0::nat) = 1 \<and> (k = Block \<or> k = ParameterBlock) \<and> ([]::cst list) = [] \<and> x = []"
    by simp
  note g = run_emit_gen [OF r' n z v cs d e]
  show ?thesis using g(1) g(5) g(6) g(7) by blast
qed

lemma run_leaf:
  assumes r: "run p q [] x" and v: "is_boundary (ps_source p) s" "is_boundary (ps_source p) e"
    "s \<le> e" "ps_position p \<le> s" "e \<le> ps_position q"
    and k: "k \<noteq> Block" "k \<noteq> ParameterBlock" and e: "emit k s e 0 q = (t, q')"
  shows "run p q' [] (t # x) \<and> cst_start t = s \<and> cst_end t = e \<and> ps_position q \<le> ps_position q'"
  by (rule run_parent [OF r _ v _ k e]) simp_all

subsection \<open>Scanners\<close>

lemma ascii_step:
  assumes "well_placed p" and "ps_position p < source_len p"
    and "byte_of (ps_source p ! ps_position p) < 128"
  shows "is_boundary (ps_source p) (ps_position p + 1)" and "ps_position p + 1 \<le> source_len p"
  using valid_utf8_next_boundary [of "ps_source p" "ps_position p"] assms
  by (auto simp: well_placed_def utf8_width_def)

lemma is_boundary_end: "is_boundary s (length s)"
  by simp

lemma scan_while_unfold:
  "\<not> (ps_position p < source_len p \<and> keep (ps_source p ! ps_position p)) \<Longrightarrow> scan_while keep p = p"
  "ps_position p < source_len p \<Longrightarrow> keep (ps_source p ! ps_position p) \<Longrightarrow>
    ps_stopped (check_work False p) \<Longrightarrow> scan_while keep p = check_work False p"
  "ps_position p < source_len p \<Longrightarrow> keep (ps_source p ! ps_position p) \<Longrightarrow>
    \<not> ps_stopped (check_work False p) \<Longrightarrow>
    scan_while keep p = scan_while keep (advance 1 (check_work False p))"
  subgoal by (subst scan_while.simps) auto
  subgoal by (subst scan_while.simps) (simp add: Let_def)
  subgoal by (subst scan_while.simps) (simp add: Let_def)
  done

lemma check_work_keeps:
  "\<not> ps_stopped (check_work f p) \<Longrightarrow> ps_position (check_work f p) = ps_position p"
  by (blast dest: check_work_running)

text \<open>One vouched step to the right.\<close>

lemma work_step:
  fixes n :: nat
  assumes "ps_position p < source_len p" and "\<not> ps_stopped (check_work f p)"
  defines "d \<equiv> advance n (check_work f p)"
  shows "ps_source d = ps_source p" "ps_position d = ps_position p + n" "\<not> ps_stopped d" "moves p d"
    "\<not> ps_stopped p"
proof -
  show ns: "\<not> ps_stopped p" and "ps_source d = ps_source p" "ps_position d = ps_position p + n"
    "\<not> ps_stopped d"
    using check_work_running [OF assms(2)] assms(2) by (simp_all add: d_def advance_def)
  have "moves p (check_work f p)" using assms(1) ns by (intro moves_check_work) simp_all
  from moves_trans [OF this moves_advance [OF assms(2), of n]] show "moves p d" by (simp add: d_def)
qed

definition at_rest :: "parser \<Rightarrow> bool" where
  "at_rest p \<longleftrightarrow> ps_position p \<le> source_len p \<and> (ps_stopped p \<longrightarrow> ps_position p = source_len p)"

lemma well_placed_at_rest: "well_placed p \<Longrightarrow> at_rest p"
  by (auto simp: well_placed_def at_rest_def dest: is_boundary_le)

lemma stopped_position:
  "at_rest p \<Longrightarrow> ps_stopped (check_work f p) \<Longrightarrow> ps_position (check_work f p) = source_len p"
  by (cases "ps_stopped p") (simp_all add: at_rest_def check_work_position)

lemma scan_while_moves:
  assumes "at_rest p"
  shows "moves p (scan_while keep p) \<and> ps_position (scan_while keep p) \<le> source_len p \<and>
    (ps_position (scan_while keep p) = source_len p \<or>
      \<not> keep (ps_source p ! ps_position (scan_while keep p)))"
  using assms
proof (induction keep p rule: scan_while.induct)
  case (1 keep p)
  let ?c = "check_work False p"
  have m: "moves p ?c" using 1(2) by (intro moves_check_work) (simp_all add: at_rest_def)
  consider (exit) "\<not> (ps_position p < source_len p \<and> keep (ps_source p ! ps_position p))"
    | (halt) "ps_position p < source_len p" "keep (ps_source p ! ps_position p)" "ps_stopped ?c"
    | (go) "ps_position p < source_len p" "keep (ps_source p ! ps_position p)" "\<not> ps_stopped ?c" by blast
  then show ?case
  proof cases
    case exit
    then show ?thesis using "1.prems" unfolding scan_while_unfold(1) [where keep = keep, OF exit]
      by (auto simp: moves_def at_rest_def)
  next
    case halt
    show ?thesis unfolding scan_while_unfold(2) [where keep = keep, OF halt]
      using m stopped_position [OF "1.prems" halt(3)] by simp
  next
    case go
    note d = work_step(1-4) [OF go(1) go(3), of 1]
    have "at_rest (advance 1 ?c)" using d(1-3) go(1) by (simp add: at_rest_def)
    from "1.IH" [OF conjI [OF go(1,2)] refl go(3) this] show ?thesis
      unfolding scan_while_unfold(3) [where keep = keep, OF go] d(1) using moves_trans [OF d(4)] by blast
  qed
qed

lemma ascii_boundary_exit:
  assumes "n = length s \<or> (n < length s \<and> byte_of (s ! n) < 128)"
  shows "is_boundary s n"
  using assms is_boundary_ascii by auto

lemma scan_while_boundary:
  assumes "\<And>b. keep b \<Longrightarrow> byte_of b < 128" and "well_placed p"
  shows "is_boundary (ps_source p) (ps_position (scan_while keep p))"
  using assms
proof (induction keep p rule: scan_while.induct)
  case (1 keep p)
  let ?c = "check_work False p"
  note rest = well_placed_at_rest [OF "1.prems"(2)]
  consider (exit) "\<not> (ps_position p < source_len p \<and> keep (ps_source p ! ps_position p))"
    | (halt) "ps_position p < source_len p" "keep (ps_source p ! ps_position p)" "ps_stopped ?c"
    | (go) "ps_position p < source_len p" "keep (ps_source p ! ps_position p)" "\<not> ps_stopped ?c" by blast
  then show ?case
  proof cases
    case exit
    then show ?thesis using "1.prems" unfolding scan_while_unfold(1) [where keep = keep, OF exit]
      by (simp add: well_placed_def)
  next
    case halt
    show ?thesis unfolding scan_while_unfold(2) [where keep = keep, OF halt]
      using stopped_position [OF rest halt(3)] by simp
  next
    case go
    note d = work_step(1-3) [OF go(1) go(3), of 1]
    have "well_placed (advance 1 ?c)"
      using ascii_step(1) [OF "1.prems"(2) go(1) "1.prems"(1) [OF go(2)]] "1.prems"(2) d
      by (simp add: well_placed_def)
    from "1.IH" [OF conjI [OF go(1,2)] refl go(3) "1.prems"(1) this] show ?thesis
      unfolding scan_while_unfold(3) [where keep = keep, OF go] d(1) by blast
  qed
qed

lemma whitespace_ascii: "is_ascii_whitespace b \<Longrightarrow> byte_of b < 128"
  by (auto simp: is_ascii_whitespace_def byte_of_def)

lemma run_skip_whitespace [run_intros]:
  assumes "well_placed p"
  shows "run p (skip_whitespace p) [] []"
  unfolding skip_whitespace_def
  using scan_while_moves [OF well_placed_at_rest [OF assms]]
    scan_while_boundary [OF whitespace_ascii assms]
  by (intro moves_run [OF assms]) auto

lemma bare_loop_unfold:
  "\<not> ps_position p < source_len p \<Longrightarrow> bare_loop p = p"
  "ps_position p < source_len p \<Longrightarrow> ps_stopped (check_work False p) \<Longrightarrow>
    bare_loop p = check_work False p"
  "ps_position p < source_len p \<Longrightarrow> \<not> ps_stopped (check_work False p) \<Longrightarrow>
    bare_delimiter (ps_source p ! ps_position p) \<Longrightarrow> bare_loop p = check_work False p"
  "ps_position p < source_len p \<Longrightarrow> \<not> ps_stopped (check_work False p) \<Longrightarrow>
    \<not> bare_delimiter (ps_source p ! ps_position p) \<Longrightarrow>
    bare_loop p = bare_loop (advance 1 (check_work False p))"
  subgoal by (subst bare_loop.simps) simp
  subgoal by (subst bare_loop.simps) (simp add: Let_def)
  subgoal by (subst bare_loop.simps) (simp add: Let_def check_work_keeps)
  subgoal by (subst bare_loop.simps) (simp add: Let_def check_work_keeps)
  done

lemma bare_loop_moves:
  assumes "at_rest p"
  shows "moves p (bare_loop p) \<and> ps_position (bare_loop p) \<le> source_len p \<and>
    (ps_position (bare_loop p) = source_len p \<or>
      bare_delimiter (ps_source p ! ps_position (bare_loop p)))"
  using assms
proof (induction p rule: bare_loop.induct)
  case (1 p)
  let ?c = "check_work False p"
  have m: "moves p ?c" using 1(2) by (intro moves_check_work) (simp_all add: at_rest_def)
  consider (exit) "\<not> ps_position p < source_len p"
    | (halt) "ps_position p < source_len p" "ps_stopped ?c"
    | (delimiter) "ps_position p < source_len p" "\<not> ps_stopped ?c"
        "bare_delimiter (ps_source p ! ps_position p)"
    | (go) "ps_position p < source_len p" "\<not> ps_stopped ?c"
        "\<not> bare_delimiter (ps_source p ! ps_position p)" by blast
  then show ?case
  proof cases
    case exit
    then show ?thesis using "1.prems" unfolding bare_loop_unfold(1) [OF exit]
      by (auto simp: moves_def at_rest_def)
  next
    case halt
    show ?thesis unfolding bare_loop_unfold(2) [OF halt]
      using m stopped_position [OF "1.prems" halt(2)] by simp
  next
    case delimiter
    show ?thesis unfolding bare_loop_unfold(3) [OF delimiter]
      using m delimiter by (simp add: check_work_keeps)
  next
    case go
    note d = work_step(1-4) [OF go(1,2), of 1]
    have "at_rest (advance 1 ?c)" using d(1-3) go(1) by (simp add: at_rest_def)
    with "1.IH" [OF go(1) refl go(2)] go(2,3) show ?thesis
      unfolding bare_loop_unfold(4) [OF go] d(1) using moves_trans [OF d(4)]
      by (simp add: check_work_keeps)
  qed
qed

lemma bare_delimiter_ascii: "bare_delimiter b \<Longrightarrow> byte_of b < 128"
  by (auto simp: bare_delimiter_def QUOTE_def byte_of_def dest: whitespace_ascii [unfolded byte_of_def])

lemma run_parse_comment:
  assumes w: "well_placed p" and h: "peek p = Some CHR ''#''" and e: "parse_comment p = (t, q)"
  shows "run p q [] [t] \<and> ps_position p < ps_position q"
proof -
  have lt: "ps_position p < source_len p" and b: "ps_source p ! ps_position p = CHR ''#''"
    using h by (auto simp: peek_def split: if_splits)
  define p1 where "p1 = scan_while (\<lambda>b. b \<noteq> CR \<and> b \<noteq> NL) p"
  note m = scan_while_moves [OF well_placed_at_rest [OF w], of "\<lambda>b. b \<noteq> CR \<and> b \<noteq> NL", folded p1_def]
  have bd: "is_boundary (ps_source p) (ps_position p1)"
    using m by (intro ascii_boundary_exit) (auto simp: CR_def NL_def byte_of_def)
  have ne: "ps_position p1 \<noteq> ps_position p" using m lt b by (auto simp: CR_def NL_def)
  then have less: "ps_position p < ps_position p1" using m by (auto simp: moves_def)
  define p2 where "p2 = push_token CommentToken (ps_position p) (ps_position p1) p1"
  have r2: "run p p2 [] []" unfolding p2_def using m bd less by (intro moves_token [OF w]) auto
  have pos2: "ps_position p2 = ps_position p1" by (simp add: p2_def push_token_def)
  have e2: "emit Comment (ps_position p) (ps_position p1) 0 p2 = (t, q)"
    using e by (simp add: parse_comment_def Let_def p1_def p2_def push_token_def)
  show ?thesis
    using run_leaf [OF r2 _ bd _ _ _ _ _ e2] w less pos2 by (simp add: well_placed_def)
qed

text \<open>What a method that returns one tree does: \<open>p\<close> is where it started.\<close>

definition returns :: "parser \<Rightarrow> cst \<Rightarrow> parser \<Rightarrow> bool" where
  "returns p t q \<longleftrightarrow> run p q [] [t] \<and> cst_start t = ps_position p \<and> ps_position p < ps_position q"

lemma returnsD:
  assumes "returns p t q"
  shows "run p q [] [t]" "cst_start t = ps_position p" "ps_position p < ps_position q"
    "cst_end t \<le> ps_position q" "ps_position p \<le> cst_end t" "well_placed q"
    "ps_source q = ps_source p" "is_boundary (ps_source p) (cst_end t)"
proof -
  show r: "run p q [] [t]" and "cst_start t = ps_position p" "ps_position p < ps_position q"
    using assms by (simp_all add: returns_def)
  from runD(8) [OF r] have t: "tree_ok (ps_source p) (ps_position p) (ps_position q) t" by simp
  then show "cst_end t \<le> ps_position q" by (simp add: tree_ok_def)
  show "ps_position p \<le> cst_end t" using tree_ok_covers [OF t] by simp
  show "well_placed q" "ps_source q = ps_source p" using runD [OF r] by simp_all
  show "is_boundary (ps_source p) (cst_end t)" using tree_ok_range [OF t] by (simp add: valid_range_iff)
qed

lemma run_token_leaf:
  assumes w: "well_placed p" and m: "moves p p1" and b: "is_boundary (ps_source p) (ps_position p1)"
    and lt: "ps_position p < ps_position p1" and k: "k \<noteq> Block" "k \<noteq> ParameterBlock"
    and e: "emit k (ps_position p) (ps_position p1) 0
      (push_token tk (ps_position p) (ps_position p1) p1) = (t, q)"
  shows "returns p t q"
proof -
  let ?p2 = "push_token tk (ps_position p) (ps_position p1) p1"
  have r2: "run p ?p2 [] []" using m b lt by (intro moves_token [OF w]) auto
  have pos: "ps_position ?p2 = ps_position p1" by (simp add: push_token_def)
  show ?thesis unfolding returns_def
    using run_leaf [OF r2 _ b _ _ _ k e] w lt pos by (simp add: well_placed_def)
qed

lemma run_parse_bare:
  assumes w: "well_placed p" and e: "parse_bare p = (r, q)"
  shows "case r of
      None \<Rightarrow> run p q [] [] \<and> ps_position q = ps_position p
        \<and> (ps_position p < source_len p \<longrightarrow> byte_of (ps_source p ! ps_position p) < 128)
    | Some t \<Rightarrow> returns p t q"
proof -
  note m = bare_loop_moves [OF well_placed_at_rest [OF w]]
  have bd: "is_boundary (ps_source p) (ps_position (bare_loop p))"
    using m by (intro ascii_boundary_exit) (auto dest: bare_delimiter_ascii)
  show ?thesis
  proof (cases "ps_position (bare_loop p) = ps_position p")
    case True
    then have r: "r = None" "q = bare_loop p" using e by (simp_all add: parse_bare_def Let_def)
    have "run p q [] []" unfolding r(2) using m bd by (intro moves_run [OF w]) auto
    then show ?thesis using r True m by (auto dest: bare_delimiter_ascii)
  next
    case False
    with m have lt: "ps_position p < ps_position (bare_loop p)" by (auto simp: moves_def)
    obtain t where t: "r = Some t"
      "emit BareValue (ps_position p) (ps_position (bare_loop p)) 0
        (push_token BareToken (ps_position p) (ps_position (bare_loop p)) (bare_loop p)) = (t, q)"
      using e False by (auto simp: parse_bare_def Let_def push_token_def split: prod.splits)
    have "returns p t q" using run_token_leaf [OF w _ bd lt _ _ t(2)] m by simp
    then show ?thesis by (simp add: t(1))
  qed
qed

lemma step_char_ok:
  assumes "well_placed p" and "ps_position p < source_len p" and "\<not> ps_stopped p"
  shows "\<exists>q. step_char p = Some q \<and> well_placed q \<and> moves p q \<and> ps_position p < ps_position q
    \<and> ps_source q = ps_source p \<and> \<not> ps_stopped q"
proof -
  note v = valid_utf8_next_boundary [of "ps_source p" "ps_position p"]
  show ?thesis using assms v
    by (auto simp: step_char_def char_width_at_def well_placed_def advance_def moves_def)
qed

lemma quoted_loop_total:
  "well_placed p \<Longrightarrow> \<exists>c q. quoted_loop p = Some (c, q) \<and> moves p q \<and> well_placed q"
proof (induction "source_len p - ps_position p" arbitrary: p rule: less_induct)
  case less
  let ?c = "check_work False p"
  have rc: "run p ?c [] []" using less.prems by (rule run_check_work)
  have mc: "moves p ?c" using well_placed_at_rest [OF less.prems]
    by (intro moves_check_work) (simp_all add: at_rest_def)
  have next_q: "\<exists>c q. quoted_loop p' = Some (c, q) \<and> moves p q \<and> well_placed q"
    if "well_placed p'" "moves p p'" "ps_position p < ps_position p'" "ps_source p' = ps_source p"
    for p'
  proof -
    have "source_len p' - ps_position p' < source_len p - ps_position p"
      unfolding that(4) using that(3,4) well_placed_le [OF that(1)]
      by (intro diff_less_mono2) auto
    from less.hyps [OF this that(1)] show ?thesis using moves_trans [OF that(2)] by blast
  qed
  show ?case
  proof (cases "ps_position p < source_len p")
    case False
    then show ?thesis using less.prems
      by (subst quoted_loop.simps) (auto simp: moves_refl)
  next
    case lt: True
    show ?thesis
    proof (cases "ps_stopped ?c")
      case True
      then show ?thesis using lt mc runD(4) [OF rc]
        by (subst quoted_loop.simps) auto
    next
      case False
      note wc = runD(4) [OF rc]
      have pos: "ps_position ?c = ps_position p" using False by (rule check_work_keeps)
      let ?b = "ps_source p ! ps_position p"
      have adv: "well_placed (advance 1 ?c) \<and> moves p (advance 1 ?c)
          \<and> ps_position (advance 1 ?c) = ps_position p + 1 \<and> ps_source (advance 1 ?c) = ps_source p
          \<and> \<not> ps_stopped (advance 1 ?c)" if "byte_of ?b < 128"
        using ascii_step(1) [OF less.prems lt that] wc pos False
          moves_trans [OF mc moves_advance [OF False, of 1]]
        by (simp add: advance_def well_placed_def)
      consider (quote) "?b = QUOTE" | (backslash) "?b \<noteq> QUOTE" "?b = BACKSLASH"
        | (other) "?b \<noteq> QUOTE" "?b \<noteq> BACKSLASH" by blast
      then show ?thesis
      proof cases
        case quote
        then have "byte_of ?b < 128" by (simp add: QUOTE_def byte_of_def)
        then show ?thesis using adv lt False pos quote
          by (subst quoted_loop.simps) (auto simp: Let_def)
      next
        case backslash
        then have "byte_of ?b < 128" by (simp add: BACKSLASH_def byte_of_def)
        note a = adv [OF this]
        show ?thesis
        proof (cases "ps_position (advance 1 ?c) < source_len (advance 1 ?c)")
          case True
          obtain q where q: "step_char (advance 1 ?c) = Some q" "well_placed q"
            "moves (advance 1 ?c) q" "ps_position (advance 1 ?c) < ps_position q"
            "ps_source q = ps_source p"
            using step_char_ok [of "advance 1 ?c"] a True by auto
          have "\<exists>c r. quoted_loop q = Some (c, r) \<and> moves p r \<and> well_placed r"
            using q a moves_trans [of p "advance 1 ?c" q] by (intro next_q) auto
          then show ?thesis using lt False pos backslash True q(1)
            by (subst quoted_loop.simps) (simp add: Let_def)
        next
          case fin: False
          have "\<exists>c r. quoted_loop (advance 1 ?c) = Some (c, r) \<and> moves p r \<and> well_placed r"
            using a by (intro next_q) auto
          then show ?thesis using lt False pos backslash fin
            by (subst quoted_loop.simps) (simp add: Let_def)
        qed
      next
        case other
        obtain q where q: "step_char ?c = Some q" "well_placed q" "moves ?c q"
          "ps_position ?c < ps_position q" "ps_source q = ps_source p"
          using step_char_ok [of ?c] wc pos lt False by auto
        have "\<exists>c r. quoted_loop q = Some (c, r) \<and> moves p r \<and> well_placed r"
          using q pos moves_trans [OF mc q(3)] by (intro next_q) auto
        then show ?thesis using lt False pos other q(1)
          by (subst quoted_loop.simps) (simp add: Let_def)
      qed
    qed
  qed
qed

lemma run_parse_quoted:
  assumes w: "well_placed p" and h: "peek p = Some QUOTE" and k: "k \<noteq> Block" "k \<noteq> ParameterBlock"
  shows "\<exists>t q. parse_quoted k p = Some (t, q) \<and> returns p t q"
proof -
  have lt: "ps_position p < source_len p" and b: "byte_of (ps_source p ! ps_position p) < 128"
    using h by (auto simp: peek_def QUOTE_def byte_of_def split: if_splits)
  show ?thesis
  proof (cases "ps_stopped p")
    case True
    then show ?thesis using w lt by (simp add: well_placed_def)
  next
    case ns: False
    let ?p1 = "advance 1 p"
    have w1: "well_placed ?p1" using ascii_step(1) [OF w lt b] w ns
      by (simp add: well_placed_def advance_def)
    obtain c q1 where l: "quoted_loop ?p1 = Some (c, q1)" and m1: "moves ?p1 q1" and wq: "well_placed q1"
      using quoted_loop_total [OF w1] by blast
    have m: "moves p q1" using moves_trans [OF moves_advance [OF ns] m1] .
    have less: "ps_position p < ps_position q1" using m1 by (simp add: moves_def advance_def)
    have bd: "is_boundary (ps_source p) (ps_position q1)"
      using wq m by (simp add: well_placed_def moves_def)
    let ?t = "push_token QuotedToken (ps_position p) (ps_position q1) q1"
    have r2: "run p ?t [] []" using m bd less by (intro moves_token [OF w]) auto
    have v: "valid_range (ps_source p) (make_range (ps_position p) (ps_position q1))"
      using w bd less by (intro valid_range_make) (auto simp: well_placed_def)
    define p3 where "p3 = (if c then ?t else report UnterminatedString (ps_position p) (ps_position q1)
      (''quoted string is missing `'' @ [QUOTE] @ ''`'') ?t)"
    have r3: "run p p3 [] []" unfolding p3_def using r2 run_report [OF r2 v] by simp
    have pos: "ps_position p3 = ps_position q1" by (simp add: p3_def push_token_def report_def)
    obtain t q where e: "emit k (ps_position p) (ps_position q1) 0 p3 = (t, q)" by fastforce
    have "returns p t q" unfolding returns_def
      using run_leaf [OF r3 _ bd _ _ _ k e] w less pos by (simp add: well_placed_def)
    moreover have "parse_quoted k p = Some (t, q)"
      using l e by (simp add: parse_quoted_def Let_def p3_def)
    ultimately show ?thesis by blast
  qed
qed

lemma take_2_byte:
  assumes "take 2 rest = [a, b]"
  shows "2 \<le> length rest \<and> rest ! 0 = a \<and> rest ! 1 = b"
proof -
  from assms have "length (take 2 rest) = 2" by simp
  then have "2 \<le> length rest" by simp
  moreover have "rest ! 0 = take 2 rest ! 0" "rest ! 1 = take 2 rest ! 1" by simp_all
  ultimately show ?thesis using assms by simp
qed

lemma run_parse_operator:
  assumes w: "well_placed p" and ns: "\<not> ps_stopped p" and e: "parse_operator p = Some (t, q)"
  shows "returns p t q"
proof -
  let ?rest = "drop (ps_position p) (ps_source p)"
  obtain n where n: "operator_length ?rest = Some n"
    and e': "emit Operator (ps_position p) (ps_position (advance n p)) 0
      (push_token OperatorToken (ps_position p) (ps_position (advance n p)) (advance n p)) = (t, q)"
    using e by (auto simp: parse_operator_def Let_def push_token_def split: option.splits)
  have len: "length ?rest = source_len p - ps_position p" by simp
  have "0 < n \<and> is_boundary (ps_source p) (ps_position p + n)"
  proof (cases "take 2 ?rest \<in> {''>='', ''<='', ''!='', ''=='', ''?=''}")
    case True
    then have two: "2 \<le> length ?rest" and ch: "byte_of (?rest ! 0) < 128" "byte_of (?rest ! 1) < 128"
      by (auto dest!: take_2_byte simp: byte_of_def)
    have lt: "ps_position p < source_len p" "ps_position p + 1 < source_len p" using two by simp_all
    have b: "byte_of (ps_source p ! ps_position p) < 128"
      "byte_of (ps_source p ! (ps_position p + 1)) < 128" using ch lt by simp_all
    let ?p1 = "advance 1 p"
    have w1: "well_placed ?p1" using ascii_step(1) [OF w lt(1) b(1)] w ns
      by (simp add: well_placed_def advance_def)
    have "is_boundary (ps_source p) (ps_position p + 2)"
      using ascii_step(1) [OF w1] lt b by (simp add: advance_def)
    moreover have "n = 2" using n True by (auto simp: operator_length_def)
    ultimately show ?thesis by simp
  next
    case False
    then have one: "take 1 ?rest \<in> {''='', ''>'', ''<''}" "n = 1"
      using n by (auto simp: operator_length_def split: if_splits)
    then obtain c cs where c: "?rest = c # cs" "byte_of c < 128"
      by (cases ?rest) (auto simp: byte_of_def)
    have lt: "ps_position p < source_len p" using c(1) by (metis drop_all list.simps(3) not_le)
    have "ps_source p ! ps_position p = c" using c(1) lt by (metis nth_via_drop)
    then show ?thesis using ascii_step(1) [OF w lt] c(2) one(2) by simp
  qed
  then show ?thesis
    using run_token_leaf [OF w moves_advance [OF ns] _ _ _ _ e'] by (simp add: advance_def)
qed

lemma run_skip_invalid:
  assumes w: "well_placed p" and lt: "ps_position p < source_len p"
    and b: "byte_of (ps_source p ! ps_position p) < 128" and e: "skip_invalid pre p = (t, q)"
  shows "returns p t q"
proof -
  have ns: "\<not> ps_stopped p" using w lt by (auto simp: well_placed_def)
  let ?p1 = "advance_clamped p"
  have pos: "ps_position ?p1 = ps_position p + 1" using lt by (simp add: advance_clamped_def)
  have bd: "is_boundary (ps_source p) (ps_position p + 1)" using ascii_step(1) [OF w lt b] .
  have m: "moves p ?p1" using ns pos by (simp add: moves_def advance_clamped_def)
  have r1: "run p ?p1 [] []" using bd pos by (intro moves_run [OF w m]) simp
  have v: "valid_range (ps_source p) (make_range (ps_position p) (ps_position p + 1))"
    using w bd by (intro valid_range_make) (auto simp: well_placed_def)
  obtain msg where e': "emit ErrorNode (ps_position p) (ps_position p + 1) 0
      (report UnexpectedToken (ps_position p) (ps_position p + 1) msg ?p1) = (t, q)"
    using e pos by (auto simp: skip_invalid_def Let_def)
  show ?thesis unfolding returns_def
    using run_leaf [OF run_report [OF r1 v] _ bd _ _ _ _ _ e'] w pos
    by (simp add: well_placed_def report_def)
qed

subsection \<open>Grammar\<close>

text \<open>What the container parser owes its callers when it has fuel for \<open>n\<close> more bytes.\<close>

definition rec_ok :: "container \<Rightarrow> nat \<Rightarrow> bool" where
  "rec_ok rec n \<longleftrightarrow>
    (\<forall>terminator p. well_placed p \<longrightarrow> source_len p - ps_position p < n \<longrightarrow>
      (\<exists>q new. rec terminator p = Some q \<and> run_in 1 p q new [] \<and> deep p q new))"

lemma rec_okD:
  assumes "rec_ok rec n" "well_placed p" "source_len p - ps_position p < n"
  obtains q new where "rec terminator p = Some q" "run_in 1 p q new []" "deep p q new"
  using assms unfolding rec_ok_def by blast

lemma peek_Some: "peek p = Some c \<longleftrightarrow> ps_position p < source_len p \<and> ps_source p ! ps_position p = c"
  by (auto simp: peek_def)

lemma running: "well_placed p \<Longrightarrow> ps_position p < source_len p \<Longrightarrow> \<not> ps_stopped p"
  by (auto simp: well_placed_def)

lemma run_consume_delimiter:
  assumes w: "well_placed p" and h: "peek p = Some c" and b: "byte_of c < 128"
  shows "run p (consume_delimiter k p) [] [] \<and>
    ps_position (consume_delimiter k p) = ps_position p + 1"
proof -
  have lt: "ps_position p < source_len p" and c: "ps_source p ! ps_position p = c"
    using h by (simp_all add: peek_Some)
  have pos: "ps_position (advance_clamped p) = ps_position p + 1"
    using lt by (simp add: advance_clamped_def)
  have m: "moves p (advance_clamped p)"
    using running [OF w lt] pos by (simp add: moves_def advance_clamped_def)
  have "is_boundary (ps_source p) (ps_position p + 1)" using ascii_step(1) [OF w lt] b c by simp
  then have "run p (consume_delimiter k p) [] []"
    unfolding consume_delimiter_def Let_def using moves_token [OF w m] pos by simp
  then show ?thesis using pos by (simp add: consume_delimiter_def Let_def push_token_def)
qed

text \<open>The closing delimiter of a block, or the report that it is missing.\<close>

lemma run_close:
  assumes r: "run_in k p q a x" and s: "is_boundary (ps_source p) s" "s \<le> ps_position q"
    and b: "byte_of c < 128"
  shows "run_in k p (close_block c ek s msg q) a x"
proof (cases "peek q = Some c")
  case True
  then show ?thesis using run_step [OF r] run_consume_delimiter [OF runD(4) [OF r] True b]
    by (simp add: close_block_def)
next
  case False
  have q: "well_placed q" "ps_source q = ps_source p" using runD [OF r] by simp_all
  have "valid_range (ps_source p) (make_range s (source_len q))"
    using s q well_placed_le [OF q(1)]
    by (intro valid_range_make) auto
  then show ?thesis using run_report [OF r] False by (simp add: close_block_def)
qed

lemma deep_run:
  assumes d: "deep q r new" and p: "run p q a x" and n: "run_in k q r new []" and r: "run r s [] []"
  shows "deep p s new"
  unfolding deep_def
proof (intro allI impI)
  fix N D assume w: "within N D p" and ns: "\<not> ps_stopped s"
  have nr: "\<not> ps_stopped r" using ns runD(7) [OF r] by blast
  then have "\<not> ps_stopped q" using runD(7) [OF n] by blast
  then have "within N D q" using w p by (auto simp: within_def run_in_def)
  then show "ps_depth p + 1 \<le> D \<and> list_all (\<lambda>t. ps_depth p + 1 + block_depth t \<le> D) new"
    using d nr runD(3) [OF p] by (simp add: deep_def)
qed

lemma tree_ok_within:
  "list_all (tree_ok src a b) cs \<Longrightarrow> s \<le> a \<Longrightarrow> b \<le> e \<Longrightarrow>
    list_all (\<lambda>c. s \<le> cst_start c \<and> cst_end c \<le> e) cs"
  by (auto simp: list_all_iff tree_ok_def)

lemma run_parse_block:
  assumes R: "rec_ok rec n" and w: "well_placed p" and h: "peek p = Some CHR ''{''"
    and n: "source_len p - (ps_position p + 1) < n"
  shows "\<exists>t q. parse_block rec p = Some (t, q) \<and> returns p t q"
proof -
  define p1 where "p1 = consume_expected CHR ''{'' p"
  have p1: "run p p1 [] []" "ps_position p1 = ps_position p + 1"
    using run_consume_delimiter [OF w h] h by (simp_all add: p1_def consume_expected_def byte_of_def)
  have w1: "well_placed p1" and s1: "ps_source p1 = ps_source p" using runD [OF p1(1)] by simp_all
  from n s1 p1(2) have "source_len p1 - ps_position p1 < n" by simp
  from rec_okD [OF R w1 this, of "Some CHR ''}''"] obtain p2 new where
    p2: "rec (Some CHR ''}'') p1 = Some p2" "run_in 1 p1 p2 new []" "deep p1 p2 new" .
  have r2: "run_in 1 p p2 new []" using run_trans [OF run_in_mono [OF p1(1)] p2(2)] by simp
  have w2: "well_placed p2" and s2: "ps_source p2 = ps_source p" and le2: "ps_position p \<le> ps_position p2"
    using runD [OF r2] by simp_all
  have st: "is_boundary (ps_source p) (ps_position p)" using w by (simp add: well_placed_def)
  define p3 where "p3 = close_block CHR ''}'' UnterminatedBlock (ps_position p)
    ''script block is missing `}`'' p2"
  have c3: "run p2 p3 [] []" unfolding p3_def
    using st le2 s2 by (intro run_close run_refl w2) (simp_all add: byte_of_def)
  have r3: "run_in 1 p p3 ([] @ new) []" using run_step [OF r2 c3] by simp
  have len: "length new = length (ps_pending p2) - length (ps_pending p1)"
    using runD(6) [OF p2(2)] by simp
  have le3: "ps_position p \<le> ps_position p3" and w3: "well_placed p3" "ps_source p3 = ps_source p"
    using runD [OF r3] by simp_all
  have st3: "is_boundary (ps_source p) (ps_position p3)" using w3 by (simp add: well_placed_def)
  have cs: "list_all (\<lambda>c. ps_position p \<le> cst_start c \<and> cst_end c \<le> ps_position p3) new"
    using runD(8) [OF r3] by (intro tree_ok_within) auto
  obtain t q where e: "emit Block (ps_position p) (ps_position p3) (length new) p3 = (t, q)"
    by fastforce
  note g = run_emit_gen [OF r3 refl _ st st3 le3 order_refl order_refl cs _ e]
  have "returns p t q" unfolding returns_def
    using g(1,5,7) deep_run [OF p2(3) p1(1) p2(2) c3] p1(2) runD(5) [OF p2(2)] runD(5) [OF c3] by auto
  moreover have "parse_block rec p = Some (t, q)"
    using p2(1) e le3 len by (simp add: parse_block_def Let_def flip: p1_def p3_def)
  ultimately show ?thesis by blast
qed

lemma emit_leaf_depth:
  "emit k s e 0 p = (t, q) \<Longrightarrow> k \<noteq> Block \<Longrightarrow> k \<noteq> ParameterBlock \<Longrightarrow> block_depth t = 0"
  by (auto simp: emit_def Let_def)

lemma parse_bare_depth: "parse_bare p = (Some t, q) \<Longrightarrow> block_depth t = 0"
  by (auto simp: parse_bare_def Let_def split: if_splits prod.splits dest!: emit_leaf_depth)

lemma emit_one_depth:
  "emit k s e (Suc 0) (push c p) = (t, q) \<Longrightarrow> k \<noteq> Block \<Longrightarrow> k \<noteq> ParameterBlock \<Longrightarrow>
    block_depth t = block_depth c"
  by (auto simp: emit_def push_def Let_def)

lemma run_advance:
  assumes w: "well_placed p" and h: "peek p = Some c" and b: "byte_of c < 128"
  shows "run p (advance 1 p) [] []"
proof -
  have lt: "ps_position p < source_len p" and c: "ps_source p ! ps_position p = c"
    using h by (simp_all add: peek_Some)
  show ?thesis using ascii_step(1) [OF w lt] b c
    by (intro moves_run [OF w moves_advance [OF running [OF w lt]]]) (simp add: advance_def)
qed

lemma run_report_here:
  assumes "run p q a x"
  shows "run p (report k (ps_position q) (ps_position q) msg q) a x"
proof -
  have "valid_range (ps_source p) (make_range (ps_position q) (ps_position q))"
    using runD(1,4) [OF assms] by (intro valid_range_make) (auto simp: well_placed_def)
  then show ?thesis using run_report [OF assms] by simp
qed

text \<open>The condition of a parameter block, from the opening brackets on.\<close>

lemma run_condition:
  assumes w: "well_placed p" and p0: "run p0 p [] []" and e: "parse_condition p = (c, ce, q5)"
  shows "run p0 q5 [] [c] \<and> ps_position p \<le> cst_start c \<and> cst_end c \<le> ce
    \<and> ce \<le> ps_position q5 \<and> is_boundary (ps_source p) ce \<and> ps_position p \<le> ce
    \<and> block_depth c = 0"
proof -
  define p3 where "p3 = (if peek p = Some CHR ''!'' then advance 1 p else p)"
  have p3: "run p p3 [] []" using run_advance [OF w] run_refl [OF w]
    by (simp add: p3_def byte_of_def)
  have r3: "run p0 p3 [] []" using run_step [OF p0 p3] .
  have w3: "well_placed p3" and s3: "ps_source p3 = ps_source p" using runD [OF p3] by simp_all
  have le3: "ps_position p \<le> ps_position p3" using runD(5) [OF p3] .
  let ?s = "ps_position p"
  have s: "is_boundary (ps_source p3) ?s" using w s3 by (simp add: well_placed_def)
  obtain r q where e4: "parse_bare p3 = (r, q)" by fastforce
  have e5: "ce = ps_position q" "(case r of Some c \<Rightarrow> (c, q)
      | None \<Rightarrow> emit ErrorNode ?s (ps_position q) 0
          (report UnexpectedToken ?s (ps_position q)
            ''parameter block is missing a condition'' q)) = (c, q5)"
    using e e4 unfolding parse_condition_def Let_def p3_def [symmetric]
    by (auto split: prod.splits)
  show ?thesis
  proof (cases r)
    case (Some t)
    then have c: "c = t" "q5 = q" using e5 by simp_all
    have t: "returns p3 t q" using run_parse_bare [OF w3 e4] Some by simp
    note d = returnsD [OF t]
    have "run p0 q [] [t]" using run_then [OF r3 d(1)] by simp
    then show ?thesis using d e4 Some c e5(1) s3 le3 parse_bare_depth [of p3 t q]
      by (auto simp: well_placed_def)
  next
    case None
    then have q: "run p3 q [] []" "ps_position q = ps_position p3"
      using run_parse_bare [OF w3 e4] by simp_all
    have src: "ps_source p3 = ps_source p0" using runD(1) [OF r3] .
    note e' = e5(2) [unfolded None option.case]
    have rq: "run p0 q [] []" using run_step [OF r3 q(1)] .
    have bq: "is_boundary (ps_source p0) (ps_position q)" using w3 q(2) src by (simp add: well_placed_def)
    have v: "valid_range (ps_source p0) (make_range ?s (ps_position q))"
      using s q(2) bq src w3 le3 by (intro valid_range_make) (auto simp: well_placed_def)
    have "run p0 q5 [] [c] \<and> cst_start c = ?s \<and> cst_end c = ps_position q \<and> ps_position q \<le> ps_position q5"
      using run_leaf [OF run_report [OF rq v] _ bq _ _ _ _ _ e'] s q(2) runD(5) [OF p0] src le3
      by (simp add: report_def)
    then show ?thesis using emit_leaf_depth [OF e'] bq src s3 q(2) e5(1) le3 by simp
  qed
qed

lemma run_parse_parameter_block:
  assumes R: "rec_ok rec n" and w: "well_placed p" and h: "starts_parameter_block p"
    and n: "source_len p - (ps_position p + 1) < n"
  shows "\<exists>t q. parse_parameter_block rec p = Some (t, q) \<and> returns p t q"
proof -
  let ?s = "ps_source p"
  have br: "ps_position p + 2 \<le> source_len p" "?s ! ps_position p = CHR ''[''"
    "?s ! (ps_position p + 1) = CHR ''[''"
    using h take_2_byte [of "drop (ps_position p) ?s"] by (auto simp: starts_parameter_block_def)
  define p1 where "p1 = consume_delimiter OpenDelimiter p"
  have p1: "run p p1 [] []" "ps_position p1 = ps_position p + 1"
    using run_consume_delimiter [OF w, of "CHR ''[''"] br
    by (simp_all add: p1_def peek_Some byte_of_def)
  define p2 where "p2 = consume_delimiter OpenDelimiter p1"
  have "peek p1 = Some CHR ''[''" using br p1 runD(1) [OF p1(1)] by (simp add: peek_Some)
  then have p2: "run p1 p2 [] []" "ps_position p2 = ps_position p + 2"
    using run_consume_delimiter [OF runD(4) [OF p1(1)]] p1(2) by (simp_all add: p2_def byte_of_def)
  have r2: "run p p2 [] []" using run_step [OF p1(1) p2(1)] .
  have w2: "well_placed p2" and s2: "ps_source p2 = ?s" using runD [OF r2] by simp_all
  let ?cs = "ps_position p2"
  have bcs: "is_boundary ?s ?cs" using w2 s2 by (simp add: well_placed_def)
  obtain c ce p5 where e5: "parse_condition p2 = (c, ce, p5)" by (rule prod_cases3)
  have c: "run p p5 [] [c]" "?cs \<le> cst_start c" "cst_end c \<le> ce" "ce \<le> ps_position p5"
    "is_boundary ?s ce" "?cs \<le> ce" "block_depth c = 0"
    using run_condition [OF w2 r2 e5] s2 by simp_all
  define p6 where "p6 = skip_whitespace p5"
  have r6: "run p p6 [] [c]"
    unfolding p6_def using run_step [OF c(1) run_skip_whitespace [OF runD(4) [OF c(1)]]] .
  define p7 where "p7 = close_condition p6"
  have r7: "run p p7 [] [c]" and le7: "ps_position p6 \<le> ps_position p7"
    using run_step [OF r6] run_consume_delimiter [OF runD(4) [OF r6]] run_report_here [OF r6]
    by (auto simp: p7_def close_condition_def byte_of_def report_def)
  have le6: "ps_position p5 \<le> ps_position p6"
    unfolding p6_def using runD(5) [OF run_skip_whitespace [OF runD(4) [OF c(1)]]] .
  have rp: "run p (push c p7) [c] []" using run_push [of p p7 "[]" c "[]"] r7 by simp
  obtain cn p8 where e8: "emit ParameterCondition ?cs ce 1 (push c p7) = (cn, p8)"
    by fastforce
  have cn: "run p p8 [] [cn] \<and> cst_start cn = ?cs \<and> cst_end cn = ce"
    using run_parent [OF rp _ bcs c(5) c(6) _ _ _ _ _ e8] c le6 le7 p2(2)
    by (simp add: push_def)
  have d8: "block_depth cn = 0" using emit_one_depth [of ParameterCondition] e8 c(7) by auto
  define p9 where "p9 = push cn p8"
  have r9: "run p p9 [cn] []" unfolding p9_def using run_push [of p p8 "[]" cn "[]"] cn by simp
  have w9: "well_placed p9" and s9: "ps_source p9 = ?s" using runD [OF r9] by simp_all
  have le9: "?cs \<le> ps_position p9"
  proof -
    have "cst_end cn \<le> ps_position p8" "?cs \<le> cst_end cn"
      using runD(8) [of 0 p p8 "[]" "[cn]"] cn c(6) by (auto simp: tree_ok_def)
    then show ?thesis by (simp add: p9_def push_def)
  qed
  have "source_len p9 - ps_position p9 < n" using n le9 p2(2) s9 by simp
  from rec_okD [OF R w9 this, of "Some CHR '']''"] obtain p10 new where
    p10: "rec (Some CHR '']'') p9 = Some p10" "run_in 1 p9 p10 new []" "deep p9 p10 new" .
  have r10: "run_in 1 p p10 ([cn] @ new) []" using run_trans [OF run_in_mono [OF r9] p10(2)] by simp
  have w10: "well_placed p10" and s10: "ps_source p10 = ?s" and le10: "ps_position p \<le> ps_position p10"
    using runD [OF r10] by simp_all
  have st: "is_boundary ?s (ps_position p)" using w by (simp add: well_placed_def)
  define p11 where "p11 = close_block CHR '']'' UnterminatedParameterBlock (ps_position p)
    ''parameter block is missing `]`'' p10"
  have c11: "run p10 p11 [] []" unfolding p11_def
    using st le10 s10 by (intro run_close run_refl w10) (simp_all add: byte_of_def)
  have r11: "run_in 1 p p11 ([] @ cn # new) []" using run_step [OF r10 c11] by simp
  have len: "length new = length (ps_pending p10) - length (ps_pending p9)"
    using runD(6) [OF p10(2)] by simp
  have le11: "ps_position p \<le> ps_position p11" and w11: "well_placed p11" "ps_source p11 = ?s"
    using runD [OF r11] by simp_all
  have st11: "is_boundary ?s (ps_position p11)" using w11 by (simp add: well_placed_def)
  have cs: "list_all (\<lambda>c. ps_position p \<le> cst_start c \<and> cst_end c \<le> ps_position p11) (cn # new)"
    using runD(8) [OF r11] by (intro tree_ok_within) auto
  have dp: "deep p p11 (cn # new)"
    using deep_run [OF p10(3) r9 p10(2) c11] d8 by (simp add: deep_def)
  obtain t q where e: "emit ParameterBlock (ps_position p) (ps_position p11)
      (length new + 1) p11 = (t, q)" by fastforce
  have ln: "length (cn # new) = length new + 1" by simp
  note g = run_emit_gen [OF r11 ln _ st st11 le11 order_refl order_refl cs _ e]
  have less: "ps_position p < ps_position p11"
    using le9 p2(2) runD(5) [OF p10(2)] runD(5) [OF c11] by linarith
  have "returns p t q" unfolding returns_def using g(1,5,7) dp less by auto
  moreover have "parse_parameter_block rec p = Some (t, q)"
    using p10(1) e le11 len
    unfolding parse_parameter_block_def Let_def p1_def [symmetric] p2_def [symmetric] e5
      prod.case p6_def [symmetric] p7_def [symmetric] e8 p9_def [symmetric]
    by (simp flip: p11_def)
  ultimately show ?thesis by blast
qed

lemma run_out:
  assumes "run p q a x" and "t \<in> set x"
  shows "cst_start t \<le> cst_end t" "is_boundary (ps_source p) (cst_start t)"
    "is_boundary (ps_source p) (cst_end t)" "ps_position p \<le> cst_start t" "cst_end t \<le> ps_position q"
proof -
  have t: "tree_ok (ps_source p) (ps_position p) (ps_position q) t"
    using runD(8) [OF assms(1)] assms(2) by (auto simp: list_all_iff)
  then show "ps_position p \<le> cst_start t" "cst_end t \<le> ps_position q" by (simp_all add: tree_ok_def)
  from tree_ok_range [OF t] show "cst_start t \<le> cst_end t" "is_boundary (ps_source p) (cst_start t)"
    "is_boundary (ps_source p) (cst_end t)" by (simp_all add: valid_range_iff)
qed

lemma run_header_block:
  assumes h: "returns p header q1" and s: "run q1 q2 [] []" and b: "returns q2 block q3"
    and e: "header_block (ps_position p) header block q3 = (t, q)"
  shows "returns p t q"
proof -
  have rh: "run p q2 [] [header]" using run_step [OF returnsD(1) [OF h] s] .
  have r: "run p q3 [] [header, block]" using run_then [OF rh returnsD(1) [OF b]] by simp
  have "run p (push block (push header q3)) [header, block] []"
    using run_push [OF run_push [of p q3 "[]" header "[block]"]] r by simp
  note ro = run_out [OF r]
  have pos: "ps_position q1 \<le> ps_position q2" using runD(5) [OF s] .
  have bs: "cst_start block = ps_position q2" using returnsD(2) [OF b] .
  have hs: "cst_start header = ps_position p" using returnsD(2) [OF h] .
  have he: "cst_end header \<le> ps_position q1" using returnsD(4) [OF h] .
  have "run p q [] [t] \<and> cst_start t = ps_position p \<and> cst_end t = cst_end block
      \<and> ps_position (push block (push header q3)) \<le> ps_position q"
  proof (rule run_parent [OF \<open>run p (push block (push header q3)) [header, block] []\<close>])
    show "emit HeaderBlock (ps_position p) (cst_end block) 2 (push block (push header q3)) = (t, q)"
      using e by (simp add: header_block_def)
    show "is_boundary (ps_source p) (ps_position p)" using ro(2) [of header] hs by simp
    show "is_boundary (ps_source p) (cst_end block)" using ro(3) [of block] by simp
    show "ps_position p \<le> cst_end block" using ro(1,4) [of block] by simp
    show "cst_end block \<le> ps_position (push block (push header q3))"
      using ro(5) [of block] by (simp add: push_def)
    show "list_all (\<lambda>c. ps_position p \<le> cst_start c \<and> cst_end c \<le> cst_end block) [header, block]"
      using hs he pos bs ro(1,4) [of block] by simp
  qed simp_all
  then show ?thesis using returnsD(3) [OF h] returnsD(3) [OF b] pos
    by (simp add: returns_def push_def)
qed

lemma run_parse_value:
  assumes R: "rec_ok rec n" and w: "well_placed p" and lt: "ps_position p < source_len p"
    and n: "source_len p - (ps_position p + 1) < n"
  shows "\<exists>t q. parse_value rec p = Some (t, q) \<and> returns p t q"
proof -
  consider (quote) "peek p = Some QUOTE" | (block) "peek p \<noteq> Some QUOTE" "peek p = Some CHR ''{''"
    | (parameter) "peek p \<noteq> Some QUOTE" "peek p \<noteq> Some CHR ''{''" "starts_parameter_block p"
    | (bare) "peek p \<noteq> Some QUOTE" "peek p \<noteq> Some CHR ''{''" "\<not> starts_parameter_block p" by blast
  then show ?thesis
  proof cases
    case quote
    then show ?thesis using run_parse_quoted [OF w quote, of QuotedString]
      by (simp add: parse_value_def)
  next
    case block
    then show ?thesis using run_parse_block [OF R w block(2) n] by (simp add: parse_value_def)
  next
    case parameter
    then show ?thesis using run_parse_parameter_block [OF R w parameter(3) n]
      by (simp add: parse_value_def)
  next
    case bare
    obtain r p1 where b: "parse_bare p = (r, p1)" by fastforce
    show ?thesis
    proof (cases r)
      case None
      with run_parse_bare [OF w b] lt have p1: "run p p1 [] []" "ps_position p1 = ps_position p"
        "byte_of (ps_source p ! ps_position p) < 128" by simp_all
      obtain t q where e: "skip_invalid ''expected a value, found '' p1 = (t, q)" by fastforce
      have "returns p1 t q"
        using runD [OF p1(1)] p1(2,3) lt by (intro run_skip_invalid [OF _ _ _ e]) simp_all
      then have "returns p t q" using run_trans [OF p1(1)] p1(2) by (fastforce simp: returns_def)
      then show ?thesis using bare b None e by (simp add: parse_value_def)
    next
      case (Some v)
      with run_parse_bare [OF w b] have v: "returns p v p1" by simp
      define p2 where "p2 = skip_whitespace p1"
      have r2: "run p1 p2 [] []" unfolding p2_def
        using returnsD(6) [OF v] by (rule run_skip_whitespace)
      have le: "ps_position p < ps_position p2" using returnsD(3) [OF v] runD(5) [OF r2] by simp
      have src: "ps_source p2 = ps_source p" using runD(1) [OF r2] returnsD(7) [OF v] by simp
      show ?thesis
      proof (cases "peek p2 = Some CHR ''{''")
        case True
        have "source_len p2 - (ps_position p2 + 1) < n" using n le src by simp
        from run_parse_block [OF R runD(4) [OF r2] True this] obtain block p3 where
          bl: "parse_block rec p2 = Some (block, p3)" "returns p2 block p3" by blast
        obtain t q where e: "header_block (ps_position p) v block p3 = (t, q)" by fastforce
        show ?thesis using run_header_block [OF v r2 bl(2) e] bare b Some bl(1) e True
          by (simp add: parse_value_def Let_def p2_def)
      next
        case False
        have "returns p v p2"
          using run_step [OF returnsD(1) [OF v] r2] returnsD(2) [OF v] le by (simp add: returns_def)
        then show ?thesis using bare b Some False by (simp add: parse_value_def Let_def p2_def)
      qed
    qed
  qed
qed

lemma operator_starts_ascii:
  "operator_starts_here p \<Longrightarrow> ps_position p < source_len p \<and> byte_of (ps_source p ! ps_position p) < 128"
  by (auto simp: operator_starts_here_def peek_Some byte_of_def)

lemma run_missing_value:
  assumes w: "well_placed p"
    and k: "is_boundary (ps_source p) (cst_start key)" "cst_start key \<le> ps_position p"
    and e: "missing_value key p = (v, q)"
  shows "run p q [] [v] \<and> cst_start v = ps_position p"
proof -
  have v: "valid_range (ps_source p) (make_range (cst_start key) (ps_position p))"
    using w k by (intro valid_range_make) (auto simp: well_placed_def)
  obtain msg where e': "emit ErrorNode (ps_position p) (ps_position p) 0
      (report MissingValue (cst_start key) (ps_position p) msg p) = (v, q)"
    using e by (auto simp: missing_value_def Let_def)
  show ?thesis
    using run_leaf [OF run_report [OF run_refl [OF w] v] _ _ _ _ _ _ _ e'] w
    by (simp add: well_placed_def report_def)
qed

text \<open>Wrapping a returned tree in a node of the same range, as properties do for key and value.\<close>

lemma run_wrap:
  assumes r: "run p q [] (c # x)" and k: "k \<noteq> Block" "k \<noteq> ParameterBlock"
    and e: "emit k (cst_start c) (cst_end c) 1 (push c q) = (t, q')"
  shows "run p q' [] (t # x) \<and> cst_start t = cst_start c \<and> cst_end t = cst_end c"
proof -
  have rp: "run p (push c q) [c] x" using run_push [of p q "[]" c x] r by simp
  note o = run_out [OF r, of c, simplified]
  show ?thesis
    using run_parent [OF rp _ o(2,3,1,4) _ _ k e] o(5) by (simp add: push_def)
qed

lemma run_operator:
  assumes w: "well_placed p" and h: "operator_starts_here p"
    and e: "(case parse_operator p of Some r \<Rightarrow> r | None \<Rightarrow> skip_invalid ''invalid operator '' p) = (op, q)"
  shows "returns p op q"
proof -
  have lt: "ps_position p < source_len p" "byte_of (ps_source p ! ps_position p) < 128"
    using operator_starts_ascii [OF h] by simp_all
  show ?thesis
  proof (cases "parse_operator p")
    case None
    then show ?thesis using e run_skip_invalid [OF w lt] by simp
  next
    case (Some r)
    then show ?thesis using e run_parse_operator [OF w running [OF w lt(1)]] by simp
  qed
qed

lemma run_parse_property:
  assumes R: "rec_ok rec n" and r: "run p0 p [] [key]" and k: "cst_start key = ps_position p0"
    and w0: "well_placed p0" and h: "operator_starts_here p"
    and n: "source_len p - (ps_position p + 1) < n"
  shows "\<exists>t q. parse_property rec (ps_position p0) key p = Some (t, q) \<and> returns p0 t q"
proof -
  have w: "well_placed p" and src: "ps_source p = ps_source p0" using runD [OF r] by simp_all
  obtain op p1 where op: "(case parse_operator p of Some r \<Rightarrow> r
      | None \<Rightarrow> skip_invalid ''invalid operator '' p) = (op, p1)" by fastforce
  have rop: "returns p op p1" using run_operator [OF w h op] .
  note d = returnsD [OF rop]
  define p2 where "p2 = skip_whitespace p1"
  have r12: "run p1 p2 [] []" unfolding p2_def using d(6) by (rule run_skip_whitespace)
  have r02: "run p0 p2 [] [key, op]" using run_step [OF run_then [OF r d(1)] r12] by simp
  have w2: "well_placed p2" and src2: "ps_source p2 = ps_source p0" using runD [OF r02] by simp_all
  have le: "ps_position p < ps_position p2" using d(3) runD(5) [OF r12] by simp
  have rk: "is_boundary (ps_source p2) (cst_start key)" "cst_start key \<le> ps_position p2"
    using run_out [OF r, of key] src src2 le by simp_all
  have "\<exists>v p3. (if source_len p2 \<le> ps_position p2
      \<or> peek p2 \<in> {Some CHR ''#'', Some CHR ''}'', Some CHR '']''}
      then Some (missing_value key p2) else parse_value rec p2) = Some (v, p3)
    \<and> run p2 p3 [] [v]"
  proof (cases "source_len p2 \<le> ps_position p2
      \<or> peek p2 \<in> {Some CHR ''#'', Some CHR ''}'', Some CHR '']''}")
    case True
    obtain v p3 where "missing_value key p2 = (v, p3)" by fastforce
    then show ?thesis using True run_missing_value [OF w2 rk] by auto
  next
    case False
    have "source_len p2 - (ps_position p2 + 1) < n" using n le src src2 by simp
    from run_parse_value [OF R w2 _ this] False show ?thesis by (auto dest: returnsD(1))
  qed
  then obtain v p3 where v: "(if source_len p2 \<le> ps_position p2
      \<or> peek p2 \<in> {Some CHR ''#'', Some CHR ''}'', Some CHR '']''}
      then Some (missing_value key p2) else parse_value rec p2) = Some (v, p3)"
    and rv: "run p2 p3 [] [v]" by blast
  have r3: "run p0 p3 [] [key, op, v]" using run_then [OF r02 rv] by simp
  obtain kn p4 where e4: "emit Key (cst_start key) (cst_end key) 1 (push key p3) = (kn, p4)"
    by fastforce
  have kn: "run p0 p4 [] [kn, op, v]" "cst_start kn = cst_start key" "cst_end kn = cst_end key"
    using run_wrap [OF r3 _ _ e4] by simp_all
  have r4: "run p0 p4 [] [v, kn, op]" using run_perm [OF kn(1)] by simp
  obtain vn p5 where e5: "emit Value (cst_start v) (cst_end v) 1 (push v p4) = (vn, p5)"
    by fastforce
  have vn: "run p0 p5 [] [vn, kn, op]" "cst_start vn = cst_start v" "cst_end vn = cst_end v"
    using run_wrap [OF r4 _ _ e5] by simp_all
  have r5: "run p0 p5 [] [kn, op, vn]" using run_perm [OF vn(1)] by simp
  let ?q = "push vn (push op (push kn p5))"
  have rq: "run p0 ?q [kn, op, vn] []"
    using run_push [OF run_push [OF run_push [of p0 p5 "[]" kn "[op, vn]"]]] r5 by simp
  obtain t q where e: "emit Property (ps_position p0) (cst_end v) 3 ?q = (t, q)" by fastforce
  have sv: "ps_position p2 \<le> cst_start v" "cst_start v \<le> cst_end v" using run_out [OF rv] by simp_all
  have ke: "cst_end key \<le> ps_position p" "cst_start key \<le> cst_end key" using run_out [OF r] by simp_all
  have oe: "cst_end op \<le> ps_position p2" "cst_start op = ps_position p"
    using d(2,4) runD(5) [OF r12] by simp_all
  have p0p: "ps_position p0 \<le> ps_position p" using runD(5) [OF r] .
  have "run p0 q [] [t] \<and> cst_start t = ps_position p0 \<and> cst_end t = cst_end v
      \<and> ps_position ?q \<le> ps_position q"
  proof (rule run_parent [OF rq _ _ _ _ _ _ _ _ _ e])
    show "is_boundary (ps_source p0) (ps_position p0)" using w0 by (simp add: well_placed_def)
    show "is_boundary (ps_source p0) (cst_end v)" using run_out(3) [OF r3, of v] by simp
    show "ps_position p0 \<le> cst_end v" using sv le p0p by simp
    show "cst_end v \<le> ps_position ?q"
      using run_out(5) [OF r5, of vn] vn(3) by (simp add: push_def)
    show "list_all (\<lambda>c. ps_position p0 \<le> cst_start c \<and> cst_end c \<le> cst_end v) [kn, op, vn]"
      using kn vn sv ke oe le p0p k by simp
  qed simp_all
  moreover have "ps_position p0 < ps_position ?q"
  proof -
    have "cst_end vn \<le> ps_position p5" using run_out(5) [OF r5, of vn] by simp
    then show ?thesis using vn(3) sv le p0p by (simp add: push_def)
  qed
  ultimately have "returns p0 t q" by (simp add: returns_def)
  moreover have "parse_property rec (ps_position p0) key p = Some (t, q)"
    unfolding parse_property_def Let_def op prod.case p2_def [symmetric] v bind.bind_lunit e4 e5 e ..
  ultimately show ?thesis by blast
qed

text \<open>Every element a container parses is pushed and moves the position.\<close>

definition pushes :: "parser \<Rightarrow> parser \<Rightarrow> bool" where
  "pushes p q \<longleftrightarrow> (\<exists>new. run p q new []) \<and> ps_position p < ps_position q"

lemma returns_pushes: "returns p t q \<Longrightarrow> pushes p (push t q)"
  using run_push [of p q "[]" t "[]"] by (auto simp: returns_def pushes_def push_def)

text \<open>The element after a scalar: a property, a header block or the scalar itself.\<close>

lemma run_after_scalar:
  assumes R: "rec_ok rec n" and w: "well_placed p" and s: "returns p first p1"
    and n: "source_len p - (ps_position p + 1) < n"
  shows "\<exists>q. parse_bare_element rec (ps_position p) first p1 = Some q \<and> pushes p q"
proof -
  define p2 where "p2 = skip_whitespace p1"
  have r12: "run p1 p2 [] []" unfolding p2_def using returnsD(6) [OF s] by (rule run_skip_whitespace)
  have r: "run p p2 [] [first]" using run_step [OF returnsD(1) [OF s] r12] .
  have w2: "well_placed p2" and src: "ps_source p2 = ps_source p" using runD [OF r] by simp_all
  have le: "ps_position p < ps_position p2" using returnsD(3) [OF s] runD(5) [OF r12] by simp
  have n2: "source_len p2 - (ps_position p2 + 1) < n" using n le src by simp
  show ?thesis
  proof (cases "operator_starts_here p2")
    case True
    from run_parse_property [OF R r returnsD(2) [OF s] w True n2] obtain t q where
      "parse_property rec (ps_position p) first p2 = Some (t, q)" "returns p t q" by blast
    then show ?thesis using True returns_pushes
      by (auto simp: parse_bare_element_def Let_def p2_def [symmetric])
  next
    case no_op: False
    show ?thesis
    proof (cases "peek p2 = Some CHR ''{''")
      case True
      from run_parse_block [OF R w2 True n2] obtain b p3 where
        b: "parse_block rec p2 = Some (b, p3)" "returns p2 b p3" by blast
      obtain t q where e: "header_block (ps_position p) first b p3 = (t, q)" by fastforce
      have "returns p t q" using run_header_block [OF s r12 b(2) e] .
      then show ?thesis using no_op True b(1) e returns_pushes
        by (auto simp: parse_bare_element_def Let_def p2_def [symmetric])
    next
      case False
      have "returns p first p2" using r returnsD(2) [OF s] le by (simp add: returns_def)
      then show ?thesis using no_op False returns_pushes
        by (auto simp: parse_bare_element_def Let_def p2_def [symmetric])
    qed
  qed
qed

lemma run_quoted_element:
  assumes R: "rec_ok rec n" and w: "well_placed p" and h: "peek p = Some QUOTE"
    and n: "source_len p - (ps_position p + 1) < n"
  shows "\<exists>q. parse_quoted_element rec terminator p = Some q \<and> pushes p q"
proof -
  obtain first p1 where f: "parse_quoted QuotedString p = Some (first, p1)" and s: "returns p first p1"
    using run_parse_quoted [OF w h, of QuotedString] by auto
  define p2 where "p2 = skip_whitespace p1"
  have r12: "run p1 p2 [] []" unfolding p2_def using returnsD(6) [OF s] by (rule run_skip_whitespace)
  note scalar = run_after_scalar [OF R w s n]
  show ?thesis
  proof (cases "operator_starts_here p2 \<or> peek p2 = Some CHR ''{''")
    case True
    then have "parse_quoted_element rec terminator p = parse_bare_element rec (ps_position p) first p1"
      by (auto simp: parse_quoted_element_def parse_bare_element_def Let_def f p2_def [symmetric])
    then show ?thesis using scalar by simp
  next
    case False
    have le: "ps_position p < ps_position p2" using returnsD(3) [OF s] runD(5) [OF r12] by simp
    have r: "run p p2 [] [first]" using run_step [OF returnsD(1) [OF s] r12] .
    have bd: "is_boundary (ps_source p) (ps_position p)" using w by (simp add: well_placed_def)
    have v: "valid_range (ps_source p) (make_range (ps_position p) (cst_end first))"
      using w bd returnsD(5,8) [OF s] by (intro valid_range_make) (auto simp: well_placed_def)
    define p3 where "p3 = (if terminator = None then
      report UnexpectedToken (ps_position p) (cst_end first)
        ''a top-level script value must be assigned to a key'' p2 else p2)"
    have r3: "run p p3 [] [first]" unfolding p3_def using r run_report [OF r v] by simp
    have "ps_position p3 = ps_position p2" by (simp add: p3_def report_def)
    then have "returns p first p3" using r3 returnsD(2) [OF s] le by (simp add: returns_def)
    then have "pushes p (push first p3)" by (rule returns_pushes)
    moreover have "parse_quoted_element rec terminator p = Some (push first p3)"
      using False by (simp add: parse_quoted_element_def Let_def f p2_def [symmetric] p3_def)
    ultimately show ?thesis by blast
  qed
qed

lemma run_parse_element:
  assumes R: "rec_ok rec n" and w: "well_placed p" and lt: "ps_position p < source_len p"
    and n: "source_len p - (ps_position p + 1) < n"
  shows "\<exists>q. parse_element rec terminator p = Some q \<and> pushes p q"
proof -
  consider (comment) "peek p = Some CHR ''#''"
    | (stray) "peek p \<noteq> Some CHR ''#''" "peek p = Some CHR ''}'' \<or> peek p = Some CHR '']''"
    | (item) "peek p \<noteq> Some CHR ''#''" "\<not> (peek p = Some CHR ''}'' \<or> peek p = Some CHR '']'')"
    by blast
  then show ?thesis
  proof cases
    case comment
    obtain t q where e: "parse_comment p = (t, q)" by fastforce
    have "pushes p (push t q)"
      using run_parse_comment [OF w comment e] run_push [of p q "[]" t "[]"]
      by (auto simp: pushes_def push_def)
    then show ?thesis using comment e by (simp add: parse_element_def)
  next
    case stray
    then obtain c where c: "peek p = Some c" "byte_of c < 128" by (auto simp: byte_of_def)
    obtain t q where e: "parse_stray_delimiter c p = (t, q)" by fastforce
    have r1: "run p (advance 1 p) [] []" using run_advance [OF w c] .
    have pos: "ps_position (advance 1 p) = ps_position p + 1" by (simp add: advance_def)
    have bd: "is_boundary (ps_source p) (ps_position p + 1)" "is_boundary (ps_source p) (ps_position p)"
      using runD(1,4) [OF r1] pos w by (simp_all add: well_placed_def)
    have v: "valid_range (ps_source p) (make_range (ps_position p) (ps_position p + 1))"
      using w bd by (intro valid_range_make) (auto simp: well_placed_def)
    obtain msg where e': "emit ErrorNode (ps_position p) (ps_position p + 1) 0
        (report UnexpectedToken (ps_position p) (ps_position p + 1) msg (advance 1 p)) = (t, q)"
      using e pos by (auto simp: parse_stray_delimiter_def Let_def report_def)
    have "returns p t q" unfolding returns_def
      using run_leaf [OF run_report [OF r1 v] bd(2) bd(1) _ _ _ _ _ e'] pos by (simp add: report_def)
    then have "pushes p (push t q)" by (rule returns_pushes)
    then show ?thesis using stray c(1) e by (simp add: parse_element_def)
  next
    case item
    obtain r p1 where b: "parse_bare p = (r, p1)" by fastforce
    show ?thesis
    proof (cases r)
      case (Some first)
      with run_parse_bare [OF w b] have "returns p first p1" by simp
      from run_after_scalar [OF R w this n] show ?thesis using item b Some
        by (simp add: parse_element_def)
    next
      case None
      with run_parse_bare [OF w b] lt have p1: "run p p1 [] []" "ps_position p1 = ps_position p"
        "byte_of (ps_source p ! ps_position p) < 128" by simp_all
      have w1: "well_placed p1" and s1: "ps_source p1 = ps_source p" using runD [OF p1(1)] by simp_all
      have n1: "source_len p1 - (ps_position p1 + 1) < n" using n p1(2) s1 by simp
      have lift: "pushes p q" if "pushes p1 q" for q
        using that run_trans [OF p1(1)] p1(2) by (fastforce simp: pushes_def)
      have lift': "pushes p (push t q)" if "returns p1 t q" for t q
        using lift [OF returns_pushes [OF that]] .
      have "\<exists>q. parse_other_element rec terminator p1 = Some q \<and> pushes p q"
      proof -
        consider (block) "peek p1 = Some CHR ''{''"
          | (quoted) "peek p1 \<noteq> Some CHR ''{''" "peek p1 = Some QUOTE"
          | (parameter) "peek p1 \<noteq> Some CHR ''{''" "peek p1 \<noteq> Some QUOTE" "starts_parameter_block p1"
          | (other) "peek p1 \<noteq> Some CHR ''{''" "peek p1 \<noteq> Some QUOTE" "\<not> starts_parameter_block p1"
          by blast
        then show ?thesis
        proof cases
          case block
          then show ?thesis using run_parse_block [OF R w1 block n1] lift'
            by (auto simp: parse_other_element_def)
        next
          case quoted
          then show ?thesis using run_quoted_element [OF R w1 quoted(2) n1, of terminator] lift
            by (auto simp: parse_other_element_def)
        next
          case parameter
          then show ?thesis using run_parse_parameter_block [OF R w1 parameter(3) n1] lift'
            by (auto simp: parse_other_element_def)
        next
          case other
          obtain t q where e: "skip_invalid ''unexpected character '' p1 = (t, q)" by fastforce
          have "returns p1 t q" using p1 s1 lt by (intro run_skip_invalid [OF w1 _ _ e]) simp_all
          then show ?thesis using other e lift' by (auto simp: parse_other_element_def)
        qed
      qed
      then show ?thesis using item b None by (simp add: parse_element_def)
    qed
  qed
qed

subsection \<open>Containers and documents\<close>

definition loop_ok :: "container \<Rightarrow> nat \<Rightarrow> bool" where
  "loop_ok loop n \<longleftrightarrow>
    (\<forall>terminator p. well_placed p \<longrightarrow> source_len p - ps_position p < n \<longrightarrow>
      (\<exists>q new. loop terminator p = Some q \<and> run p q new []))"

lemma enter_container_guard:
  assumes "\<not> ps_stopped (enter_container p)" and "within N D p"
  shows "ps_depth p + 1 \<le> D"
proof -
  obtain g where g: "ps_guard p = Some g" "limits g N D" using assms(2) by (auto simp: within_def)
  have "g (ps_guard_calls p) (ps_position p) (ps_nodes p) (ps_depth p + 1)"
    using assms(1) g(1)
    by (auto simp: enter_container_def check_work_def ask_guard_def Let_def split: if_splits)
  then show ?thesis using g(2) by (auto simp: limits_def)
qed

lemma parse_container_with_ok:
  assumes L: "loop_ok loop n"
  shows "rec_ok (parse_container_with loop) n"
  unfolding rec_ok_def
proof (intro allI impI)
  fix terminator p assume w: "well_placed p" and n: "source_len p - ps_position p < n"
  let ?d = "p\<lparr>ps_depth := ps_depth p + 1\<rparr>" and ?e = "enter_container p"
  have wd: "well_placed ?d" using w by (simp add: well_placed_def)
  have re: "run ?d ?e [] []" unfolding enter_container_def using wd by (rule run_check_work)
  have we: "well_placed ?e" and se: "ps_source ?e = ps_source p" and le: "ps_position p \<le> ps_position ?e"
    using runD [OF re] by simp_all
  have "source_len ?e - ps_position ?e < n" using n le se by simp
  with L we obtain q new where q: "loop terminator ?e = Some q" "run ?e q new []"
    unfolding loop_ok_def by blast
  have r: "run ?d q new []" using run_trans [OF re q(2)] by simp
  let ?l = "leave_container q"
  have bud: "ps_nodes q \<le> N \<and> ps_depth p + 1 \<le> D
      \<and> list_all (\<lambda>t. ps_depth p + 1 + block_depth t \<le> D) new"
    if wi: "within N D p" and ns: "\<not> ps_stopped q" for N D
  proof -
    have "\<not> ps_stopped ?e" using ns runD(7) [OF q(2)] by blast
    from enter_container_guard [OF this wi] have d: "ps_depth p + 1 \<le> D" .
    then have "within N D ?d" using wi by (simp add: within_def)
    moreover have "\<forall>N D. within N D ?d \<longrightarrow> \<not> ps_stopped q \<longrightarrow>
        ps_nodes q \<le> N \<and> list_all (\<lambda>t. ps_depth ?d + block_depth t \<le> D) (new @ [])"
      using r unfolding run_in_def by blast
    ultimately have "ps_nodes q \<le> N \<and> list_all (\<lambda>t. ps_depth ?d + block_depth t \<le> D) (new @ [])"
      using ns by blast
    then show ?thesis using d by simp
  qed
  have "run_in 1 p ?l new []"
  proof -
    have acc: "vouched 1 p ?l new"
    proof -
      have "vouched 0 ?d q new" using r by (simp add: run_in_def)
      then show ?thesis by (simp add: vouched_def leave_container_def)
    qed
    have "list_all (\<lambda>t. ps_depth p + block_depth t \<le> D) new"
      if "list_all (\<lambda>t. ps_depth p + 1 + block_depth t \<le> D) new" for D
      using that by (auto simp: list_all_iff)
    moreover have "well_placed ?l"
      using runD(4) [OF r] by (simp add: well_placed_def leave_container_def)
    ultimately show ?thesis using r bud acc unfolding run_in_def by (simp add: leave_container_def)
  qed
  moreover have "deep p ?l new" using bud by (simp add: deep_def leave_container_def)
  moreover have "parse_container_with loop terminator p = Some ?l"
    using q(1) by (simp add: parse_container_with_def)
  ultimately show "\<exists>q new. parse_container_with loop terminator p = Some q
      \<and> run_in 1 p q new [] \<and> deep p q new"
    by blast
qed

lemma container_step_ok:
  assumes L: "loop_ok loop n"
  shows "loop_ok (container_step loop) (Suc n)"
  unfolding loop_ok_def
proof (intro allI impI)
  fix terminator p assume w: "well_placed p" and n: "source_len p - ps_position p < Suc n"
  define p1 where "p1 = check_work False p"
  have r1: "run p p1 [] []" unfolding p1_def using w by (rule run_check_work)
  define p2 where "p2 = skip_whitespace p1"
  have r12: "run p1 p2 [] []" unfolding p2_def using runD(4) [OF r1] by (rule run_skip_whitespace)
  have r2: "run p p2 [] []" using run_step [OF r1 r12] .
  have w2: "well_placed p2" and s2: "ps_source p2 = ps_source p" and le2: "ps_position p \<le> ps_position p2"
    using runD [OF r2] by simp_all
  note d = container_step_def Let_def p1_def [symmetric] p2_def [symmetric]
  show "\<exists>q new. container_step loop terminator p = Some q \<and> run p q new []"
  proof (cases "ps_stopped p1 \<or> source_len p2 \<le> ps_position p2 \<or> tree_saturated p2
      \<or> (terminator \<noteq> None \<and> peek p2 = terminator)")
    case True
    then show ?thesis using r1 r2 by (auto simp: d)
  next
    case False
    then have lt: "ps_position p2 < source_len p2" by simp
    have n2: "source_len p2 - (ps_position p2 + 1) < n" using n s2 le2 lt by simp
    from run_parse_element [OF parse_container_with_ok [OF L] w2 lt n2, of terminator]
    obtain p3 new where e: "parse_element (parse_container_with loop) terminator p2 = Some p3"
      and r3: "run p2 p3 new []" and less: "ps_position p2 < ps_position p3" by (auto simp: pushes_def)
    have w3: "well_placed p3" and s3: "ps_source p3 = ps_source p2" using runD [OF r3] by simp_all
    have "source_len p3 - ps_position p3 < n" using n2 less s3 lt by simp
    with L w3 obtain q new' where q: "loop terminator p3 = Some q" "run p3 q new' []"
      unfolding loop_ok_def by blast
    have "run p q (new @ new') []" using run_trans [OF run_trans [OF r2 r3] q(2)] by simp
    moreover have "container_step loop terminator p = Some q"
      using False e q(1) by (auto simp: d)
    ultimately show ?thesis by blast
  qed
qed

lemma container_loop_ok: "loop_ok (container_loop n) n"
proof (induction n)
  case 0
  then show ?case by (simp add: loop_ok_def)
next
  case (Suc n)
  then show ?case using container_step_ok by simp
qed

lemma parse_container_ok: "rec_ok (parse_container n) n"
  unfolding parse_container_def using parse_container_with_ok [OF container_loop_ok] .

text \<open>A document parse from a fresh parser, whatever the guard.\<close>

definition fresh :: "string \<Rightarrow> guard option \<Rightarrow> parser" where
  "fresh src g = (parser_new src)\<lparr>ps_guard := g\<rparr>"

lemma fresh_simps [simp]:
  "ps_source (fresh src g) = src" "ps_position (fresh src g) = 0" "ps_pending (fresh src g) = []"
  "ps_tokens (fresh src g) = []" "ps_errors (fresh src g) = []" "ps_nodes (fresh src g) = 0"
  "ps_depth (fresh src g) = 0" "ps_guard (fresh src g) = g" "ps_stopped (fresh src g) = False"
  by (simp_all add: fresh_def parser_new_def)

definition document_ok :: "string \<Rightarrow> parse_parts \<Rightarrow> bool" where
  "document_ok src parts \<longleftrightarrow>
    cst_kind (parts_tree parts) = Document
    \<and> cst_range (parts_tree parts) = make_range 0 (length src)
    \<and> valid_node src None (parts_tree parts)
    \<and> toks_in 0 (parts_tokens parts) (length src)
    \<and> list_all (\<lambda>t. valid_range src (token_range t)) (parts_tokens parts)
    \<and> list_all (\<lambda>e. valid_range src (error_range e)) (parts_errors parts)"

lemma parse_document_ok:
  assumes v: "valid_utf8 src" and l: "length src \<le> u32_max"
  shows "\<exists>parts q. parse_document (fresh src g) = Some (parts, q) \<and> document_ok src parts
    \<and> cst_nodes (parts_tree parts) = ps_nodes q
    \<and> guard_agrees q \<and> ps_guard q = g \<and> ps_source q = src
    \<and> (\<forall>i offset n d. ps_last_call q = Some (i, offset, n, d) \<longrightarrow>
        n < cst_nodes (parts_tree parts) \<and> d \<le> block_depth (parts_tree parts) + 1)
    \<and> (\<forall>N D g'. g = Some g' \<longrightarrow> limits g' N D \<longrightarrow> \<not> ps_stopped q \<longrightarrow>
        cst_nodes (parts_tree parts) \<le> N \<and> block_depth (parts_tree parts) + 1 \<le> D)"
proof -
  let ?p = "fresh src g"
  have w: "well_placed ?p" using v l by (simp add: well_placed_def)
  have "source_len ?p - ps_position ?p < script_fuel src" by (simp add: script_fuel_def)
  from rec_okD [OF parse_container_ok w this, of None] obtain p1 new where
    p1: "parse_container (script_fuel src) None ?p = Some p1" "run_in 1 ?p p1 new []" "deep ?p p1 new" .
  have s1: "ps_source p1 = src" and w1: "well_placed p1" and pend: "ps_pending p1 = new"
    using runD [OF p1(2)] by simp_all
  obtain t q where e: "emit Document 0 (source_len p1) (length new) p1 = (t, q)" by fastforce
  let ?c = "check_work True p1"
  have t: "t = Node Document (make_range 0 (length src)) new" and
    q: "q = ?c\<lparr>ps_nodes := ps_nodes p1 + 1, ps_pending := []\<rparr>"
    using e pend s1 by (auto simp: emit_def Let_def)
  have rc: "run p1 ?c [] []" using w1 by (rule run_check_work)
  have exit: "ps_position p1 \<le> length src" using well_placed_le [OF w1] s1 by simp
  have tok: "tree_ok src 0 (length src) t" unfolding t
  proof (rule tree_ok_Node)
    show "valid_range src (make_range 0 (length src))" using l by (intro valid_range_make) simp_all
    show "list_all (tree_ok src 0 (length src)) new"
      using runD(8) [OF p1(2)] exit by (auto simp: list_all_iff intro: tree_ok_mono)
  qed (use l in simp_all)
  define parts where "parts = \<lparr>parts_tree = t, parts_tokens = ps_tokens q, parts_errors = ps_errors q\<rparr>"
  have tk: "toks_in 0 (ps_tokens p1) (ps_position p1)"
    "list_all (\<lambda>t. valid_range src (token_range t)) (ps_tokens p1)"
    "list_all (\<lambda>e. valid_range src (error_range e)) (ps_errors p1)"
    and nodes: "ps_nodes p1 = sum_list (map cst_nodes new)"
    using p1(2) by (auto simp: run_in_def)
  have "document_ok src parts"
    using tok tk toks_in_mono [OF tk(1) exit] by (simp add: document_ok_def parts_def t q tree_ok_def)
  moreover have "parse_document ?p = Some (parts, q)"
    using p1(1) e by (simp add: parse_document_def Let_def parts_def pend)
  moreover have "cst_nodes t = ps_nodes q" by (simp add: t q nodes)
  moreover have "guard_agrees ?p"
    by (simp add: guard_agrees_def fresh_def parser_new_def split: option.split)
  then have "guard_agrees q \<and> ps_guard q = g \<and> ps_source q = src"
    using p1(2) rc s1 runD(2) [OF p1(2)] by (simp add: q run_in_def)
  moreover have "n < cst_nodes t \<and> d \<le> block_depth t + 1"
    if c: "ps_last_call q = Some (i, offset, n, d)" for i offset n d
  proof -
    have rq: "run_in 1 ?p ?c new []" using run_step [OF p1(2) rc] .
    have "vouched 1 ?p ?c new" "ps_nodes ?c = ps_nodes p1" using rq rc by (simp_all add: run_in_def)
    moreover have "ps_last_call ?p = None" "ps_last_call ?c = Some (i, offset, n, d)"
      using c by (simp_all add: q fresh_def parser_new_def)
    ultimately have "n \<le> ps_nodes p1"
      and d: "\<And>D. 1 \<le> D \<Longrightarrow> list_all (\<lambda>t. 1 + block_depth t \<le> D) new \<Longrightarrow> d \<le> D"
      unfolding vouched_def by auto
    moreover have "d \<le> block_depth t + 1"
    proof (rule d)
      have "block_depth t \<le> block_depth t" by simp
      then have "\<forall>c\<in>set new. block_depth c \<le> block_depth t"
        unfolding t block_depth_le by simp
      then show "list_all (\<lambda>c. 1 + block_depth c \<le> block_depth t + 1) new"
        by (simp add: list_all_iff)
    qed simp
    ultimately show ?thesis by (simp add: t nodes)
  qed
  moreover have "cst_nodes t \<le> N \<and> block_depth t + 1 \<le> D"
    if g: "g = Some g'" "limits g' N D" and ns: "\<not> ps_stopped q" for N D g'
  proof -
    have nc: "\<not> ps_stopped ?c" using ns by (simp add: q)
    then have n1: "\<not> ps_stopped p1" using runD(7) [OF rc] by blast
    have "g' (ps_guard_calls p1) (ps_position p1) (ps_nodes p1) (ps_depth p1)"
      using nc n1 g(1) runD(2) [OF p1(2)]
      by (auto simp: check_work_def ask_guard_def Let_def split: if_splits)
    then have "ps_nodes p1 < N" using g(2) by (auto simp: limits_def)
    moreover have "within N D ?p"
    proof -
      have "0 \<le> D" "0 \<le> N" by simp_all
      then show ?thesis using g by (simp add: within_def)
    qed
    then have "1 \<le> D \<and> list_all (\<lambda>t. 1 + block_depth t \<le> D) new"
      using p1(3) n1 by (simp add: deep_def)
    then have "block_depth t \<le> D - 1 \<and> 1 \<le> D"
      unfolding t block_depth_le by (auto simp: list_all_iff)
    ultimately show ?thesis by (auto simp: t nodes)
  qed
  ultimately show ?thesis unfolding parts_def by fastforce
qed

text \<open>
  C1. Parsing a script never fails: for every valid source (of at most \<open>u32::MAX\<close> bytes) the
  recursive descent returns, no slice leaves a character boundary, the root is a document over
  the whole source, every node lies on character boundaries and inside its parent, tokens come
  in source order without overlap, and tokens and errors lie on character boundaries.
\<close>

theorem parse_script_total:
  assumes "valid_utf8 src" and "length src \<le> u32_max"
  shows "\<exists>parts. parse_script src = Some parts \<and> document_ok src parts"
proof -
  have "fresh src None = parser_new src" by (simp add: fresh_def parser_new_def)
  with parse_document_ok [OF assms, of None] show ?thesis by (auto simp: parse_script_def)
qed

theorem parse_script_total_witness:
  "\<exists>parts. parse_script ''a = { [[!b] c > \"d ] } rgb { 1 }'' = Some parts
    \<and> document_ok ''a = { [[!b] c > \"d ] } rgb { 1 }'' parts"
  by (rule parse_script_total) (code_simp, simp add: u32_max_def)

end
