(* ===== verification/Script_Budget.thy ===== *)
theory Script_Budget
  imports Script_Correct
begin

text \<open>
  A guard that never refuses is invisible: whatever a method of the script parser computes under
  a guard without being stopped, it computes without one. \<open>erase p\<close> is the parser \<open>p\<close> with its
  guard (and the record of the calls to it) removed; each method has one lemma, by which a run
  that ends unstopped was never stopped on the way and commutes with \<open>erase\<close>.
\<close>

definition erase :: "parser \<Rightarrow> parser" where
  "erase p = p\<lparr>ps_guard := None, ps_guard_calls := 0, ps_last_call := None\<rparr>"

lemma erase_simps [simp]:
  "ps_source (erase p) = ps_source p" "ps_position (erase p) = ps_position p"
  "ps_pending (erase p) = ps_pending p" "ps_tokens (erase p) = ps_tokens p"
  "ps_errors (erase p) = ps_errors p" "ps_nodes (erase p) = ps_nodes p"
  "ps_depth (erase p) = ps_depth p" "ps_stopped (erase p) = ps_stopped p"
  by (simp_all add: erase_def)

lemma erase_commutes [simp]:
  "push t (erase p) = erase (push t p)"
  "report k s e m (erase p) = erase (report k s e m p)"
  "push_token tk s e (erase p) = erase (push_token tk s e p)"
  "advance n (erase p) = erase (advance n p)"
  "advance_clamped (erase p) = erase (advance_clamped p)"
  "leave_container (erase p) = erase (leave_container p)"
  "peek (erase p) = peek p" "operator_starts_here (erase p) = operator_starts_here p"
  "starts_parameter_block (erase p) = starts_parameter_block p"
  "tree_saturated (erase p) = tree_saturated p" "snippet s e (erase p) = snippet s e p"
  by (simp_all add: erase_def push_def report_def push_token_def advance_def advance_clamped_def
      leave_container_def peek_def operator_starts_here_def starts_parameter_block_def
      tree_saturated_def snippet_def slice_def)

lemma erase_delimiters [simp]:
  "consume_delimiter dk (erase p) = erase (consume_delimiter dk p)"
  "consume_expected c (erase p) = erase (consume_expected c p)"
  "close_block c k s m (erase p) = erase (close_block c k s m p)"
  "close_condition (erase p) = erase (close_condition p)"
  by (simp_all add: consume_delimiter_def consume_expected_def close_block_def close_condition_def
      Let_def)

lemma stopped_simps [simp]:
  "ps_stopped (push t p) = ps_stopped p" "ps_stopped (report k s e m p) = ps_stopped p"
  "ps_stopped (push_token tk s e p) = ps_stopped p" "ps_stopped (advance n p) = ps_stopped p"
  "ps_stopped (advance_clamped p) = ps_stopped p"
  "ps_stopped (leave_container p) = ps_stopped p"
  "ps_stopped (consume_delimiter dk p) = ps_stopped p"
  "ps_stopped (consume_expected c p) = ps_stopped p"
  "ps_stopped (close_block c ek s m p) = ps_stopped p"
  "ps_stopped (close_condition p) = ps_stopped p"
  by (simp_all add: push_def report_def push_token_def advance_def advance_clamped_def
      leave_container_def consume_delimiter_def consume_expected_def close_block_def
      close_condition_def Let_def)

lemma check_work_nt:
  assumes "\<not> ps_stopped (check_work f p)"
  shows "\<not> ps_stopped p \<and> check_work f (erase p) = erase (check_work f p)"
proof -
  have running: "\<not> ps_stopped p" using assms by (cases "ps_stopped p") simp_all
  let ?p = "p\<lparr>ps_work := ps_work p + 1\<rparr>"
  show ?thesis
  proof (cases "f \<or> (ps_work p + 1) mod 256 = 0")
    case True
    have c: "check_work f p = ask_guard ?p" using running True by (simp add: check_work_def Let_def)
    have work: "(erase p)\<lparr>ps_work := ps_work (erase p) + 1\<rparr> = erase ?p" by (simp add: erase_def)
    have masked: "check_work f (erase p) = ask_guard (erase ?p)" using running True
      unfolding check_work_def Let_def work by (simp add: erase_def)
    have "ask_guard (erase ?p) = erase (ask_guard ?p)" using assms c
      by (cases "ps_guard p") (simp_all add: ask_guard_def erase_def Let_def split: if_splits)
    then show ?thesis using running c masked by simp
  next
    case False
    then show ?thesis using running by (simp add: check_work_def Let_def erase_def)
  qed
qed

lemma emit_nt:
  assumes "emit k s e n p = (t, q)" and "\<not> ps_stopped q"
  shows "\<not> ps_stopped p \<and> emit k s e n (erase p) = (t, erase q)"
proof -
  have "\<not> ps_stopped (check_work True p)" using assms by (auto simp: emit_def Let_def)
  from check_work_nt [OF this] assms(1) show ?thesis
    by (auto simp: emit_def Let_def) (simp add: erase_def)
qed

lemma scan_while_nt:
  "\<not> ps_stopped (scan_while keep p) \<Longrightarrow>
    \<not> ps_stopped p \<and> scan_while keep (erase p) = erase (scan_while keep p)"
proof (induction keep p rule: scan_while.induct)
  case (1 keep p)
  let ?c = "check_work False p"
  consider (exit) "\<not> (ps_position p < source_len p \<and> keep (ps_source p ! ps_position p))"
    | (halt) "ps_position p < source_len p" "keep (ps_source p ! ps_position p)" "ps_stopped ?c"
    | (go) "ps_position p < source_len p" "keep (ps_source p ! ps_position p)" "\<not> ps_stopped ?c" by blast
  then show ?case
  proof cases
    case exit
    then show ?thesis using "1.prems" scan_while_unfold(1) [where keep = keep, OF exit]
      scan_while_unfold(1) [where keep = keep and p = "erase p"] by simp
  next
    case halt
    then show ?thesis using "1.prems" scan_while_unfold(2) [where keep = keep, OF halt] by simp
  next
    case go
    note u = scan_while_unfold(3) [where keep = keep, OF go]
    note c = check_work_nt [OF go(3)]
    have "\<not> ps_stopped (scan_while keep (advance 1 ?c))" using "1.prems" u by simp
    with "1.IH" [OF conjI [OF go(1,2)] refl go(3)]
    have "scan_while keep (advance 1 (erase ?c)) = erase (scan_while keep (advance 1 ?c))" by simp
    moreover have "scan_while keep (erase p) = scan_while keep (advance 1 (check_work False (erase p)))"
      using go c by (intro scan_while_unfold(3)) simp_all
    ultimately show ?thesis using c u by simp
  qed
qed

lemma skip_whitespace_nt:
  "\<not> ps_stopped (skip_whitespace p) \<Longrightarrow>
    \<not> ps_stopped p \<and> skip_whitespace (erase p) = erase (skip_whitespace p)"
  unfolding skip_whitespace_def by (rule scan_while_nt)

lemma bare_loop_nt:
  "\<not> ps_stopped (bare_loop p) \<Longrightarrow> \<not> ps_stopped p \<and> bare_loop (erase p) = erase (bare_loop p)"
proof (induction p rule: bare_loop.induct)
  case (1 p)
  let ?c = "check_work False p"
  consider (exit) "\<not> ps_position p < source_len p"
    | (halt) "ps_position p < source_len p" "ps_stopped ?c"
    | (delimiter) "ps_position p < source_len p" "\<not> ps_stopped ?c"
        "bare_delimiter (ps_source p ! ps_position p)"
    | (go) "ps_position p < source_len p" "\<not> ps_stopped ?c"
        "\<not> bare_delimiter (ps_source p ! ps_position p)" by blast
  then show ?case
  proof cases
    case exit
    then show ?thesis using "1.prems" bare_loop_unfold(1) [OF exit] bare_loop_unfold(1) [of "erase p"]
      by simp
  next
    case halt
    then show ?thesis using "1.prems" bare_loop_unfold(2) [OF halt] by simp
  next
    case delimiter
    note c = check_work_nt [OF delimiter(2)]
    have "bare_loop (erase p) = check_work False (erase p)"
      using delimiter c by (intro bare_loop_unfold(3)) simp_all
    then show ?thesis using c bare_loop_unfold(3) [OF delimiter] by simp
  next
    case go
    note u = bare_loop_unfold(4) [OF go]
    note c = check_work_nt [OF go(2)]
    have "\<not> ps_stopped (bare_loop (advance 1 ?c))" using "1.prems" u by simp
    moreover have nd: "\<not> bare_delimiter (ps_source ?c ! ps_position ?c)"
      using go by (simp add: check_work_keeps)
    ultimately have "bare_loop (advance 1 (erase ?c)) = erase (bare_loop (advance 1 ?c))"
      using "1.IH" [OF go(1) refl go(2) nd] by simp
    moreover have "bare_loop (erase p) = bare_loop (advance 1 (check_work False (erase p)))"
      using go c by (intro bare_loop_unfold(4)) simp_all
    ultimately show ?thesis using c u by simp
  qed
qed

lemma parse_comment_nt:
  assumes "parse_comment p = (t, q)" and "\<not> ps_stopped q"
  shows "\<not> ps_stopped p \<and> parse_comment (erase p) = (t, erase q)"
proof -
  let ?p1 = "scan_while (\<lambda>b. b \<noteq> CR \<and> b \<noteq> NL) p"
  let ?p2 = "push_token CommentToken (ps_position p) (ps_position ?p1) ?p1"
  have "emit Comment (ps_position p) (ps_position ?p2) 0 ?p2 = (t, q)"
    using assms(1) by (simp add: parse_comment_def Let_def)
  from emit_nt [OF this assms(2)] scan_while_nt [of "\<lambda>b. b \<noteq> CR \<and> b \<noteq> NL" p] show ?thesis
    by (simp add: parse_comment_def Let_def)
qed

lemma parse_bare_nt:
  assumes "parse_bare p = (r, q)" and "\<not> ps_stopped q"
  shows "\<not> ps_stopped p \<and> parse_bare (erase p) = (r, erase q)"
proof -
  let ?p1 = "bare_loop p"
  let ?p2 = "push_token BareToken (ps_position p) (ps_position ?p1) ?p1"
  show ?thesis
  proof (cases "ps_position ?p1 = ps_position p")
    case True
    then have "r = None" "q = ?p1" using assms(1) by (simp_all add: parse_bare_def Let_def)
    then show ?thesis using bare_loop_nt [of p] assms(2) True by (simp add: parse_bare_def Let_def)
  next
    case False
    then obtain t where t: "r = Some t" "emit BareValue (ps_position p) (ps_position ?p2) 0 ?p2 = (t, q)"
      using assms(1) by (auto simp: parse_bare_def Let_def split: prod.splits)
    from emit_nt [OF t(2) assms(2)] bare_loop_nt [of p] False show ?thesis
      by (simp add: parse_bare_def Let_def t(1))
  qed
qed

lemma step_char_nt:
  "step_char p = Some q \<Longrightarrow> ps_stopped q = ps_stopped p \<and> step_char (erase p) = Some (erase q)"
  by (auto simp: step_char_def split: if_splits option.splits)

lemma quoted_loop_nt:
  "quoted_loop p = Some (c, q) \<Longrightarrow> \<not> ps_stopped q \<Longrightarrow>
    \<not> ps_stopped p \<and> quoted_loop (erase p) = Some (c, erase q)"
proof (induction p arbitrary: c q rule: quoted_loop.induct)
  case (1 p)
  let ?c = "check_work False p"
  let ?b = "ps_source ?c ! ps_position ?c"
  show ?case
  proof (cases "ps_position p < source_len p")
    case False
    with "1.prems" have "c = False" "q = p" by (simp_all add: quoted_loop.simps [of p])
    with "1.prems" False show ?thesis by (simp add: quoted_loop.simps [of "erase p"])
  next
    case lt: True
    note eq = quoted_loop.simps [of p]
    have ns: "\<not> ps_stopped ?c"
    proof
      assume "ps_stopped ?c"
      with "1.prems" lt have "q = ?c" by (simp add: eq Let_def)
      with "1.prems"(2) \<open>ps_stopped ?c\<close> show False by simp
    qed
    note cw = check_work_nt [OF ns]
    note eqe = quoted_loop.simps [of "erase p"]
    show ?thesis
    proof (cases "?b = QUOTE")
      case True
      then show ?thesis using "1.prems" lt ns cw by (auto simp: eq eqe Let_def)
    next
      case nq: False
      show ?thesis
      proof (cases "?b = BACKSLASH")
        case True
        show ?thesis
        proof (cases "ps_position (advance 1 ?c) < source_len (advance 1 ?c)")
          case l2: True
          obtain p3 where p3: "step_char (advance 1 ?c) = Some p3" "quoted_loop p3 = Some (c, q)"
            using "1.prems"(1) lt ns nq True l2 by (auto simp: eq Let_def split: option.splits)
          from "1.IH"(1) [OF lt refl ns refl nq True refl l2 p3(1) p3(2) "1.prems"(2)]
          have "quoted_loop (erase p3) = Some (c, erase q)" by simp
          then show ?thesis using lt ns nq True l2 cw step_char_nt [OF p3(1)]
            by (simp add: eqe Let_def)
        next
          case l2: False
          then have "quoted_loop (advance 1 ?c) = Some (c, q)"
            using "1.prems"(1) lt ns nq True by (simp add: eq Let_def)
          from "1.IH"(2) [OF lt refl ns refl nq True refl l2 this "1.prems"(2)]
          show ?thesis using lt ns nq True l2 cw by (simp add: eqe Let_def)
        qed
      next
        case nb: False
        obtain p2 where p2: "step_char ?c = Some p2" "quoted_loop p2 = Some (c, q)"
          using "1.prems"(1) lt ns nq nb by (auto simp: eq Let_def split: option.splits)
        from "1.IH"(3) [OF lt refl ns refl nq nb p2(1) p2(2) "1.prems"(2)]
        have "quoted_loop (erase p2) = Some (c, erase q)" by simp
        then show ?thesis using lt ns nq nb cw step_char_nt [OF p2(1)] by (simp add: eqe Let_def)
      qed
    qed
  qed
qed

lemma parse_quoted_nt:
  assumes "parse_quoted k p = Some (t, q)" and "\<not> ps_stopped q"
  shows "\<not> ps_stopped p \<and> parse_quoted k (erase p) = Some (t, erase q)"
proof -
  obtain c p1 where l: "quoted_loop (advance 1 p) = Some (c, p1)"
    using assms(1) by (auto simp: parse_quoted_def split: option.splits)
  define p3 where "p3 = (if c then push_token QuotedToken (ps_position p) (ps_position p1) p1
    else report UnterminatedString (ps_position p) (ps_position p1)
      (''quoted string is missing `'' @ [QUOTE] @ ''`'')
      (push_token QuotedToken (ps_position p) (ps_position p1) p1))"
  have e: "emit k (ps_position p) (ps_position p1) 0 p3 = (t, q)"
    using assms(1) l by (simp add: parse_quoted_def Let_def p3_def)
  from emit_nt [OF e assms(2)] have n: "\<not> ps_stopped p3"
    "emit k (ps_position p) (ps_position p1) 0 (erase p3) = (t, erase q)" by simp_all
  then have "\<not> ps_stopped p1" by (simp add: p3_def split: if_splits)
  from quoted_loop_nt [OF l this] n(2) show ?thesis
    by (simp add: parse_quoted_def Let_def p3_def split: if_splits)
qed

lemma parse_operator_nt:
  assumes "parse_operator p = Some (t, q)" and "\<not> ps_stopped q"
  shows "\<not> ps_stopped p \<and> parse_operator (erase p) = Some (t, erase q)"
proof -
  obtain n where n: "operator_length (drop (ps_position p) (ps_source p)) = Some n"
    using assms(1) by (auto simp: parse_operator_def split: option.splits)
  let ?p2 = "push_token OperatorToken (ps_position p) (ps_position (advance n p)) (advance n p)"
  have "emit Operator (ps_position p) (ps_position ?p2) 0 ?p2 = (t, q)"
    using assms(1) n by (simp add: parse_operator_def Let_def)
  from emit_nt [OF this assms(2)] n show ?thesis by (simp add: parse_operator_def Let_def)
qed

lemma skip_invalid_nt:
  assumes "skip_invalid m p = (t, q)" and "\<not> ps_stopped q"
  shows "\<not> ps_stopped p \<and> skip_invalid m (erase p) = (t, erase q)"
  using emit_nt [OF _ assms(2)] assms(1) by (fastforce simp: skip_invalid_def Let_def)

lemma header_block_nt:
  assumes "header_block s h b p = (t, q)" and "\<not> ps_stopped q"
  shows "\<not> ps_stopped p \<and> header_block s h b (erase p) = (t, erase q)"
  using emit_nt [OF _ assms(2)] assms(1) by (fastforce simp: header_block_def)

lemma missing_value_nt:
  assumes "missing_value k p = (t, q)" and "\<not> ps_stopped q"
  shows "\<not> ps_stopped p \<and> missing_value k (erase p) = (t, erase q)"
  using emit_nt [OF _ assms(2)] assms(1) by (fastforce simp: missing_value_def Let_def)

lemma parse_stray_delimiter_nt:
  assumes "parse_stray_delimiter d p = (t, q)" and "\<not> ps_stopped q"
  shows "\<not> ps_stopped p \<and> parse_stray_delimiter d (erase p) = (t, erase q)"
  using emit_nt [OF _ assms(2)] assms(1) by (fastforce simp: parse_stray_delimiter_def Let_def)

text \<open>The same for the methods that call the container parser.\<close>

definition neutral :: "container \<Rightarrow> bool" where
  "neutral rec \<longleftrightarrow> (\<forall>terminator p q. rec terminator p = Some q \<longrightarrow> \<not> ps_stopped q \<longrightarrow>
    \<not> ps_stopped p \<and> rec terminator (erase p) = Some (erase q))"

lemma neutralD:
  "neutral rec \<Longrightarrow> rec terminator p = Some q \<Longrightarrow> \<not> ps_stopped q \<Longrightarrow>
    \<not> ps_stopped p \<and> rec terminator (erase p) = Some (erase q)"
  unfolding neutral_def by blast

lemma parse_block_nt:
  assumes R: "neutral rec" and "parse_block rec p = Some (t, q)" and ns: "\<not> ps_stopped q"
  shows "\<not> ps_stopped p \<and> parse_block rec (erase p) = Some (t, erase q)"
proof -
  let ?p1 = "consume_expected CHR ''{'' p"
  obtain p2 where p2: "rec (Some CHR ''}'') ?p1 = Some p2"
    using assms(2) by (auto simp: parse_block_def Let_def bind_eq_Some_conv)
  let ?p3 = "close_block CHR ''}'' UnterminatedBlock (ps_position p) ''script block is missing `}`'' p2"
  have e: "emit Block (ps_position p) (max (ps_position ?p3) (ps_position p))
      (length (ps_pending p2) - length (ps_pending ?p1)) ?p3 = (t, q)"
    using assms(2) p2 by (simp add: parse_block_def Let_def)
  note n = emit_nt [OF e ns]
  with neutralD [OF R p2] show ?thesis by (simp add: parse_block_def Let_def)
qed

lemma parse_condition_nt:
  assumes "parse_condition p = (c, ce, q)" and ns: "\<not> ps_stopped q"
  shows "\<not> ps_stopped p \<and> parse_condition (erase p) = (c, ce, erase q)"
proof -
  define p1 where "p1 = (if peek p = Some CHR ''!'' then advance 1 p else p)"
  have p1e: "(if peek p = Some CHR ''!'' then advance 1 (erase p) else erase p) = erase p1"
    "ps_stopped p1 = ps_stopped p" by (simp_all add: p1_def)
  obtain r p2 where b: "parse_bare p1 = (r, p2)" by fastforce
  show ?thesis
  proof (cases r)
    case (Some t)
    then have "c = t" "ce = ps_position p2" "q = p2"
      using assms(1) b unfolding parse_condition_def Let_def p1_def [symmetric] by auto
    then show ?thesis using parse_bare_nt [OF b] ns Some p1e
      by (simp add: parse_condition_def Let_def)
  next
    case None
    let ?r = "report UnexpectedToken (ps_position p) (ps_position p2)
      ''parameter block is missing a condition'' p2"
    have ce: "ce = ps_position p2" and
      e: "emit ErrorNode (ps_position p) (ps_position p2) 0 ?r = (c, q)"
      using assms(1) b None unfolding parse_condition_def Let_def p1_def [symmetric]
      by (auto split: prod.splits)
    from emit_nt [OF e ns] parse_bare_nt [OF b] None p1e ce show ?thesis
      by (simp add: parse_condition_def Let_def)
  qed
qed

lemma parse_parameter_block_nt:
  assumes R: "neutral rec" and "parse_parameter_block rec p = Some (t, q)" and ns: "\<not> ps_stopped q"
  shows "\<not> ps_stopped p \<and> parse_parameter_block rec (erase p) = Some (t, erase q)"
proof -
  let ?p2 = "consume_delimiter OpenDelimiter (consume_delimiter OpenDelimiter p)"
  obtain c ce p5 where c: "parse_condition ?p2 = (c, ce, p5)" by (rule prod_cases3)
  define p7 where "p7 = close_condition (skip_whitespace p5)"
  obtain cn p8 where e8: "emit ParameterCondition (ps_position ?p2) ce 1 (push c p7) = (cn, p8)"
    by fastforce
  obtain p10 where p10: "rec (Some CHR '']'') (push cn p8) = Some p10"
    using assms(2) c e8 unfolding parse_parameter_block_def Let_def p7_def
    by (auto simp: bind_eq_Some_conv)
  let ?p11 = "close_block CHR '']'' UnterminatedParameterBlock (ps_position p)
    ''parameter block is missing `]`'' p10"
  have e: "emit ParameterBlock (ps_position p) (max (ps_position ?p11) (ps_position p))
      (length (ps_pending p10) - length (ps_pending (push cn p8)) + 1) ?p11 = (t, q)"
    using assms(2) c e8 p10 unfolding parse_parameter_block_def Let_def p7_def by simp
  note n = emit_nt [OF e ns]
  have n10: "\<not> ps_stopped p10" using n by simp
  note r = neutralD [OF R p10 n10]
  have n8: "\<not> ps_stopped p8" using r by simp
  note m = emit_nt [OF e8 n8]
  have n6: "\<not> ps_stopped (skip_whitespace p5)" using m by (simp add: p7_def)
  note s = skip_whitespace_nt [OF n6]
  from parse_condition_nt [OF c conjunct1 [OF s]] s m r n show ?thesis
    by (simp add: parse_parameter_block_def Let_def p7_def)
qed

lemma parse_value_nt:
  assumes R: "neutral rec" and v: "parse_value rec p = Some (t, q)" and ns: "\<not> ps_stopped q"
  shows "\<not> ps_stopped p \<and> parse_value rec (erase p) = Some (t, erase q)"
proof -
  consider (quote) "peek p = Some QUOTE" | (block) "peek p \<noteq> Some QUOTE" "peek p = Some CHR ''{''"
    | (parameter) "peek p \<noteq> Some QUOTE" "peek p \<noteq> Some CHR ''{''" "starts_parameter_block p"
    | (bare) "peek p \<noteq> Some QUOTE" "peek p \<noteq> Some CHR ''{''" "\<not> starts_parameter_block p" by blast
  then show ?thesis
  proof cases
    case quote
    then show ?thesis using parse_quoted_nt [of QuotedString p t q] v ns by (simp add: parse_value_def)
  next
    case block
    then show ?thesis using parse_block_nt [OF R _ ns, of p t] v by (simp add: parse_value_def)
  next
    case parameter
    then show ?thesis using parse_parameter_block_nt [OF R _ ns, of p t] v
      by (simp add: parse_value_def)
  next
    case bare
    obtain r p1 where b: "parse_bare p = (r, p1)" by fastforce
    show ?thesis
    proof (cases r)
      case None
      then have "skip_invalid ''expected a value, found '' p1 = (t, q)"
        using v bare b by (simp add: parse_value_def)
      from skip_invalid_nt [OF this ns] parse_bare_nt [OF b] bare None show ?thesis
        by (simp add: parse_value_def)
    next
      case (Some v')
      let ?p2 = "skip_whitespace p1"
      show ?thesis
      proof (cases "peek ?p2 = Some CHR ''{''")
        case True
        then obtain bl p3 where bl: "parse_block rec ?p2 = Some (bl, p3)"
          and h: "header_block (ps_position p) v' bl p3 = (t, q)"
          using v bare b Some by (auto simp: parse_value_def Let_def bind_eq_Some_conv)
        note nh = header_block_nt [OF h ns]
        note nb = parse_block_nt [OF R bl conjunct1 [OF nh]]
        note nw = skip_whitespace_nt [OF conjunct1 [OF nb]]
        from nh nb nw parse_bare_nt [OF b conjunct1 [OF nw]] bare Some True show ?thesis
          by (simp add: parse_value_def Let_def)
      next
        case False
        then have "t = v'" "q = ?p2" using v bare b Some by (auto simp: parse_value_def Let_def)
        then have nw: "\<not> ps_stopped p1 \<and> skip_whitespace (erase p1) = erase ?p2"
          using skip_whitespace_nt ns by simp
        from parse_bare_nt [OF b conjunct1 [OF nw]] nw bare Some False \<open>t = v'\<close> \<open>q = ?p2\<close> show ?thesis
          by (simp add: parse_value_def Let_def)
      qed
    qed
  qed
qed

lemma parse_property_nt:
  assumes R: "neutral rec" and e: "parse_property rec s key p = Some (t, q)" and ns: "\<not> ps_stopped q"
  shows "\<not> ps_stopped p \<and> parse_property rec s key (erase p) = Some (t, erase q)"
proof -
  obtain op p1 where op: "(case parse_operator p of Some r \<Rightarrow> r
      | None \<Rightarrow> skip_invalid ''invalid operator '' p) = (op, p1)" by fastforce
  define p2 where "p2 = skip_whitespace p1"
  let ?m = "source_len p2 \<le> ps_position p2 \<or> peek p2 \<in> {Some CHR ''#'', Some CHR ''}'', Some CHR '']''}"
  obtain v p3 where v: "(if ?m then Some (missing_value key p2) else parse_value rec p2) = Some (v, p3)"
    using e op unfolding parse_property_def Let_def p2_def by (auto simp: bind_eq_Some_conv)
  obtain kn p4 where e4: "emit Key (cst_start key) (cst_end key) 1 (push key p3) = (kn, p4)" by fastforce
  obtain vn p5 where e5: "emit Value (cst_start v) (cst_end v) 1 (push v p4) = (vn, p5)" by fastforce
  have e6: "emit Property s (cst_end v) 3 (push vn (push op (push kn p5))) = (t, q)"
    using e v unfolding parse_property_def Let_def op prod.case p2_def [symmetric]
    by (simp add: e4 [simplified] e5 [simplified])
  note n6 = emit_nt [OF e6 ns, simplified]
  note n5 = emit_nt [OF e5 conjunct1 [OF n6], simplified]
  note n4 = emit_nt [OF e4 conjunct1 [OF n5], simplified]
  have n3: "\<not> ps_stopped p2 \<and>
    (if ?m then Some (missing_value key (erase p2)) else parse_value rec (erase p2)) = Some (v, erase p3)"
    using v missing_value_nt [of key p2 v p3] parse_value_nt [OF R _ conjunct1 [OF n4], of p2 v] n4
    by (auto split: if_splits)
  have nw: "\<not> ps_stopped p1 \<and> skip_whitespace (erase p1) = erase p2"
    using skip_whitespace_nt [of p1] n3 by (simp add: p2_def)
  have no: "\<not> ps_stopped p \<and> (case parse_operator (erase p) of Some r \<Rightarrow> r
      | None \<Rightarrow> skip_invalid ''invalid operator '' (erase p)) = (op, erase p1)"
  proof (cases "parse_operator p")
    case None
    then have "skip_invalid ''invalid operator '' p = (op, p1)" using op by simp
    moreover have "parse_operator (erase p) = None" using None
      by (auto simp: parse_operator_def Let_def split: option.splits)
    ultimately show ?thesis using skip_invalid_nt [OF _ conjunct1 [OF nw]] by simp
  next
    case (Some r)
    then have "parse_operator p = Some (op, p1)" using op by simp
    from parse_operator_nt [OF this conjunct1 [OF nw]] show ?thesis by simp
  qed
  have "parse_property rec s key (erase p) = Some (t, erase q)"
    using n3 unfolding parse_property_def Let_def conjunct2 [OF no] prod.case conjunct2 [OF nw]
    by (auto simp: n4 n5 n6 split: if_splits)
  then show ?thesis using no by simp
qed

lemma parse_bare_element_nt:
  assumes R: "neutral rec" and e: "parse_bare_element rec s first p = Some q" and ns: "\<not> ps_stopped q"
  shows "\<not> ps_stopped p \<and> \<not> ps_stopped (skip_whitespace p)
    \<and> parse_bare_element rec s first (erase p) = Some (erase q)"
proof -
  define p2 where "p2 = skip_whitespace p"
  note d = parse_bare_element_def Let_def
  note e' = e [unfolded d p2_def [symmetric]]
  have main: "\<not> ps_stopped p2 \<and> (if operator_starts_here p2 then
      do { (property, p) \<leftarrow> parse_property rec s first (erase p2); Some (push property p) }
    else if peek p2 = Some CHR ''{'' then
      do { (block, p) \<leftarrow> parse_block rec (erase p2);
           let (header, p) = header_block s first block p; Some (push header p) }
    else Some (push first (erase p2))) = Some (erase q)"
  proof (cases "operator_starts_here p2")
    case True
    then obtain t p3 where t: "parse_property rec s first p2 = Some (t, p3)" "q = push t p3"
      using e' by (auto simp: bind_eq_Some_conv)
    then show ?thesis using parse_property_nt [OF R t(1)] ns True by simp
  next
    case no_op: False
    show ?thesis
    proof (cases "peek p2 = Some CHR ''{''")
      case True
      then obtain b p3 where b1: "parse_block rec p2 = Some (b, p3)"
        using e' no_op by (auto simp: bind_eq_Some_conv)
      obtain h p4 where b2: "header_block s first b p3 = (h, p4)" by fastforce
      have b3: "q = push h p4" using e' no_op True b1 b2 by simp
      note b = b1 b2 b3
      have "\<not> ps_stopped p4" using b(3) ns by simp
      note nh = header_block_nt [OF b(2) this]
      from nh parse_block_nt [OF R b(1) conjunct1 [OF nh]] b(3) no_op True show ?thesis by simp
    next
      case False
      then show ?thesis using e' no_op ns by auto
    qed
  qed
  have nw: "\<not> ps_stopped p" "skip_whitespace (erase p) = erase p2"
    using skip_whitespace_nt [of p] main by (simp_all add: p2_def)
  have "parse_bare_element rec s first (erase p) = Some (erase q)"
    unfolding parse_bare_element_def Let_def nw(2) erase_commutes
    using conjunct2 [OF main] unfolding Let_def erase_commutes .
  then show ?thesis using nw(1) main by (simp add: p2_def)
qed

lemma parse_quoted_element_nt:
  assumes R: "neutral rec" and e: "parse_quoted_element rec terminator p = Some q"
    and ns: "\<not> ps_stopped q"
  shows "\<not> ps_stopped p \<and> parse_quoted_element rec terminator (erase p) = Some (erase q)"
proof -
  obtain f p1 where f: "parse_quoted QuotedString p = Some (f, p1)"
    using e by (auto simp: parse_quoted_element_def Let_def bind_eq_Some_conv)
  define p2 where "p2 = skip_whitespace p1"
  show ?thesis
  proof (cases "operator_starts_here p2 \<or> peek p2 = Some CHR ''{''")
    case True
    then have "parse_quoted_element rec terminator p = parse_bare_element rec (ps_position p) f p1"
      by (auto simp: parse_quoted_element_def parse_bare_element_def Let_def f p2_def [symmetric])
    with e have "parse_bare_element rec (ps_position p) f p1 = Some q" by simp
    note n = parse_bare_element_nt [OF R this ns]
    note nf = parse_quoted_nt [OF f conjunct1 [OF n]]
    have "skip_whitespace (erase p1) = erase p2"
      using skip_whitespace_nt [of p1] n by (simp add: p2_def)
    then have "parse_quoted_element rec terminator (erase p)
        = parse_bare_element rec (ps_position p) f (erase p1)"
      using True nf by (auto simp: parse_quoted_element_def parse_bare_element_def Let_def)
    then show ?thesis using n nf by simp
  next
    case False
    then have q: "q = push f (if terminator = None then
        report UnexpectedToken (ps_position p) (cst_end f)
          ''a top-level script value must be assigned to a key'' p2 else p2)"
      using e f by (auto simp: parse_quoted_element_def Let_def p2_def)
    then have "\<not> ps_stopped p2" using ns by (simp split: if_splits)
    then have nw: "\<not> ps_stopped p1 \<and> skip_whitespace (erase p1) = erase p2"
      using skip_whitespace_nt [of p1] by (simp add: p2_def)
    from parse_quoted_nt [OF f conjunct1 [OF nw]] nw False q show ?thesis
      by (simp add: parse_quoted_element_def Let_def)
  qed
qed

lemma parse_other_element_nt:
  assumes R: "neutral rec" and e: "parse_other_element rec terminator p = Some q" and ns: "\<not> ps_stopped q"
  shows "\<not> ps_stopped p \<and> parse_other_element rec terminator (erase p) = Some (erase q)"
proof -
  consider (block) "peek p = Some CHR ''{''"
    | (quoted) "peek p \<noteq> Some CHR ''{''" "peek p = Some QUOTE"
    | (parameter) "peek p \<noteq> Some CHR ''{''" "peek p \<noteq> Some QUOTE" "starts_parameter_block p"
    | (other) "peek p \<noteq> Some CHR ''{''" "peek p \<noteq> Some QUOTE" "\<not> starts_parameter_block p" by blast
  then show ?thesis
  proof cases
    case block
    then obtain t p1 where t: "parse_block rec p = Some (t, p1)" "q = push t p1"
      using e by (auto simp: parse_other_element_def bind_eq_Some_conv)
    then show ?thesis using parse_block_nt [OF R t(1)] ns block by (simp add: parse_other_element_def)
  next
    case quoted
    then show ?thesis using parse_quoted_element_nt [OF R _ ns] e by (simp add: parse_other_element_def)
  next
    case parameter
    then obtain t p1 where t: "parse_parameter_block rec p = Some (t, p1)" "q = push t p1"
      using e by (auto simp: parse_other_element_def bind_eq_Some_conv)
    then show ?thesis using parse_parameter_block_nt [OF R t(1)] ns parameter
      by (simp add: parse_other_element_def)
  next
    case other
    obtain t p1 where t: "skip_invalid ''unexpected character '' p = (t, p1)" by fastforce
    then have "q = push t p1" using e other by (simp add: parse_other_element_def)
    then show ?thesis using skip_invalid_nt [OF t] ns other by (simp add: parse_other_element_def)
  qed
qed

lemma parse_element_nt:
  assumes R: "neutral rec" and e: "parse_element rec terminator p = Some q" and ns: "\<not> ps_stopped q"
  shows "\<not> ps_stopped p \<and> parse_element rec terminator (erase p) = Some (erase q)"
proof -
  consider (comment) "peek p = Some CHR ''#''"
    | (stray) "peek p \<noteq> Some CHR ''#''" "peek p = Some CHR ''}'' \<or> peek p = Some CHR '']''"
    | (item) "peek p \<noteq> Some CHR ''#''" "\<not> (peek p = Some CHR ''}'' \<or> peek p = Some CHR '']'')"
    by blast
  then show ?thesis
  proof cases
    case comment
    obtain t p1 where t: "parse_comment p = (t, p1)" by fastforce
    then have "q = push t p1" using e comment by (simp add: parse_element_def)
    then show ?thesis using parse_comment_nt [OF t] ns comment by (simp add: parse_element_def)
  next
    case stray
    obtain t p1 where t: "parse_stray_delimiter (the (peek p)) p = (t, p1)" by fastforce
    then have "q = push t p1" using e stray by (simp add: parse_element_def)
    then show ?thesis using parse_stray_delimiter_nt [OF t] ns stray by (simp add: parse_element_def)
  next
    case item
    obtain r p1 where b: "parse_bare p = (r, p1)" by fastforce
    show ?thesis
    proof (cases r)
      case None
      then have "parse_other_element rec terminator p1 = Some q"
        using e item b by (simp add: parse_element_def)
      note n = parse_other_element_nt [OF R this ns]
      from n parse_bare_nt [OF b conjunct1 [OF n]] item None show ?thesis
        by (simp add: parse_element_def)
    next
      case (Some f)
      then have "parse_bare_element rec (ps_position p) f p1 = Some q"
        using e item b by (simp add: parse_element_def)
      note n = parse_bare_element_nt [OF R this ns]
      from n parse_bare_nt [OF b conjunct1 [OF n]] item Some show ?thesis
        by (simp add: parse_element_def)
    qed
  qed
qed

lemma parse_container_with_nt:
  assumes L: "neutral loop"
  shows "neutral (parse_container_with loop)"
  unfolding neutral_def
proof (intro allI impI)
  fix terminator p q
  assume e: "parse_container_with loop terminator p = Some q" and ns: "\<not> ps_stopped q"
  then obtain q' where q': "loop terminator (enter_container p) = Some q'" "q = leave_container q'"
    by (auto simp: parse_container_with_def)
  then have "\<not> ps_stopped q'" using ns by simp
  note n = neutralD [OF L q'(1) this]
  have "\<not> ps_stopped (enter_container p)" using n by blast
  moreover have "(erase p)\<lparr>ps_depth := ps_depth p + 1\<rparr> = erase (p\<lparr>ps_depth := ps_depth p + 1\<rparr>)"
    by (simp add: erase_def)
  ultimately have "\<not> ps_stopped p \<and> enter_container (erase p) = erase (enter_container p)"
    using check_work_nt [of True "p\<lparr>ps_depth := ps_depth p + 1\<rparr>"]
    unfolding enter_container_def erase_simps by auto
  then show "\<not> ps_stopped p \<and> parse_container_with loop terminator (erase p) = Some (erase q)"
    using n q'(2) by (simp add: parse_container_with_def)
qed

lemma container_step_nt:
  assumes L: "neutral loop"
  shows "neutral (container_step loop)"
  unfolding neutral_def
proof (intro allI impI)
  fix terminator p q
  assume e: "container_step loop terminator p = Some q" and ns: "\<not> ps_stopped q"
  define p1 where "p1 = check_work False p"
  define p2 where "p2 = skip_whitespace p1"
  note d = container_step_def Let_def p1_def [symmetric] p2_def [symmetric]
  have n1: "\<not> ps_stopped p1" using e ns by (auto simp: d split: if_splits)
  let ?stop = "source_len p2 \<le> ps_position p2 \<or> tree_saturated p2"
  let ?closed = "terminator \<noteq> None \<and> peek p2 = terminator"
  have body: "(if ?stop then Some p2 else if ?closed then Some p2
      else do { p \<leftarrow> parse_element (parse_container_with loop) terminator p2; loop terminator p })
    = Some q" using e n1 unfolding d by simp
  have main: "\<not> ps_stopped p2 \<and> (if ?stop then Some (erase p2) else if ?closed then Some (erase p2)
      else do { p \<leftarrow> parse_element (parse_container_with loop) terminator (erase p2);
                loop terminator p }) = Some (erase q)"
  proof (cases "?stop \<or> ?closed")
    case True
    then consider (at_end) "?stop" | (close) "\<not> ?stop" "?closed" by blast
    then have "Some p2 = Some q"
    proof cases
      case at_end
      show ?thesis using body unfolding if_P [OF at_end] .
    next
      case close
      show ?thesis using body unfolding if_not_P [OF close(1)] if_P [OF close(2)] .
    qed
    then have "q = p2" by simp
    have "\<not> ps_stopped p2" using ns \<open>q = p2\<close> by simp
    show ?thesis
    proof (cases ?stop)
      case True
      show ?thesis unfolding if_P [OF True] using \<open>\<not> ps_stopped p2\<close> \<open>q = p2\<close> by simp
    next
      case False
      then have ?closed using \<open>?stop \<or> ?closed\<close> by blast
      show ?thesis unfolding if_not_P [OF False] if_P [OF \<open>?closed\<close>]
        using \<open>\<not> ps_stopped p2\<close> \<open>q = p2\<close> by simp
    qed
  next
    case False
    then obtain p3 where p3: "parse_element (parse_container_with loop) terminator p2 = Some p3"
      "loop terminator p3 = Some q"
      using body by (auto simp: bind_eq_Some_conv)
    note n3 = neutralD [OF L p3(2) ns]
    note n2 = parse_element_nt [OF parse_container_with_nt [OF L] p3(1) conjunct1 [OF n3]]
    have ends: "\<not> ?stop" "\<not> ?closed" using False by blast+
    show ?thesis unfolding if_not_P [OF ends(1)] if_not_P [OF ends(2)] using n2 n3 by simp
  qed
  have cw: "\<not> ps_stopped p" "check_work False (erase p) = erase p1"
    using check_work_nt [OF n1 [unfolded p1_def]] by (simp_all add: p1_def)
  have nw: "skip_whitespace (erase p1) = erase p2"
    using skip_whitespace_nt [of p1] main by (simp add: p2_def)
  have "container_step loop terminator (erase p) = Some (erase q)"
    unfolding container_step_def Let_def cw(2) nw erase_simps erase_commutes if_not_P [OF n1]
    using conjunct2 [OF main] .
  with cw(1) show "\<not> ps_stopped p \<and> container_step loop terminator (erase p) = Some (erase q)"
    by blast
qed

lemma container_loop_nt: "neutral (container_loop n)"
  by (induction n) (simp_all add: neutral_def [of "\<lambda>_ _. None"] container_step_nt)

lemma parse_document_nt:
  assumes "parse_document (fresh src g) = Some (parts, q)" and ns: "\<not> ps_stopped q"
  shows "parse_script src = Some parts"
proof -
  let ?p = "fresh src g"
  obtain p1 where p1: "parse_container (script_fuel src) None ?p = Some p1"
    using assms(1) by (auto simp: parse_document_def Let_def bind_eq_Some_conv)
  obtain t where e: "emit Document 0 (source_len p1) (length (ps_pending p1)) p1 = (t, q)"
    and parts: "parts = \<lparr>parts_tree = t, parts_tokens = ps_tokens q, parts_errors = ps_errors q\<rparr>"
    using assms(1) p1 by (auto simp: parse_document_def Let_def split: prod.splits)
  note n = emit_nt [OF e ns]
  have "neutral (parse_container (script_fuel src))"
    unfolding parse_container_def by (rule parse_container_with_nt [OF container_loop_nt])
  from neutralD [OF this p1 conjunct1 [OF n]]
  have "parse_container (script_fuel src) None (erase ?p) = Some (erase p1)" by simp
  moreover have "erase ?p = parser_new src" by (simp add: erase_def fresh_def parser_new_def)
  moreover have "ps_source (parser_new src) = src" "ps_pending (parser_new src) = []"
    by (simp_all add: parser_new_def)
  ultimately show ?thesis using n
    by (simp add: parse_script_def parse_document_def parts)
qed

end
