(* ===== verification/Loc_Parser.thy ===== *)
theory Loc_Parser
  imports Script_Correct
begin

text \<open>
  The localisation front end of the crate \<open>parser\<close> (\<open>localisation.rs\<close>): a line-by-line parser
  that pushes one node per line. \<open>None\<close> is the outcome of a slice off a character boundary
  (a panic in Rust); the theorem at the end shows that it does not happen.
\<close>

record loc_parser =
  lp_source :: string
  lp_tokens :: "syntax_token list"
  lp_errors :: "syntax_error list"
  lp_pending :: "cst list"

definition loc_parser_new :: "string \<Rightarrow> loc_parser" where
  "loc_parser_new src = \<lparr>lp_source = src, lp_tokens = [], lp_errors = [], lp_pending = []\<rparr>"

definition loc_node :: "cst_kind \<Rightarrow> nat \<Rightarrow> nat \<Rightarrow> nat \<Rightarrow> loc_parser \<Rightarrow> cst \<times> loc_parser" where
  "loc_node k s e child_count p =
    (let mark = length (lp_pending p) - child_count in
     (Node k (make_range s e) (drop mark (lp_pending p)),
      p\<lparr>lp_pending := take mark (lp_pending p)\<rparr>))"

definition loc_push :: "cst \<Rightarrow> loc_parser \<Rightarrow> loc_parser" where
  "loc_push t p = p\<lparr>lp_pending := lp_pending p @ [t]\<rparr>"

definition loc_token :: "token_kind \<Rightarrow> nat \<Rightarrow> nat \<Rightarrow> loc_parser \<Rightarrow> loc_parser" where
  "loc_token k s e p =
    p\<lparr>lp_tokens := lp_tokens p @ [\<lparr>token_kind = k, token_range = make_range s e\<rparr>]\<rparr>"

definition loc_error :: "syntax_error_kind \<Rightarrow> nat \<Rightarrow> nat \<Rightarrow> string \<Rightarrow> loc_parser \<Rightarrow> loc_parser" where
  "loc_error k s e msg p =
    p\<lparr>lp_errors := lp_errors p
        @ [\<lparr>error_kind = k, error_range = make_range s e, error_message = msg\<rparr>]\<rparr>"

definition byte_at :: "string \<Rightarrow> nat \<Rightarrow> char option" where
  "byte_at s i = (if i < length s then Some (s ! i) else None)"

text \<open>The \<open>while\<close> loops that step over a class of ASCII bytes from \<open>position\<close>.\<close>

definition skip_from :: "(char \<Rightarrow> bool) \<Rightarrow> string \<Rightarrow> nat \<Rightarrow> nat" where
  "skip_from keep s position = position + length (takeWhile keep (drop position s))"

text \<open>\<open>source[start..line_end].find('#')\<close>, as an offset from \<open>start\<close>.\<close>

definition find_hash :: "string \<Rightarrow> nat \<Rightarrow> nat \<Rightarrow> nat option option" where
  "find_hash src start line_end =
    (case str_get src start line_end of
       None \<Rightarrow> None
     | Some t \<Rightarrow>
        Some (let n = length (takeWhile (\<lambda>b. b \<noteq> CHR ''#'') t) in if n < length t then Some n else None))"

definition comment_at :: "nat \<Rightarrow> nat \<Rightarrow> loc_parser \<Rightarrow> cst \<times> loc_parser" where
  "comment_at comment_start line_end p =
    loc_node Comment comment_start line_end 0 (loc_token CommentToken comment_start line_end p)"

definition inline_comment ::
  "nat \<Rightarrow> nat \<Rightarrow> loc_parser \<Rightarrow> (cst option \<times> loc_parser) option" where
  "inline_comment start line_end p =
    (case find_hash (lp_source p) start line_end of
       None \<Rightarrow> None
     | Some None \<Rightarrow> Some (None, p)
     | Some (Some relative) \<Rightarrow>
        (let (c, p) = comment_at (start + relative) line_end p in Some (Some c, p)))"

text \<open>The loop of \<open>parse_quoted\<close>: where it ends and whether the quote was closed.\<close>

definition char_step :: "string \<Rightarrow> nat \<Rightarrow> nat option" where
  "char_step src position =
    (if is_boundary src position then
       Some (position + (case char_width_at src position of None \<Rightarrow> 1 | Some w \<Rightarrow> w))
     else None)"

lemma char_step_less: "char_step src n = Some m \<Longrightarrow> n < m"
  by (auto simp: char_step_def char_width_at_def split: if_splits option.splits)

function loc_quoted_loop :: "string \<Rightarrow> nat \<Rightarrow> nat \<Rightarrow> (bool \<times> nat) option" where
  "loc_quoted_loop src line_end position =
    (if position < line_end then
       (let byte = src ! position in
        if byte = QUOTE then Some (True, position + 1)
        else if byte = BACKSLASH then
          (if position + 1 < line_end then
             (case char_step src (position + 1) of
                None \<Rightarrow> None | Some next \<Rightarrow> loc_quoted_loop src line_end next)
           else loc_quoted_loop src line_end (position + 1))
        else (case char_step src position of
                None \<Rightarrow> None | Some next \<Rightarrow> loc_quoted_loop src line_end next))
     else Some (False, position))"
  by pat_completeness auto
termination
  by (relation "measure (\<lambda>(src, line_end, position). line_end - position)")
    (auto dest!: char_step_less)

declare loc_quoted_loop.simps [simp del]

definition loc_parse_quoted ::
  "nat \<Rightarrow> nat \<Rightarrow> loc_parser \<Rightarrow> (cst \<times> cst option \<times> loc_parser) option" where
  "loc_parse_quoted start line_end p =
    (case loc_quoted_loop (lp_source p) line_end (start + 1) of
       None \<Rightarrow> None
     | Some (closed, fin) \<Rightarrow>
        (let p = loc_token QuotedToken start fin p;
             p = (if closed then p else
               loc_error UnterminatedLocalisationString start line_end
                 (''localisation string is missing `'' @ [QUOTE] @ ''`'') p)
         in case (if closed then inline_comment fin line_end p else Some (None, p)) of
              None \<Rightarrow> None
            | Some (comment, p) \<Rightarrow>
               (let (value, p) = loc_node LocalisationString start fin 0 p
                in Some (value, comment, p))))"

text \<open>\<open>while end > start && bytes[end - 1].is_ascii_whitespace() { end -= 1 }\<close>.\<close>

fun trim_end_from :: "string \<Rightarrow> nat \<Rightarrow> nat \<Rightarrow> nat" where
  "trim_end_from src start 0 = 0"
| "trim_end_from src start (Suc e) =
    (if start < Suc e \<and> is_ascii_whitespace (src ! e) then trim_end_from src start e else Suc e)"

definition loc_parse_unquoted ::
  "nat \<Rightarrow> nat \<Rightarrow> loc_parser \<Rightarrow> (cst \<times> cst option \<times> loc_parser) option" where
  "loc_parse_unquoted start line_end p =
    (case find_hash (lp_source p) start line_end of
       None \<Rightarrow> None
     | Some found \<Rightarrow>
        (let (fin, comment, p) = (case found of
             None \<Rightarrow> (line_end, None, p)
           | Some offset \<Rightarrow>
              (let e = trim_end_from (lp_source p) start (start + offset);
                   (c, p) = comment_at (start + offset) line_end p
               in (e, Some c, p)));
             fin = trim_end_from (lp_source p) start fin;
             p = loc_token BareToken start fin p;
             (value, p) = loc_node UnquotedValue start fin 0 p
         in Some (value, comment, p)))"

definition key_byte :: "char \<Rightarrow> bool" where
  "key_byte b \<longleftrightarrow> is_ascii_upper b \<or> is_ascii_lower b \<or> is_ascii_digit b \<or> b \<in> set ''_$.-''"

text \<open>After the colon of an entry: optional version digits, then whitespace.\<close>

definition parse_version :: "nat \<Rightarrow> string \<Rightarrow> nat \<Rightarrow> loc_parser \<Rightarrow> nat \<times> loc_parser" where
  "parse_version start line position p =
    (let position = skip_from is_ascii_whitespace line position in
     case byte_at line position of
       Some b \<Rightarrow>
         if is_ascii_digit b then
           (let version_start = position;
                position = skip_from is_ascii_digit line position;
                version_end = start + position;
                p = loc_token BareToken (start + version_start) version_end p;
                (version, p) = loc_node Version (start + version_start) version_end 0 p;
                p = loc_push version p
            in (skip_from is_ascii_whitespace line position, p))
         else (position, p)
     | None \<Rightarrow> (position, p))"

definition finish_entry :: "nat \<Rightarrow> nat \<Rightarrow> nat \<Rightarrow> loc_parser \<Rightarrow> cst \<times> loc_parser" where
  "finish_entry start line_end mark p =
    loc_node LocalisationEntry start line_end (length (lp_pending p) - mark) p"

text \<open>The entry from its value on.\<close>

definition parse_entry_value ::
  "nat \<Rightarrow> nat \<Rightarrow> string \<Rightarrow> nat \<Rightarrow> nat \<Rightarrow> loc_parser \<Rightarrow> (cst \<times> loc_parser) option" where
  "parse_entry_value start line_end line mark position p =
    (if length line \<le> position \<or> byte_at line position = Some CHR ''#'' then
       (let p = loc_error InvalidLocalisationEntry line_end line_end
              ''localisation entry is missing a value'' p;
            p = (if byte_at line position = Some CHR ''#'' then
                   (let (c, p) = comment_at (start + position) line_end p in loc_push c p)
                 else p);
            (recovery, p) = loc_node ErrorNode line_end line_end 0 p;
            p = loc_push recovery p
        in Some (finish_entry start line_end mark p))
     else
       (case (if line ! position = QUOTE then loc_parse_quoted (start + position) line_end p
              else loc_parse_unquoted (start + position) line_end p) of
          None \<Rightarrow> None
        | Some (value, comment, p) \<Rightarrow>
           (let p = loc_push value p;
                p = (case comment of Some c \<Rightarrow> loc_push c p | None \<Rightarrow> p)
            in Some (finish_entry start line_end mark p))))"

definition is_blank :: "char \<Rightarrow> bool" where
  "is_blank b \<longleftrightarrow> b = CHR '' '' \<or> b = TAB"

definition parse_line ::
  "nat \<Rightarrow> nat \<Rightarrow> string \<Rightarrow> loc_parser \<Rightarrow> (cst \<times> loc_parser) option" where
  "parse_line start line_end line p =
    (let mark = length (lp_pending p);
         key_len = length (takeWhile key_byte line) in
     if key_len = 0 then
       (let p = loc_error InvalidLocalisationEntry start line_end
              ''localisation line is missing a key'' p
        in Some (loc_node ErrorNode start line_end 0 p))
     else
       (let key_end = start + key_len;
            p = loc_token BareToken start key_end p;
            (key, p) = loc_node LocalisationKey start key_end 0 p;
            p = loc_push key p;
            position = skip_from is_ascii_whitespace line key_len
        in if byte_at line position = Some CHR '':'' then
             (let colon_start = start + position;
                  position = position + 1;
                  p = loc_token ColonToken colon_start (colon_start + 1) p
              in case str_get line position (length line) of
                   None \<Rightarrow> None
                 | Some rest \<Rightarrow>
                    if take 2 (take key_len line) = ''l_'' \<and> list_all is_blank rest then
                      Some (loc_node LanguageHeader start line_end (length (lp_pending p) - mark) p)
                    else
                      (let (position, p) = parse_version start line position p
                       in parse_entry_value start line_end line mark position p))
           else parse_entry_value start line_end line mark position p))"

text \<open>One line of \<open>parse_lines\<close>: \<open>content_end\<close> excludes a carriage return.\<close>

definition bom :: string where
  "bom = [CHR 0xEF, CHR 0xBB, CHR 0xBF]"

definition find_line_end :: "string \<Rightarrow> nat \<Rightarrow> nat" where
  "find_line_end src line_start = line_start + length (takeWhile (\<lambda>b. b \<noteq> NL) (drop line_start src))"

definition find_content_end :: "string \<Rightarrow> nat \<Rightarrow> nat \<Rightarrow> nat" where
  "find_content_end src line_start line_end =
    (if line_start < line_end \<and> src ! (line_end - 1) = CR then line_end - 1 else line_end)"

definition parse_content ::
  "nat \<Rightarrow> nat \<Rightarrow> loc_parser \<Rightarrow> loc_parser option" where
  "parse_content content_start content_end p =
    (case str_get (lp_source p) content_start content_end of
       None \<Rightarrow> None
     | Some content \<Rightarrow>
        (let leading = length (takeWhile is_blank content);
             start = content_start + leading;
             trimmed = drop leading content
         in if trimmed = [] then Some p
            else if hd trimmed = CHR ''#'' then
              (let (c, p) = comment_at start content_end p in Some (loc_push c p))
            else (case parse_line start content_end trimmed p of
                None \<Rightarrow> None
              | Some (t, p) \<Rightarrow> Some (loc_push t p))))"

definition parse_one_line :: "bool \<Rightarrow> nat \<Rightarrow> nat \<Rightarrow> loc_parser \<Rightarrow> loc_parser option" where
  "parse_one_line first_line line_start content_end p =
    (case str_get (lp_source p) line_start content_end of
       None \<Rightarrow> None
     | Some line \<Rightarrow>
        if first_line \<and> take 3 line = bom then
          (let p = loc_token BomToken line_start (line_start + 3) p;
               (b, p) = loc_node Bom line_start (line_start + 3) 0 p
           in parse_content (line_start + 3) content_end (loc_push b p))
        else parse_content line_start content_end p)"

function parse_lines :: "bool \<Rightarrow> nat \<Rightarrow> loc_parser \<Rightarrow> loc_parser option" where
  "parse_lines first_line line_start p =
    (if line_start \<le> length (lp_source p) then
       (let line_end = find_line_end (lp_source p) line_start;
            content_end = find_content_end (lp_source p) line_start line_end
        in case parse_one_line first_line line_start content_end p of
             None \<Rightarrow> None
           | Some q \<Rightarrow>
              if line_end = length (lp_source p) \<or> lp_source q \<noteq> lp_source p then Some q
              else parse_lines False (line_end + 1) q)
     else Some p)"
  by pat_completeness auto
termination
  by (relation "measure (\<lambda>(_, n, p). Suc (length (lp_source p)) - n)")
    (auto simp: find_line_end_def)

declare parse_lines.simps [simp del]

definition parse_localisation :: "string \<Rightarrow> parse_parts option" where
  "parse_localisation src =
    (case parse_lines True 0 (loc_parser_new src) of
       None \<Rightarrow> None
     | Some p \<Rightarrow>
        (let (document, p) = loc_node LocalisationDocument 0 (length src) (length (lp_pending p)) p
         in Some \<lparr>parts_tree = document, parts_tokens = lp_tokens p, parts_errors = lp_errors p\<rparr>))"

end
