(* ===== verification/Loc_Correct.thy ===== *)
theory Loc_Correct
  imports Loc_Parser
begin

text \<open>
  Correctness of the localisation front end of \<open>Loc_Parser\<close>: every parse of a valid string
  returns, and its tree, tokens and errors lie on character boundaries with children inside
  their parents. Tokens are not always in source order; the last theorem gives the file.
\<close>

subsection \<open>Boundaries inside a line\<close>

lemma ascii_next:
  assumes "valid_utf8 s" and "is_boundary s n" and "n < length s" and "byte_of (s ! n) < 128"
  shows "is_boundary s (n + 1)"
  using valid_utf8_next_boundary [OF assms(1-3)] assms(4) by (simp add: utf8_width_def)

lemma ascii_run:
  assumes v: "valid_utf8 s" and a: "is_boundary s a"
    and asc: "\<And>i. a \<le> i \<Longrightarrow> i < a + n \<Longrightarrow> byte_of (s ! i) < 128" and l: "a + n \<le> length s"
  shows "is_boundary s (a + n)"
  using asc l
proof (induction n)
  case (Suc n)
  then have "is_boundary s (a + n)" by simp
  then show ?case using ascii_next [OF v, of "a + n"] Suc.prems by simp
qed (use a in simp)

lemma boundary_slice:
  assumes "is_boundary s a" and "is_boundary s b" and "a \<le> b" and "i \<le> b - a"
  shows "is_boundary (take (b - a) (drop a s)) i \<longleftrightarrow> is_boundary s (a + i)"
  using assms is_boundary_le [OF assms(2)] by (auto simp: is_boundary_def)

lemma boundary_step_le:
  assumes v: "valid_utf8 s" and n: "is_boundary s n" and m: "is_boundary s m" and lt: "n < m"
  shows "n + utf8_width (byte_of (s ! n)) \<le> m"
proof -
  have ml: "m \<le> length s" using is_boundary_le [OF m] .
  then have nl: "n < length s" using lt by simp
  obtain c cs where d: "drop n s = c # cs" using nl by (cases "drop n s") auto
  have c: "s ! n = c" using d nl by (metis nth_via_drop)
  have "valid_utf8 (c # cs)" using valid_utf8_drop [OF v n] d by simp
  moreover have "is_boundary (c # cs) (m - n)"
    using m lt ml unfolding d [symmetric] by (auto simp: is_boundary_def)
  moreover have "m - n \<noteq> 0" using lt by simp
  ultimately have "utf8_width (byte_of c) \<le> m - n" by (rule first_char_boundary(3))
  then show ?thesis using c lt by simp
qed

lemma takeWhile_ascii:
  assumes "\<And>b. keep b \<Longrightarrow> byte_of b < 128" and "i < length (takeWhile keep xs)"
  shows "byte_of (xs ! i) < 128"
proof -
  have "takeWhile keep xs ! i = xs ! i" using assms(2) by (rule takeWhile_nth)
  moreover have "takeWhile keep xs ! i \<in> set (takeWhile keep xs)" using assms(2) by (rule nth_mem)
  ultimately show ?thesis using assms(1) by (auto dest: set_takeWhileD)
qed

lemma skip_from_boundary:
  assumes v: "valid_utf8 s" and a: "is_boundary s n" and k: "\<And>b. keep b \<Longrightarrow> byte_of b < 128"
  shows "is_boundary s (skip_from keep s n)" and "n \<le> skip_from keep s n"
    and "skip_from keep s n \<le> length s"
proof -
  let ?m = "length (takeWhile keep (drop n s))"
  have nl: "n \<le> length s" using is_boundary_le [OF a] .
  have "?m \<le> length (drop n s)" by (rule length_takeWhile_le)
  then show le: "skip_from keep s n \<le> length s" using nl by (simp add: skip_from_def)
  show "n \<le> skip_from keep s n" by (simp add: skip_from_def)
  have "byte_of (s ! i) < 128" if "n \<le> i" "i < n + ?m" for i
  proof -
    have "byte_of (drop n s ! (i - n)) < 128"
      using takeWhile_ascii [of keep "i - n" "drop n s"] k that by simp
    then show ?thesis using that nl by simp
  qed
  then show "is_boundary s (skip_from keep s n)" unfolding skip_from_def
    using le by (intro ascii_run [OF v a]) (simp_all add: skip_from_def)
qed

subsection \<open>What a method does to the parser\<close>

text \<open>\<open>lgrow p q new out lo hi\<close>: the trees \<open>new\<close> were pushed, \<open>out\<close> returned, all between \<open>lo\<close>
  and \<open>hi\<close>.\<close>

definition lgrow ::
  "loc_parser \<Rightarrow> loc_parser \<Rightarrow> cst list \<Rightarrow> cst list \<Rightarrow> nat \<Rightarrow> nat \<Rightarrow> bool" where
  "lgrow p q new out lo hi \<longleftrightarrow>
    lp_source q = lp_source p \<and> lp_pending q = lp_pending p @ new
    \<and> list_all (tree_ok (lp_source p) lo hi) (new @ out)
    \<and> (\<exists>ts. lp_tokens q = lp_tokens p @ ts
        \<and> list_all (\<lambda>t. valid_range (lp_source p) (token_range t)) ts)
    \<and> (\<exists>es. lp_errors q = lp_errors p @ es
        \<and> list_all (\<lambda>e. valid_range (lp_source p) (error_range e)) es)"

lemma lgrow_refl: "lgrow p p [] [] lo hi"
  by (simp add: lgrow_def)

lemma lgrow_trans:
  assumes "lgrow p q a x lo hi" and "lgrow q r b y lo hi"
  shows "lgrow p r (a @ b) (x @ y) lo hi"
proof -
  obtain ts us where "lp_tokens q = lp_tokens p @ ts" "lp_tokens r = lp_tokens q @ us"
    "list_all (\<lambda>t. valid_range (lp_source p) (token_range t)) (ts @ us)"
    using assms unfolding lgrow_def by (metis list_all_append)
  moreover obtain es fs where "lp_errors q = lp_errors p @ es" "lp_errors r = lp_errors q @ fs"
    "list_all (\<lambda>e. valid_range (lp_source p) (error_range e)) (es @ fs)"
    using assms unfolding lgrow_def by (metis list_all_append)
  ultimately show ?thesis using assms by (auto simp: lgrow_def)
qed

lemma lgrow_mono:
  "lgrow p q a x lo hi \<Longrightarrow> lo' \<le> lo \<Longrightarrow> hi \<le> hi' \<Longrightarrow> lgrow p q a x lo' hi'"
  by (auto simp: lgrow_def list_all_iff intro: tree_ok_mono)

lemma lgrow_push: "lgrow p q a (t # x) lo hi \<Longrightarrow> lgrow p (loc_push t q) (a @ [t]) x lo hi"
  by (auto simp: lgrow_def loc_push_def)

lemma lgrow_source: "lgrow p q a x lo hi \<Longrightarrow> lp_source q = lp_source p"
  by (simp add: lgrow_def)

text \<open>A valid source, and the ranges between two of its boundaries.\<close>

definition good_source :: "loc_parser \<Rightarrow> bool" where
  "good_source p \<longleftrightarrow> valid_utf8 (lp_source p) \<and> length (lp_source p) \<le> u32_max"

definition span :: "loc_parser \<Rightarrow> nat \<Rightarrow> nat \<Rightarrow> bool" where
  "span p s e \<longleftrightarrow> is_boundary (lp_source p) s \<and> is_boundary (lp_source p) e \<and> s \<le> e"

lemma span_range: "good_source p \<Longrightarrow> span p s e \<Longrightarrow> valid_range (lp_source p) (make_range s e)"
  by (auto simp: good_source_def span_def intro: valid_range_make)

lemma lgrow_token:
  "good_source p \<Longrightarrow> lgrow p q a x lo hi \<Longrightarrow> span p s e \<Longrightarrow> lgrow p (loc_token k s e q) a x lo hi"
  using span_range [of p s e] by (auto simp: lgrow_def loc_token_def)

lemma lgrow_error:
  "good_source p \<Longrightarrow> lgrow p q a x lo hi \<Longrightarrow> span p s e \<Longrightarrow> lgrow p (loc_error k s e m q) a x lo hi"
  using span_range [of p s e] by (auto simp: lgrow_def loc_error_def)

lemma lgrow_node:
  assumes g: "good_source p" and r: "lgrow p q (a @ cs) x lo hi" and n: "length cs = n"
    and s: "span p s e" "lo \<le> s" "e \<le> hi"
    and cs: "list_all (\<lambda>c. s \<le> cst_start c \<and> cst_end c \<le> e) cs"
    and e: "loc_node k s e n q = (t, q')"
  shows "lgrow p q' a (t # x) lo hi" and "cst_kind t = k"
    and "cst_range t = make_range s e" and "cst_children t = cs"
proof -
  have pend: "lp_pending q = (lp_pending p @ a) @ cs" using r by (simp add: lgrow_def)
  have t: "t = Node k (make_range s e) cs" "q' = q\<lparr>lp_pending := lp_pending p @ a\<rparr>"
    using e pend n by (auto simp: loc_node_def Let_def)
  then show "cst_kind t = k" "cst_range t = make_range s e" "cst_children t = cs" by simp_all
  have "e \<le> u32_max" using s(1) g is_boundary_le [of "lp_source p" e]
    by (simp add: span_def good_source_def)
  moreover have "list_all (tree_ok (lp_source p) s e) cs"
    using r cs by (auto simp: lgrow_def list_all_iff tree_ok_def)
  ultimately have "tree_ok (lp_source p) lo hi t"
    unfolding t using span_range [OF g s(1)] s by (intro tree_ok_Node) (auto simp: span_def)
  then show "lgrow p q' a (t # x) lo hi" using r t(2) by (auto simp: lgrow_def)
qed

lemma lgrow_leaf:
  assumes "good_source p" and "lgrow p q a x lo hi" and "span p s e" "lo \<le> s" "e \<le> hi"
    and "loc_node k s e 0 q = (t, q')"
  shows "lgrow p q' a (t # x) lo hi"
  using lgrow_node(1) [of p q a "[]" x lo hi 0 s e k t q'] assms by simp

subsection \<open>Comments and values\<close>

lemma find_hash_cases:
  assumes s: "span p s e"
  shows "find_hash (lp_source p) s e = Some None
    \<or> (\<exists>n. find_hash (lp_source p) s e = Some (Some n) \<and> s + n < e
        \<and> is_boundary (lp_source p) (s + n))"
proof -
  let ?t = "take (e - s) (drop s (lp_source p))"
  let ?n = "length (takeWhile (\<lambda>b. b \<noteq> CHR ''#'') ?t)"
  have e: "e \<le> length (lp_source p)" "s \<le> e"
    using s is_boundary_le by (auto simp: span_def)
  have g: "str_get (lp_source p) s e = Some ?t" using s by (simp add: str_get_def span_def)
  show ?thesis
  proof (cases "?n < length ?t")
    case True
    have "?t ! ?n = CHR ''#''" using nth_length_takeWhile [OF True] by simp
    then have "lp_source p ! (s + ?n) = CHR ''#''" using True e by simp
    then have "is_boundary (lp_source p) (s + ?n)"
      using True e by (intro is_boundary_ascii) (auto simp: byte_of_def)
    moreover have "s + ?n < e" using True e by simp
    moreover have "find_hash (lp_source p) s e = Some (Some ?n)"
      using True by (simp only: find_hash_def Let_def g option.case if_True)
    ultimately show ?thesis by blast
  next
    case False
    then have "find_hash (lp_source p) s e = Some None"
      by (simp only: find_hash_def Let_def g option.case if_False)
    then show ?thesis ..
  qed
qed

lemma comment_at_ok:
  assumes g: "good_source p" and r: "lgrow p q a x lo hi" and s: "span p s e" "lo \<le> s" "e \<le> hi"
    and e: "comment_at s e q = (c, q')"
  shows "lgrow p q' a (c # x) lo hi"
  using lgrow_leaf [OF g lgrow_token [OF g r s(1)] s] e by (simp add: comment_at_def)

lemma loc_quoted_loop_total:
  assumes "valid_utf8 src" and "is_boundary src e" and "is_boundary src n" and "n \<le> e"
  shows "\<exists>c m. loc_quoted_loop src e n = Some (c, m) \<and> n \<le> m \<and> m \<le> e \<and> is_boundary src m"
  using assms(3,4)
proof (induction "e - n" arbitrary: n rule: less_induct)
  case less
  have el: "e \<le> length src" using is_boundary_le [OF assms(2)] .
  have step: "\<exists>m. char_step src k = Some m \<and> k < m \<and> m \<le> e \<and> is_boundary src m"
    if "is_boundary src k" "k < e" for k
    using that el boundary_step_le [OF assms(1) that(1) assms(2) that(2)]
      valid_utf8_next_boundary [OF assms(1) that(1)]
    by (simp add: char_step_def char_width_at_def)
  show ?case
  proof (cases "n < e")
    case False
    then have "loc_quoted_loop src e n = Some (False, n)" by (subst loc_quoted_loop.simps) simp
    then show ?thesis using less.prems by blast
  next
    case lt: True
    have rest: "\<exists>c m. loc_quoted_loop src e k = Some (c, m) \<and> n \<le> m \<and> m \<le> e \<and> is_boundary src m"
      if k: "is_boundary src k" "k \<le> e" "n < k" for k
    proof -
      have "e - k < e - n" using k lt by linarith
      from less.hyps [OF this k(1,2)] show ?thesis using k(3) by fastforce
    qed
    note eq = loc_quoted_loop.simps [of src e n]
    have asc: "is_boundary src (n + 1)" if "byte_of (src ! n) < 128"
      using ascii_next [OF assms(1) less.prems(1)] lt el that by simp
    consider (quote) "src ! n = QUOTE" | (backslash) "src ! n \<noteq> QUOTE" "src ! n = BACKSLASH"
      | (other) "src ! n \<noteq> QUOTE" "src ! n \<noteq> BACKSLASH" by blast
    then show ?thesis
    proof cases
      case quote
      then have "is_boundary src (n + 1)" by (intro asc) (simp add: QUOTE_def byte_of_def)
      moreover have "loc_quoted_loop src e n = Some (True, n + 1)" using quote lt by (simp add: eq)
      ultimately show ?thesis using lt by fastforce
    next
      case backslash
      then have b: "is_boundary src (n + 1)" by (intro asc) (simp add: BACKSLASH_def byte_of_def)
      show ?thesis
      proof (cases "n + 1 < e")
        case True
        from step [OF b True] obtain m where m: "char_step src (n + 1) = Some m" "n + 1 < m" "m \<le> e"
          "is_boundary src m" by blast
        from rest [OF m(4,3)] m(1,2) show ?thesis using backslash lt True by (simp add: eq Let_def)
      next
        case False
        then show ?thesis using rest [OF b] backslash lt by (simp add: eq Let_def)
      qed
    next
      case other
      from step [OF less.prems(1) lt] obtain m where m: "char_step src n = Some m" "n < m" "m \<le> e"
        "is_boundary src m" by blast
      from rest [OF m(4,3,2)] m(1) show ?thesis using other lt by (simp add: eq Let_def)
    qed
  qed
qed

lemma trim_end_from_ok:
  assumes "is_boundary src e" and "s \<le> e"
  shows "s \<le> trim_end_from src s e \<and> trim_end_from src s e \<le> e
    \<and> is_boundary src (trim_end_from src s e)"
  using assms
proof (induction src s e rule: trim_end_from.induct)
  case (2 src s e)
  show ?case
  proof (cases "s < Suc e \<and> is_ascii_whitespace (src ! e)")
    case True
    have "e < length src" using is_boundary_le [OF "2.prems"(1)] by simp
    then have "is_boundary src e" using True whitespace_ascii by (intro is_boundary_ascii) auto
    then show ?thesis using "2.IH" [OF True] True by simp
  next
    case False
    then have "trim_end_from src s (Suc e) = Suc e" by auto
    then show ?thesis using "2.prems" by simp
  qed
qed simp

lemma loc_parse_quoted_ok:
  assumes g: "good_source p" and s: "span p s e" "s < e" and q: "lp_source p ! s = QUOTE"
    and lo: "lo \<le> s" "e \<le> hi"
  shows "\<exists>v c q. loc_parse_quoted s e p = Some (v, c, q)
    \<and> lgrow p q [] (v # (case c of None \<Rightarrow> [] | Some t \<Rightarrow> [t])) lo hi"
proof -
  have el: "e \<le> length (lp_source p)" using s(1) is_boundary_le by (auto simp: span_def)
  have "byte_of (lp_source p ! s) < 128" using q by (simp add: QUOTE_def byte_of_def)
  then have b1: "is_boundary (lp_source p) (s + 1)"
    using g s el by (intro ascii_next) (auto simp: good_source_def span_def)
  obtain closed m where l: "loc_quoted_loop (lp_source p) e (s + 1) = Some (closed, m)"
    and m: "s + 1 \<le> m" "m \<le> e" "is_boundary (lp_source p) m"
    using loc_quoted_loop_total [of "lp_source p" e "s + 1"] g s b1
    by (auto simp: good_source_def span_def)
  have sm: "span p s m" "span p m e" using m s by (auto simp: span_def)
  let ?t = "loc_token QuotedToken s m p"
  define p3 where "p3 = (if closed then ?t else
    loc_error UnterminatedLocalisationString s e
      (''localisation string is missing `'' @ [QUOTE] @ ''`'') ?t)"
  have rt: "lgrow p ?t [] [] lo hi" using lgrow_token [OF g lgrow_refl sm(1)] .
  have r3: "lgrow p p3 [] [] lo hi" unfolding p3_def
    using rt lgrow_error [OF g rt s(1)] by simp
  have "\<exists>c p4. (if closed then inline_comment m e p3 else Some (None, p3)) = Some (c, p4)
      \<and> lgrow p p4 [] (case c of None \<Rightarrow> [] | Some t \<Rightarrow> [t]) lo hi"
  proof (cases closed)
    case False
    then show ?thesis using r3 by simp
  next
    case True
    have src: "lp_source p3 = lp_source p" using lgrow_source [OF r3] .
    show ?thesis
    proof (cases "find_hash (lp_source p) m e = Some None")
      case none: True
      then show ?thesis using True r3 src by (simp add: inline_comment_def)
    next
      case False
      then obtain n where n: "find_hash (lp_source p) m e = Some (Some n)" "m + n < e"
        "is_boundary (lp_source p) (m + n)" using find_hash_cases [OF sm(2)] by blast
      obtain c p4 where c: "comment_at (m + n) e p3 = (c, p4)" by fastforce
      have "lgrow p p4 [] [c] lo hi"
        using comment_at_ok [OF g r3 _ _ _ c] n s m lo by (auto simp: span_def)
      then show ?thesis using True n(1) c src by (simp add: inline_comment_def)
    qed
  qed
  then obtain c p4 where c: "(if closed then inline_comment m e p3 else Some (None, p3)) = Some (c, p4)"
    and r4: "lgrow p p4 [] (case c of None \<Rightarrow> [] | Some t \<Rightarrow> [t]) lo hi" by blast
  obtain v p5 where v: "loc_node LocalisationString s m 0 p4 = (v, p5)" by fastforce
  have "lgrow p p5 [] (v # (case c of None \<Rightarrow> [] | Some t \<Rightarrow> [t])) lo hi"
    using lgrow_leaf [OF g r4 sm(1) _ _ v] lo m by simp
  moreover have "loc_parse_quoted s e p = Some (v, c, p5)"
    unfolding loc_parse_quoted_def l option.case prod.case Let_def p3_def [symmetric] c v ..
  ultimately show ?thesis by blast
qed

lemma loc_parse_unquoted_ok:
  assumes g: "good_source p" and s: "span p s e" and lo: "lo \<le> s" "e \<le> hi"
  shows "\<exists>v c q. loc_parse_unquoted s e p = Some (v, c, q)
    \<and> lgrow p q [] (v # (case c of None \<Rightarrow> [] | Some t \<Rightarrow> [t])) lo hi"
proof -
  have "\<exists>m c p1. (case find_hash (lp_source p) s e of None \<Rightarrow> None | Some found \<Rightarrow>
      Some (case found of None \<Rightarrow> (e, None, p) | Some offset \<Rightarrow>
        (let k = trim_end_from (lp_source p) s (s + offset);
             (c, p) = comment_at (s + offset) e p in (k, Some c, p)))) = Some (m, c, p1)
      \<and> span p s m \<and> m \<le> e \<and> lgrow p p1 [] (case c of None \<Rightarrow> [] | Some t \<Rightarrow> [t]) lo hi"
  proof (cases "find_hash (lp_source p) s e = Some None")
    case True
    then show ?thesis using s by (simp add: lgrow_refl)
  next
    case False
    then obtain n where n: "find_hash (lp_source p) s e = Some (Some n)" "s + n < e"
      "is_boundary (lp_source p) (s + n)" using find_hash_cases [OF s] by blast
    obtain c p1 where c: "comment_at (s + n) e p = (c, p1)" by fastforce
    have "lgrow p p1 [] [c] lo hi"
      using comment_at_ok [OF g lgrow_refl _ _ _ c] n s lo by (auto simp: span_def)
    moreover note trim_end_from_ok [OF n(3), of s]
    ultimately show ?thesis using n(1,2) c s by (auto simp: span_def)
  qed
  then obtain m c p1 where f: "(case find_hash (lp_source p) s e of None \<Rightarrow> None | Some found \<Rightarrow>
      Some (case found of None \<Rightarrow> (e, None, p) | Some offset \<Rightarrow>
        (let k = trim_end_from (lp_source p) s (s + offset);
             (c, p) = comment_at (s + offset) e p in (k, Some c, p)))) = Some (m, c, p1)"
    and m: "span p s m" "m \<le> e" and r1: "lgrow p p1 [] (case c of None \<Rightarrow> [] | Some t \<Rightarrow> [t]) lo hi"
    by blast
  have src: "lp_source p1 = lp_source p" using lgrow_source [OF r1] .
  let ?m = "trim_end_from (lp_source p1) s m"
  have mt: "span p s ?m" "?m \<le> e"
    using trim_end_from_ok [of "lp_source p" m s] m src by (auto simp: span_def)
  obtain v q where v: "loc_node UnquotedValue s ?m 0 (loc_token BareToken s ?m p1) = (v, q)" by fastforce
  have "lgrow p q [] (v # (case c of None \<Rightarrow> [] | Some t \<Rightarrow> [t])) lo hi"
    using lgrow_leaf [OF g lgrow_token [OF g r1 mt(1)] mt(1) _ _ v] mt lo by simp
  moreover have "loc_parse_unquoted s e p = Some (v, c, q)"
    using f v by (auto simp: loc_parse_unquoted_def Let_def split: option.splits prod.splits)
  ultimately show ?thesis by blast
qed

subsection \<open>Lines\<close>

text \<open>\<open>line\<close> is the slice of the source from \<open>s\<close> to \<open>e\<close>; its boundaries are those of the source.\<close>

definition line_at :: "loc_parser \<Rightarrow> nat \<Rightarrow> nat \<Rightarrow> string \<Rightarrow> bool" where
  "line_at p s e line \<longleftrightarrow> span p s e \<and> line = take (e - s) (drop s (lp_source p))"

lemma line_atD:
  assumes "line_at p s e line"
  shows "span p s e" and "length line = e - s" and "s + length line = e"
    and "i \<le> length line \<Longrightarrow> is_boundary line i \<longleftrightarrow> is_boundary (lp_source p) (s + i)"
    and "i < length line \<Longrightarrow> line ! i = lp_source p ! (s + i)"
proof -
  have e: "e \<le> length (lp_source p)" using assms is_boundary_le by (auto simp: line_at_def span_def)
  show l: "span p s e" "length line = e - s" "s + length line = e"
    using assms e by (auto simp: line_at_def span_def)
  show "i \<le> length line \<Longrightarrow> is_boundary line i \<longleftrightarrow> is_boundary (lp_source p) (s + i)"
    using boundary_slice [of "lp_source p" s e i] assms l by (simp add: line_at_def span_def)
  show "i < length line \<Longrightarrow> line ! i = lp_source p ! (s + i)"
    using assms e by (simp add: line_at_def)
qed

lemma line_at_valid:
  assumes "good_source p" and "line_at p s e line"
  shows "valid_utf8 line"
proof -
  have b: "valid_utf8 (drop s (lp_source p))"
    using assms by (intro valid_utf8_drop) (auto simp: good_source_def line_at_def span_def)
  moreover have "e \<le> length (lp_source p)"
    using assms(2) is_boundary_le by (auto simp: line_at_def span_def)
  then have "is_boundary (drop s (lp_source p)) (e - s)"
    using assms(2) by (auto simp: line_at_def span_def is_boundary_def)
  ultimately show ?thesis using assms(2) valid_utf8_take by (simp add: line_at_def)
qed

lemma line_span:
  assumes "line_at p s e line" and "is_boundary line i" and "is_boundary line j" and "i \<le> j"
  shows "span p (s + i) (s + j)"
  using line_atD(4) [OF assms(1)] assms is_boundary_le [OF assms(2)] is_boundary_le [OF assms(3)]
  by (simp add: span_def)

lemma line_span_end:
  assumes "line_at p s e line" and "is_boundary line i"
  shows "span p (s + i) e" and "s + i \<le> e"
  using line_span [OF assms is_boundary_length is_boundary_le [OF assms(2)]]
    line_atD(3) [OF assms(1)] is_boundary_le [OF assms(2)] by simp_all

lemma digit_ascii: "is_ascii_digit b \<Longrightarrow> byte_of b < 128"
  by (auto simp: is_ascii_digit_def)

lemma key_byte_ascii: "key_byte b \<Longrightarrow> byte_of b < 128"
  by (auto simp: key_byte_def is_ascii_upper_def is_ascii_lower_def is_ascii_digit_def byte_of_def)

lemma blank_ascii: "is_blank b \<Longrightarrow> byte_of b < 128"
  by (auto simp: is_blank_def TAB_def byte_of_def)

lemma lgrow_leaf_token:
  assumes "good_source p" and "lgrow p q a x lo hi" and "span p s e" "lo \<le> s" "e \<le> hi"
    and "loc_node k s e 0 (loc_token tk s e q) = (t, q')"
  shows "lgrow p (loc_push t q') (a @ [t]) x lo hi"
  using lgrow_push [OF lgrow_leaf [OF assms(1) lgrow_token [OF assms(1-3)] assms(3-6)]] .

lemma parse_version_ok:
  assumes g: "good_source p" and l: "line_at p s e line" and r: "lgrow p q a [] s e"
    and n: "is_boundary line n" and v: "parse_version s line n q = (m, q')"
  shows "is_boundary line m \<and> (\<exists>b. lgrow p q' (a @ b) [] s e)"
proof -
  note skip = skip_from_boundary [OF line_at_valid [OF g l]]
  note white = skip [OF _ whitespace_ascii] and digit = skip [OF _ digit_ascii]
  let ?n = "skip_from is_ascii_whitespace line n"
  let ?k = "skip_from is_ascii_digit line ?n"
  have b: "is_boundary line ?n" "is_boundary line ?k" "?n \<le> ?k"
    using white(1) [OF n] digit(1,2) by blast+
  show ?thesis
  proof (cases "case byte_at line ?n of Some b \<Rightarrow> is_ascii_digit b | None \<Rightarrow> False")
    case False
    then have "m = ?n" "q' = q"
      using v by (auto simp: parse_version_def Let_def split: option.splits if_splits)
    then show ?thesis using b(1) r by (metis append_Nil2)
  next
    case True
    obtain t p2 where t: "loc_node Version (s + ?n) (s + ?k) 0
        (loc_token BareToken (s + ?n) (s + ?k) q) = (t, p2)" by fastforce
    then have "q' = loc_push t p2" "m = skip_from is_ascii_whitespace line ?k"
      using v True by (auto simp: parse_version_def Let_def split: option.splits if_splits)
    moreover have "lgrow p (loc_push t p2) (a @ [t]) [] s e"
      using lgrow_leaf_token [OF g r line_span [OF l b] _ _ t] line_span_end(2) [OF l b(2)] by simp
    ultimately show ?thesis using white(1) [OF b(2)] by blast
  qed
qed

text \<open>A whole line collected into one node.\<close>

lemma finish_line:
  assumes g: "good_source p" and l: "line_at p s e line" and r: "lgrow p q a [] s e"
    and m: "mark = length (lp_pending p)"
  shows "\<exists>t q'. loc_node k s e (length (lp_pending q) - mark) q = (t, q') \<and> lgrow p q' [] [t] s e"
proof -
  obtain t q' where t: "loc_node k s e (length (lp_pending q) - mark) q = (t, q')" by fastforce
  have "length (lp_pending q) - mark = length a" using r m by (simp add: lgrow_def)
  moreover have "list_all (\<lambda>c. s \<le> cst_start c \<and> cst_end c \<le> e) a"
    using r by (auto simp: lgrow_def list_all_iff tree_ok_def)
  ultimately have "lgrow p q' [] [t] s e"
    using lgrow_node(1) [of p q "[]" a "[]" s e "length a" s e k t q'] g r t line_atD(1) [OF l]
    by simp
  then show ?thesis using t by blast
qed

lemma parse_entry_value_ok:
  assumes g: "good_source p" and l: "line_at p s e line" and r: "lgrow p q a [] s e"
    and m: "mark = length (lp_pending p)" and n: "is_boundary line n"
  shows "\<exists>t q'. parse_entry_value s e line mark n q = Some (t, q') \<and> lgrow p q' [] [t] s e"
proof -
  have gq: "good_source q" and sq: "lp_source q = lp_source p"
    using g lgrow_source [OF r] by (simp_all add: good_source_def)
  have se: "span p e e" "s \<le> e" using line_atD(1) [OF l] by (auto simp: span_def)
  note sn = line_span_end [OF l n]
  have ln: "n \<le> length line" using is_boundary_le [OF n] .
  show ?thesis
  proof (cases "length line \<le> n \<or> byte_at line n = Some CHR ''#''")
    case True
    let ?p1 = "loc_error InvalidLocalisationEntry e e ''localisation entry is missing a value'' q"
    define p2 where "p2 = (if byte_at line n = Some CHR ''#'' then
      (let (c, p) = comment_at (s + n) e ?p1 in loc_push c p) else ?p1)"
    have r1: "lgrow p ?p1 a [] s e" using lgrow_error [OF g r se(1)] .
    have "\<exists>b. lgrow p p2 (a @ b) [] s e"
    proof (cases "byte_at line n = Some CHR ''#''")
      case hash: True
      obtain c p' where c: "comment_at (s + n) e ?p1 = (c, p')" by fastforce
      have "lgrow p (loc_push c p') (a @ [c]) [] s e"
        using lgrow_push [OF comment_at_ok [OF g r1 sn(1) _ _ c]] by simp
      moreover have "p2 = loc_push c p'" using hash c by (simp add: p2_def)
      ultimately show ?thesis by blast
    next
      case False
      then have "p2 = ?p1" by (simp add: p2_def)
      then show ?thesis using r1 by (metis append_Nil2)
    qed
    then obtain b where r2: "lgrow p p2 (a @ b) [] s e" by blast
    obtain x p3 where x: "loc_node ErrorNode e e 0 p2 = (x, p3)" by fastforce
    have r3: "lgrow p (loc_push x p3) ((a @ b) @ [x]) [] s e"
      using lgrow_push [OF lgrow_leaf [OF g r2 se(1) _ _ x]] se by simp
    have "parse_entry_value s e line mark n q = Some (finish_entry s e mark (loc_push x p3))"
      unfolding parse_entry_value_def if_P [OF True] using x
      by (cases "byte_at line n = Some CHR ''#''") (simp_all add: p2_def Let_def)
    then show ?thesis using finish_line [OF g l r3 m] by (simp add: finish_entry_def)
  next
    case False
    then have lt: "n < length line" "s + n < e" using line_atD(3) [OF l] by simp_all
    have spq: "span q (s + n) e" using sn(1) sq by (simp add: span_def)
    have "\<exists>v c q2. (if line ! n = QUOTE then loc_parse_quoted (s + n) e q
        else loc_parse_unquoted (s + n) e q) = Some (v, c, q2)
      \<and> lgrow q q2 [] (v # (case c of None \<Rightarrow> [] | Some t \<Rightarrow> [t])) s e"
      using loc_parse_quoted_ok [OF gq spq lt(2), of s e] loc_parse_unquoted_ok [OF gq spq, of s e]
        line_atD(5) [OF l lt(1)] sq by simp
    then obtain v c q2 where
      v: "(if line ! n = QUOTE then loc_parse_quoted (s + n) e q
        else loc_parse_unquoted (s + n) e q) = Some (v, c, q2)"
      and r2: "lgrow q q2 [] (v # (case c of None \<Rightarrow> [] | Some t \<Rightarrow> [t])) s e" by blast
    define q3 where "q3 = (case c of Some c \<Rightarrow> loc_push c (loc_push v q2) | None \<Rightarrow> loc_push v q2)"
    have "lgrow p q2 a (v # (case c of None \<Rightarrow> [] | Some t \<Rightarrow> [t])) s e"
      using lgrow_trans [OF r r2] by simp
    from lgrow_push [OF this] have "\<exists>b. lgrow p q3 b [] s e"
      by (cases c) (auto simp: q3_def dest: lgrow_push)
    then obtain b where r3: "lgrow p q3 b [] s e" by blast
    have "parse_entry_value s e line mark n q = Some (finish_entry s e mark q3)"
      unfolding parse_entry_value_def if_not_P [OF False] v by (simp add: q3_def Let_def)
    then show ?thesis using finish_line [OF g l r3 m] by (simp add: finish_entry_def)
  qed
qed

lemma parse_line_ok:
  assumes g: "good_source p" and l: "line_at p s e line"
  shows "\<exists>t q. parse_line s e line p = Some (t, q) \<and> lgrow p q [] [t] s e"
proof (cases "length (takeWhile key_byte line) = 0")
  case True
  let ?p = "loc_error InvalidLocalisationEntry s e ''localisation line is missing a key'' p"
  obtain t q where t: "loc_node ErrorNode s e 0 ?p = (t, q)" by fastforce
  have sp: "span p s e" using line_atD(1) [OF l] .
  have "lgrow p q [] [t] s e"
    using lgrow_leaf [OF g lgrow_error [OF g lgrow_refl sp] sp _ _ t] by simp
  then show ?thesis using True t by (simp add: parse_line_def Let_def)
next
  case False
  let ?k = "length (takeWhile key_byte line)" and ?mark = "length (lp_pending p)"
  have vl: "valid_utf8 line" using line_at_valid [OF g l] .
  have kb: "is_boundary line ?k"
    using skip_from_boundary(1) [OF vl is_boundary_0 key_byte_ascii] by (simp add: skip_from_def)
  obtain t p1 where t: "loc_node LocalisationKey s (s + ?k) 0 (loc_token BareToken s (s + ?k) p) = (t, p1)"
    by fastforce
  have r1: "lgrow p (loc_push t p1) [t] [] s e"
    using lgrow_leaf_token [OF g lgrow_refl _ _ _ t] line_span [OF l is_boundary_0 kb]
      line_span_end(2) [OF l kb] by simp
  let ?n = "skip_from is_ascii_whitespace line ?k"
  have nb: "is_boundary line ?n" using skip_from_boundary(1) [OF vl kb whitespace_ascii] .
  show ?thesis
  proof (cases "byte_at line ?n = Some CHR '':''")
    case colon: False
    then have "parse_line s e line p = parse_entry_value s e line ?mark ?n (loc_push t p1)"
      using False t by (simp add: parse_line_def Let_def)
    then show ?thesis using parse_entry_value_ok [OF g l r1 refl nb] by simp
  next
    case colon: True
    then have c: "?n < length line" "byte_of (line ! ?n) < 128"
      by (auto simp: byte_at_def byte_of_def split: if_splits)
    have cb: "is_boundary line (?n + 1)" using ascii_next [OF vl nb c] .
    let ?q = "loc_token ColonToken (s + ?n) (s + ?n + 1) (loc_push t p1)"
    have r2: "lgrow p ?q [t] [] s e"
      using lgrow_token [OF g r1 line_span [OF l nb cb]] by simp
    have sg: "str_get line (?n + 1) (length line) = Some (drop (?n + 1) line)"
      using cb is_boundary_le [OF cb] by (simp add: str_get_def)
    show ?thesis
    proof (cases "take 2 (take ?k line) = ''l_'' \<and> list_all is_blank (drop (?n + 1) line)")
      case True
      then have "parse_line s e line p
          = Some (loc_node LanguageHeader s e (length (lp_pending ?q) - ?mark) ?q)"
        using False t colon sg by (simp add: parse_line_def Let_def)
      then show ?thesis using finish_line [OF g l r2 refl] by simp
    next
      case header: False
      obtain m q2 where v: "parse_version s line (?n + 1) ?q = (m, q2)" by fastforce
      from parse_version_ok [OF g l r2 cb v] obtain b where
        mb: "is_boundary line m" and r3: "lgrow p q2 ([t] @ b) [] s e" by blast
      have "parse_line s e line p = parse_entry_value s e line ?mark m q2"
        unfolding parse_line_def Let_def if_not_P [OF False] t prod.case if_P [OF colon] sg
          option.case if_not_P [OF header] v ..
      then show ?thesis using parse_entry_value_ok [OF g l r3 refl mb] by simp
    qed
  qed
qed

lemma parse_content_ok:
  assumes g: "good_source p" and s: "span p s e"
  shows "\<exists>q new. parse_content s e p = Some q \<and> lgrow p q new [] s e"
proof -
  let ?line = "take (e - s) (drop s (lp_source p))"
  have l: "line_at p s e ?line" using s by (simp add: line_at_def)
  have sg: "str_get (lp_source p) s e = Some ?line" using s by (simp add: str_get_def span_def)
  let ?k = "length (takeWhile is_blank ?line)"
  have kb: "is_boundary ?line ?k"
    using skip_from_boundary(1) [OF line_at_valid [OF g l] is_boundary_0 blank_ascii]
    by (simp add: skip_from_def)
  note sk = line_span_end [OF l kb]
  have l2: "line_at p (s + ?k) e (drop ?k ?line)"
    using sk by (simp add: line_at_def drop_take add.commute)
  consider (empty) "drop ?k ?line = []" | (comment) "drop ?k ?line \<noteq> []" "hd (drop ?k ?line) = CHR ''#''"
    | (entry) "drop ?k ?line \<noteq> []" "hd (drop ?k ?line) \<noteq> CHR ''#''" by blast
  then show ?thesis
  proof cases
    case empty
    have "parse_content s e p = Some p"
      unfolding parse_content_def sg option.case Let_def if_P [OF empty] ..
    then show ?thesis using lgrow_refl by blast
  next
    case comment
    obtain c q where c: "comment_at (s + ?k) e p = (c, q)" by fastforce
    have "lgrow p (loc_push c q) [c] [] s e"
      using lgrow_push [OF comment_at_ok [OF g lgrow_refl sk(1) _ _ c]] by simp
    moreover have "parse_content s e p = Some (loc_push c q)"
      unfolding parse_content_def sg option.case Let_def if_not_P [OF comment(1)] if_P [OF comment(2)]
      using c by simp
    ultimately show ?thesis by blast
  next
    case entry
    from parse_line_ok [OF g l2] obtain t q where
      t: "parse_line (s + ?k) e (drop ?k ?line) p = Some (t, q)"
      and r: "lgrow p q [] [t] (s + ?k) e" by blast
    have "lgrow p (loc_push t q) [t] [] s e"
      using lgrow_push [OF lgrow_mono [OF r, of s e]] by simp
    moreover have "parse_content s e p = Some (loc_push t q)"
      unfolding parse_content_def sg option.case Let_def if_not_P [OF entry(1)] if_not_P [OF entry(2)] t
      by simp
    ultimately show ?thesis by blast
  qed
qed

lemma bom_boundary:
  assumes v: "valid_utf8 s" and b: "take 3 s = bom"
  shows "is_boundary s 3"
proof -
  obtain r where s: "s = bom @ r" using b by (metis append_take_drop_id)
  then show ?thesis using valid_utf8_next_boundary [OF v is_boundary_0]
    by (simp add: s bom_def utf8_width_def byte_of_def)
qed

lemma parse_one_line_ok:
  assumes g: "good_source p" and s: "span p s e"
  shows "\<exists>q new. parse_one_line first s e p = Some q \<and> lgrow p q new [] s e"
proof -
  let ?line = "take (e - s) (drop s (lp_source p))"
  have l: "line_at p s e ?line" using s by (simp add: line_at_def)
  have sg: "str_get (lp_source p) s e = Some ?line" using s by (simp add: str_get_def span_def)
  show ?thesis
  proof (cases "first \<and> take 3 ?line = bom")
    case False
    then have "parse_one_line first s e p = parse_content s e p"
      unfolding parse_one_line_def sg option.case by (simp only: if_False)
    then show ?thesis using parse_content_ok [OF g s] by simp
  next
    case True
    then have b: "is_boundary ?line 3" using bom_boundary [OF line_at_valid [OF g l]] by blast
    obtain t q where t: "loc_node Bom s (s + 3) 0 (loc_token BomToken s (s + 3) p) = (t, q)" by fastforce
    note s3 = line_span_end [OF l b]
    have r: "lgrow p (loc_push t q) [t] [] s e"
      using lgrow_leaf_token [OF g lgrow_refl _ _ _ t] line_span [OF l is_boundary_0 b] s3(2)
      by simp
    have src: "lp_source (loc_push t q) = lp_source p" using lgrow_source [OF r] .
    from parse_content_ok [of "loc_push t q" "s + 3" e] obtain q2 new where
      c: "parse_content (s + 3) e (loc_push t q) = Some q2" and r2: "lgrow (loc_push t q) q2 new [] (s + 3) e"
      using g s3 src by (auto simp: good_source_def span_def)
    have "lgrow p q2 ([t] @ new) [] s e"
      using lgrow_trans [OF r lgrow_mono [OF r2, of s e]] by simp
    moreover have "parse_one_line first s e p = Some q2"
      unfolding parse_one_line_def sg option.case if_P [OF True] Let_def using t c by simp
    ultimately show ?thesis by blast
  qed
qed

lemma find_line_end_ok:
  assumes v: "valid_utf8 s" and b: "is_boundary s n"
  shows "is_boundary s (find_line_end s n)" and "n \<le> find_line_end s n"
    and "find_line_end s n < length s \<Longrightarrow> is_boundary s (find_line_end s n + 1)"
proof -
  let ?t = "takeWhile (\<lambda>b. b \<noteq> NL) (drop n s)"
  have nl: "n \<le> length s" using is_boundary_le [OF b] .
  show "n \<le> find_line_end s n" by (simp add: find_line_end_def)
  have le: "length ?t \<le> length s - n" using length_takeWhile_le [of _ "drop n s"] by simp
  have at: "s ! find_line_end s n = NL" if "find_line_end s n < length s"
  proof -
    have "length ?t < length (drop n s)" using that by (simp add: find_line_end_def)
    from nth_length_takeWhile [OF this] show ?thesis using nl by (simp add: find_line_end_def)
  qed
  have asc: "byte_of NL < 128" by (simp add: NL_def byte_of_def)
  show bl: "is_boundary s (find_line_end s n)"
  proof (cases "find_line_end s n < length s")
    case True
    then show ?thesis using at asc by (intro is_boundary_ascii) simp_all
  next
    case False
    then have "find_line_end s n = length s" using le nl by (simp add: find_line_end_def)
    then show ?thesis by simp
  qed
  show "is_boundary s (find_line_end s n + 1)" if "find_line_end s n < length s"
    using ascii_next [OF v bl that] at [OF that] asc by simp
qed

lemma find_content_end_ok:
  assumes b: "is_boundary s e" and n: "n \<le> e"
  shows "is_boundary s (find_content_end s n e) \<and> n \<le> find_content_end s n e
    \<and> find_content_end s n e \<le> e"
proof (cases "n < e \<and> s ! (e - 1) = CR")
  case True
  have "is_boundary s (e - 1)"
    using True is_boundary_le [OF b] by (intro is_boundary_ascii) (auto simp: CR_def byte_of_def)
  then show ?thesis using True by (auto simp: find_content_end_def)
qed (use b n in \<open>auto simp: find_content_end_def\<close>)

lemma parse_lines_ok:
  assumes "good_source p" and "is_boundary (lp_source p) n"
  shows "\<exists>q new. parse_lines first n p = Some q
    \<and> lgrow p q new [] 0 (length (lp_source p))"
  using assms
proof (induction first n p rule: parse_lines.induct)
  case (1 first n p)
  let ?s = "lp_source p" and ?e = "find_line_end (lp_source p) n"
  let ?c = "find_content_end ?s n ?e"
  have v: "valid_utf8 ?s" using "1.prems"(1) by (simp add: good_source_def)
  have nl: "n \<le> length ?s" using is_boundary_le [OF "1.prems"(2)] .
  note fe = find_line_end_ok [OF v "1.prems"(2)]
  note fc = find_content_end_ok [OF fe(1,2)]
  have cl: "?c \<le> length ?s" using fc is_boundary_le [OF fe(1)] by simp
  have "span p n ?c" using fc "1.prems"(2) by (simp add: span_def)
  from parse_one_line_ok [OF "1.prems"(1) this, of first] obtain q new where
    q: "parse_one_line first n ?c p = Some q" and r: "lgrow p q new [] n ?c" by blast
  have r: "lgrow p q new [] 0 (length ?s)" using lgrow_mono [OF r] cl by simp
  have sq: "lp_source q = ?s" using lgrow_source [OF r] .
  show ?case
  proof (cases "?e = length ?s")
    case True
    then have "parse_lines first n p = Some q"
      using nl q by (subst parse_lines.simps) (simp add: Let_def)
    then show ?thesis using r by blast
  next
    case False
    then have "?e < length ?s" using is_boundary_le [OF fe(1)] by simp
    then have b: "is_boundary ?s (?e + 1)" by (rule fe(3))
    from "1.IH" [OF nl refl refl q] obtain q2 new2 where
      q2: "parse_lines False (?e + 1) q = Some q2" and r2: "lgrow q q2 new2 [] 0 (length ?s)"
      using False sq b "1.prems"(1) by (auto simp: good_source_def)
    have "parse_lines first n p = Some q2"
      using nl q False sq q2 by (subst parse_lines.simps) (simp add: Let_def)
    then show ?thesis using lgrow_trans [OF r r2] by auto
  qed
qed

subsection \<open>The whole file\<close>

definition localisation_ok :: "string \<Rightarrow> parse_parts \<Rightarrow> bool" where
  "localisation_ok src parts \<longleftrightarrow>
    cst_kind (parts_tree parts) = LocalisationDocument
    \<and> cst_range (parts_tree parts) = make_range 0 (length src)
    \<and> valid_node src None (parts_tree parts)
    \<and> list_all (\<lambda>t. valid_range src (token_range t)) (parts_tokens parts)
    \<and> list_all (\<lambda>e. valid_range src (error_range e)) (parts_errors parts)"

lemma parse_localisation_ok:
  assumes "valid_utf8 src" and "length src \<le> u32_max"
  shows "\<exists>parts. parse_localisation src = Some parts \<and> localisation_ok src parts"
proof -
  let ?p = "loc_parser_new src"
  have g: "good_source ?p" using assms by (simp add: good_source_def loc_parser_new_def)
  have src: "lp_source ?p = src" by (simp add: loc_parser_new_def)
  from parse_lines_ok [OF g, of 0 True] obtain q new where
    q: "parse_lines True 0 ?p = Some q" and r: "lgrow ?p q new [] 0 (length src)"
    by (auto simp: src)
  obtain t q2 where t: "loc_node LocalisationDocument 0 (length src) (length (lp_pending q)) q = (t, q2)"
    by fastforce
  have sp: "span ?p 0 (length src)" by (simp add: span_def src)
  have n: "length new = length (lp_pending q)" using r by (simp add: lgrow_def loc_parser_new_def)
  have cs: "list_all (\<lambda>c. 0 \<le> cst_start c \<and> cst_end c \<le> length src) new"
    using r by (auto simp: lgrow_def list_all_iff tree_ok_def)
  note node = lgrow_node [OF g _ n sp _ _ cs t, of "[]" "[]" 0 "length src", simplified, OF r]
  have "localisation_ok src
      \<lparr>parts_tree = t, parts_tokens = lp_tokens q2, parts_errors = lp_errors q2\<rparr>"
    using node unfolding localisation_ok_def
    by (auto simp: lgrow_def tree_ok_def loc_parser_new_def)
  moreover have "parse_localisation src
      = Some \<lparr>parts_tree = t, parts_tokens = lp_tokens q2, parts_errors = lp_errors q2\<rparr>"
    using q t by (simp add: parse_localisation_def)
  ultimately show ?thesis by blast
qed

text \<open>
  C2. \<open>parse_localisation\<close> returns on every valid source of at most \<open>u32::MAX\<close> bytes: no slice
  panics and no loop runs on, the document spans the file, and every node, token and error lies
  on character boundaries, children inside their parents.
\<close>

theorem parse_localisation_total:
  assumes "valid_utf8 src" and "length src \<le> u32_max"
  shows "\<exists>parts. parse_localisation src = Some parts \<and> localisation_ok src parts"
  using assms by (rule parse_localisation_ok)

theorem parse_localisation_total_witness:
  "\<exists>parts. parse_localisation ''l_english: key:0 \"a # b'' = Some parts
    \<and> localisation_ok ''l_english: key:0 \"a # b'' parts"
  by (rule parse_localisation_total) (code_simp, simp add: u32_max_def)

text \<open>
  Tokens of a localisation file are not always in source order: an unquoted value followed
  by a comment pushes the comment's token before the value's.
\<close>

theorem localisation_tokens_out_of_order:
  "\<not> sorted (map (range_start \<circ> token_range)
    (parts_tokens (the (parse_localisation ''k: v # c''))))"
  by code_simp

end
