(* ===== verification/Parsed_File.thy ===== *)
theory Parsed_File
  imports Script_Budget Loc_Correct
begin

text \<open>
  The facade of the crate \<open>parser\<close> (\<open>lib.rs\<close>): parsed files, their cache form, edits with
  reparse, and the bounded script parses that stop at a resource frontier. \<open>None\<close> stands for a
  panic of a front end; the theorems show that it does not occur. A \<open>checkpoint\<close> callback is a
  function of the number of calls made to it so far, \<open>Some e\<close> for an \<open>Err(e)\<close>.
\<close>

datatype file_format = ScriptFormat | LocalisationFormat

record syntax_edit =
  edit_range :: "text_range option"
  edit_replacement :: string

datatype edit_error = InvalidRange text_range

record parsed_file =
  pf_format :: file_format
  pf_source :: string
  pf_tree :: cst
  pf_tokens :: "syntax_token list"
  pf_errors :: "syntax_error list"
  pf_revision :: nat

record parsed_file_cache =
  pc_format :: file_format
  pc_tree :: cst
  pc_tokens :: "syntax_token list"
  pc_errors :: "syntax_error list"
  pc_revision :: nat

definition u64_max :: nat where
  "u64_max = 2 ^ 64 - 1"

definition from_parts :: "file_format \<Rightarrow> string \<Rightarrow> parse_parts \<Rightarrow> nat \<Rightarrow> parsed_file" where
  "from_parts format src parts revision =
    \<lparr>pf_format = format, pf_source = src, pf_tree = parts_tree parts,
     pf_tokens = parts_tokens parts, pf_errors = parts_errors parts, pf_revision = revision\<rparr>"

definition parse_with_revision :: "file_format \<Rightarrow> string \<Rightarrow> nat \<Rightarrow> parsed_file option" where
  "parse_with_revision format src revision =
    map_option (\<lambda>parts. from_parts format src parts revision)
      (case format of
         ScriptFormat \<Rightarrow> parse_script src
       | LocalisationFormat \<Rightarrow> parse_localisation src)"

definition parse_file :: "file_format \<Rightarrow> string \<Rightarrow> parsed_file option" where
  "parse_file format src = parse_with_revision format src 0"

definition pf_text :: "text_range \<Rightarrow> parsed_file \<Rightarrow> string option" where
  "pf_text r f = str_get (pf_source f) (range_start r) (range_end r)"

definition cache_data :: "parsed_file \<Rightarrow> parsed_file_cache" where
  "cache_data f =
    \<lparr>pc_format = pf_format f, pc_tree = pf_tree f, pc_tokens = pf_tokens f,
     pc_errors = pf_errors f, pc_revision = pf_revision f\<rparr>"

definition from_cache_data :: "parsed_file_cache \<Rightarrow> string \<Rightarrow> parsed_file" where
  "from_cache_data c src =
    \<lparr>pf_format = pc_format c, pf_source = src, pf_tree = pc_tree c, pf_tokens = pc_tokens c,
     pf_errors = pc_errors c, pf_revision = pc_revision c\<rparr>"

fun root_matches :: "file_format \<Rightarrow> cst_kind \<Rightarrow> bool" where
  "root_matches ScriptFormat Document = True"
| "root_matches LocalisationFormat LocalisationDocument = True"
| "root_matches _ _ = False"

definition is_valid_for :: "file_format \<Rightarrow> string \<Rightarrow> parsed_file \<Rightarrow> bool" where
  "is_valid_for format src f \<longleftrightarrow>
    pf_format f = format \<and> pf_source f = src
    \<and> root_matches format (cst_kind (pf_tree f))
    \<and> valid_node src None (pf_tree f)
    \<and> list_all (\<lambda>t. valid_range src (token_range t)) (pf_tokens f)
    \<and> list_all (\<lambda>e. valid_range src (error_range e)) (pf_errors f)"

definition edited_source :: "string \<Rightarrow> syntax_edit \<Rightarrow> edit_error + string" where
  "edited_source src edit =
    (case edit_range edit of
       None \<Rightarrow> Inr (edit_replacement edit)
     | Some r \<Rightarrow>
        if range_start r \<le> range_end r \<and> str_get src (range_start r) (range_end r) \<noteq> None
        then Inr (take (range_start r) src @ edit_replacement edit @ drop (range_end r) src)
        else Inl (InvalidRange r))"

definition apply_edit :: "syntax_edit \<Rightarrow> parsed_file \<Rightarrow> (edit_error + parsed_file) option" where
  "apply_edit edit f =
    (case edited_source (pf_source f) edit of
       Inl e \<Rightarrow> Some (Inl e)
     | Inr src \<Rightarrow>
        map_option Inr (parse_with_revision (pf_format f) src (min (pf_revision f + 1) u64_max)))"

subsection \<open>Bounded parses\<close>

datatype script_parse_limit = BytesLimit | NodesLimit | DepthLimit

record script_parse_budget =
  budget_bytes :: nat
  budget_nodes :: nat
  budget_depth :: nat

definition script_parse_budget_default :: script_parse_budget where
  "script_parse_budget_default =
    \<lparr>budget_bytes = 1024 * 1024, budget_nodes = 50000, budget_depth = 128\<rparr>"

definition limit_at :: "script_parse_budget \<Rightarrow> nat \<Rightarrow> nat \<Rightarrow> script_parse_limit option" where
  "limit_at budget nodes depth =
    (if budget_depth budget < depth then Some DepthLimit
     else if budget_nodes budget \<le> nodes then Some NodesLimit
     else None)"

text \<open>The closure handed to the parser: its call \<open>i\<close> is call \<open>i + 1\<close> of the checkpoint, since
  the caller made call \<open>0\<close> itself.\<close>

definition budget_guard :: "script_parse_budget \<Rightarrow> (nat \<Rightarrow> 'e option) \<Rightarrow> guard" where
  "budget_guard budget checkpoint i offset nodes depth \<longleftrightarrow>
    checkpoint (Suc i) = None \<and> limit_at budget nodes depth = None"

text \<open>What the closure has left in \<open>cancellation\<close> after its last call, and the number of the next
  call of the checkpoint.\<close>

fun cancellation_of :: "(nat \<Rightarrow> 'e option) \<Rightarrow> (nat \<times> nat \<times> nat \<times> nat) option \<Rightarrow> 'e option" where
  "cancellation_of checkpoint None = None"
| "cancellation_of checkpoint (Some (i, _)) = checkpoint (Suc i)"

fun next_call :: "(nat \<times> nat \<times> nat \<times> nat) option \<Rightarrow> nat" where
  "next_call None = 1"
| "next_call (Some (i, _)) = Suc (Suc i)"

fun limit_of :: "script_parse_budget \<Rightarrow> (nat \<times> nat \<times> nat \<times> nat) option \<Rightarrow> script_parse_limit option" where
  "limit_of budget None = None"
| "limit_of budget (Some (_, _, nodes, depth)) = limit_at budget nodes depth"

definition parse_script_bounded ::
  "string \<Rightarrow> script_parse_budget \<Rightarrow> (nat \<Rightarrow> 'e option) \<Rightarrow>
    ('e + (script_parse_limit + parsed_file)) option" where
  "parse_script_bounded src budget checkpoint =
    (case checkpoint 0 of
       Some e \<Rightarrow> Some (Inl e)
     | None \<Rightarrow>
        if budget_bytes budget < length src then Some (Inr (Inl BytesLimit))
        else do {
          (parts, call) \<leftarrow> parse_guarded src (budget_guard budget checkpoint);
          (case cancellation_of checkpoint call of
             Some e \<Rightarrow> Some (Inl e)
           | None \<Rightarrow>
              (case parts of
                 None \<Rightarrow> Some (Inr (Inl (case limit_of budget call of
                           Some l \<Rightarrow> l | None \<Rightarrow> NodesLimit)))
               | Some parts \<Rightarrow>
                  (case checkpoint (next_call call) of
                     Some e \<Rightarrow> Some (Inl e)
                   | None \<Rightarrow> Some (Inr (Inr (from_parts ScriptFormat src parts 0))))))
        })"

record script_parse_progress =
  progress_parsed :: "parsed_file option"
  progress_frontier :: "(script_parse_limit \<times> nat) option"

fun frontier_of ::
  "script_parse_budget \<Rightarrow> (nat \<times> nat \<times> nat \<times> nat) option \<Rightarrow> (script_parse_limit \<times> nat) option" where
  "frontier_of budget None = None"
| "frontier_of budget (Some (_, offset, nodes, depth)) =
    map_option (\<lambda>l. (l, offset mod u32_limit)) (limit_at budget nodes depth)"

definition parse_script_prefix_bounded ::
  "string \<Rightarrow> script_parse_budget \<Rightarrow> (nat \<Rightarrow> 'e option) \<Rightarrow>
    ('e + script_parse_progress) option" where
  "parse_script_prefix_bounded src budget checkpoint =
    (case checkpoint 0 of
       Some e \<Rightarrow> Some (Inl e)
     | None \<Rightarrow>
        if budget_bytes budget < length src then
          Some (Inr \<lparr>progress_parsed = None, progress_frontier = Some (BytesLimit, 0)\<rparr>)
        else do {
          (parts, stopped, call) \<leftarrow> parse_guarded_prefix src (budget_guard budget checkpoint);
          (case cancellation_of checkpoint call of
             Some e \<Rightarrow> Some (Inl e)
           | None \<Rightarrow>
              (case checkpoint (next_call call) of
                 Some e \<Rightarrow> Some (Inl e)
               | None \<Rightarrow>
                  Some (Inr \<lparr>progress_parsed = Some (from_parts ScriptFormat src parts 0),
                             progress_frontier = frontier_of budget call\<rparr>)))
        })"

subsection \<open>Parsed files are valid\<close>

lemma parse_with_revision_ok:
  assumes "valid_utf8 src" and "length src \<le> u32_max"
  shows "\<exists>f. parse_with_revision format src revision = Some f \<and> is_valid_for format src f
    \<and> pf_revision f = revision"
proof (cases format)
  case ScriptFormat
  obtain parts q where p: "parse_document (fresh src None) = Some (parts, q)" "document_ok src parts"
    using parse_document_ok [OF assms, of None] by blast
  have "fresh src None = parser_new src" by (simp add: fresh_def parser_new_def)
  with p show ?thesis
    by (auto simp: ScriptFormat parse_with_revision_def parse_script_def from_parts_def
        is_valid_for_def document_ok_def)
next
  case LocalisationFormat
  from parse_localisation_ok [OF assms] show ?thesis
    by (auto simp: LocalisationFormat parse_with_revision_def from_parts_def is_valid_for_def
        localisation_ok_def)
qed

lemma from_cache_data_inverse:
  "pf_source f = src \<Longrightarrow> from_cache_data (cache_data f) src = f"
  by (auto simp: from_cache_data_def cache_data_def)

text \<open>
  C3. Both front ends return a file that passes \<open>is_valid_for\<close>, at revision 0, on every valid
  source of at most \<open>u32::MAX\<close> bytes, and the file survives the trip through its cache form, so
  the check that guards the persistent parse cache accepts what the parser wrote.
\<close>

theorem parse_file_valid:
  assumes "valid_utf8 src" and "length src \<le> u32_max"
  shows "\<exists>f. parse_file format src = Some f \<and> pf_revision f = 0
    \<and> is_valid_for format src (from_cache_data (cache_data f) src)
    \<and> from_cache_data (cache_data f) src = f"
proof -
  from parse_with_revision_ok [OF assms, of format 0] obtain f where
    f: "parse_with_revision format src 0 = Some f" "is_valid_for format src f" "pf_revision f = 0" by blast
  moreover have "from_cache_data (cache_data f) src = f"
    using f(2) by (intro from_cache_data_inverse) (simp add: is_valid_for_def)
  ultimately show ?thesis by (auto simp: parse_file_def)
qed

theorem parse_file_valid_witness:
  "\<exists>f. parse_file ScriptFormat ''a = { b = \"c'' = Some f \<and> pf_revision f = 0
    \<and> is_valid_for ScriptFormat ''a = { b = \"c'' (from_cache_data (cache_data f) ''a = { b = \"c'')
    \<and> from_cache_data (cache_data f) ''a = { b = \"c'' = f"
  by (rule parse_file_valid) (code_simp, simp add: u32_max_def)

lemma edited_source_valid:
  assumes "valid_utf8 src" and "valid_utf8 (edit_replacement edit)"
    and "edited_source src edit = Inr new"
  shows "valid_utf8 new"
proof (cases "edit_range edit")
  case None
  then show ?thesis using assms by (simp add: edited_source_def)
next
  case (Some r)
  then have "is_boundary src (range_start r)" "is_boundary src (range_end r)"
    and "new = take (range_start r) src @ edit_replacement edit @ drop (range_end r) src"
    using assms(3) by (auto simp: edited_source_def str_get_def split: if_splits)
  then show ?thesis
    using assms(1,2) by (auto intro!: valid_utf8_append valid_utf8_take valid_utf8_drop)
qed

text \<open>
  C6. \<open>apply_edit\<close> refuses exactly the ranges that are reversed, out of bounds or split a
  character, and then changes nothing; every other edit, of a range or of the whole text, gives the
  file a full parse of the new source would give, one revision later, and that file is valid.
\<close>

theorem apply_edit_reparses:
  assumes "valid_utf8 (pf_source f)" and "valid_utf8 (edit_replacement edit)"
    and "length (pf_source f) + length (edit_replacement edit) \<le> u32_max"
  shows "case edit_range edit of
      Some r \<Rightarrow>
        if valid_range (pf_source f) r
        then \<exists>g. apply_edit edit f = Some (Inr g)
          \<and> parse_with_revision (pf_format f)
              (take (range_start r) (pf_source f) @ edit_replacement edit
                @ drop (range_end r) (pf_source f))
              (min (pf_revision f + 1) u64_max) = Some g
          \<and> is_valid_for (pf_format f) (pf_source g) g
        else apply_edit edit f = Some (Inl (InvalidRange r))
    | None \<Rightarrow>
        \<exists>g. apply_edit edit f = Some (Inr g)
          \<and> parse_with_revision (pf_format f) (edit_replacement edit)
              (min (pf_revision f + 1) u64_max) = Some g
          \<and> is_valid_for (pf_format f) (edit_replacement edit) g"
proof -
  have main: "\<exists>g. apply_edit edit f = Some (Inr g)
      \<and> parse_with_revision (pf_format f) new (min (pf_revision f + 1) u64_max) = Some g
      \<and> is_valid_for (pf_format f) new g \<and> pf_source g = new"
    if new: "edited_source (pf_source f) edit = Inr new" for new
  proof -
    have "length new \<le> length (pf_source f) + length (edit_replacement edit)"
      using new by (auto simp: edited_source_def split: option.splits if_splits)
    then have "length new \<le> u32_max" using assms(3) by simp
    from parse_with_revision_ok [OF edited_source_valid [OF assms(1,2) new] this] obtain g where
      "parse_with_revision (pf_format f) new (min (pf_revision f + 1) u64_max) = Some g"
      "is_valid_for (pf_format f) new g" by blast
    then show ?thesis using new by (auto simp: apply_edit_def is_valid_for_def)
  qed
  show ?thesis
  proof (cases "edit_range edit")
    case None
    then show ?thesis using main [of "edit_replacement edit"] by (auto simp: edited_source_def)
  next
    case (Some r)
    show ?thesis
    proof (cases "valid_range (pf_source f) r")
      case True
      then have "edited_source (pf_source f) edit = Inr (take (range_start r) (pf_source f)
          @ edit_replacement edit @ drop (range_end r) (pf_source f))"
        using Some by (simp add: edited_source_def valid_range_def)
      from main [OF this] show ?thesis using Some True by auto
    next
      case False
      then have "edited_source (pf_source f) edit = Inl (InvalidRange r)"
        using Some is_boundary_le
        by (auto simp: edited_source_def valid_range_def str_get_def split: if_splits)
      then show ?thesis using Some False by (simp add: apply_edit_def)
    qed
  qed
qed

theorem apply_edit_reparses_witness:
  "\<exists>g. apply_edit \<lparr>edit_range = Some \<lparr>range_start = 2, range_end = 3\<rparr>, edit_replacement = ''{''\<rparr>
      (from_parts ScriptFormat ''a=b'' (the (parse_script ''a=b'')) 0) = Some (Inr g)
    \<and> parse_with_revision ScriptFormat ''a={'' 1 = Some g
    \<and> is_valid_for ScriptFormat (pf_source g) g"
proof -
  let ?f = "from_parts ScriptFormat ''a=b'' (the (parse_script ''a=b'')) 0"
  have src: "pf_source ?f = ''a=b''" by (simp add: from_parts_def)
  have v: "valid_utf8 (pf_source ?f)" "valid_utf8 ''{''" unfolding src by code_simp+
  have l: "length (pf_source ?f) + length ''{'' \<le> u32_max" by (simp add: src u32_max_def)
  have "valid_range (pf_source ?f) \<lparr>range_start = 2, range_end = 3\<rparr>" unfolding src by code_simp
  then show ?thesis
    using apply_edit_reparses [of ?f "\<lparr>edit_range = Some \<lparr>range_start = 2, range_end = 3\<rparr>,
      edit_replacement = ''{''\<rparr>"] v l by (simp add: from_parts_def u64_max_def)
qed

subsection \<open>Bounded parses keep their budget\<close>

definition prefix_ok ::
  "string \<Rightarrow> guard \<Rightarrow> parse_parts \<Rightarrow> bool \<Rightarrow> (nat \<times> nat \<times> nat \<times> nat) option \<Rightarrow> bool" where
  "prefix_ok src g parts stopped call \<longleftrightarrow>
    document_ok src parts
    \<and> (case call of None \<Rightarrow> \<not> stopped
       | Some (i, offset, n, d) \<Rightarrow> offset \<le> length src \<and> (stopped \<longleftrightarrow> \<not> g i offset n d)
           \<and> n < cst_nodes (parts_tree parts) \<and> d \<le> block_depth (parts_tree parts) + 1)
    \<and> (\<not> stopped \<longrightarrow> parse_script src = Some parts
        \<and> (\<forall>N D. limits g N D \<longrightarrow>
            cst_nodes (parts_tree parts) \<le> N \<and> block_depth (parts_tree parts) + 1 \<le> D))"

lemma guarded_prefix_ok:
  assumes "valid_utf8 src" and "length src \<le> u32_max"
  shows "\<exists>parts stopped call. parse_guarded_prefix src g = Some (parts, stopped, call)
    \<and> prefix_ok src g parts stopped call"
proof -
  from parse_document_ok [OF assms, of "Some g"] obtain parts q where
    p: "parse_document (fresh src (Some g)) = Some (parts, q)" "document_ok src parts"
    and agree: "guard_agrees q" "ps_guard q = Some g" "ps_source q = src"
    and seen: "\<And>i offset n d. ps_last_call q = Some (i, offset, n, d) \<Longrightarrow>
      n < cst_nodes (parts_tree parts) \<and> d \<le> block_depth (parts_tree parts) + 1"
    and bounds: "\<And>N D. limits g N D \<Longrightarrow> \<not> ps_stopped q \<Longrightarrow>
      cst_nodes (parts_tree parts) \<le> N \<and> block_depth (parts_tree parts) + 1 \<le> D"
    by auto
  have "parse_guarded_prefix src g = Some (parts, ps_stopped q, ps_last_call q)"
    using p(1) by (simp add: parse_guarded_prefix_def fresh_def)
  moreover have "case ps_last_call q of None \<Rightarrow> \<not> ps_stopped q
      | Some (i, offset, n, d) \<Rightarrow> offset \<le> length src \<and> (ps_stopped q \<longleftrightarrow> \<not> g i offset n d)
          \<and> n < cst_nodes (parts_tree parts) \<and> d \<le> block_depth (parts_tree parts) + 1"
    using agree seen by (auto simp: guard_agrees_def split: option.splits)
  ultimately show ?thesis using p parse_document_nt [OF p(1)] bounds
    unfolding prefix_ok_def by blast
qed

lemma budget_guard_limits: "limits (budget_guard b checkpoint) (budget_nodes b) (budget_depth b)"
  by (auto simp: limits_def budget_guard_def limit_at_def split: if_splits)

lemma limit_at_not_bytes: "limit_at b n d \<noteq> Some BytesLimit"
  by (simp add: limit_at_def)

text \<open>
  A limit is exceeded by the document that stands when the guard refuses: it has more nodes, or
  its blocks nest deeper, than the budget allows.
\<close>

fun exceeds :: "script_parse_budget \<Rightarrow> cst \<Rightarrow> script_parse_limit \<Rightarrow> bool" where
  "exceeds b t BytesLimit \<longleftrightarrow> False"
| "exceeds b t NodesLimit \<longleftrightarrow> budget_nodes b < cst_nodes t"
| "exceeds b t DepthLimit \<longleftrightarrow> budget_depth b < block_depth t + 1"

lemma limit_at_exceeds:
  assumes "limit_at b n d = Some l" and "n < cst_nodes t" and "d \<le> block_depth t + 1"
  shows "exceeds b t l"
  using assms by (auto simp: limit_at_def split: if_splits)

text \<open>What the answer \<open>l\<close> of a bounded parse tells of the source.\<close>

fun limit_met :: "string \<Rightarrow> script_parse_budget \<Rightarrow> (nat \<Rightarrow> 'e option) \<Rightarrow> script_parse_limit \<Rightarrow> bool" where
  "limit_met src b checkpoint BytesLimit \<longleftrightarrow> budget_bytes b < length src"
| "limit_met src b checkpoint l \<longleftrightarrow>
    length src \<le> budget_bytes b
    \<and> (case parse_guarded_prefix src (budget_guard b checkpoint) of
         Some (parts, stopped, call) \<Rightarrow> stopped \<and> exceeds b (parts_tree parts) l
       | None \<Rightarrow> False)"

lemma limit_metI:
  assumes "l \<noteq> BytesLimit" and "length src \<le> budget_bytes b"
    and "parse_guarded_prefix src (budget_guard b checkpoint) = Some (parts, True, call)"
    and "exceeds b (parts_tree parts) l"
  shows "limit_met src b checkpoint l"
  using assms by (cases l) simp_all

text \<open>What a completed bounded parse promises.\<close>

definition within_budget :: "string \<Rightarrow> script_parse_budget \<Rightarrow> parsed_file \<Rightarrow> bool" where
  "within_budget src b f \<longleftrightarrow>
    length src \<le> budget_bytes b \<and> parse_file ScriptFormat src = Some f
    \<and> cst_nodes (pf_tree f) \<le> budget_nodes b \<and> block_depth (pf_tree f) + 1 \<le> budget_depth b"

lemma within_budgetI:
  assumes "length src \<le> budget_bytes b" and "parse_script src = Some parts"
    and "cst_nodes (parts_tree parts) \<le> budget_nodes b
      \<and> block_depth (parts_tree parts) + 1 \<le> budget_depth b"
  shows "within_budget src b (from_parts ScriptFormat src parts 0)"
  using assms
  by (simp add: within_budget_def parse_file_def parse_with_revision_def from_parts_def)

lemma parse_script_bounded_ok:
  assumes "valid_utf8 src" and "length src \<le> u32_max"
  shows "\<exists>r. parse_script_bounded src b checkpoint = Some r
    \<and> (case r of
         Inl e \<Rightarrow> \<exists>i. checkpoint i = Some e
       | Inr (Inl l) \<Rightarrow> limit_met src b checkpoint l
       | Inr (Inr f) \<Rightarrow> within_budget src b f)"
proof (cases "checkpoint 0")
  case (Some e)
  then show ?thesis by (auto simp: parse_script_bounded_def)
next
  case start: None
  show ?thesis
  proof (cases "budget_bytes b < length src")
    case True
    then show ?thesis using start by (simp add: parse_script_bounded_def)
  next
    case short: False
    from guarded_prefix_ok [OF assms, of "budget_guard b checkpoint"] obtain parts stopped call where
      p: "parse_guarded_prefix src (budget_guard b checkpoint) = Some (parts, stopped, call)"
      and ok: "prefix_ok src (budget_guard b checkpoint) parts stopped call" by blast
    note stop = ok [unfolded prefix_ok_def, THEN conjunct2, THEN conjunct1]
    have full: "within_budget src b (from_parts ScriptFormat src parts 0)" if "\<not> stopped"
      using that ok short budget_guard_limits [of b checkpoint]
      by (intro within_budgetI) (auto simp: prefix_ok_def)
    note eq = parse_script_bounded_def parse_guarded_def start p if_not_P [OF short]
    show ?thesis
    proof (cases "cancellation_of checkpoint call")
      case (Some e)
      then have "\<exists>i. checkpoint i = Some e" by (cases call) auto
      then show ?thesis using Some by (simp add: eq)
    next
      case live: None
      show ?thesis
      proof (cases stopped)
        case True
        then obtain i offset n d where c: "call = Some (i, offset, n, d)"
          using stop by (cases call) auto
        then have "\<not> budget_guard b checkpoint i offset n d" using stop True by simp
        then obtain l where l: "limit_of b call = Some l"
          using live c by (auto simp: budget_guard_def)
        then have "l \<noteq> BytesLimit" using limit_at_not_bytes c by auto
        moreover have "exceeds b (parts_tree parts) l"
          by (rule limit_at_exceeds [where n = n and d = d]) (use stop c l in simp_all)
        ultimately have "limit_met src b checkpoint l"
          using short p True by (intro limit_metI) simp_all
        then show ?thesis using True live l by (simp add: eq)
      next
        case False
        then show ?thesis using full live by (cases "checkpoint (next_call call)") (auto simp: eq)
      qed
    qed
  qed
qed

text \<open>
  C4. A bounded script parse never panics and never answers with a partial document: it returns
  an error of the checkpoint, or a limit that was really exceeded (the byte limit: the source is
  longer; the node or depth limit: the source is not too long, the guard stopped the parse, and the
  document built until then has more nodes, or blocks nested deeper, than that limit), or the very
  file the unbounded parse returns, whose nodes and block nesting are within the budget.
\<close>

theorem parse_script_bounded_sound:
  assumes "valid_utf8 src" and "length src \<le> u32_max"
  shows "\<exists>r. parse_script_bounded src b checkpoint = Some r
    \<and> (case r of
         Inl e \<Rightarrow> \<exists>i. checkpoint i = Some e
       | Inr (Inl l) \<Rightarrow> limit_met src b checkpoint l
       | Inr (Inr f) \<Rightarrow> within_budget src b f)"
  using assms by (rule parse_script_bounded_ok)

theorem parse_script_bounded_sound_witness:
  "parse_script_bounded ''{'' \<lparr>budget_bytes = 100, budget_nodes = 100, budget_depth = 1\<rparr>
      (\<lambda>_. None :: nat option) = Some (Inr (Inl DepthLimit))
    \<and> limit_met ''{'' \<lparr>budget_bytes = 100, budget_nodes = 100, budget_depth = 1\<rparr>
      (\<lambda>_. None :: nat option) DepthLimit"
proof -
  let ?b = "\<lparr>budget_bytes = 100, budget_nodes = 100, budget_depth = 1\<rparr>"
  have r: "parse_script_bounded ''{'' ?b (\<lambda>_. None :: nat option)
    = Some (Inr (Inl DepthLimit))" by code_simp
  have s: "valid_utf8 ''{''" "length ''{'' \<le> u32_max"
    by (code_simp, simp add: u32_max_def)
  from parse_script_bounded_sound [OF s, of ?b "\<lambda>_. None :: nat option"] r show ?thesis by simp
qed

text \<open>
  C5. A bounded prefix parse never panics. Without a frontier it returns the file of the unbounded
  parse, within the budget; with one it returns the frontier's limit and offset, an offset inside
  the source, and a file that is valid for the whole source and really exceeds that limit (or no
  file, when the source is longer than the byte budget).
\<close>

theorem parse_script_prefix_bounded_sound:
  assumes "valid_utf8 src" and "length src \<le> u32_max"
  shows "\<exists>r. parse_script_prefix_bounded src b checkpoint = Some r
    \<and> (case r of
         Inl e \<Rightarrow> \<exists>i. checkpoint i = Some e
       | Inr progress \<Rightarrow>
          (case (progress_parsed progress, progress_frontier progress) of
             (Some f, None) \<Rightarrow> within_budget src b f
           | (Some f, Some (l, offset)) \<Rightarrow>
              length src \<le> budget_bytes b \<and> is_valid_for ScriptFormat src f
              \<and> exceeds b (pf_tree f) l \<and> offset \<le> length src
           | (None, frontier) \<Rightarrow>
              budget_bytes b < length src \<and> frontier = Some (BytesLimit, 0)))"
proof (cases "checkpoint 0")
  case (Some e)
  then show ?thesis by (auto simp: parse_script_prefix_bounded_def)
next
  case start: None
  show ?thesis
  proof (cases "budget_bytes b < length src")
    case True
    then show ?thesis using start by (simp add: parse_script_prefix_bounded_def)
  next
    case short: False
    from guarded_prefix_ok [OF assms, of "budget_guard b checkpoint"] obtain parts stopped call where
      p: "parse_guarded_prefix src (budget_guard b checkpoint) = Some (parts, stopped, call)"
      and ok: "prefix_ok src (budget_guard b checkpoint) parts stopped call" by blast
    note stop = ok [unfolded prefix_ok_def, THEN conjunct2, THEN conjunct1]
    have full: "within_budget src b (from_parts ScriptFormat src parts 0)" if "\<not> stopped"
      using that ok short budget_guard_limits [of b checkpoint]
      by (intro within_budgetI) (auto simp: prefix_ok_def)
    note eq = parse_script_prefix_bounded_def start p if_not_P [OF short]
    have valid: "is_valid_for ScriptFormat src (from_parts ScriptFormat src parts 0)"
      using ok by (simp add: prefix_ok_def is_valid_for_def document_ok_def from_parts_def)
    show ?thesis
    proof (cases "cancellation_of checkpoint call")
      case (Some e)
      then have "\<exists>i. checkpoint i = Some e" by (cases call) auto
      then show ?thesis using Some by (simp add: eq)
    next
      case live: None
      show ?thesis
      proof (cases "frontier_of b call")
        case None
        then have "\<not> stopped" using stop live by (cases call) (auto simp: budget_guard_def)
        then show ?thesis using full None live by (cases "checkpoint (next_call call)") (auto simp: eq)
      next
        case (Some frontier)
        then obtain i offset n d where c: "call = Some (i, offset, n, d)" by (cases call) auto
        then obtain l where l: "limit_at b n d = Some l" "frontier = (l, offset mod u32_limit)"
          using Some by auto
        have "offset \<le> length src" using stop c by simp
        then have "offset mod u32_limit \<le> length src"
          using mod_less_eq_dividend [of offset u32_limit] by (rule le_trans [rotated])
        moreover have "exceeds b (parts_tree parts) l"
          by (rule limit_at_exceeds [OF l(1)]) (use stop c in simp_all)
        then have "exceeds b (pf_tree (from_parts ScriptFormat src parts 0)) l"
          by (simp add: from_parts_def)
        ultimately show ?thesis using Some live valid short l(2)
          by (cases "checkpoint (next_call call)") (auto simp: eq)
      qed
    qed
  qed
qed

theorem parse_script_prefix_bounded_sound_witness:
  "\<exists>r. parse_script_prefix_bounded ''a''
      \<lparr>budget_bytes = 0, budget_nodes = 1, budget_depth = 1\<rparr> (\<lambda>_. None :: nat option) = Some r
    \<and> (\<exists>progress. r = Inr progress \<and> progress_parsed progress = None)"
proof -
  have s: "valid_utf8 ''a''" "length ''a'' \<le> u32_max" by (code_simp, simp add: u32_max_def)
  from parse_script_prefix_bounded_sound [OF s,
      of "\<lparr>budget_bytes = 0, budget_nodes = 1, budget_depth = 1\<rparr>" "\<lambda>_. None :: nat option"]
  obtain r where "parse_script_prefix_bounded ''a''
      \<lparr>budget_bytes = 0, budget_nodes = 1, budget_depth = 1\<rparr> (\<lambda>_. None :: nat option) = Some r"
    by blast
  then show ?thesis by (auto simp: parse_script_prefix_bounded_def)
qed

end
