(* ===== verification/Quoted_Script.thy ===== *)
theory Quoted_Script
  imports Parsed_File
begin

text \<open>
  Script embedded in a quoted scalar, of the crate \<open>parser\<close> (\<open>quoted_script.rs\<close>): decoding of a
  carrier with its source map, encoding for insertion, and the bounded variant. The loop over
  the payload works on its characters (\<open>str_chars\<close>); a checkpoint is a function of its calls.
\<close>

record source_map =
  decoded_to_source :: "nat list"
  sm_source_len :: nat

definition decoded_offset :: "nat \<Rightarrow> source_map \<Rightarrow> nat option" where
  "decoded_offset offset m =
    (if offset < length (decoded_to_source m) then Some (decoded_to_source m ! offset) else None)"

definition decoded_range :: "text_range \<Rightarrow> source_map \<Rightarrow> text_range option" where
  "decoded_range r m =
    (case (decoded_offset (range_start r) m, decoded_offset (range_end r) m) of
       (Some s, Some e) \<Rightarrow> text_range_new s e
     | _ \<Rightarrow> None)"

definition source_offset :: "nat \<Rightarrow> source_map \<Rightarrow> nat option" where
  "source_offset offset m =
    (if sm_source_len m < offset then None
     else try_u32 (partition_point (\<lambda>candidate. candidate \<le> offset) (decoded_to_source m) - 1))"

record quoted_script =
  qs_parsed :: parsed_file
  qs_source_map :: source_map
  qs_closed :: bool

definition closing_quote_is_escaped :: "string \<Rightarrow> bool" where
  "closing_quote_is_escaped src \<longleftrightarrow>
    odd (length (takeWhile (\<lambda>b. b = BACKSLASH) (rev (take (length src - 1) src))))"

definition is_closed :: "string \<Rightarrow> bool" where
  "is_closed src \<longleftrightarrow> src \<noteq> [] \<and> last src = QUOTE \<and> \<not> closing_quote_is_escaped src"

definition strip_prefix :: "char \<Rightarrow> string \<Rightarrow> string option" where
  "strip_prefix c s = (case s of [] \<Rightarrow> None | d # ds \<Rightarrow> if d = c then Some ds else None)"

definition strip_suffix :: "char \<Rightarrow> string \<Rightarrow> string option" where
  "strip_suffix c s = (if s \<noteq> [] \<and> last s = c then Some (butlast s) else None)"

text \<open>\<open>for byte in 1..=len { push(u32::try_from(base + byte).ok()?) }\<close>.\<close>

definition byte_offsets :: "nat \<Rightarrow> nat \<Rightarrow> nat list option" where
  "byte_offsets base len =
    (if base + len \<le> u32_max then Some (map (\<lambda>byte. base + byte) [1..<len + 1]) else None)"

text \<open>
  The loop of \<open>decode_payload_with_checkpoint\<close>: the work done so far, the offset in the payload,
  and the characters left. Every 256th character asks the checkpoint; the second result is the
  number of calls made.
\<close>

fun decode_loop ::
  "(nat \<Rightarrow> bool) \<Rightarrow> nat \<Rightarrow> nat \<Rightarrow> string list \<Rightarrow> string \<Rightarrow> nat list \<Rightarrow> (string \<times> nat list) option \<times> nat"
where
  "decode_loop checkpoint work offset [] decoded m = (Some (decoded, m), work div 256)"
| "decode_loop checkpoint work offset (c # cs) decoded m =
    (let work = work + 1; calls = work div 256 in
     if work mod 256 = 0 \<and> \<not> checkpoint (calls - 1) then (None, calls)
     else if c \<noteq> [BACKSLASH] then
       (case byte_offsets (1 + offset) (length c) of
          None \<Rightarrow> (None, calls)
        | Some bs \<Rightarrow>
            decode_loop checkpoint work (offset + length c) cs (decoded @ c) (m @ bs))
     else
       (case cs of
          [] \<Rightarrow> (None, calls)
        | escaped # cs' \<Rightarrow>
           if escaped = [QUOTE] \<or> escaped = [BACKSLASH] then
             (case byte_offsets (2 + offset) (length escaped) of
                None \<Rightarrow> (None, calls)
              | Some bs \<Rightarrow>
                  decode_loop checkpoint work (offset + 1 + length escaped) cs'
                    (decoded @ escaped) (m @ bs))
           else
             (case (try_u32 (2 + offset), byte_offsets (2 + offset) (length escaped)) of
                (Some b, Some bs) \<Rightarrow>
                  decode_loop checkpoint work (offset + 1 + length escaped) cs'
                    (decoded @ [BACKSLASH] @ escaped) (m @ b # bs)
              | _ \<Rightarrow> (None, calls))))"

definition decode_payload_with_checkpoint ::
  "string \<Rightarrow> nat \<Rightarrow> (nat \<Rightarrow> bool) \<Rightarrow> (string \<times> source_map) option \<times> nat" where
  "decode_payload_with_checkpoint payload src_len checkpoint =
    (case decode_loop checkpoint 0 0 (str_chars payload) [] [1] of
       (Some (decoded, m), calls) \<Rightarrow>
         (case try_u32 src_len of
            None \<Rightarrow> (None, calls)
          | Some l \<Rightarrow>
              (Some (decoded, \<lparr>decoded_to_source = m, sm_source_len = l\<rparr>), calls))
     | (None, calls) \<Rightarrow> (None, calls))"

definition decode_payload :: "string \<Rightarrow> nat \<Rightarrow> (string \<times> source_map) option" where
  "decode_payload payload src_len =
    fst (decode_payload_with_checkpoint payload src_len (\<lambda>_. True))"

definition decode_quoted_script :: "string \<Rightarrow> (string \<times> source_map) option" where
  "decode_quoted_script src =
    (case strip_prefix QUOTE src of
       None \<Rightarrow> None
     | Some payload \<Rightarrow>
        (case (if is_closed src then strip_suffix QUOTE payload else Some payload) of
           None \<Rightarrow> None
         | Some payload \<Rightarrow> decode_payload payload (length src)))"

text \<open>\<open>None\<close> of the outer option is a panic of the parser, which the theorems exclude.\<close>

definition parse_quoted_script :: "string \<Rightarrow> quoted_script option option" where
  "parse_quoted_script src =
    (case decode_quoted_script src of
       None \<Rightarrow> Some None
     | Some (decoded, m) \<Rightarrow>
        map_option (\<lambda>f. Some \<lparr>qs_parsed = f, qs_source_map = m, qs_closed = is_closed src\<rparr>)
          (parse_file ScriptFormat decoded))"

definition encode_char :: "string \<Rightarrow> string" where
  "encode_char c =
    (if c = [QUOTE] then [BACKSLASH, QUOTE]
     else if c = [BACKSLASH] then [BACKSLASH, BACKSLASH] else c)"

definition encode_quoted_script_text :: "string \<Rightarrow> string" where
  "encode_quoted_script_text s = concat (map encode_char (str_chars s))"

text \<open>\<open>parse_quoted_script_bounded\<close>: call 0 of the checkpoint is its own, the decoder makes the
  next ones, then the bounded parse goes on counting.\<close>

definition parse_quoted_script_bounded ::
  "string \<Rightarrow> script_parse_budget \<Rightarrow> (nat \<Rightarrow> 'e option) \<Rightarrow>
    ('e + (script_parse_limit + quoted_script option)) option" where
  "parse_quoted_script_bounded src budget checkpoint =
    (case checkpoint 0 of
       Some e \<Rightarrow> Some (Inl e)
     | None \<Rightarrow>
        if budget_bytes budget < length src then Some (Inr (Inl BytesLimit))
        else
          (case strip_prefix QUOTE src of
             None \<Rightarrow> Some (Inr (Inr None))
           | Some payload \<Rightarrow>
              (let closed = is_closed src;
                   payload = (if closed then
                     (case strip_suffix QUOTE payload of Some p \<Rightarrow> p | None \<Rightarrow> payload)
                     else payload);
                   (decoded, calls) =
                     decode_payload_with_checkpoint payload (length src)
                       (\<lambda>i. checkpoint (Suc i) = None)
               in case (if calls = 0 then None else checkpoint calls) of
                    Some e \<Rightarrow> Some (Inl e)
                  | None \<Rightarrow>
                     (case decoded of
                        None \<Rightarrow> Some (Inr (Inr None))
                      | Some (decoded, m) \<Rightarrow>
                         (case parse_script_bounded decoded budget (\<lambda>i. checkpoint (Suc calls + i)) of
                            None \<Rightarrow> None
                          | Some (Inl e) \<Rightarrow> Some (Inl e)
                          | Some (Inr (Inl l)) \<Rightarrow> Some (Inr (Inl l))
                          | Some (Inr (Inr f)) \<Rightarrow>
                              Some (Inr (Inr (Some
                                \<lparr>qs_parsed = f, qs_source_map = m, qs_closed = closed\<rparr>))))))))"

subsection \<open>The source map\<close>

text \<open>
  \<open>maps_to src off decoded m\<close>: \<open>m\<close> is the map of a loop that has read the payload up to \<open>off\<close>,
  \<open>1 + off\<close> in the source \<open>src\<close> of the carrier.
\<close>

definition maps_to :: "string \<Rightarrow> nat \<Rightarrow> string \<Rightarrow> nat list \<Rightarrow> bool" where
  "maps_to src off decoded m \<longleftrightarrow>
    valid_utf8 decoded \<and> length m = length decoded + 1 \<and> sorted_wrt (<) m
    \<and> last m = 1 + off \<and> is_boundary src (1 + off)
    \<and> (\<forall>i < length decoded. \<not> is_cont (byte_of (decoded ! i)) \<longrightarrow> is_boundary src (m ! i))"

lemma byte_offsets_Some:
  "byte_offsets base len = Some bs \<longleftrightarrow>
    base + len \<le> u32_max \<and> bs = map (\<lambda>byte. base + byte) [1..<len + 1]"
  by (auto simp: byte_offsets_def)

lemma sorted_wrt_offsets: "sorted_wrt (<) (map (\<lambda>byte. base + byte) [a..<b :: nat])"
  by (simp add: sorted_wrt_map sorted_wrt_upt)

lemma last_sorted: "sorted_wrt (<) (m :: nat list) \<Longrightarrow> x \<in> set m \<Longrightarrow> x \<le> last m"
  by (induction m) (auto simp: less_imp_le)

lemma maps_to_push:
  assumes m: "maps_to src off decoded m" and c: "is_char c" and o: "off \<le> off'"
    and bs: "byte_offsets (1 + off') (length c) = Some bs"
    and b: "is_boundary src (1 + off' + length c)"
  shows "maps_to src (off' + length c) (decoded @ c) (m @ bs)"
proof -
  obtain a t where "c = a # t" "utf8_width (byte_of a) = length c" "\<not> is_cont (byte_of a)"
    "list_all (\<lambda>b. is_cont (byte_of b)) t" using c by (rule is_char_cases)
  note ct = this(1,3,4)
  have bs': "bs = map (\<lambda>byte. 1 + off' + byte) [1..<length c + 1]"
    using bs by (simp add: byte_offsets_Some)
  have ml: "length m = length decoded + 1" and lm: "last m = 1 + off" and mne: "m \<noteq> []"
    using m by (auto simp: maps_to_def)
  have "sorted_wrt (<) (m @ bs)"
  proof -
    have "x < y" if x: "x \<in> set m" and y: "y \<in> set bs" for x y
    proof -
      have "x \<le> 1 + off" using last_sorted [OF _ x] m by (simp add: maps_to_def)
      also have "\<dots> < y" using y o by (auto simp: bs')
      finally show ?thesis .
    qed
    moreover have "sorted_wrt (<) bs" unfolding bs' by (rule sorted_wrt_offsets)
    ultimately show ?thesis using m by (simp add: sorted_wrt_append maps_to_def)
  qed
  moreover have "last (m @ bs) = 1 + (off' + length c)" by (simp add: bs' ct(1))
  moreover have "is_boundary src ((m @ bs) ! i)"
    if i: "i < length (decoded @ c)" "\<not> is_cont (byte_of ((decoded @ c) ! i))" for i
  proof (cases "i < length decoded")
    case True
    then show ?thesis using m i by (simp add: maps_to_def nth_append)
  next
    case False
    have "i = length decoded"
    proof (rule ccontr)
      assume "i \<noteq> length decoded"
      define k where "k = i - length decoded - 1"
      have "i = length decoded + Suc k" "k < length t"
        using \<open>i \<noteq> length decoded\<close> False i(1) ct(1) by (auto simp: k_def)
      then show False using i(2) ct by (simp add: nth_append list_all_length)
    qed
    then have "(m @ bs) ! i = last m" using ml mne by (simp add: nth_append last_conv_nth)
    then show ?thesis using m by (simp add: maps_to_def)
  qed
  moreover have "valid_utf8 (decoded @ c)"
    using m c is_char_append(2) [OF c, of "[]"] by (intro valid_utf8_append) (simp_all add: maps_to_def)
  moreover have "length bs = length c" unfolding bs' length_map length_upt by simp
  ultimately show ?thesis using m b ml by (simp add: maps_to_def add.assoc)
qed

lemma decode_loop_Some:
  assumes "decode_loop ck work off (c # cs) decoded m = (Some r, calls)"
  obtains (plain) bs where "c \<noteq> [BACKSLASH]" "byte_offsets (1 + off) (length c) = Some bs"
      "decode_loop ck (work + 1) (off + length c) cs (decoded @ c) (m @ bs) = (Some r, calls)"
  | (escape) e ds bs where "c = [BACKSLASH]" "cs = e # ds" "e = [QUOTE] \<or> e = [BACKSLASH]"
      "byte_offsets (2 + off) (length e) = Some bs"
      "decode_loop ck (work + 1) (off + 1 + length e) ds (decoded @ e) (m @ bs) = (Some r, calls)"
  | (other) e ds b bs where "c = [BACKSLASH]" "cs = e # ds" "\<not> (e = [QUOTE] \<or> e = [BACKSLASH])"
      "try_u32 (2 + off) = Some b" "byte_offsets (2 + off) (length e) = Some bs"
      "decode_loop ck (work + 1) (off + 1 + length e) ds (decoded @ [BACKSLASH] @ e) (m @ b # bs)
        = (Some r, calls)"
proof -
  let ?stop = "(work + 1) mod 256 = 0 \<and> \<not> ck ((work + 1) div 256 - 1)"
  note eq = assms [unfolded decode_loop.simps Let_def]
  have go: "\<not> ?stop"
  proof
    assume "?stop"
    from eq [unfolded if_P [OF this]] show False by simp
  qed
  note eq = eq [unfolded if_not_P [OF go]]
  show thesis
  proof (cases "c \<noteq> [BACKSLASH]")
    case True
    from eq [unfolded if_P [OF True]] show ?thesis
      by (cases "byte_offsets (1 + off) (length c)") (auto intro: plain [OF True])
  next
    case False
    note eq = eq [unfolded if_not_P [OF False]]
    from eq obtain e ds where ds: "cs = e # ds" by (cases cs) auto
    note eq = eq [unfolded ds list.case]
    show ?thesis
    proof (cases "e = [QUOTE] \<or> e = [BACKSLASH]")
      case True
      note eq = eq [unfolded if_P [OF True]]
      obtain bs where bs: "byte_offsets (2 + off) (length e) = Some bs"
        using eq by (cases "byte_offsets (2 + off) (length e)") auto
      show ?thesis using False ds True bs eq [unfolded bs option.case]
        by (intro escape [of e ds bs]) simp_all
    next
      case e: False
      from eq [unfolded if_not_P [OF e]] show ?thesis
        by (cases "byte_offsets (2 + off) (length e)"; cases "try_u32 (2 + off)")
          (use False ds e in \<open>auto intro: other simp del: try_u32_Some\<close>)
    qed
  qed
qed

text \<open>The loop, on a source \<open>pre @ concat cs @ tail\<close> whose payload goes on with the characters
  \<open>cs\<close>.\<close>

lemma decode_loop_maps:
  assumes "decode_loop ck work off cs decoded m = (Some (decoded', m'), calls)"
    and "list_all is_char cs" and "maps_to (pre @ concat cs @ tail) off decoded m"
    and "length pre = 1 + off" and t: "tail = [] \<or> tail = [QUOTE]"
  shows "maps_to (pre @ concat cs @ tail) (off + length (concat cs)) decoded' m'"
  using assms(1-4)
proof (induction "length cs" arbitrary: cs work off decoded m pre rule: less_induct)
  case less
  have tl: "list_all is_char (if tail = [] then [] else [tail])"
    "concat (if tail = [] then [] else [tail]) = tail"
    using t by (auto simp: is_char_ascii QUOTE_def byte_of_def)
  have bound: "is_boundary (p @ concat ds @ tail) (length p)" if "list_all is_char ds" for p ds
    using boundary_append_chars [of "ds @ (if tail = [] then [] else [tail])" p] that tl by simp
  show ?case
  proof (cases cs)
    case Nil
    then show ?thesis using less.prems by simp
  next
    case (Cons c ds)
    have c: "is_char c" and dsc: "list_all is_char ds" using less.prems(2) Cons by simp_all
    let ?src = "pre @ concat cs @ tail"
    have b1: "is_boundary ?src (1 + off + length c)"
      using bound [OF dsc, of "pre @ c"] less.prems(4) Cons by simp
    from less.prems(1) [unfolded Cons] show ?thesis
    proof (cases rule: decode_loop_Some)
      case (plain bs)
      have "maps_to ((pre @ c) @ concat ds @ tail) (off + length c) (decoded @ c) (m @ bs)"
        using maps_to_push [OF less.prems(3) c order_refl plain(2) b1] Cons by simp
      from less.hyps [OF _ plain(3) dsc this] less.prems(4) Cons
      show ?thesis by (simp add: add.assoc)
    next
      case (escape e es bs)
      have e: "is_char e" and esc: "list_all is_char es" using dsc escape(2) by simp_all
      have b2: "is_boundary ?src (1 + (off + 1) + length e)"
        using bound [OF esc, of "pre @ c @ e"] less.prems(4) escape(1,2) Cons by simp
      have "maps_to ((pre @ c @ e) @ concat es @ tail) (off + 1 + length e) (decoded @ e) (m @ bs)"
        using maps_to_push [OF less.prems(3) e _ _ b2, of bs] escape(1,2,4) Cons by simp
      from less.hyps [OF _ escape(5) esc this] less.prems(4) Cons escape(1,2)
      show ?thesis by (simp add: add.assoc)
    next
      case (other e es b bs)
      have e: "is_char e" and esc: "list_all is_char es" using dsc other(2) by simp_all
      have b2: "is_boundary ?src (1 + (off + 1) + length e)"
        using bound [OF esc, of "pre @ c @ e"] less.prems(4) other(1,2) Cons by simp
      have "byte_offsets (1 + off) (length c) = Some [b]"
        using other(1,4,5) by (auto simp: byte_offsets_Some)
      from maps_to_push [OF less.prems(3) c order_refl this b1]
      have m1: "maps_to ?src (off + 1) (decoded @ [BACKSLASH]) (m @ [b])" using other(1) by simp
      have "maps_to ((pre @ c @ e) @ concat es @ tail) (off + 1 + length e)
          (decoded @ [BACKSLASH] @ e) (m @ b # bs)"
        using maps_to_push [OF m1 e _ _ b2, of bs] other(1,2,5) Cons by simp
      from less.hyps [OF _ other(6) esc this] less.prems(4) Cons other(1,2)
      show ?thesis by (simp add: add.assoc)
    qed
  qed
qed

lemma partition_point_sorted:
  assumes "sorted_wrt (<) (m :: nat list)" and "i < length m"
  shows "partition_point (\<lambda>x. x \<le> m ! i) m = i + 1"
proof -
  have le: "x \<le> m ! i" if "x \<in> set (take (i + 1) m)" for x
  proof -
    from that obtain j where j: "j < length (take (i + 1) m)" "take (i + 1) m ! j = x"
      by (metis in_set_conv_nth)
    then have "j \<le> i" "x = m ! j" by auto
    then show ?thesis using sorted_wrt_nth_less [OF assms(1), of j i] assms(2)
      by (cases "j = i") auto
  qed
  have "takeWhile (\<lambda>x. x \<le> m ! i) m = take (i + 1) m"
  proof (cases "i + 1 < length m")
    case True
    then have "m ! i < m ! (i + 1)" using sorted_wrt_nth_less [OF assms(1), of i "i + 1"] by simp
    moreover have "m = take (i + 1) m @ m ! (i + 1) # drop (i + 2) m"
      using id_take_nth_drop [OF True] by simp
    ultimately show ?thesis using le
      by (metis not_le takeWhile_eq_all_conv takeWhile_tail)
  next
    case False
    then have "take (i + 1) m = m" by simp
    then show ?thesis using le by (metis takeWhile_eq_all_conv)
  qed
  then show ?thesis using assms(2) by (simp add: partition_point_def)
qed

text \<open>What the source map of a carrier promises.\<close>

definition source_map_ok :: "string \<Rightarrow> string \<Rightarrow> source_map \<Rightarrow> bool" where
  "source_map_ok src decoded m \<longleftrightarrow>
    sm_source_len m = length src \<and> length decoded \<le> length src
    \<and> (\<forall>i \<le> length decoded. \<exists>off. decoded_offset i m = Some off \<and> off \<le> length src
        \<and> source_offset off m = Some i \<and> (is_boundary decoded i \<longrightarrow> is_boundary src off)
        \<and> (\<forall>j < i. \<exists>o'. decoded_offset j m = Some o' \<and> o' < off))
    \<and> decoded_offset (length decoded + 1) m = None"

lemma maps_to_source_map:
  assumes m: "maps_to src off decoded ms" and l: "length src < u32_limit"
  shows "source_map_ok src decoded \<lparr>decoded_to_source = ms, sm_source_len = length src\<rparr>"
proof -
  let ?m = "\<lparr>decoded_to_source = ms, sm_source_len = length src\<rparr>"
  have lm: "length ms = length decoded + 1" and so: "sorted_wrt (<) ms"
    and la: "last ms = 1 + off" and b: "is_boundary src (1 + off)"
    using m by (simp_all add: maps_to_def)
  have le: "x \<le> length src" if "x \<in> set ms" for x
    using last_sorted [OF so that] la is_boundary_le [OF b] by simp
  have small: "length ms \<le> length src + 1"
  proof -
    have "distinct ms" using so by (auto simp: strict_sorted_iff)
    then have "length ms = card (set ms)" by (simp add: distinct_card)
    also have "\<dots> \<le> card {0..length src}" using le by (intro card_mono) auto
    finally show ?thesis by simp
  qed
  have "\<exists>off'. decoded_offset i ?m = Some off' \<and> off' \<le> length src \<and> source_offset off' ?m = Some i
      \<and> (is_boundary decoded i \<longrightarrow> is_boundary src off')
      \<and> (\<forall>j < i. \<exists>o'. decoded_offset j ?m = Some o' \<and> o' < off')"
    if i: "i \<le> length decoded" for i
  proof -
    have il: "i < length ms" using i lm by simp
    have "is_boundary src (ms ! i)" if bd: "is_boundary decoded i"
    proof (cases "i < length decoded")
      case True
      then consider "i = 0" | "\<not> is_cont (byte_of (decoded ! i))" using bd by (auto simp: is_boundary_def)
      then show ?thesis
      proof cases
        case 1
        have "\<not> is_cont (byte_of (decoded ! 0))"
        proof -
          obtain a t where d: "decoded = a # t" using True by (cases decoded) auto
          then have "utf8_seq (map byte_of (a # t)) = Some (utf8_width (byte_of a))"
            using m valid_utf8_bytes_Cons by (auto simp: maps_to_def valid_utf8_def)
          then show ?thesis using utf8_seq_head d by simp
        qed
        then show ?thesis using m True 1 by (simp add: maps_to_def)
      next
        case 2
        then show ?thesis using m True by (simp add: maps_to_def)
      qed
    next
      case False
      then have "i = length ms - 1" using i lm by simp
      then have "ms ! i = last ms" using lm by (metis last_conv_nth length_0_conv add_is_0 one_neq_zero)
      then show ?thesis using la b by simp
    qed
    moreover have "source_offset (ms ! i) ?m = Some i"
      using partition_point_sorted [OF so il] le [of "ms ! i"] il small l
      by (simp add: source_offset_def)
    moreover have "\<forall>j < i. \<exists>o'. decoded_offset j ?m = Some o' \<and> o' < ms ! i"
      using sorted_wrt_nth_less [OF so _ il] il by (simp add: decoded_offset_def)
    ultimately show ?thesis using il le [of "ms ! i"] by (simp add: decoded_offset_def)
  qed
  then show ?thesis using lm small by (simp add: source_map_ok_def decoded_offset_def)
qed

lemma source_map_range:
  assumes "source_map_ok src decoded m" and r: "valid_range decoded r"
  shows "\<exists>r'. decoded_range r m = Some r' \<and> valid_range src r'"
proof -
  have b: "range_start r \<le> range_end r" "is_boundary decoded (range_start r)"
    "is_boundary decoded (range_end r)" using r by (simp_all add: valid_range_iff)
  obtain s where s: "decoded_offset (range_start r) m = Some s" "is_boundary src s"
    using assms(1) b is_boundary_le [OF b(2)] by (auto simp: source_map_ok_def)
  obtain e where e: "decoded_offset (range_end r) m = Some e" "is_boundary src e"
    "\<forall>j < range_end r. \<exists>o'. decoded_offset j m = Some o' \<and> o' < e"
    using assms(1) b is_boundary_le [OF b(3)] unfolding source_map_ok_def by blast
  have "s \<le> e"
  proof (cases "range_start r = range_end r")
    case False
    then have "range_start r < range_end r" using b(1) by simp
    then show ?thesis using e(3) s(1) by auto
  qed (use s(1) e(1) in simp)
  then show ?thesis using s e
    by (auto simp: decoded_range_def text_range_new_def valid_range_iff)
qed

subsection \<open>Carriers\<close>

lemma encode_char_chars:
  assumes "is_char c"
  shows "str_chars (encode_char c) =
      (if c = [QUOTE] then [[BACKSLASH], [QUOTE]]
       else if c = [BACKSLASH] then [[BACKSLASH], [BACKSLASH]] else [c])"
    and "valid_utf8 (encode_char c)"
proof -
  have "is_char [BACKSLASH]" "is_char [QUOTE]"
    by (simp_all add: is_char_ascii BACKSLASH_def QUOTE_def byte_of_def)
  then have "str_chars [BACKSLASH, QUOTE] = [[BACKSLASH], [QUOTE]]"
    "str_chars [BACKSLASH, BACKSLASH] = [[BACKSLASH], [BACKSLASH]]"
    "valid_utf8 [BACKSLASH, QUOTE]" "valid_utf8 [BACKSLASH, BACKSLASH]"
    using str_chars_concat [of "[[BACKSLASH], [QUOTE]]"] str_chars_concat [of "[[BACKSLASH], [BACKSLASH]]"]
    by simp_all
  moreover have "str_chars c = [c]" "valid_utf8 c"
    using str_chars_concat [of "[c]"] assms by simp_all
  ultimately show "str_chars (encode_char c) =
      (if c = [QUOTE] then [[BACKSLASH], [QUOTE]]
       else if c = [BACKSLASH] then [[BACKSLASH], [BACKSLASH]] else [c])"
    and "valid_utf8 (encode_char c)" by (simp_all add: encode_char_def)
qed

lemma encode_text_chars:
  assumes "valid_utf8 s"
  shows "str_chars (encode_quoted_script_text s)
      = concat (map (\<lambda>c. str_chars (encode_char c)) (str_chars s))"
    and "valid_utf8 (encode_quoted_script_text s)"
proof -
  have "str_chars (concat (map encode_char cs)) = concat (map (\<lambda>c. str_chars (encode_char c)) cs)
      \<and> valid_utf8 (concat (map encode_char cs))" if "list_all is_char cs" for cs
    using that
  proof (induction cs)
    case (Cons c cs)
    then show ?case using encode_char_chars(2) [of c]
      by (simp add: str_chars_append valid_utf8_append)
  qed simp
  from this [OF valid_str_chars [OF assms]] show
    "str_chars (encode_quoted_script_text s)
      = concat (map (\<lambda>c. str_chars (encode_char c)) (str_chars s))"
    "valid_utf8 (encode_quoted_script_text s)" by (simp_all add: encode_quoted_script_text_def)
qed

lemma encode_char_length: "length c \<le> length (encode_char c)"
  by (auto simp: encode_char_def)

text \<open>Decoding an encoded text.\<close>

lemma decode_loop_encoded:
  assumes "list_all is_char cs" and "1 + off + length (concat (map encode_char cs)) \<le> u32_max"
  shows "\<exists>m' calls. decode_loop (\<lambda>_. True) work off
      (concat (map (\<lambda>c. str_chars (encode_char c)) cs)) decoded m
    = (Some (decoded @ concat cs, m'), calls)"
  using assms
proof (induction cs arbitrary: work off decoded m)
  case (Cons c cs)
  have c: "is_char c" using Cons.prems(1) by simp
  show ?case
  proof (cases "c = [QUOTE] \<or> c = [BACKSLASH]")
    case True
    then have len: "length (encode_char c) = 2" "length c = 1" by (auto simp: encode_char_def)
    then have "byte_offsets (2 + off) (length c) = Some [3 + off]"
      using Cons.prems(2) by (simp add: byte_offsets_Some)
    moreover have "1 + (off + 2) + length (concat (map encode_char cs)) \<le> u32_max"
      using len Cons.prems(2) by simp
    ultimately show ?thesis
      using Cons.IH [of "off + 2" "work + 1" "decoded @ c" "m @ [3 + off]"] Cons.prems(1) True
        encode_char_chars(1) [OF c]
      by (auto simp: Let_def BACKSLASH_def QUOTE_def)
  next
    case False
    then have len: "length (encode_char c) = length c" by (simp add: encode_char_def)
    then obtain bs where bs: "byte_offsets (1 + off) (length c) = Some bs"
      using Cons.prems(2) by (simp add: byte_offsets_def)
    moreover have "1 + (off + length c) + length (concat (map encode_char cs)) \<le> u32_max"
      using len Cons.prems(2) by simp
    ultimately show ?thesis
      using Cons.IH [of "off + length c" "work + 1" "decoded @ c" "m @ bs"] Cons.prems(1) False
        encode_char_chars(1) [OF c]
      by (auto simp: Let_def)
  qed
qed simp

text \<open>The number of backslashes before the closing quote of an encoded text is even.\<close>

lemma encoded_slashes:
  assumes "list_all is_char cs"
  shows "even (length (takeWhile (\<lambda>b. b = BACKSLASH)
    (rev (QUOTE # concat (map encode_char cs)))))"
  using assms
proof (induction cs rule: rev_induct)
  case Nil
  then show ?case by (simp add: QUOTE_def BACKSLASH_def)
next
  case (snoc c cs)
  have c: "is_char c" using snoc.prems by simp
  show ?case
  proof (cases "c = [BACKSLASH]")
    case True
    then show ?thesis using snoc by (simp add: encode_char_def BACKSLASH_def QUOTE_def)
  next
    case False
    have "last (encode_char c) \<noteq> BACKSLASH \<and> encode_char c \<noteq> []"
    proof (cases "c = [QUOTE]")
      case True
      then show ?thesis by (simp add: encode_char_def QUOTE_def BACKSLASH_def)
    next
      case nq: False
      obtain a t where c': "c = a # t" "list_all (\<lambda>b. is_cont (byte_of b)) t"
        using c is_char_cases by blast
      have "\<not> is_cont (byte_of BACKSLASH)" by (simp add: is_cont_def BACKSLASH_def byte_of_def)
      then have "last c \<noteq> BACKSLASH"
        using c' False by (cases "t = []") (simp, metis last_ConsR last_in_set list_all_iff)
      then show ?thesis using nq False c' by (auto simp: encode_char_def)
    qed
    then obtain ys y where "encode_char c = ys @ [y]" "y \<noteq> BACKSLASH"
      by (metis append_butlast_last_id)
    then show ?thesis by simp
  qed
qed

lemma is_closed_encoded:
  assumes "valid_utf8 s"
  shows "is_closed (QUOTE # encode_quoted_script_text s @ [QUOTE])"
  using encoded_slashes [OF valid_str_chars [OF assms]]
  by (simp add: is_closed_def closing_quote_is_escaped_def encode_quoted_script_text_def)

lemma decode_payload_ok:
  assumes v: "valid_utf8 payload" and t: "tail = [] \<or> tail = [QUOTE]"
    and d: "decode_payload payload (length (QUOTE # payload @ tail)) = Some (decoded, m)"
  shows "valid_utf8 decoded \<and> source_map_ok (QUOTE # payload @ tail) decoded m"
proof -
  let ?src = "QUOTE # payload @ tail" and ?cs = "str_chars payload"
  from d obtain ms calls where l: "decode_loop (\<lambda>_. True) 0 0 ?cs [] [1] = (Some (decoded, ms), calls)"
    and m: "m = \<lparr>decoded_to_source = ms, sm_source_len = length ?src\<rparr>" and u: "length ?src < u32_limit"
    by (auto simp: decode_payload_def decode_payload_with_checkpoint_def
        split: prod.splits option.splits)
  have cs: "list_all is_char ?cs" using valid_str_chars [OF v] .
  have "is_boundary ([QUOTE] @ concat ?cs @ tail) (length [QUOTE])"
    using boundary_append_chars [of "?cs @ (if tail = [] then [] else [tail])" "[QUOTE]"] cs t
    by (auto simp: is_char_ascii QUOTE_def byte_of_def)
  then have "maps_to ([QUOTE] @ concat ?cs @ tail) 0 [] [1]" by (simp add: maps_to_def)
  from decode_loop_maps [OF l cs this _ t] have "maps_to ?src (length payload) decoded ms" by simp
  then show ?thesis using maps_to_source_map [OF _ u] m by (auto simp: maps_to_def)
qed

lemma closed_payload:
  "src = QUOTE # payload \<Longrightarrow> strip_suffix QUOTE payload = Some p \<Longrightarrow> src = QUOTE # p @ [QUOTE]"
  by (auto simp: strip_suffix_def split: if_splits) (metis append_butlast_last_id)

lemma decode_quoted_script_ok:
  assumes "valid_utf8 src" and "decode_quoted_script src = Some (decoded, m)"
  shows "valid_utf8 decoded \<and> source_map_ok src decoded m
    \<and> (\<forall>r. valid_range decoded r \<longrightarrow> (\<exists>r'. decoded_range r m = Some r' \<and> valid_range src r'))"
proof -
  obtain payload where p: "src = QUOTE # payload"
    using assms(2) by (auto simp: decode_quoted_script_def strip_prefix_def
        split: option.splits list.splits if_splits)
  have q: "is_char [QUOTE]" by (simp add: is_char_ascii QUOTE_def byte_of_def)
  have vp: "valid_utf8 payload" using assms(1) is_char_append(2) [OF q, of payload] p by simp
  have main: "valid_utf8 decoded \<and> source_map_ok src decoded m"
  proof (cases "is_closed src")
    case False
    then have "decode_payload payload (length (QUOTE # payload @ [])) = Some (decoded, m)"
      using assms(2) p by (simp add: decode_quoted_script_def strip_prefix_def)
    from decode_payload_ok [OF vp _ this] show ?thesis using p by simp
  next
    case True
    then obtain b where b: "strip_suffix QUOTE payload = Some b"
      and d: "decode_payload b (length src) = Some (decoded, m)"
      using assms(2) p by (auto simp: decode_quoted_script_def strip_prefix_def split: option.splits)
    note src = closed_payload [OF p b]
    have pb: "payload = b @ [QUOTE]" using p src by simp
    have "is_boundary payload (length b)"
      by (simp add: pb is_boundary_def is_cont_def QUOTE_def byte_of_def)
    from valid_utf8_take [OF vp this] have "valid_utf8 b" by (simp add: pb)
    from decode_payload_ok [OF this _ d [unfolded src]] show ?thesis using src by simp
  qed
  then show ?thesis using source_map_range by blast
qed

text \<open>
  C8. Whatever carrier is decoded, the source map is right: it is strictly increasing, stays
  inside the source, inverts exactly at every decoded offset, and takes character boundaries to
  character boundaries, so a valid range of the payload maps to a valid range of the carrier.
\<close>

theorem decode_quoted_script_maps:
  assumes "valid_utf8 src" and "decode_quoted_script src = Some (decoded, m)"
  shows "valid_utf8 decoded \<and> source_map_ok src decoded m
    \<and> (\<forall>r. valid_range decoded r \<longrightarrow> (\<exists>r'. decoded_range r m = Some r' \<and> valid_range src r'))"
  using assms by (rule decode_quoted_script_ok)

theorem decode_quoted_script_maps_witness:
  "\<exists>r'. decoded_range \<lparr>range_start = 1, range_end = 2\<rparr>
      \<lparr>decoded_to_source = [1, 2, 4], sm_source_len = 5\<rparr> = Some r'
    \<and> valid_range (QUOTE # ''a'' @ [BACKSLASH, QUOTE, QUOTE]) r'"
proof -
  have v: "valid_utf8 (QUOTE # ''a'' @ [BACKSLASH, QUOTE, QUOTE])" by code_simp
  have d: "decode_quoted_script (QUOTE # ''a'' @ [BACKSLASH, QUOTE, QUOTE])
      = Some (''a'' @ [QUOTE], \<lparr>decoded_to_source = [1, 2, 4], sm_source_len = 5\<rparr>)" by code_simp
  have "valid_range (''a'' @ [QUOTE]) \<lparr>range_start = 1, range_end = 2\<rparr>" by code_simp
  then show ?thesis using decode_quoted_script_maps [OF v d] by blast
qed

text \<open>
  C7. Encoding a text for a quoted carrier and decoding the closed carrier gives the text back,
  one layer at a time, up to the size a \<open>u32\<close> can count.
\<close>

theorem quoted_script_round_trip:
  assumes "valid_utf8 s" and "length (encode_quoted_script_text s) + 2 \<le> u32_max"
  shows "\<exists>m. decode_quoted_script (QUOTE # encode_quoted_script_text s @ [QUOTE]) = Some (s, m)
    \<and> is_closed (QUOTE # encode_quoted_script_text s @ [QUOTE])"
proof -
  let ?e = "encode_quoted_script_text s"
  have cs: "list_all is_char (str_chars s)" using valid_str_chars [OF assms(1)] .
  have "1 + 0 + length (concat (map encode_char (str_chars s))) \<le> u32_max"
    using assms(2) by (simp add: encode_quoted_script_text_def)
  from decode_loop_encoded [OF cs this, of 0 "[]" "[1]"] obtain ms calls where
    "decode_loop (\<lambda>_. True) 0 0 (str_chars ?e) [] [1] = (Some (s, ms), calls)"
    using encode_text_chars(1) [OF assms(1)] by auto
  moreover have "length ?e + 2 < u32_limit" using assms(2) by (simp add: u32_max_def u32_limit_def)
  ultimately have "\<exists>m. decode_payload ?e (length (QUOTE # ?e @ [QUOTE])) = Some (s, m)"
    by (simp add: decode_payload_def decode_payload_with_checkpoint_def)
  then show ?thesis using is_closed_encoded [OF assms(1)]
    by (simp add: decode_quoted_script_def strip_prefix_def strip_suffix_def)
qed

theorem quoted_script_round_trip_witness:
  "\<exists>m. decode_quoted_script (QUOTE # encode_quoted_script_text (''a = '' @ [QUOTE, BACKSLASH]) @ [QUOTE])
      = Some (''a = '' @ [QUOTE, BACKSLASH], m)
    \<and> is_closed (QUOTE # encode_quoted_script_text (''a = '' @ [QUOTE, BACKSLASH]) @ [QUOTE])"
proof (rule quoted_script_round_trip)
  show "valid_utf8 (''a = '' @ [QUOTE, BACKSLASH])" by code_simp
  have "encode_quoted_script_text (''a = '' @ [QUOTE, BACKSLASH])
      = ''a = '' @ [BACKSLASH, QUOTE, BACKSLASH, BACKSLASH]" by code_simp
  then show "length (encode_quoted_script_text (''a = '' @ [QUOTE, BACKSLASH])) + 2 \<le> u32_max"
    by (simp add: u32_max_def)
qed

subsection \<open>Parsing a carrier\<close>

lemma decode_loop_agrees:
  "fst (decode_loop ck work off cs decoded m) = fst (decode_loop (\<lambda>_. True) work off cs decoded m)
    \<or> (0 < snd (decode_loop ck work off cs decoded m)
       \<and> \<not> ck (snd (decode_loop ck work off cs decoded m) - 1))"
proof (induction ck work off cs decoded m rule: decode_loop.induct)
  case (2 ck work off c cs decoded m)
  let ?stop = "(work + 1) mod 256 = 0 \<and> \<not> ck ((work + 1) div 256 - 1)"
  let ?never = "(work + 1) mod 256 = 0 \<and> \<not> (\<lambda>_. True) ((work + 1) div 256 - 1)"
  show ?case
  proof (cases ?stop)
    case True
    then have "0 < (work + 1) div 256"
      by (metis add_gr_0 div_greater_zero_iff mod_less nat_less_le not_less zero_less_one zero_less_numeral)
    then show ?thesis using True by (simp add: Let_def)
  next
    case go: False
    have never: "\<not> ?never" by simp
    note eqs = decode_loop.simps(2) [of ck] decode_loop.simps(2) [of "\<lambda>_. True"]
      Let_def if_not_P [OF go] if_not_P [OF never]
    show ?thesis
    proof (cases "c \<noteq> [BACKSLASH]")
      case True
      show ?thesis unfolding eqs if_P [OF True]
        using "2.IH"(1) [OF refl refl go True] by (auto split: option.split)
    next
      case False
      show ?thesis
      proof (cases cs)
        case Nil
        then show ?thesis unfolding eqs if_not_P [OF False] by simp
      next
        case (Cons e ds)
        show ?thesis
        proof (cases "e = [QUOTE] \<or> e = [BACKSLASH]")
          case True
          show ?thesis unfolding eqs if_not_P [OF False] Cons list.case if_P [OF True]
            using "2.IH"(2) [OF refl refl go False Cons True] by (auto split: option.split)
        next
          case e: False
          show ?thesis unfolding eqs if_not_P [OF False] Cons list.case if_not_P [OF e]
            using "2.IH"(3) [OF refl refl go False Cons e refl] by (auto split: option.split)
        qed
      qed
    qed
  qed
qed simp

lemma decode_payload_agrees:
  assumes "decode_payload_with_checkpoint payload n ck = (r, calls)"
    and "calls = 0 \<or> ck (calls - 1)"
  shows "decode_payload payload n = r"
  using decode_loop_agrees [of ck 0 0 "str_chars payload" "[]" "[1]"] assms
  by (auto simp: decode_payload_def decode_payload_with_checkpoint_def
      split: prod.splits option.splits)

text \<open>
  C9. A bounded parse of a carrier that finishes agrees with the unbounded one, on every carrier
  but a lone quote, and its payload is within the budget.
\<close>

theorem parse_quoted_script_bounded_agrees:
  assumes "valid_utf8 src" and "length src \<le> u32_max" and "src \<noteq> [QUOTE]"
    and "parse_quoted_script_bounded src b checkpoint = Some (Inr (Inr r))"
  shows "parse_quoted_script src = Some r
    \<and> (\<forall>q. r = Some q \<longrightarrow> within_budget (pf_source (qs_parsed q)) b (qs_parsed q)
        \<and> source_map_ok src (pf_source (qs_parsed q)) (qs_source_map q))"
proof (cases "strip_prefix QUOTE src")
  case None
  then show ?thesis using assms(4)
    by (auto simp: parse_quoted_script_bounded_def parse_quoted_script_def decode_quoted_script_def
        split: option.splits if_splits)
next
  case (Some payload)
  have src: "src = QUOTE # payload"
    using Some by (auto simp: strip_prefix_def split: list.splits if_splits)
  define p where "p = (if is_closed src then
    (case strip_suffix QUOTE payload of Some p \<Rightarrow> p | None \<Rightarrow> payload) else payload)"
  have some: "(if is_closed src then strip_suffix QUOTE payload else Some payload) = Some p"
    using src assms(3) by (auto simp: p_def is_closed_def strip_suffix_def)
  obtain decoded calls where d:
    "decode_payload_with_checkpoint p (length src) (\<lambda>i. checkpoint (Suc i) = None) = (decoded, calls)"
    by fastforce
  have start: "checkpoint 0 = None" and short: "\<not> budget_bytes b < length src"
    using assms(4) by (auto simp: parse_quoted_script_bounded_def split: option.splits if_splits)
  note eq = assms(4) [unfolded parse_quoted_script_bounded_def start option.case if_not_P [OF short]
    Some Let_def p_def [symmetric] d prod.case]
  have live: "(if calls = 0 then None else checkpoint calls) = None"
    using eq by (cases "if calls = 0 then None else checkpoint calls") auto
  note rest = eq [unfolded live option.case]
  have "calls = 0 \<or> checkpoint (Suc (calls - 1)) = None" using live by (auto split: if_splits)
  from decode_payload_agrees [OF d this] have dec: "decode_quoted_script src = decoded"
    using some by (simp add: decode_quoted_script_def Some)
  show ?thesis
  proof (cases decoded)
    case None
    then show ?thesis using rest dec by (simp add: parse_quoted_script_def)
  next
    case (Some dm)
    then obtain t m where dm: "decoded = Some (t, m)" by (cases dm) auto
    have ok: "valid_utf8 t" "source_map_ok src t m"
      using decode_quoted_script_ok [OF assms(1)] dec dm by simp_all
    then have "length t \<le> u32_max" using assms(2) by (auto simp: source_map_ok_def)
    from parse_script_bounded_ok [OF ok(1) this, of b "\<lambda>i. checkpoint (Suc calls + i)"]
    obtain x where x: "parse_script_bounded t b (\<lambda>i. checkpoint (Suc calls + i)) = Some x"
      and xf: "\<And>f. x = Inr (Inr f) \<Longrightarrow> within_budget t b f" by fastforce
    note rest = rest [unfolded dm option.case prod.case x]
    obtain f where "x = Inr (Inr f)" using rest by (cases x; cases "projr x") auto
    with xf rest have f: "within_budget t b f"
      and r: "r = Some \<lparr>qs_parsed = f, qs_source_map = m, qs_closed = is_closed src\<rparr>" by auto
    have "pf_source f = t"
      using f by (auto simp: within_budget_def parse_file_def parse_with_revision_def from_parts_def)
    then show ?thesis using f r dec dm ok
      by (simp add: parse_quoted_script_def within_budget_def)
  qed
qed

theorem parse_quoted_script_bounded_agrees_witness:
  "parse_quoted_script (QUOTE # ''a'') =
    Some (Some (the (the (case parse_quoted_script_bounded (QUOTE # ''a'')
        \<lparr>budget_bytes = 9, budget_nodes = 9, budget_depth = 9\<rparr> (\<lambda>_. None :: nat option) of
      Some (Inr (Inr r)) \<Rightarrow> Some r | _ \<Rightarrow> None))))"
proof -
  have "case parse_quoted_script_bounded (QUOTE # ''a'')
      \<lparr>budget_bytes = 9, budget_nodes = 9, budget_depth = 9\<rparr> (\<lambda>_. None :: nat option) of
    Some (Inr (Inr (Some q))) \<Rightarrow> True | _ \<Rightarrow> False" by code_simp
  then obtain q where q: "parse_quoted_script_bounded (QUOTE # ''a'')
      \<lparr>budget_bytes = 9, budget_nodes = 9, budget_depth = 9\<rparr> (\<lambda>_. None :: nat option)
    = Some (Inr (Inr (Some q)))" by (auto split: option.splits sum.splits)
  have v: "valid_utf8 (QUOTE # ''a'')" "length (QUOTE # ''a'') \<le> u32_max" "QUOTE # ''a'' \<noteq> [QUOTE]"
    by (code_simp, simp_all add: u32_max_def)
  show ?thesis using parse_quoted_script_bounded_agrees [OF v q] q by simp
qed

text \<open>
  On a lone quote the two variants differ: the unbounded parse finds no payload, the bounded
  one answers with an empty script that it calls closed.
\<close>

lemma lone_quote_variants_differ:
  "parse_quoted_script [QUOTE] = Some None
    \<and> (case parse_quoted_script_bounded [QUOTE]
        \<lparr>budget_bytes = 9, budget_nodes = 9, budget_depth = 9\<rparr> (\<lambda>_. None :: nat option) of
        Some (Inr (Inr (Some q))) \<Rightarrow> qs_closed q \<and> pf_source (qs_parsed q) = []
      | _ \<Rightarrow> False)"
  by code_simp

end
