(* ===== verification/Format_Edits.thy ===== *)
theory Format_Edits
  imports Quoted_Script
begin

text \<open>
  The parts of the formatter of the crate \<open>parser\<close> that do not depend on layout: line widths
  (\<open>format/common.rs\<close>), keyword and asset-path spelling (\<open>format/script.rs\<close>, \<open>format/paths.rs\<close>),
  the safety gate and the minimal edits (\<open>format/equivalence.rs\<close>).

  The display width of a character comes from the crate \<open>unicode-width\<close>; it is the parameter
  \<open>width\<close> of the definitions that measure lines.
\<close>

subsection \<open>Lines\<close>

datatype format_skip_reason = UnsafeSyntax | SafetyValidationFailed

record text_edit =
  te_range :: text_range
  te_replacement :: string

record format_result =
  fr_edits :: "text_edit list"
  fr_skipped :: "format_skip_reason option"

definition skipped :: "format_skip_reason \<Rightarrow> format_result" where
  "skipped reason = \<lparr>fr_edits = [], fr_skipped = Some reason\<rparr>"

definition indent :: "nat \<Rightarrow> string" where
  "indent depth = replicate depth TAB"

definition contains_line_break :: "string \<Rightarrow> bool" where
  "contains_line_break s \<longleftrightarrow> CR \<in> set s \<or> NL \<in> set s"

definition line_width :: nat where "line_width = 120"

definition tab_width :: nat where "tab_width = 4"

definition display_width :: "(string \<Rightarrow> nat option) \<Rightarrow> string \<Rightarrow> nat" where
  "display_width width s =
    fold (\<lambda>c column. if c = [TAB] then column + (tab_width - column mod tab_width)
                    else column + (case width c of Some w \<Rightarrow> w | None \<Rightarrow> 0))
      (str_chars s) 0"

definition fits_line :: "(string \<Rightarrow> nat option) \<Rightarrow> string \<Rightarrow> bool" where
  "fits_line width s \<longleftrightarrow> \<not> contains_line_break s \<and> display_width width s \<le> line_width"

subsection \<open>Spelling\<close>

text \<open>\<open>char::is_whitespace\<close>: the Unicode property White_Space, in UTF-8, and \<open>str::trim\<close>.\<close>

definition unicode_whitespace :: "string list" where
  "unicode_whitespace =
    [[CHR 0x09], [CHR 0x0A], [CHR 0x0B], [CHR 0x0C], [CHR 0x0D], [CHR 0x20],
     [CHR 0xC2, CHR 0x85], [CHR 0xC2, CHR 0xA0], [CHR 0xE1, CHR 0x9A, CHR 0x80],
     [CHR 0xE2, CHR 0x80, CHR 0x80], [CHR 0xE2, CHR 0x80, CHR 0x81], [CHR 0xE2, CHR 0x80, CHR 0x82],
     [CHR 0xE2, CHR 0x80, CHR 0x83], [CHR 0xE2, CHR 0x80, CHR 0x84], [CHR 0xE2, CHR 0x80, CHR 0x85],
     [CHR 0xE2, CHR 0x80, CHR 0x86], [CHR 0xE2, CHR 0x80, CHR 0x87], [CHR 0xE2, CHR 0x80, CHR 0x88],
     [CHR 0xE2, CHR 0x80, CHR 0x89], [CHR 0xE2, CHR 0x80, CHR 0x8A], [CHR 0xE2, CHR 0x80, CHR 0xA8],
     [CHR 0xE2, CHR 0x80, CHR 0xA9], [CHR 0xE2, CHR 0x80, CHR 0xAF], [CHR 0xE2, CHR 0x81, CHR 0x9F],
     [CHR 0xE3, CHR 0x80, CHR 0x80]]"

definition is_whitespace :: "string \<Rightarrow> bool" where
  "is_whitespace c \<longleftrightarrow> c \<in> set unicode_whitespace"

definition trim :: "string \<Rightarrow> string" where
  "trim s = concat (rev (dropWhile is_whitespace (rev (dropWhile is_whitespace (str_chars s)))))"

definition canonical_keywords :: "(string \<times> string) list" where
  "canonical_keywords =
    (let plain = [(''and'', ''AND''), (''or'', ''OR''), (''not'', ''NOT''), (''root'', ''ROOT''),
                  (''from'', ''FROM''), (''prev'', ''PREV''), (''this'', ''THIS'')]
     in plain @ map (\<lambda>(k, v). (bom @ k, bom @ v)) plain)"

definition canonical_keyword :: "string \<Rightarrow> string" where
  "canonical_keyword s =
    (case List.find (\<lambda>(k, _). eq_ignore_ascii_case s k) canonical_keywords of
       Some (_, v) \<Rightarrow> v
     | None \<Rightarrow> s)"

definition asset_extensions :: "string list" where
  "asset_extensions =
    [''dds'', ''tga'', ''png'', ''jpg'', ''jpeg'', ''bmp'', ''mesh'', ''anim'', ''ttf'', ''wav'', ''ogg'']"

definition unquote :: "string \<Rightarrow> string" where
  "unquote s =
    (case strip_prefix QUOTE s of
       None \<Rightarrow> s
     | Some inner \<Rightarrow> (case strip_suffix QUOTE inner of None \<Rightarrow> s | Some t \<Rightarrow> t))"

text \<open>\<open>rsplit_once('.')\<close>, the part after the last dot.\<close>

definition extension :: "string \<Rightarrow> string option" where
  "extension s =
    (if CHR ''.'' \<in> set s then Some (rev (takeWhile (\<lambda>c. c \<noteq> CHR ''.'') (rev s))) else None)"

definition is_asset_path_spelling :: "string \<Rightarrow> bool" where
  "is_asset_path_spelling s =
    (let inner = unquote s in
     if inner = []
        \<or> list_ex (\<lambda>c. is_whitespace c \<or> c = [QUOTE] \<or> c = [CHR 0x27]) (str_chars inner)
     then False
     else (case extension inner of
             Some e \<Rightarrow> list_ex (\<lambda>known. eq_ignore_ascii_case known e) asset_extensions
           | None \<Rightarrow> False))"

definition is_separator :: "char \<Rightarrow> bool" where
  "is_separator c \<longleftrightarrow> c = CHR ''/'' \<or> c = BACKSLASH"

fun collapse_separators :: "bool \<Rightarrow> string \<Rightarrow> string" where
  "collapse_separators in_run [] = []"
| "collapse_separators in_run (c # cs) =
    (if is_separator c then
       (if in_run then collapse_separators True cs else CHR ''/'' # collapse_separators True cs)
     else c # collapse_separators False cs)"

definition normalize_asset_path_separators :: "string \<Rightarrow> string" where
  "normalize_asset_path_separators s =
    (if \<not> list_ex is_separator s then s else collapse_separators False s)"

definition is_asset_path_normalization :: "string \<Rightarrow> string \<Rightarrow> bool" where
  "is_asset_path_normalization before after \<longleftrightarrow>
    before \<noteq> after \<and> is_asset_path_spelling before
    \<and> normalize_asset_path_separators before = after"

definition canonical_scalar :: "string \<Rightarrow> string" where
  "canonical_scalar s =
    (let keyword = canonical_keyword s in
     if is_asset_path_spelling keyword then normalize_asset_path_separators keyword else keyword)"

subsection \<open>Quoted payloads\<close>

definition max_quoted_script_depth :: nat where
  "max_quoted_script_depth = 64"

definition has_semantic_item :: "cst \<Rightarrow> bool" where
  "has_semantic_item root \<longleftrightarrow>
    list_ex (\<lambda>n. cst_kind n \<in> {Property, HeaderBlock, ParameterBlock}) (cst_children root)"

definition quoted_payload :: "string \<Rightarrow> nat \<Rightarrow> parsed_file option" where
  "quoted_payload src depth =
    (if max_quoted_script_depth \<le> depth \<or> \<not> contains_line_break src then None
     else (case parse_quoted_script src of
             Some (Some q) \<Rightarrow>
               if pf_errors (qs_parsed q) \<noteq> [] \<or> \<not> has_semantic_item (pf_tree (qs_parsed q))
               then None else Some (qs_parsed q)
           | _ \<Rightarrow> None))"

subsection \<open>The safety gate\<close>

function same_tree_shape :: "cst \<Rightarrow> cst \<Rightarrow> bool" where
  "same_tree_shape (Node k r cs) (Node k' r' cs') \<longleftrightarrow>
    k = k' \<and> length cs = length cs' \<and> list_all (\<lambda>(a, b). same_tree_shape a b) (zip cs cs')"
  by pat_completeness auto
termination
  by (relation "measure (size \<circ> fst)")
    (auto dest!: set_zip_leftD simp: less_Suc_eq_le intro: size_list_estimation')

function equivalent :: "parsed_file \<Rightarrow> parsed_file \<Rightarrow> nat \<Rightarrow> bool" where
  "equivalent original formatted depth =
    (if pf_format original \<noteq> pf_format formatted \<or> pf_errors formatted \<noteq> []
        \<or> \<not> same_tree_shape (pf_tree original) (pf_tree formatted)
        \<or> length (pf_tokens original) \<noteq> length (pf_tokens formatted)
     then False
     else list_all (\<lambda>(before, after).
       if token_kind before \<noteq> token_kind after then False
       else
         (case (pf_text (token_range before) original, pf_text (token_range after) formatted) of
            (Some before_text, Some after_text) \<Rightarrow>
              (case (if token_kind before = QuotedToken then quoted_payload before_text depth else None) of
                 Some before_script \<Rightarrow>
                   (case parse_quoted_script after_text of
                      Some (Some after_script) \<Rightarrow>
                        equivalent before_script (qs_parsed after_script) (depth + 1)
                    | _ \<Rightarrow> False)
               | None \<Rightarrow>
                   canonical_keyword before_text = after_text
                   \<or> is_asset_path_normalization before_text after_text)
          | _ \<Rightarrow> False))
       (zip (pf_tokens original) (pf_tokens formatted)))"
  by pat_completeness auto
termination
  by (relation "measure (\<lambda>(_, _, depth). max_quoted_script_depth - depth)")
    (auto simp: quoted_payload_def split: if_splits)

declare equivalent.simps [simp del]

subsection \<open>Minimal edits\<close>

definition edit_range_of :: "nat \<Rightarrow> nat \<Rightarrow> text_range option" where
  "edit_range_of s e =
    (case (try_u32 s, try_u32 e) of (Some s, Some e) \<Rightarrow> text_range_new s e | _ \<Rightarrow> None)"

definition push_changed_range ::
  "text_edit list \<Rightarrow> string \<Rightarrow> nat \<Rightarrow> nat \<Rightarrow> string \<Rightarrow> text_edit list option" where
  "push_changed_range edits src s e replacement =
    (case str_get src s e of
       None \<Rightarrow> None
     | Some t \<Rightarrow>
        if t = replacement then Some edits
        else map_option (\<lambda>r. edits @ [\<lparr>te_range = r, te_replacement = replacement\<rparr>])
               (edit_range_of s e))"

text \<open>\<open>while n > 0 && (... not a boundary of both ...) { n -= 1 }\<close>.\<close>

fun back_to :: "(nat \<Rightarrow> bool) \<Rightarrow> nat \<Rightarrow> nat" where
  "back_to ok 0 = 0"
| "back_to ok (Suc n) = (if ok (Suc n) then Suc n else back_to ok n)"

definition common_prefix :: "string \<Rightarrow> string \<Rightarrow> nat" where
  "common_prefix before after =
    back_to (\<lambda>n. is_boundary before n \<and> is_boundary after n)
      (length (takeWhile (\<lambda>(a, b). a = b) (zip before after)))"

definition common_suffix :: "string \<Rightarrow> string \<Rightarrow> nat \<Rightarrow> nat" where
  "common_suffix before after prefix =
    (let max_suffix = min (length before) (length after) - prefix in
     back_to (\<lambda>n. is_boundary before (length before - n) \<and> is_boundary after (length after - n))
       (length (takeWhile (\<lambda>(a, b). a = b) (take max_suffix (zip (rev before) (rev after))))))"

definition push_minimal_token_edit ::
  "text_edit list \<Rightarrow> string \<Rightarrow> string \<Rightarrow> nat \<Rightarrow> text_edit list option" where
  "push_minimal_token_edit edits before after absolute_start =
    (let prefix = common_prefix before after;
         suffix = common_suffix before after prefix in
     case (edit_range_of (absolute_start + prefix) (absolute_start + (length before - suffix)),
           str_get after prefix (length after - suffix)) of
       (Some r, Some t) \<Rightarrow> Some (edits @ [\<lparr>te_range = r, te_replacement = t\<rparr>])
     | _ \<Rightarrow> None)"

text \<open>The token rewrites the loop accepts outside quoted script payloads.\<close>

definition rewrite_allowed :: "token_kind \<Rightarrow> string \<Rightarrow> string \<Rightarrow> bool" where
  "rewrite_allowed k before after \<longleftrightarrow>
    (if k \<noteq> QuotedToken \<or> quoted_payload before 0 = None then
       (if k = QuotedToken then is_asset_path_normalization before after
        else canonical_keyword before = after \<or> is_asset_path_normalization before after)
     else True)"

fun edit_loop ::
  "parsed_file \<Rightarrow> parsed_file \<Rightarrow> (syntax_token \<times> syntax_token) list \<Rightarrow> nat \<Rightarrow> nat \<Rightarrow> text_edit list \<Rightarrow>
    text_edit list option"
where
  "edit_loop original formatted [] before_end after_end edits =
    (case str_get (pf_source formatted) after_end (length (pf_source formatted)) of
       None \<Rightarrow> None
     | Some rest \<Rightarrow>
        push_changed_range edits (pf_source original) before_end (length (pf_source original)) rest)"
| "edit_loop original formatted ((before, after) # tokens) before_end after_end edits =
    (if token_kind before \<noteq> token_kind after then None
     else
       (let before_start = range_start (token_range before);
            after_start = range_start (token_range after) in
        case str_get (pf_source formatted) after_end after_start of
          None \<Rightarrow> None
        | Some gap \<Rightarrow>
           (case push_changed_range edits (pf_source original) before_end before_start gap of
              None \<Rightarrow> None
            | Some edits \<Rightarrow>
               (case (pf_text (token_range before) original, pf_text (token_range after) formatted) of
                  (Some before_text, Some after_text) \<Rightarrow>
                    (case (if before_text = after_text then Some edits
                           else if \<not> rewrite_allowed (token_kind before) before_text after_text then None
                           else push_minimal_token_edit edits before_text after_text before_start) of
                       None \<Rightarrow> None
                     | Some edits \<Rightarrow>
                        edit_loop original formatted tokens (range_end (token_range before))
                          (range_end (token_range after)) edits)
                | _ \<Rightarrow> None))))"

definition minimal_edits :: "parsed_file \<Rightarrow> parsed_file \<Rightarrow> text_edit list option" where
  "minimal_edits original formatted =
    (if length (pf_tokens original) \<noteq> length (pf_tokens formatted) then None
     else edit_loop original formatted (zip (pf_tokens original) (pf_tokens formatted)) 0 0 [])"

subsection \<open>Applying edits\<close>

text \<open>
  The meaning of a list of edits in source order: the text between them is copied. \<open>splice\<close>
  works from \<open>pos\<close> up to \<open>b\<close>; \<open>edits_ok\<close> says that the edits are ordered, disjoint and between.
\<close>

definition span_of :: "nat \<Rightarrow> nat \<Rightarrow> string \<Rightarrow> string" where
  "span_of a b src = take (b - a) (drop a src)"

fun splice :: "nat \<Rightarrow> text_edit list \<Rightarrow> nat \<Rightarrow> string \<Rightarrow> string" where
  "splice pos [] b src = span_of pos b src"
| "splice pos (e # es) b src =
    span_of pos (range_start (te_range e)) src @ te_replacement e
      @ splice (range_end (te_range e)) es b src"

fun edits_ok :: "nat \<Rightarrow> text_edit list \<Rightarrow> nat \<Rightarrow> bool" where
  "edits_ok pos [] b \<longleftrightarrow> pos \<le> b"
| "edits_ok pos (e # es) b \<longleftrightarrow>
    pos \<le> range_start (te_range e) \<and> range_start (te_range e) \<le> range_end (te_range e)
    \<and> edits_ok (range_end (te_range e)) es b"

definition apply_edits :: "text_edit list \<Rightarrow> string \<Rightarrow> string" where
  "apply_edits es src = splice 0 es (length src) src"

lemma span_of_append: "a \<le> b \<Longrightarrow> b \<le> c \<Longrightarrow> span_of a b s @ span_of b c s = span_of a c s"
proof -
  assume "a \<le> b" "b \<le> c"
  then have "drop b s = drop (b - a) (drop a s)" "c - a = (b - a) + (c - b)" by simp_all
  then show ?thesis unfolding span_of_def by (simp only: take_add)
qed

lemma span_of_append_assoc:
  "a \<le> b \<Longrightarrow> b \<le> c \<Longrightarrow> span_of a b s @ span_of b c s @ r = span_of a c s @ r"
  using span_of_append [of a b c s] by (metis append.assoc)

lemma span_of_same [simp]: "span_of a a s = []"
  by (simp add: span_of_def)

lemma edits_ok_le: "edits_ok pos es b \<Longrightarrow> pos \<le> b"
  by (induction pos es b rule: edits_ok.induct) auto

lemma edits_ok_mono: "edits_ok pos es b \<Longrightarrow> b \<le> b' \<Longrightarrow> edits_ok pos es b'"
  by (induction pos es b rule: edits_ok.induct) auto

lemma splice_extend:
  "edits_ok pos es b \<Longrightarrow> b \<le> b' \<Longrightarrow> splice pos es b' src = splice pos es b src @ span_of b b' src"
  by (induction pos es b rule: edits_ok.induct) (simp_all add: span_of_append)

lemma splice_snoc:
  assumes "edits_ok pos es b" and "b \<le> s" and "s \<le> e"
  shows "edits_ok pos (es @ [\<lparr>te_range = \<lparr>range_start = s, range_end = e\<rparr>, te_replacement = r\<rparr>]) e"
    and "splice pos (es @ [\<lparr>te_range = \<lparr>range_start = s, range_end = e\<rparr>, te_replacement = r\<rparr>]) e src
      = splice pos es b src @ span_of b s src @ r"
  using assms
  by (induction pos es b rule: edits_ok.induct)
    (simp_all add: span_of_append_assoc)

text \<open>\<open>turns src es b out\<close>: the edits turn the source up to \<open>b\<close> into \<open>out\<close>.\<close>

definition turns :: "string \<Rightarrow> text_edit list \<Rightarrow> nat \<Rightarrow> string \<Rightarrow> bool" where
  "turns src es b out \<longleftrightarrow>
    edits_ok 0 es b \<and> b \<le> length src \<and> splice 0 es b src = out
    \<and> list_all (\<lambda>e. valid_range src (te_range e)) es"

lemma turns_edit:
  assumes "turns src es b out" and "b \<le> s" and "s \<le> e"
    and "is_boundary src s" and "is_boundary src e"
  shows "turns src (es @ [\<lparr>te_range = \<lparr>range_start = s, range_end = e\<rparr>, te_replacement = r\<rparr>]) e
    (out @ span_of b s src @ r)"
  using assms splice_snoc [of 0 es b s e] is_boundary_le [OF assms(5)]
  by (simp add: turns_def valid_range_iff)

lemma turns_copy:
  assumes "turns src es b out" and "b \<le> b'" and "b' \<le> length src"
  shows "turns src es b' (out @ span_of b b' src)"
  using assms splice_extend [of 0 es b b'] edits_ok_mono by (auto simp: turns_def)

lemma edit_range_of_Some:
  "edit_range_of s e = Some r \<Longrightarrow> r = \<lparr>range_start = s, range_end = e\<rparr> \<and> s \<le> e"
  by (auto simp: edit_range_of_def text_range_new_def split: option.splits if_splits)

lemma push_changed_range_turns:
  assumes r: "turns src es b out" and p: "push_changed_range es src b e replacement = Some es'"
  shows "turns src es' e (out @ replacement) \<and> b \<le> e"
proof -
  have g: "str_get src b e = Some (span_of b e src)" and b: "b \<le> e" "is_boundary src b" "is_boundary src e"
    using p by (auto simp: push_changed_range_def str_get_Some span_of_def split: option.splits)
  show ?thesis
  proof (cases "span_of b e src = replacement")
    case True
    then have "es' = es" using p g by (simp add: push_changed_range_def)
    then show ?thesis using turns_copy [OF r b(1)] is_boundary_le [OF b(3)] True b(1) by auto
  next
    case False
    then have "es' = es @ [\<lparr>te_range = \<lparr>range_start = b, range_end = e\<rparr>, te_replacement = replacement\<rparr>]"
      using p g by (auto simp: push_changed_range_def dest!: edit_range_of_Some)
    then show ?thesis using turns_edit [OF r order_refl b(1,2,3)] b(1) by (simp add: span_of_def)
  qed
qed

subsection \<open>The edit of one token\<close>

lemma back_to_le: "back_to ok n \<le> n \<and> (back_to ok n = 0 \<or> ok (back_to ok n))"
  by (induction n) auto

lemma equal_prefix:
  "n \<le> length (takeWhile (\<lambda>(a, b). a = b) (zip xs ys)) \<Longrightarrow>
    take n xs = take n ys \<and> n \<le> length xs \<and> n \<le> length ys"
proof (induction xs arbitrary: ys n)
  case (Cons x xs)
  show ?case
  proof (cases ys)
    case (Cons y zs)
    then show ?thesis using Cons.IH [of "n - 1" zs] Cons.prems
      by (cases n) (auto split: if_splits)
  qed (use Cons.prems in simp)
qed simp

lemma common_prefix_ok:
  fixes before after :: string
  defines "p \<equiv> common_prefix before after"
  shows "take p before = take p after" and "p \<le> length before" and "p \<le> length after"
    and "is_boundary before p" and "is_boundary after p"
proof -
  let ?n = "length (takeWhile (\<lambda>(a, b). a = b) (zip before after))"
  have "p \<le> ?n" unfolding p_def common_prefix_def using back_to_le by blast
  from equal_prefix [OF this] show "take p before = take p after" "p \<le> length before" "p \<le> length after"
    by blast+
  show "is_boundary before p" "is_boundary after p"
    using back_to_le [of "\<lambda>n. is_boundary before n \<and> is_boundary after n" ?n]
    by (auto simp: p_def common_prefix_def)
qed

lemma common_suffix_ok:
  fixes before after :: string and p :: nat
  defines "q \<equiv> common_suffix before after p"
  assumes p: "p \<le> length before" "p \<le> length after"
  shows "drop (length before - q) before = drop (length after - q) after"
    and "p + q \<le> length before" and "p + q \<le> length after"
    and "is_boundary before (length before - q)" and "is_boundary after (length after - q)"
proof -
  let ?z = "zip (rev before) (rev after)" and ?m = "min (length before) (length after) - p"
  let ?n = "length (takeWhile (\<lambda>(a, b). a = b) (take ?m ?z))"
  let ?ok = "\<lambda>n. is_boundary before (length before - n) \<and> is_boundary after (length after - n)"
  have q: "q \<le> ?n" unfolding q_def common_suffix_def Let_def using back_to_le by blast
  have nm: "?n \<le> ?m" using length_takeWhile_le [of _ "take ?m ?z"] by simp
  then show pq: "p + q \<le> length before" "p + q \<le> length after" using q p by auto
  have "take ?m ?z = zip (take ?m (rev before)) (take ?m (rev after))" by (rule take_zip)
  with q have "q \<le> length (takeWhile (\<lambda>(a, b). a = b)
      (zip (take ?m (rev before)) (take ?m (rev after))))" by metis
  from conjunct1 [OF equal_prefix [OF this]]
  have "take q (take ?m (rev before)) = take q (take ?m (rev after))" .
  moreover have "q \<le> ?m" using q nm by (rule le_trans)
  ultimately have "take q (rev before) = take q (rev after)" by (metis min.absorb1 take_take)
  then show "drop (length before - q) before = drop (length after - q) after"
    by (simp add: take_rev)
  have "q = 0 \<or> ?ok q" using back_to_le [of ?ok ?n] by (simp add: q_def common_suffix_def Let_def)
  then show "is_boundary before (length before - q)" "is_boundary after (length after - q)" by auto
qed

lemma span_of_text: "span_of (s + a) (s + b) src = span_of a b (drop s src)"
  by (simp add: span_of_def add.commute)

lemma push_minimal_token_edit_turns:
  assumes r: "turns src es s out" and t: "str_get src s e = Some before"
    and p: "push_minimal_token_edit es before after s = Some es'"
  shows "turns src es' e (out @ after)"
proof -
  let ?p = "common_prefix before after"
  let ?q = "common_suffix before after ?p"
  let ?l = "length before" and ?k = "length after"
  note pre = common_prefix_ok [of before after]
  note suf = common_suffix_ok [OF pre(2,3)]
  have se: "s \<le> e" "is_boundary src s" "is_boundary src e" and bt: "before = take (e - s) (drop s src)"
    using t by (simp_all add: str_get_Some)
  have el: "e \<le> length src" using is_boundary_le [OF se(3)] .
  have l: "s + ?l = e" using bt se(1) el by simp
  obtain mid where mid: "str_get after ?p (?k - ?q) = Some mid"
    and es': "es' = es @ [\<lparr>te_range = \<lparr>range_start = s + ?p, range_end = s + (?l - ?q)\<rparr>,
      te_replacement = mid\<rparr>]"
    using p unfolding push_minimal_token_edit_def Let_def
    by (auto split: option.splits dest!: edit_range_of_Some)
  have m: "mid = span_of ?p (?k - ?q) after" using mid by (simp add: str_get_Some span_of_def)
  have b: "is_boundary src (s + i)" if "is_boundary before i" for i
    using boundary_slice [OF se(2,3,1), of i] that is_boundary_le [OF that] l bt by simp
  have "turns src es' (s + (?l - ?q)) (out @ span_of s (s + ?p) src @ mid)"
    unfolding es' using turns_edit [OF r] b [OF pre(4)] b [OF suf(4)] suf(2) by simp
  from turns_copy [OF this, of e]
  have "turns src es' e ((out @ span_of s (s + ?p) src @ mid) @ span_of (s + (?l - ?q)) e src)"
    using l el by simp
  moreover have "span_of s (s + ?p) src = take ?p after"
    using span_of_text [of s 0 ?p src] bt pre(1,2) l by (simp add: span_of_def min_def split: if_splits)
  moreover have "span_of (s + (?l - ?q)) e src = drop (?k - ?q) after"
  proof -
    have "span_of (s + (?l - ?q)) (s + ?l) src = drop (?l - ?q) before"
      using span_of_text [of s "?l - ?q" ?l src] bt l suf(2)
      by (simp add: span_of_def drop_take)
    then show ?thesis using l suf(1) by simp
  qed
  moreover have "take ?p after @ mid @ drop (?k - ?q) after = after"
  proof -
    have "take ?p after @ mid @ drop (?k - ?q) after
        = span_of 0 ?p after @ span_of ?p (?k - ?q) after @ span_of (?k - ?q) ?k after"
      by (simp add: m) (simp add: span_of_def)
    also have "\<dots> = span_of 0 ?k after" using suf(3) by (simp add: span_of_append span_of_append_assoc)
    finally show ?thesis by (simp add: span_of_def)
  qed
  ultimately show ?thesis by simp
qed

subsection \<open>All edits\<close>

lemma edit_loop_turns:
  assumes "edit_loop f g tokens b a es = Some es'"
    and "turns (pf_source f) es b (take a (pf_source g))" and "a \<le> length (pf_source g)"
  shows "turns (pf_source f) es' (length (pf_source f)) (pf_source g)"
  using assms
proof (induction f g tokens b a es rule: edit_loop.induct)
  case (1 f g b a es)
  from "1.prems"(1) obtain rest where "str_get (pf_source g) a (length (pf_source g)) = Some rest"
    and p: "push_changed_range es (pf_source f) b (length (pf_source f)) rest = Some es'"
    by (auto split: option.splits)
  then have "rest = drop a (pf_source g)" by (simp add: str_get_Some)
  then show ?case using push_changed_range_turns [OF "1.prems"(2) p] by simp
next
  case (2 f g before after tokens b a es)
  let ?s = "range_start (token_range before)" and ?e = "range_end (token_range before)"
  let ?s' = "range_start (token_range after)" and ?e' = "range_end (token_range after)"
  from "2.prems"(1) obtain gap es1 bt at es2 where
    k: "\<not> token_kind before \<noteq> token_kind after"
    and gap: "str_get (pf_source g) a ?s' = Some gap"
    and p1: "push_changed_range es (pf_source f) b ?s gap = Some es1"
    and bt: "pf_text (token_range before) f = Some bt" and at: "pf_text (token_range after) g = Some at"
    and p2: "(if bt = at then Some es1
       else if \<not> rewrite_allowed (token_kind before) bt at then None
       else push_minimal_token_edit es1 bt at ?s) = Some es2"
    and rest: "edit_loop f g tokens ?e ?e' es2 = Some es'"
    by (auto simp: Let_def split: if_splits option.splits)
  have gap': "gap = span_of a ?s' (pf_source g)" "a \<le> ?s'"
    using gap by (simp_all add: str_get_Some span_of_def)
  have at': "at = span_of ?s' ?e' (pf_source g)" "?s' \<le> ?e'" "?e' \<le> length (pf_source g)"
    using at is_boundary_le by (auto simp: pf_text_def str_get_Some span_of_def)
  have bt': "str_get (pf_source f) ?s ?e = Some bt" using bt by (simp add: pf_text_def)
  have bs: "bt = span_of ?s ?e (pf_source f)" "?s \<le> ?e" "?e \<le> length (pf_source f)"
    using bt' is_boundary_le by (auto simp: str_get_Some span_of_def)
  have tk: "take n xs = span_of 0 n xs" for n and xs :: string by (simp add: span_of_def)
  have r1: "turns (pf_source f) es1 ?s (take ?s' (pf_source g))"
    using push_changed_range_turns [OF "2.prems"(2) p1] gap'
    by (simp add: tk span_of_append)
  have out: "take ?s' (pf_source g) @ at = take ?e' (pf_source g)"
    using at'(1,2) by (simp add: tk span_of_append)
  have "turns (pf_source f) es2 ?e (take ?e' (pf_source g))"
  proof (cases "bt = at")
    case True
    then have "es2 = es1" using p2 by simp
    then show ?thesis using turns_copy [OF r1 bs(2,3)] out True bs(1) by simp
  next
    case False
    then have "push_minimal_token_edit es1 bt at ?s = Some es2" using p2 by (auto split: if_splits)
    from push_minimal_token_edit_turns [OF r1 bt' this] show ?thesis using out by simp
  qed
  then show ?case using "2.IH" k gap p1 bt at p2 rest at'(3) by blast
qed

lemma minimal_edits_rewrite:
  assumes "minimal_edits f g = Some es"
  shows "edits_ok 0 es (length (pf_source f)) \<and> apply_edits es (pf_source f) = pf_source g
    \<and> list_all (\<lambda>e. valid_range (pf_source f) (te_range e)) es"
proof -
  have "edit_loop f g (zip (pf_tokens f) (pf_tokens g)) 0 0 [] = Some es"
    using assms by (simp add: minimal_edits_def split: if_splits)
  moreover have "turns (pf_source f) [] 0 (take 0 (pf_source g))"
    by (simp add: turns_def span_of_def)
  ultimately have "turns (pf_source f) es (length (pf_source f)) (pf_source g)"
    using edit_loop_turns by blast
  then show ?thesis by (simp add: turns_def apply_edits_def)
qed

text \<open>
  C11. The minimal edits are right whenever there are any: they are ordered, disjoint, inside the
  source and on character boundaries, and applying them to the source gives exactly the formatted
  text, whatever the two files are.
\<close>

theorem minimal_edits_correct:
  assumes "minimal_edits f g = Some es"
  shows "edits_ok 0 es (length (pf_source f)) \<and> apply_edits es (pf_source f) = pf_source g
    \<and> list_all (\<lambda>e. valid_range (pf_source f) (te_range e)) es"
  using assms by (rule minimal_edits_rewrite)

definition sample_file :: "string \<Rightarrow> (token_kind \<times> nat \<times> nat) list \<Rightarrow> parsed_file" where
  "sample_file src tokens =
    from_parts ScriptFormat src
      \<lparr>parts_tree = Node Document (make_range 0 (length src)) [],
       parts_tokens = map (\<lambda>(k, a, b). \<lparr>token_kind = k, token_range = make_range a b\<rparr>) tokens,
       parts_errors = []\<rparr> 0"

theorem minimal_edits_correct_witness:
  "apply_edits [\<lparr>te_range = \<lparr>range_start = 1, range_end = 1\<rparr>, te_replacement = '' ''\<rparr>,
      \<lparr>te_range = \<lparr>range_start = 2, range_end = 2\<rparr>, te_replacement = '' ''\<rparr>,
      \<lparr>te_range = \<lparr>range_start = 2, range_end = 4\<rparr>, te_replacement = ''OR''\<rparr>] ''a=or'' = ''a = OR''"
proof -
  let ?f = "sample_file ''a=or'' [(BareToken, 0, 1), (OperatorToken, 1, 2), (BareToken, 2, 4)]"
  let ?g = "sample_file ''a = OR'' [(BareToken, 0, 1), (OperatorToken, 2, 3), (BareToken, 4, 6)]"
  have "minimal_edits ?f ?g = Some
     [\<lparr>te_range = \<lparr>range_start = 1, range_end = 1\<rparr>, te_replacement = '' ''\<rparr>,
      \<lparr>te_range = \<lparr>range_start = 2, range_end = 2\<rparr>, te_replacement = '' ''\<rparr>,
      \<lparr>te_range = \<lparr>range_start = 2, range_end = 4\<rparr>, te_replacement = ''OR''\<rparr>]" by code_simp
  from minimal_edits_correct [OF this] show ?thesis by (simp add: sample_file_def from_parts_def)
qed

end
