(* ===== verification/Format_Script.thy ===== *)
theory Format_Script
  imports Format_Edits
begin

text \<open>
  The canonical script layout of the crate \<open>parser\<close> (\<open>format/script.rs\<close>), one definition per
  method of \<open>PdcFormatter\<close>. The methods call each other over the tree; the recursion is
  well-founded on the number of nodes. \<open>fmt_inner\<close> formats the lines of a quoted payload one
  level down; \<open>document_lines\<close> ties that knot over the quoting depth, which stops at 64.
\<close>

datatype value_layout =
  Inline string bool
| Expanded string "string list" string

record formatter =
  fmt_width :: "string \<Rightarrow> nat option"
  fmt_file :: parsed_file
  fmt_depth :: nat
  fmt_inner :: "parsed_file \<Rightarrow> string list"

definition node_text :: "formatter \<Rightarrow> cst \<Rightarrow> string" where
  "node_text fmt n = (case pf_text (cst_range n) (fmt_file fmt) of Some t \<Rightarrow> t | None \<Rightarrow> [])"

definition same_source_line :: "formatter \<Rightarrow> cst \<Rightarrow> cst \<Rightarrow> bool" where
  "same_source_line fmt left right =
    (case pf_text (case text_range_new (cst_end left) (cst_start right) of
                     Some r \<Rightarrow> r | None \<Rightarrow> text_range_empty (cst_end left)) (fmt_file fmt) of
       None \<Rightarrow> False
     | Some gap \<Rightarrow> \<not> contains_line_break gap)"

definition find_child :: "cst_kind \<Rightarrow> cst \<Rightarrow> cst option" where
  "find_child k n = List.find (\<lambda>c. cst_kind c = k) (cst_children n)"

definition property_parts :: "cst \<Rightarrow> (cst \<times> cst \<times> cst) option" where
  "property_parts n =
    (case (find_child Key n, find_child Operator n, find_child Value n) of
       (Some k, Some operator, Some v) \<Rightarrow> Some (k, operator, v)
     | _ \<Rightarrow> None)"

definition header_parts :: "cst \<Rightarrow> (cst \<times> cst) option" where
  "header_parts n =
    (case (cst_children n, find_child Block n) of
       (h # _, Some b) \<Rightarrow> Some (h, b)
     | _ \<Rightarrow> None)"

definition is_scalar_node :: "cst \<Rightarrow> bool" where
  "is_scalar_node n \<longleftrightarrow> cst_kind n \<in> {BareValue, QuotedString}"

fun node_has_comment :: "cst \<Rightarrow> bool" where
  "node_has_comment (Node k r cs) \<longleftrightarrow> k = Comment \<or> list_ex node_has_comment cs"

definition compose :: "string \<Rightarrow> value_layout \<Rightarrow> string list" where
  "compose prefix layout =
    (case layout of
       Inline t _ \<Rightarrow> [prefix @ t]
     | Expanded opener body closer \<Rightarrow> (prefix @ opener) # body @ [closer])"

fun append_last :: "string \<Rightarrow> string list \<Rightarrow> string list" where
  "append_last s [] = []"
| "append_last s [l] = [l @ s]"
| "append_last s (l # m # ls) = l # append_last s (m # ls)"

definition quoted :: "formatter \<Rightarrow> cst \<Rightarrow> nat \<Rightarrow> bool \<Rightarrow> bool \<Rightarrow> value_layout" where
  "quoted fmt n depth compact force_expand =
    (let source = node_text fmt n in
     case quoted_payload source (fmt_depth fmt) of
       None \<Rightarrow>
         if is_asset_path_spelling source then Inline (normalize_asset_path_separators source) False
         else Inline source False
     | Some script \<Rightarrow>
        (let lines = fmt_inner fmt script in
         if lines = [] then Inline source False
         else if compact \<or> (\<not> force_expand \<and> length lines = 1 \<and> \<not> contains_line_break (hd lines)) then
           Inline ([QUOTE] @ encode_quoted_script_text (hd lines) @ [QUOTE]) True
         else
           Expanded [QUOTE]
             (map (\<lambda>line. indent (depth + 1) @ encode_quoted_script_text line) lines)
             (indent depth @ [QUOTE])))"

fun inline_text :: "value_layout \<Rightarrow> string option" where
  "inline_text (Inline t _) = (if contains_line_break t then None else Some t)"
| "inline_text _ = None"

fun any_inline :: "value_layout \<Rightarrow> string option" where
  "any_inline (Inline t _) = Some t"
| "any_inline _ = None"

text \<open>The tests of \<open>block\<close> on its children.\<close>

definition braced :: "string list \<Rightarrow> string" where
  "braced items = (if items = [] then ''{ }'' else ''{ '' @ join_with '' '' items @ '' }'')"

definition plain_block :: "bool \<Rightarrow> cst \<Rightarrow> bool" where
  "plain_block force_expand n \<longleftrightarrow>
    \<not> force_expand \<and> \<not> list_ex (\<lambda>c. cst_kind c = Comment) (cst_children n)"

definition single_property :: "cst \<Rightarrow> bool" where
  "single_property n \<longleftrightarrow>
    length (cst_children n) = 1 \<and> cst_kind (hd (cst_children n)) = Property"

definition leading_comment :: "cst \<Rightarrow> bool" where
  "leading_comment n \<longleftrightarrow>
    (case cst_children n of c # _ \<Rightarrow> cst_kind c = Comment | [] \<Rightarrow> False)"

text \<open>\<open>Iterator::collect::<Option<Vec<_>>>\<close> is \<open>those\<close> of \<open>map\<close>.\<close>

lemma cst_nodes_child [simp]: "c \<in> set (cst_children n) \<Longrightarrow> cst_nodes c < cst_nodes n"
  by (cases n) (simp add: member_le_sum_list less_Suc_eq_le)

lemma cst_nodes_pos [simp]: "0 < cst_nodes n"
  by (cases n) simp

lemma cst_nodes_children [simp]: "sum_list (map cst_nodes (cst_children n)) < cst_nodes n"
  by (cases n) simp

lemma find_in_set: "List.find p xs = Some x \<Longrightarrow> x \<in> set xs"
  by (auto simp: find_Some_iff)

lemma property_parts_nodes:
  "property_parts n = Some (k, operator, v) \<Longrightarrow> cst_nodes v < cst_nodes n"
  by (auto simp: property_parts_def find_child_def split: option.splits dest!: find_in_set)

lemma header_parts_nodes: "header_parts n = Some (h, b) \<Longrightarrow> cst_nodes b < cst_nodes n"
  unfolding header_parts_def find_child_def
  by (auto split: option.splits list.splits simp del: find.simps dest!: find_in_set)

lemma single_property_nodes [simp]:
  "single_property n \<Longrightarrow> cst_nodes (hd (cst_children n)) < cst_nodes n"
  by (rule cst_nodes_child) (auto simp: single_property_def intro!: hd_in_set)

lemma cst_nodes_first: "cst_children n = c # cs \<Longrightarrow> cst_nodes c < cst_nodes n"
  by (rule cst_nodes_child) simp

lemma cst_nodes_first_body:
  "cst_children n = c # cs \<Longrightarrow> sum_list (map cst_nodes cs) < cst_nodes n"
  using cst_nodes_children [of n] by simp

lemma cst_nodes_tl [simp]: "sum_list (map cst_nodes (tl (cst_children n))) < cst_nodes n"
  using cst_nodes_children [of n] by (cases "cst_children n") auto

function (sequential)
  sequence :: "formatter \<Rightarrow> cst list \<Rightarrow> nat \<Rightarrow> string list" and
  item :: "formatter \<Rightarrow> cst \<Rightarrow> nat \<Rightarrow> string list" and
  property :: "formatter \<Rightarrow> cst \<Rightarrow> nat \<Rightarrow> string list" and
  header_item :: "formatter \<Rightarrow> cst \<Rightarrow> nat \<Rightarrow> string list" and
  layout_of :: "formatter \<Rightarrow> cst \<Rightarrow> nat \<Rightarrow> bool \<Rightarrow> bool \<Rightarrow> value_layout" and
  header_value :: "formatter \<Rightarrow> cst \<Rightarrow> nat \<Rightarrow> bool \<Rightarrow> bool \<Rightarrow> value_layout" and
  block :: "formatter \<Rightarrow> cst \<Rightarrow> nat \<Rightarrow> bool \<Rightarrow> bool \<Rightarrow> value_layout" and
  inline_item :: "formatter \<Rightarrow> cst \<Rightarrow> nat \<Rightarrow> string option" and
  inline_property :: "formatter \<Rightarrow> cst \<Rightarrow> nat \<Rightarrow> string option" and
  compact_item :: "formatter \<Rightarrow> cst \<Rightarrow> nat \<Rightarrow> string option" and
  parameter :: "formatter \<Rightarrow> cst \<Rightarrow> nat \<Rightarrow> bool \<Rightarrow> value_layout"
where
  "sequence fmt [] depth = []"
| "sequence fmt (n # rest) depth =
    (if cst_kind n = Bom then sequence fmt rest depth
     else if cst_kind n = Comment then (indent depth @ node_text fmt n) # sequence fmt rest depth
     else
       (case rest of
          comment # rest' \<Rightarrow>
            if cst_kind comment = Comment \<and> same_source_line fmt n comment then
              append_last ('' '' @ node_text fmt comment) (item fmt n depth) @ sequence fmt rest' depth
            else item fmt n depth @ sequence fmt rest depth
        | [] \<Rightarrow> item fmt n depth))"
| "item fmt n depth =
    (if cst_kind n = Property then property fmt n depth
     else if cst_kind n = HeaderBlock then header_item fmt n depth
     else if cst_kind n = ParameterBlock then compose (indent depth) (parameter fmt n depth False)
     else if cst_kind n = BareValue \<or> cst_kind n = QuotedString then
       compose (indent depth) (layout_of fmt n depth False False)
     else if cst_kind n = Comment then [indent depth @ node_text fmt n]
     else if cst_kind n = Value then
       (case cst_children n of c # _ \<Rightarrow> item fmt c depth | [] \<Rightarrow> [])
     else [indent depth @ trim (node_text fmt n)])"
| "property fmt n depth =
    (case property_parts n of
       None \<Rightarrow> [indent depth @ trim (node_text fmt n)]
     | Some (k, operator, v) \<Rightarrow>
        (let prefix = indent depth @ canonical_keyword (node_text fmt k) @ '' ''
               @ trim (node_text fmt operator) @ '' '';
             layout = layout_of fmt v depth False False
         in compose prefix
              (case layout of
                 Inline t True \<Rightarrow>
                   if \<not> fits_line (fmt_width fmt) (prefix @ t) then layout_of fmt v depth False True else layout
               | _ \<Rightarrow> layout)))"
| "header_item fmt n depth =
    (case header_parts n of
       None \<Rightarrow> [indent depth @ trim (node_text fmt n)]
     | Some (h, b) \<Rightarrow>
        (let prefix = indent depth @ canonical_keyword (node_text fmt h) @ '' '';
             layout = block fmt b depth False False
         in compose prefix
              (case layout of
                 Inline t True \<Rightarrow>
                   if \<not> fits_line (fmt_width fmt) (prefix @ t) then block fmt b depth False True else layout
               | _ \<Rightarrow> layout)))"
| "layout_of fmt outer depth compact force_expand =
    (let n = (if cst_kind outer = Value then
                (case cst_children outer of c # _ \<Rightarrow> c | [] \<Rightarrow> outer) else outer) in
     if cst_kind n = BareValue then Inline (canonical_scalar (node_text fmt n)) False
     else if cst_kind n = QuotedString then quoted fmt n depth compact force_expand
     else if cst_kind n = Block then block fmt n depth compact force_expand
     else if cst_kind n = HeaderBlock then header_value fmt n depth compact force_expand
     else if cst_kind n = ParameterBlock then parameter fmt n depth compact
     else Inline (canonical_keyword (trim (node_text fmt n))) False)"
| "header_value fmt n depth compact force_expand =
    (case header_parts n of
       None \<Rightarrow> Inline (trim (node_text fmt n)) False
     | Some (h, b) \<Rightarrow>
        (let header = canonical_keyword (node_text fmt h) in
         case block fmt b depth compact force_expand of
           Inline t width_sensitive \<Rightarrow> Inline (header @ '' '' @ t) width_sensitive
         | Expanded opener body closer \<Rightarrow> Expanded (header @ '' '' @ opener) body closer))"
| "block fmt n depth compact force_expand =
    (case (if compact
           then those (map (\<lambda>c. compact_item fmt c depth)
             (filter (\<lambda>c. cst_kind c \<noteq> Bom) (cst_children n)))
           else None) of
       Some items \<Rightarrow> Inline (braced items) False
     | None \<Rightarrow>
        if plain_block force_expand n \<and> cst_children n = [] then Inline ''{ }'' False
        else
          (case (if plain_block force_expand n \<and> list_all is_scalar_node (cst_children n)
                 then those (map (\<lambda>c. inline_item fmt c depth) (cst_children n)) else None) of
             Some items \<Rightarrow> Inline (braced items) False
           | None \<Rightarrow>
              (case (if plain_block force_expand n \<and> single_property n
                     then inline_property fmt (hd (cst_children n)) depth else None) of
                 Some p \<Rightarrow> Inline (''{ '' @ p @ '' }'') True
               | None \<Rightarrow>
                  Expanded
                    (if leading_comment n then ''{ '' @ node_text fmt (hd (cst_children n)) else ''{'')
                    (sequence fmt (if leading_comment n then tl (cst_children n) else cst_children n)
                      (depth + 1))
                    (indent depth @ ''}''))))"
| "inline_item fmt n depth =
    (if cst_kind n = BareValue then Some (canonical_scalar (node_text fmt n))
     else if cst_kind n = QuotedString then inline_text (quoted fmt n depth False False)
     else if cst_kind n = Property then inline_property fmt n depth
     else if cst_kind n = HeaderBlock then
       (case header_parts n of
          None \<Rightarrow> None
        | Some (h, b) \<Rightarrow>
            map_option (\<lambda>t. canonical_keyword (node_text fmt h) @ '' '' @ t)
              (inline_text (block fmt b depth False False)))
     else if cst_kind n = Block then inline_text (block fmt n depth False False)
     else if cst_kind n = ParameterBlock then any_inline (parameter fmt n depth False)
     else None)"
| "inline_property fmt n depth =
    (case property_parts n of
       None \<Rightarrow> None
     | Some (k, operator, v) \<Rightarrow>
        (case inline_text (layout_of fmt v depth False False) of
           None \<Rightarrow> None
         | Some t \<Rightarrow>
            (let p = canonical_keyword (node_text fmt k) @ '' '' @ trim (node_text fmt operator) @ '' '' @ t
             in if fits_line (fmt_width fmt) p then Some p else None)))"
| "compact_item fmt n depth =
    (if cst_kind n = Comment \<or> cst_kind n = Bom then None
     else if cst_kind n = BareValue then Some (canonical_scalar (node_text fmt n))
     else if cst_kind n = QuotedString then any_inline (quoted fmt n depth True False)
     else if cst_kind n = Property then
       (case property_parts n of
          None \<Rightarrow> None
        | Some (k, operator, v) \<Rightarrow>
            map_option (\<lambda>t. canonical_keyword (node_text fmt k) @ '' ''
                @ trim (node_text fmt operator) @ '' '' @ t)
              (any_inline (layout_of fmt v depth True False)))
     else if cst_kind n = HeaderBlock then
       (case header_parts n of
          None \<Rightarrow> None
        | Some (h, b) \<Rightarrow>
            map_option (\<lambda>t. canonical_keyword (node_text fmt h) @ '' '' @ t)
              (any_inline (block fmt b depth True False)))
     else if cst_kind n = Block then any_inline (block fmt n depth True False)
     else if cst_kind n = ParameterBlock then any_inline (parameter fmt n depth True)
     else None)"
| "parameter fmt n depth compact =
    (case cst_children n of
       [] \<Rightarrow> Inline (trim (node_text fmt n)) False
     | first # body \<Rightarrow>
        if cst_kind first \<noteq> ParameterCondition then Inline (trim (node_text fmt n)) False
        else
          (let condition = node_text fmt first in
           if compact \<or> \<not> node_has_comment n then
             (let items = (case those (map (\<lambda>c. compact_item fmt c depth) body) of
                             Some items \<Rightarrow> items | None \<Rightarrow> [])
              in Inline (''[['' @ condition @ '']'' @ join_with '' '' items @ '']'') False)
           else
             Expanded (''[['' @ condition @ '']'') (sequence fmt body (depth + 1)) (indent depth @ '']'')))"
  by pat_completeness auto
termination
  by (relation "inv_image (less_than <*lex*> less_than) (case_sum
      (case_sum
        (case_sum (\<lambda>(_, cs, _). (sum_list (map cst_nodes cs), 8))
          (\<lambda>(_, n, _). (cst_nodes n, 7)))
        (case_sum (\<lambda>(_, n, _). (cst_nodes n, 6))
          (case_sum (\<lambda>(_, n, _). (cst_nodes n, 6)) (\<lambda>(_, n, _, _, _). (cst_nodes n, 4)))))
      (case_sum
        (case_sum (\<lambda>(_, n, _, _, _). (cst_nodes n, 3))
          (case_sum (\<lambda>(_, n, _, _, _). (cst_nodes n, 2)) (\<lambda>(_, n, _). (cst_nodes n, 6))))
        (case_sum (\<lambda>(_, n, _). (cst_nodes n, 5))
          (case_sum (\<lambda>(_, n, _). (cst_nodes n, 6)) (\<lambda>(_, n, _, _). (cst_nodes n, 1 :: nat))))))")
    (auto dest: property_parts_nodes header_parts_nodes
      simp: cst_nodes_first cst_nodes_first_body cst_nodes_tl
      simp del: cst_nodes.simps split: if_splits list.splits)

end
