(* ===== verification/Format_File.thy ===== *)
theory Format_File
  imports Format_Script
begin

text \<open>
  The formatter of the crate \<open>parser\<close> as a whole: the lines of a script document and of the
  quoted scripts in it, localisation files (\<open>format/localisation.rs\<close>), and the entry point
  \<open>format\<close> with its safety gate (\<open>format/mod.rs\<close>). \<open>None\<close> is a panic of the parser that the gate
  calls on its own output.
\<close>

subsection \<open>Script documents\<close>

definition with_bom :: "string list \<Rightarrow> string list" where
  "with_bom lines = (case lines of l # ls \<Rightarrow> (bom @ l) # ls | [] \<Rightarrow> [bom])"

definition document_lines :: "formatter \<Rightarrow> string list" where
  "document_lines fmt =
    (case cst_children (pf_tree (fmt_file fmt)) of
       c # cs \<Rightarrow>
         if cst_kind c = Bom then with_bom (sequence fmt cs 0) else sequence fmt (c # cs) 0
     | [] \<Rightarrow> sequence fmt [] 0)"

text \<open>\<open>lines_at width level\<close> formats at the quoting depth \<open>64 - level\<close>.\<close>

primrec lines_at :: "(string \<Rightarrow> nat option) \<Rightarrow> nat \<Rightarrow> parsed_file \<Rightarrow> string list" where
  "lines_at width 0 = (\<lambda>f. document_lines
    \<lparr>fmt_width = width, fmt_file = f, fmt_depth = max_quoted_script_depth, fmt_inner = (\<lambda>_. [])\<rparr>)"
| "lines_at width (Suc level) = (\<lambda>f. document_lines
    \<lparr>fmt_width = width, fmt_file = f, fmt_depth = max_quoted_script_depth - Suc level,
     fmt_inner = lines_at width level\<rparr>)"

definition format_script :: "(string \<Rightarrow> nat option) \<Rightarrow> parsed_file \<Rightarrow> string" where
  "format_script width f =
    (let lines = lines_at width max_quoted_script_depth f in
     if lines = [] then [] else join_with [NL] lines @ [NL])"

subsection \<open>Localisation files\<close>

definition text_or_empty :: "parsed_file \<Rightarrow> cst option \<Rightarrow> string" where
  "text_or_empty f n =
    (case n of None \<Rightarrow> []
     | Some c \<Rightarrow> (case pf_text (cst_range c) f of Some t \<Rightarrow> t | None \<Rightarrow> []))"

definition format_localisation_entry :: "parsed_file \<Rightarrow> cst \<Rightarrow> string" where
  "format_localisation_entry f n =
    (let key_node = find_child LocalisationKey n;
         key = text_or_empty f key_node;
         version = text_or_empty f (find_child Version n);
         value_node = List.find (\<lambda>c. cst_kind c \<in> {LocalisationString, UnquotedValue}) (cst_children n);
         val = text_or_empty f value_node;
         has_colon = (case value_node of
             None \<Rightarrow> False
           | Some v \<Rightarrow>
              (let s = (case key_node of None \<Rightarrow> cst_start n | Some k \<Rightarrow> cst_end k);
                   r = (case text_range_new s (cst_start v) of
                          Some r \<Rightarrow> r | None \<Rightarrow> text_range_empty (cst_start v))
               in case pf_text r f of None \<Rightarrow> False | Some t \<Rightarrow> CHR '':'' \<in> set t));
         line = (if has_colon then key @ '':'' @ version @ '' '' @ val else key @ '' '' @ val)
     in case find_child Comment n of
          None \<Rightarrow> line
        | Some c \<Rightarrow> line @ '' '' @ text_or_empty f (Some c))"

definition localisation_line :: "parsed_file \<Rightarrow> cst \<Rightarrow> string list" where
  "localisation_line f n =
    (if cst_kind n = Comment then [text_or_empty f (Some n)]
     else if cst_kind n = LanguageHeader then
       (case cst_children n of
          [] \<Rightarrow> []
        | c # _ \<Rightarrow> (case pf_text (cst_range c) f of None \<Rightarrow> [] | Some key \<Rightarrow> [key @ '':'']))
     else if cst_kind n = LocalisationEntry then [format_localisation_entry f n]
     else [])"

definition format_localisation :: "parsed_file \<Rightarrow> string" where
  "format_localisation f =
    (let children = cst_children (pf_tree f);
         lines = concat (map (localisation_line f) children);
         lines = (if list_ex (\<lambda>c. cst_kind c = Bom) children then with_bom lines else lines)
     in if lines = [] then [] else join_with [NL] lines @ [NL])"

subsection \<open>The entry point\<close>

definition canonical_text :: "(string \<Rightarrow> nat option) \<Rightarrow> parsed_file \<Rightarrow> string" where
  "canonical_text width f =
    (case pf_format f of
       ScriptFormat \<Rightarrow> format_script width f
     | LocalisationFormat \<Rightarrow> format_localisation f)"

definition format_file :: "(string \<Rightarrow> nat option) \<Rightarrow> parsed_file \<Rightarrow> format_result option" where
  "format_file width f =
    (if pf_errors f \<noteq> [] then Some (skipped UnsafeSyntax)
     else
       (let formatted = canonical_text width f in
        if formatted = pf_source f then Some \<lparr>fr_edits = [], fr_skipped = None\<rparr>
        else
          (case parse_file (pf_format f) formatted of
             None \<Rightarrow> None
           | Some reparsed \<Rightarrow>
              if pf_errors reparsed \<noteq> [] \<or> \<not> equivalent f reparsed 0
                 \<or> canonical_text width reparsed \<noteq> formatted
              then Some (skipped SafetyValidationFailed)
              else
                (case minimal_edits f reparsed of
                   None \<Rightarrow> Some (skipped SafetyValidationFailed)
                 | Some es \<Rightarrow> Some \<lparr>fr_edits = es, fr_skipped = None\<rparr>))))"

lemma parse_file_source: "parse_file format src = Some f \<Longrightarrow> pf_source f = src \<and> pf_format f = format"
  by (auto simp: parse_file_def parse_with_revision_def from_parts_def)

lemma apply_no_edits: "apply_edits [] src = src"
  by (simp add: apply_edits_def span_of_def)

text \<open>
  C10. What \<open>format\<close> answers is safe: its edits are ordered, disjoint and on character boundaries,
  they turn the source into the canonical text of the file, and that text parses without errors to
  an equivalent file that is already formatted, so formatting is idempotent.
\<close>

theorem format_file_safe:
  assumes "format_file width f = Some \<lparr>fr_edits = es, fr_skipped = None\<rparr>"
  shows "apply_edits es (pf_source f) = canonical_text width f
    \<and> edits_ok 0 es (length (pf_source f))
    \<and> list_all (\<lambda>e. valid_range (pf_source f) (te_range e)) es
    \<and> (es \<noteq> [] \<longrightarrow>
        (\<exists>g. parse_file (pf_format f) (canonical_text width f) = Some g
          \<and> equivalent f g 0 \<and> format_file width g = Some \<lparr>fr_edits = [], fr_skipped = None\<rparr>))"
proof (cases "canonical_text width f = pf_source f")
  case True
  then show ?thesis using assms
    by (auto simp: format_file_def skipped_def apply_no_edits split: if_splits)
next
  case False
  from assms False obtain g where
    g: "parse_file (pf_format f) (canonical_text width f) = Some g"
    and ok: "pf_errors g = []" "equivalent f g 0" "canonical_text width g = canonical_text width f"
    and es: "minimal_edits f g = Some es"
    by (auto simp: format_file_def skipped_def Let_def split: if_splits option.splits)
  have src: "pf_source g = canonical_text width f" using parse_file_source [OF g] by simp
  then have "format_file width g = Some \<lparr>fr_edits = [], fr_skipped = None\<rparr>"
    using ok by (simp add: format_file_def)
  then show ?thesis using minimal_edits_rewrite [OF es] src g ok(2) by auto
qed

theorem format_file_safe_witness:
  "apply_edits
      [\<lparr>te_range = \<lparr>range_start = 2, range_end = 4\<rparr>, te_replacement = '' ''\<rparr>,
       \<lparr>te_range = \<lparr>range_start = 5, range_end = 5\<rparr>, te_replacement = [NL]\<rparr>] ''k:  v''
    = ''k: v'' @ [NL]"
proof -
  let ?f = "the (parse_file LocalisationFormat ''k:  v'')" and ?w = "\<lambda>_. Some (1 :: nat)"
  have f: "format_file ?w ?f = Some \<lparr>fr_edits =
      [\<lparr>te_range = \<lparr>range_start = 2, range_end = 4\<rparr>, te_replacement = '' ''\<rparr>,
       \<lparr>te_range = \<lparr>range_start = 5, range_end = 5\<rparr>, te_replacement = [NL]\<rparr>],
    fr_skipped = None\<rparr>" by code_simp
  have s: "pf_source ?f = ''k:  v''" "canonical_text ?w ?f = ''k: v'' @ [NL]" by code_simp+
  show ?thesis using format_file_safe [OF f] unfolding s by blast
qed

text \<open>
  A localisation file with an unquoted value followed by a comment is never formatted: the
  tokens of its line are out of order, so the edits cannot be computed.
\<close>

lemma unquoted_comment_not_formatted:
  "map_option (format_file (\<lambda>_. Some 1)) (parse_file LocalisationFormat ''k:  v # c'')
      = Some (Some (skipped SafetyValidationFailed))
    \<and> map_option (format_file (\<lambda>_. Some 1)) (parse_file LocalisationFormat ''k:  v'')
      = Some (Some \<lparr>fr_edits =
          [\<lparr>te_range = \<lparr>range_start = 2, range_end = 4\<rparr>, te_replacement = '' ''\<rparr>,
           \<lparr>te_range = \<lparr>range_start = 5, range_end = 5\<rparr>, te_replacement = [NL]\<rparr>],
        fr_skipped = None\<rparr>)"
  by code_simp

end
