(* ===== verification/Vec_Ops.thy ===== *)
theory Vec_Ops
  imports Prelude
begin

text \<open>
  The checked operations of \<open>Vec\<close> and of its iterators that the components after the parsers
  share: \<open>get\<close> (\<open>vec_get\<close>, \<open>None\<close> out of range; an index expression is the same read, whose
  \<open>None\<close> is a panic), \<open>iter().position(..)\<close> (\<open>position_of\<close>), and the update of the first element
  that \<open>iter_mut().find(..)\<close> returns (\<open>update_first\<close>).
\<close>

definition vec_get :: "'a list \<Rightarrow> nat \<Rightarrow> 'a option" where
  "vec_get xs i = (if i < length xs then Some (xs ! i) else None)"

lemma vec_get_simps [simp]:
  "vec_get [] i = None" "vec_get (x # xs) 0 = Some x" "vec_get (x # xs) (Suc i) = vec_get xs i"
  by (simp_all add: vec_get_def)

lemma vec_get_Some [simp]: "vec_get xs i = Some x \<longleftrightarrow> i < length xs \<and> xs ! i = x"
  by (auto simp: vec_get_def)

lemma vec_get_None [simp]: "vec_get xs i = None \<longleftrightarrow> length xs \<le> i"
  by (auto simp: vec_get_def)

lemma nth_update_if: "xs[i := x] ! j = (if i = j \<and> i < length xs then x else xs ! j)"
  by (cases "i < length xs") (simp_all add: nth_list_update list_update_beyond)

lemma set_map_filter: "v \<in> set (List.map_filter f xs) \<longleftrightarrow> (\<exists>x \<in> set xs. f x = Some v)"
  by (induction xs) (auto simp: List.map_filter_simps split: option.splits)

lemma set_enumerate: "set (enumerate 0 xs) = {(i, xs ! i) | i. i < length xs}"
  by (auto simp: in_set_enumerate_eq)

lemma those_None: "those xs = None \<longleftrightarrow> None \<in> set xs"
  by (induction xs) (auto split: option.splits)

lemma those_Some: "those xs = Some ys \<longleftrightarrow> xs = map Some ys"
  by (induction xs arbitrary: ys) (auto split: option.splits)

lemma nth_concat_predecessor:
  "j < length (concat rows) \<Longrightarrow> \<exists>r k. r < length rows \<and> k < length (rows ! r) \<and> k \<le> j
    \<and> concat rows ! j = rows ! r ! k \<and> (0 < k \<longrightarrow> concat rows ! (j - 1) = rows ! r ! (k - 1))"
proof (induction rows arbitrary: j)
  case (Cons row rows)
  show ?case
  proof (cases "j < length row")
    case True
    then show ?thesis by (intro exI [of _ 0] exI [of _ j]) (auto simp: nth_append)
  next
    case False
    then have "j - length row < length (concat rows)" using Cons.prems by simp
    then obtain r k where "r < length rows" "k < length (rows ! r)" "k \<le> j - length row"
      "concat rows ! (j - length row) = rows ! r ! k"
      "0 < k \<longrightarrow> concat rows ! (j - length row - 1) = rows ! r ! (k - 1)"
      using Cons.IH by blast
    then show ?thesis using False by (intro exI [of _ "Suc r"] exI [of _ k]) (auto simp: nth_append)
  qed
qed simp

fun position_of :: "('a \<Rightarrow> bool) \<Rightarrow> 'a list \<Rightarrow> nat option" where
  "position_of P [] = None"
| "position_of P (x # xs) = (if P x then Some 0 else map_option Suc (position_of P xs))"

lemma position_of_None [simp]: "position_of P xs = None \<longleftrightarrow> (\<forall>x \<in> set xs. \<not> P x)"
  by (induction xs) auto

lemma position_of_Some:
  "position_of P xs = Some i \<Longrightarrow> i < length xs \<and> P (xs ! i) \<and> (\<forall>j < i. \<not> P (xs ! j))"
  by (induction xs arbitrary: i) (auto simp: nth_Cons split: if_splits nat.splits)

fun update_first :: "('a \<Rightarrow> bool) \<Rightarrow> ('a \<Rightarrow> 'a) \<Rightarrow> 'a list \<Rightarrow> 'a list" where
  "update_first P f [] = []"
| "update_first P f (x # xs) = (if P x then f x # xs else x # update_first P f xs)"

lemma length_update_first [simp]: "length (update_first P f xs) = length xs"
  by (induction xs) auto

lemma update_first_none: "find P xs = None \<Longrightarrow> update_first P f xs = xs"
  by (induction xs) (auto split: if_splits)

text \<open>An update that changes no image under \<open>h\<close> changes no list of images.\<close>

lemma map_update_first:
  "(\<And>x. P x \<Longrightarrow> h (f x) = h x) \<Longrightarrow> map h (update_first P f xs) = map h xs"
  by (induction xs) auto

lemma update_first_found:
  "find P xs = Some x \<Longrightarrow>
    \<exists>as bs. xs = as @ x # bs \<and> P x \<and> (\<forall>a \<in> set as. \<not> P a) \<and> update_first P f xs = as @ f x # bs"
proof (induction xs)
  case (Cons y ys)
  show ?case
  proof (cases "P y")
    case True
    then show ?thesis using Cons.prems by - (rule exI [of _ "[]"], auto)
  next
    case False
    then obtain as bs where "ys = as @ x # bs" "P x" "\<forall>a \<in> set as. \<not> P a"
      "update_first P f ys = as @ f x # bs" using Cons by auto
    then show ?thesis using False by - (rule exI [of _ "y # as"], auto)
  qed
qed simp

lemma set_update_first: "set (update_first P f xs) \<subseteq> f ` {x \<in> set xs. P x} \<union> set xs"
  by (induction xs) auto

lemma find_Some_set: "find P xs = Some x \<Longrightarrow> x \<in> set xs \<and> P x"
  by (metis find_Some_iff nth_mem)

end
