(* ===== verification/Mission_Model.thy ===== *)
theory Mission_Model
  imports Text_Model Vec_Ops "HOL-Library.Word"
begin

text \<open>
  The mission-tree data model of \<open>crates/game/src/eu4/mission/model.rs\<close>: a file of trees, a tree
  of missions, and the blocks and fields that the editor keeps verbatim.  \<open>slot\<close> and \<open>position\<close>
  are 32-bit words; their arithmetic wraps, as in the release profile of the workspace, except
  where the source says \<open>saturating\<close>.
\<close>

type_synonym cell = "32 word"

record mission_block =
  block_text :: string

record raw_field =
  field_name :: string
  field_text :: string

record mission =
  ms_id :: string
  ms_id_range :: text_range
  ms_icon :: "string option"
  ms_type :: "string option"
  ms_provinces_to_highlight :: "mission_block option"
  ms_required :: "string list"
  ms_required_ranges :: "text_range list"
  ms_position :: "cell option"
  ms_position_range :: "text_range option"
  ms_completed_by :: "string option"
  ms_trigger :: "mission_block option"
  ms_effect :: "mission_block option"
  ms_unknown :: "raw_field list"
  ms_span :: text_range

record mission_tree =
  mt_id :: string
  mt_id_range :: text_range
  mt_slot :: cell
  mt_generic :: bool
  mt_ai :: "bool option"
  mt_has_country_shield :: "bool option"
  mt_potential :: "mission_block option"
  mt_potential_on_load :: "mission_block option"
  mt_missions :: "mission list"
  mt_unknown :: "raw_field list"
  mt_span :: text_range

record mission_file =
  mf_trees :: "mission_tree list"

text \<open>The tree and the mission that \<open>add_tree\<close> and \<open>add_mission\<close> of \<open>edit.rs\<close> push.\<close>

definition empty_tree :: "string \<Rightarrow> mission_tree" where
  "empty_tree name =
    \<lparr>mt_id = name, mt_id_range = text_range_empty 0, mt_slot = 1, mt_generic = False, mt_ai = None,
     mt_has_country_shield = None, mt_potential = None, mt_potential_on_load = None,
     mt_missions = [], mt_unknown = [], mt_span = text_range_empty 0\<rparr>"

definition empty_mission :: "string \<Rightarrow> mission" where
  "empty_mission name =
    \<lparr>ms_id = name, ms_id_range = text_range_empty 0, ms_icon = None, ms_type = None,
     ms_provinces_to_highlight = None, ms_required = [], ms_required_ranges = [],
     ms_position = None, ms_position_range = None, ms_completed_by = None, ms_trigger = None,
     ms_effect = None, ms_unknown = [], ms_span = text_range_empty 0\<rparr>"

text \<open>\<open>mission_ids\<close>: the map keeps the first mission of each id.\<close>

fun enter_missions ::
    "mission_tree \<Rightarrow> mission list \<Rightarrow> (string \<rightharpoonup> mission_tree \<times> mission)
      \<Rightarrow> (string \<rightharpoonup> mission_tree \<times> mission)" where
  "enter_missions tree [] m = m"
| "enter_missions tree (mission # missions) m =
    enter_missions tree missions
      (if m (ms_id mission) = None then m(ms_id mission \<mapsto> (tree, mission)) else m)"

definition mission_ids :: "mission_file \<Rightarrow> (string \<rightharpoonup> mission_tree \<times> mission)" where
  "mission_ids file = fold (\<lambda>tree. enter_missions tree (mt_missions tree)) (mf_trees file) Map.empty"

definition tree_mission :: "mission_tree \<Rightarrow> string \<Rightarrow> mission option" where
  "tree_mission tree mission_id = find (\<lambda>m. ms_id m = mission_id) (mt_missions tree)"

definition new_block :: "string \<Rightarrow> mission_block" where
  "new_block s = \<lparr>block_text = s\<rparr>"

definition saturating_sub :: "cell \<Rightarrow> cell \<Rightarrow> cell" where
  "saturating_sub a b = (if a < b then 0 else a - b)"

definition saturating_add :: "cell \<Rightarrow> cell \<Rightarrow> cell" where
  "saturating_add a b = (if a + b < a then - 1 else a + b)"

lemma unat_saturating_sub: "unat (saturating_sub a b) = unat a - unat b"
  by (simp add: saturating_sub_def unat_sub word_le_nat_alt word_less_nat_alt)

lemma unat_saturating_add: "unat (saturating_add a b) = min (unat a + unat b) (2 ^ 32 - 1)"
proof -
  have "unat (- 1 :: cell) = 2 ^ 32 - 1"
    by (simp add: unsigned_minus_1_eq_mask mask_eq_exp_minus_1)
  then show ?thesis using no_olen_add_nat [of a b] unat_plus_simple [of a b]
    by (simp add: saturating_add_def not_less [symmetric]) linarith
qed

text \<open>All missions of a file, in file order.\<close>

definition all_missions :: "mission_file \<Rightarrow> mission list" where
  "all_missions file = concat (map mt_missions (mf_trees file))"

lemma enter_missions_dom:
  "dom (enter_missions tree missions m) = dom m \<union> ms_id ` set missions"
  by (induction tree missions m rule: enter_missions.induct) auto

lemma mission_ids_dom: "mission_ids file name \<noteq> None \<longleftrightarrow> name \<in> ms_id ` set (all_missions file)"
proof -
  have "dom (fold (\<lambda>tree. enter_missions tree (mt_missions tree)) trees m)
      = dom m \<union> ms_id ` set (concat (map mt_missions trees))" for trees m
    by (induction trees arbitrary: m) (auto simp: enter_missions_dom)
  from this [of "mf_trees file" Map.empty]
  show ?thesis by (simp add: domIff mission_ids_def all_missions_def set_eq_iff del: set_concat)
qed

end
