(* ===== verification/Dependency_Graph.thy ===== *)
theory Dependency_Graph
  imports Vec_Ops
begin

text \<open>
  The dependency graphs of \<open>crates/engine/src/structure.rs\<close>: the assembly of a graph from named
  nodes (\<open>new_graph\<close>), its membership test and the depth-first search for back-edge cycles with
  an explicit stack (\<open>cycles\<close>).  An index out of range or an \<open>expect\<close> that fails is a panic of
  the source, the value \<open>None\<close> of the search; the theorems at the end say that a graph made by
  \<open>new_graph\<close> never gets there, that every reported cycle is a closed walk of the graph, and
  that no report means that the graph has no cycle.
\<close>

record dgraph =
  dg_names :: "string list"
  dg_ids :: "string \<rightharpoonup> nat"
  dg_edges :: "nat list list"

type_synonym named_node = "string \<times> string list"

text \<open>The first loop of \<open>new\<close>: a name is registered where it is first declared.\<close>

fun register :: "named_node list \<Rightarrow> (string \<rightharpoonup> nat) \<times> string list \<Rightarrow> (string \<rightharpoonup> nat) \<times> string list" where
  "register [] st = st"
| "register ((name, _) # nodes) (ids, names) =
    register nodes
      (if ids name = None then (ids(name \<mapsto> length names), names @ [name]) else (ids, names))"

text \<open>The second loop: each declaration overwrites the edges of its node.\<close>

fun connect :: "(string \<rightharpoonup> nat) \<Rightarrow> named_node list \<Rightarrow> nat list list \<Rightarrow> nat list list" where
  "connect ids [] edges = edges"
| "connect ids ((name, dependencies) # nodes) edges =
    connect ids nodes (edges[the (ids name) := List.map_filter ids dependencies])"

definition new_graph :: "named_node list \<Rightarrow> dgraph" where
  "new_graph nodes =
    (case register nodes (Map.empty, []) of
       (ids, names) \<Rightarrow>
         \<lparr>dg_names = names, dg_ids = ids,
          dg_edges = connect ids nodes (replicate (length names) [])\<rparr>)"

definition contains_name :: "dgraph \<Rightarrow> string \<Rightarrow> bool" where
  "contains_name g name \<longleftrightarrow> dg_ids g name \<noteq> None"

text \<open>The search: marks 0 (new), 1 (on the path) and 2 (done), the path, the stack of nodes
  with the next edge to look at (its top first), and the cycles found so far.\<close>

record dfs =
  df_marks :: "nat list"
  df_path :: "nat list"
  df_stack :: "(nat \<times> nat) list"
  df_cycles :: "string list list"

definition name_cycle :: "dgraph \<Rightarrow> nat list \<Rightarrow> nat \<Rightarrow> string list option" where
  "name_cycle g path next =
    (case position_of (\<lambda>node. node = next) path of
       None \<Rightarrow> None
     | Some start \<Rightarrow> those (map (vec_get (dg_names g)) (drop start path @ [next])))"

definition dfs_step :: "dgraph \<Rightarrow> dfs \<Rightarrow> dfs option" where
  "dfs_step g s =
    (case df_stack s of
       [] \<Rightarrow> Some s
     | (node, edge) # rest \<Rightarrow>
        (case vec_get (dg_edges g) node of
           None \<Rightarrow> None
         | Some out \<Rightarrow>
            (case vec_get out edge of
               None \<Rightarrow>
                 if node < length (df_marks s)
                 then Some (s\<lparr>df_marks := (df_marks s)[node := 2], df_stack := rest,
                              df_path := butlast (df_path s)\<rparr>)
                 else None
             | Some next \<Rightarrow>
                (case vec_get (df_marks s) next of
                   None \<Rightarrow> None
                 | Some mark \<Rightarrow>
                    if mark = 0
                    then Some (s\<lparr>df_marks := (df_marks s)[next := 1],
                                 df_path := df_path s @ [next],
                                 df_stack := (next, 0) # (node, edge + 1) # rest\<rparr>)
                    else if mark = 1
                    then (case name_cycle g (df_path s) next of
                            None \<Rightarrow> None
                          | Some cycle \<Rightarrow>
                             Some (s\<lparr>df_stack := (node, edge + 1) # rest,
                                     df_cycles := df_cycles s @ [cycle]\<rparr>))
                    else Some (s\<lparr>df_stack := (node, edge + 1) # rest\<rparr>)))))"

text \<open>The loop ends: a step marks a new node, or consumes an edge or a frame of the stack.\<close>

definition unmarked :: "dfs \<Rightarrow> nat" where
  "unmarked s = length (filter (\<lambda>m. m = 0) (df_marks s))"

definition open_edges :: "dgraph \<Rightarrow> dfs \<Rightarrow> nat" where
  "open_edges g s = sum_list (map (\<lambda>(node, edge). Suc (length (dg_edges g ! node) - edge)) (df_stack s))"

lemma unmarked_update:
  "i < length ms \<Longrightarrow> ms ! i = 0 \<Longrightarrow> m \<noteq> 0 \<Longrightarrow>
    length (filter (\<lambda>m. m = (0::nat)) (ms[i := m])) < length (filter (\<lambda>m. m = 0) ms)"
  by (induction ms arbitrary: i) (auto split: nat.splits)

lemma unmarked_update_le:
  "m \<noteq> 0 \<Longrightarrow> length (filter (\<lambda>m. m = (0::nat)) (ms[i := m])) \<le> length (filter (\<lambda>m. m = 0) ms)"
  by (induction ms arbitrary: i) (auto split: nat.splits)

lemma dfs_step_cases [consumes 2, case_names pop push cycle skip]:
  assumes "dfs_step g s = Some s'" "df_stack s = (node, edge) # rest"
  obtains
    (pop) "node < length (dg_edges g)" "length (dg_edges g ! node) \<le> edge"
      "node < length (df_marks s)"
      "s' = s\<lparr>df_marks := (df_marks s)[node := 2], df_stack := rest, df_path := butlast (df_path s)\<rparr>"
  | (push) "next" where "node < length (dg_edges g)" "edge < length (dg_edges g ! node)"
      "next = dg_edges g ! node ! edge" "next < length (df_marks s)" "df_marks s ! next = 0"
      "s' = s\<lparr>df_marks := (df_marks s)[next := 1], df_path := df_path s @ [next],
             df_stack := (next, 0) # (node, edge + 1) # rest\<rparr>"
  | (cycle) "next" c where "node < length (dg_edges g)" "edge < length (dg_edges g ! node)"
      "next = dg_edges g ! node ! edge" "next < length (df_marks s)" "df_marks s ! next = 1"
      "name_cycle g (df_path s) next = Some c"
      "s' = s\<lparr>df_stack := (node, edge + 1) # rest, df_cycles := df_cycles s @ [c]\<rparr>"
  | (skip) "next" where "node < length (dg_edges g)" "edge < length (dg_edges g ! node)"
      "next = dg_edges g ! node ! edge" "next < length (df_marks s)"
      "df_marks s ! next \<noteq> 0" "df_marks s ! next \<noteq> 1"
      "s' = s\<lparr>df_stack := (node, edge + 1) # rest\<rparr>"
proof -
  have "node < length (dg_edges g)"
    using assms by (simp add: dfs_step_def split: option.splits)
  show thesis
  proof (cases "edge < length (dg_edges g ! node)")
    case False
    then show thesis using assms \<open>node < length (dg_edges g)\<close> pop
      by (simp add: dfs_step_def vec_get_def split: if_splits)
  next
    case True
    then show thesis using assms \<open>node < length (dg_edges g)\<close> push cycle skip
      by (simp add: dfs_step_def vec_get_def split: if_splits option.splits)
  qed
qed

lemma dfs_step_decreases:
  assumes "dfs_step g s = Some s'" "df_stack s \<noteq> []"
  shows "unmarked s' < unmarked s \<or> unmarked s' \<le> unmarked s \<and> open_edges g s' < open_edges g s"
proof -
  obtain node edge rest where st: "df_stack s = (node, edge) # rest"
    using assms(2) by (cases "df_stack s") auto
  from assms(1) st show ?thesis
  proof (cases rule: dfs_step_cases)
    case pop
    then show ?thesis using st unmarked_update_le [of 2 "df_marks s" node]
      by (simp add: unmarked_def open_edges_def)
  next
    case (push "next")
    then show ?thesis using unmarked_update [of "next" "df_marks s" 1] by (simp add: unmarked_def)
  next
    case (cycle "next" c)
    then show ?thesis using st by (simp add: unmarked_def open_edges_def)
  next
    case (skip "next")
    then show ?thesis using st by (simp add: unmarked_def open_edges_def)
  qed
qed

function dfs_loop :: "dgraph \<Rightarrow> dfs \<Rightarrow> dfs option" where
  "dfs_loop g s =
    (if df_stack s = [] then Some s
     else (case dfs_step g s of None \<Rightarrow> None | Some s' \<Rightarrow> dfs_loop g s'))"
  by pat_completeness auto
termination
  by (relation "measures [\<lambda>(g, s). unmarked s, \<lambda>(g, s). open_edges g s]")
    (auto dest: dfs_step_decreases)

declare dfs_loop.simps [simp del]

fun visit_roots :: "dgraph \<Rightarrow> nat list \<Rightarrow> dfs \<Rightarrow> dfs option" where
  "visit_roots g [] s = Some s"
| "visit_roots g (root # roots) s =
    (case vec_get (df_marks s) root of
       None \<Rightarrow> None
     | Some mark \<Rightarrow>
        if mark \<noteq> 0 then visit_roots g roots s
        else (case dfs_loop g (s\<lparr>df_marks := (df_marks s)[root := 1],
                                 df_path := df_path s @ [root], df_stack := [(root, 0)]\<rparr>) of
                None \<Rightarrow> None
              | Some s' \<Rightarrow> visit_roots g roots s'))"

definition cycles :: "dgraph \<Rightarrow> string list list option" where
  "cycles g =
    (let n = length (dg_names g)
     in map_option df_cycles
          (visit_roots g [0..<n]
            \<lparr>df_marks = replicate n 0, df_path = [], df_stack = [], df_cycles = []\<rparr>))"

subsection \<open>What the search maintains\<close>

definition edge_rel :: "dgraph \<Rightarrow> (nat \<times> nat) set" where
  "edge_rel g = {(u, v). u < length (dg_edges g) \<and> v \<in> set (dg_edges g ! u)}"

definition graph_ok :: "dgraph \<Rightarrow> bool" where
  "graph_ok g \<longleftrightarrow> length (dg_edges g) = length (dg_names g)
    \<and> list_all (list_all (\<lambda>v. v < length (dg_names g))) (dg_edges g)"

lemma edge_relI: "u < length (dg_edges g) \<Longrightarrow> k < length (dg_edges g ! u) \<Longrightarrow> (u, dg_edges g ! u ! k) \<in> edge_rel g"
  by (auto simp: edge_rel_def)

lemma graph_ok_edge:
  "graph_ok g \<Longrightarrow> u < length (dg_names g) \<Longrightarrow> k < length (dg_edges g ! u) \<Longrightarrow>
    dg_edges g ! u ! k < length (dg_names g)"
  by (auto simp: graph_ok_def list_all_length)

text \<open>A reported cycle: the names along a walk that ends where it starts.\<close>

definition closed_walk :: "dgraph \<Rightarrow> string list \<Rightarrow> bool" where
  "closed_walk g c \<longleftrightarrow> (\<exists>us. 2 \<le> length us \<and> hd us = last us \<and> set us \<subseteq> {..<length (dg_names g)}
      \<and> successively (\<lambda>u v. (u, v) \<in> edge_rel g) us \<and> c = map ((!) (dg_names g)) us)"

definition finished :: "dfs \<Rightarrow> nat set" where
  "finished s = {v. v < length (df_marks s) \<and> df_marks s ! v \<noteq> 0 \<and> df_marks s ! v \<noteq> 1}"

text \<open>Every edge the search has looked at leads to a finished node, or is the one it follows.\<close>

fun explored :: "dgraph \<Rightarrow> nat set \<Rightarrow> nat option \<Rightarrow> (nat \<times> nat) list \<Rightarrow> bool" where
  "explored g B prev [] = True"
| "explored g B prev ((node, edge) # rest) =
    ((\<forall>k < edge. dg_edges g ! node ! k \<in> B \<or> prev = Some (dg_edges g ! node ! k))
      \<and> explored g B (Some node) rest)"

definition settled :: "dgraph \<Rightarrow> dfs \<Rightarrow> bool" where
  "settled g s \<longleftrightarrow> edge_rel g `` finished s \<subseteq> finished s
    \<and> (\<forall>v \<in> finished s. (v, v) \<notin> (edge_rel g)\<^sup>+) \<and> explored g (finished s) None (df_stack s)"

definition search_ok :: "dgraph \<Rightarrow> dfs \<Rightarrow> bool" where
  "search_ok g s \<longleftrightarrow> length (df_marks s) = length (dg_names g)
    \<and> df_path s = map fst (rev (df_stack s)) \<and> distinct (df_path s)
    \<and> (\<forall>v < length (dg_names g). df_marks s ! v = 1 \<longleftrightarrow> v \<in> set (df_path s))
    \<and> set (df_path s) \<subseteq> {..<length (dg_names g)}
    \<and> successively (\<lambda>u v. (u, v) \<in> edge_rel g) (df_path s)
    \<and> list_all (closed_walk g) (df_cycles s)
    \<and> (df_cycles s = [] \<longrightarrow> settled g s)"

lemma search_okD:
  assumes "search_ok g s"
  shows "length (df_marks s) = length (dg_names g)" "df_path s = map fst (rev (df_stack s))"
    "distinct (df_path s)"
    "v < length (dg_names g) \<Longrightarrow> df_marks s ! v = 1 \<longleftrightarrow> v \<in> set (df_path s)"
    "set (df_path s) \<subseteq> {..<length (dg_names g)}"
    "successively (\<lambda>u v. (u, v) \<in> edge_rel g) (df_path s)"
    "list_all (closed_walk g) (df_cycles s)" "df_cycles s = [] \<Longrightarrow> settled g s"
  using assms unfolding search_ok_def by blast+

lemma explored_mono: "explored g B prev st \<Longrightarrow> B \<subseteq> B' \<Longrightarrow> explored g B' prev st"
  by (induction g B prev st rule: explored.induct) auto

lemma explored_pop:
  "explored g B (Some v) st \<Longrightarrow> B \<subseteq> B' \<Longrightarrow> v \<in> B' \<Longrightarrow> explored g B' None st"
  by (cases st) (auto, metis subsetD, metis explored_mono)

text \<open>A walk that starts in a set closed under the edges stays in it.\<close>

lemma closed_trancl: "(u, v) \<in> r\<^sup>+ \<Longrightarrow> r `` B \<subseteq> B \<Longrightarrow> u \<in> B \<Longrightarrow> v \<in> B"
  by (induction rule: trancl_induct) auto

lemma closed_insert_acyclic:
  assumes "r `` B \<subseteq> B" and "r `` {u} \<subseteq> B" and "u \<notin> B"
  shows "(u, u) \<notin> r\<^sup>+"
proof
  assume "(u, u) \<in> r\<^sup>+"
  then obtain w where "(u, w) \<in> r" "(w, u) \<in> r\<^sup>*" by (blast dest: tranclD)
  then have "w \<in> B" using assms(2) by blast
  then show False using \<open>(w, u) \<in> r\<^sup>*\<close> closed_trancl [of w u r B] assms by (auto simp: rtrancl_eq_or_trancl)
qed

lemma those_map_get:
  "list_all (\<lambda>i. i < length xs) is \<Longrightarrow> those (map (vec_get xs) is) = Some (map ((!) xs) is)"
  by (induction "is") (simp_all add: vec_get_def)

lemma name_cycle_closed_walk:
  assumes ok: "search_ok g s" and st: "df_stack s = (node, edge) # rest"
    and e: "(node, w) \<in> edge_rel g" and w: "w < length (dg_names g)" "df_marks s ! w = 1"
  obtains c where "name_cycle g (df_path s) w = Some c" "closed_walk g c"
proof -
  have "w \<in> set (df_path s)" using search_okD(4) [OF ok w(1)] w(2) by blast
  then obtain i where i: "position_of (\<lambda>node. node = w) (df_path s) = Some i"
    by (cases "position_of (\<lambda>node. node = w) (df_path s)") auto
  then have il: "i < length (df_path s)" and iw: "df_path s ! i = w" using position_of_Some by blast+
  let ?us = "drop i (df_path s) @ [w]"
  have below: "set ?us \<subseteq> {..<length (dg_names g)}"
    using w(1) set_drop_subset [of i "df_path s"] search_okD(5) [OF ok] by auto
  then have "name_cycle g (df_path s) w = Some (map ((!) (dg_names g)) ?us)"
    unfolding name_cycle_def i using those_map_get [of "dg_names g" ?us]
    by (auto simp: list_all_iff)
  moreover have "closed_walk g (map ((!) (dg_names g)) ?us)"
  proof -
    have ne: "drop i (df_path s) \<noteq> []" using il by simp
    have "last (df_path s) = node" using search_okD(2) [OF ok] st by simp
    then have l: "last (drop i (df_path s)) = node" using il by simp
    have "successively (\<lambda>u v. (u, v) \<in> edge_rel g) (drop i (df_path s))"
      using search_okD(6) [OF ok] by (metis append_take_drop_id successively_append_iff)
    then have "successively (\<lambda>u v. (u, v) \<in> edge_rel g) ?us"
      using ne l e by (simp add: successively_append_iff)
    moreover have "2 \<le> length ?us" using il by simp
    moreover have "hd ?us = last ?us" using ne il iw by (simp add: hd_drop_conv_nth)
    ultimately show ?thesis using below unfolding closed_walk_def by blast
  qed
  ultimately show thesis by (rule that)
qed

lemma dfs_step_progress:
  assumes g: "graph_ok g" and ok: "search_ok g s" and st: "df_stack s = (node, edge) # rest"
  shows "\<exists>s'. dfs_step g s = Some s'"
proof -
  have node: "node < length (dg_names g)" "length (dg_edges g) = length (dg_names g)"
    "length (df_marks s) = length (dg_names g)"
    using g search_okD(1,2,5) [OF ok] st by (auto simp: graph_ok_def)
  show ?thesis
  proof (cases "edge < length (dg_edges g ! node)")
    case False
    then show ?thesis using node st by (simp add: dfs_step_def vec_get_def)
  next
    case True
    let ?w = "dg_edges g ! node ! edge"
    have w: "?w < length (dg_names g)" using graph_ok_edge [OF g node(1) True] .
    have e: "(node, ?w) \<in> edge_rel g" using edge_relI True node by simp
    show ?thesis
    proof (cases "df_marks s ! ?w = 1")
      case mark: True
      obtain c where "name_cycle g (df_path s) ?w = Some c"
        using name_cycle_closed_walk [OF ok st e w mark] by blast
      then show ?thesis using node st w True mark by (simp add: dfs_step_def vec_get_def)
    next
      case False
      then show ?thesis using node st w True by (simp add: dfs_step_def vec_get_def)
    qed
  qed
qed

lemma finished_update [simp]:
  "finished (s\<lparr>df_path := p\<rparr>) = finished s" "finished (s\<lparr>df_stack := st\<rparr>) = finished s"
  "finished (s\<lparr>df_cycles := cs\<rparr>) = finished s"
  by (simp_all add: finished_def)

lemma finished_mark:
  "v < length (df_marks s) \<Longrightarrow> finished (s\<lparr>df_marks := (df_marks s)[v := 2]\<rparr>) = insert v (finished s)"
  "df_marks s ! v = 0 \<Longrightarrow> finished (s\<lparr>df_marks := (df_marks s)[v := 1]\<rparr>) = finished s"
  by (auto simp: finished_def nth_update_if)

lemma search_okI:
  assumes "length (df_marks s) = length (dg_names g)" "df_path s = map fst (rev (df_stack s))"
    "distinct (df_path s)"
    "\<And>v. v < length (dg_names g) \<Longrightarrow> df_marks s ! v = 1 \<longleftrightarrow> v \<in> set (df_path s)"
    "set (df_path s) \<subseteq> {..<length (dg_names g)}"
    "successively (\<lambda>u v. (u, v) \<in> edge_rel g) (df_path s)"
    "list_all (closed_walk g) (df_cycles s)" "df_cycles s = [] \<Longrightarrow> settled g s"
  shows "search_ok g s"
  using assms unfolding search_ok_def by blast

text \<open>Leaving a node: all its edges lead to finished nodes, so no walk returns to it.\<close>

lemma settled_pop:
  assumes g: "graph_ok g" and settled: "settled g s" and st: "df_stack s = (node, edge) # rest"
    and node: "node < length (df_marks s)" "df_marks s ! node = 1"
    and last: "length (dg_edges g ! node) \<le> edge"
  shows "settled g (s\<lparr>df_marks := (df_marks s)[node := 2], df_stack := rest, df_path := p\<rparr>)"
proof -
  let ?B = "finished s" and ?B' = "insert node (finished s)"
  have B: "edge_rel g `` ?B \<subseteq> ?B" "\<forall>v \<in> ?B. (v, v) \<notin> (edge_rel g)\<^sup>+"
    and ex: "explored g ?B None ((node, edge) # rest)" using settled st by (simp_all add: settled_def)
  have out: "edge_rel g `` {node} \<subseteq> ?B" using ex last by (force simp: edge_rel_def in_set_conv_nth)
  have "(node, node) \<notin> (edge_rel g)\<^sup>+"
    by (rule closed_insert_acyclic [OF B(1) out]) (simp add: finished_def node)
  then have "\<forall>v \<in> ?B'. (v, v) \<notin> (edge_rel g)\<^sup>+" using B(2) by blast
  moreover have "edge_rel g `` ?B' \<subseteq> ?B'" using B(1) out by blast
  moreover have "explored g ?B' None rest" using ex by (auto intro: explored_pop)
  moreover have "finished (s\<lparr>df_marks := (df_marks s)[node := 2], df_stack := rest, df_path := p\<rparr>) = ?B'"
    using finished_mark(1) [OF node(1)] by (simp add: finished_def)
  ultimately show ?thesis by (simp add: settled_def)
qed

lemma dfs_step_ok:
  assumes g: "graph_ok g" and ok: "search_ok g s" and st: "df_stack s = (node, edge) # rest"
    and step: "dfs_step g s = Some s'"
  shows "search_ok g s'"
proof -
  note D = search_okD [OF ok]
  have path: "df_path s = map fst (rev rest) @ [node]" using D(2) st by simp
  note P = D [unfolded path]
  have node: "node < length (dg_names g)" "df_marks s ! node = 1" "node \<notin> fst ` set rest"
    using D(3,5) D(4) [of node] path by auto
  from step st show ?thesis
  proof (cases rule: dfs_step_cases)
    case pop
    show ?thesis
    proof (rule search_okI)
      show "successively (\<lambda>u v. (u, v) \<in> edge_rel g) (df_path s')"
        using D(6) path pop(4) by (simp add: successively_append_iff)
      show "df_marks s' ! v = 1 \<longleftrightarrow> v \<in> set (df_path s')" if "v < length (dg_names g)" for v
        using that D(4) [OF that] path pop(4) D(1) node by (auto simp: nth_update_if)
      show "settled g s'" if "df_cycles s' = []"
        using that settled_pop [OF g _ st _ node(2) pop(2)] D(1,8) node(1) pop(4) by simp
    qed (use P(1,3,5,7) path pop(4) in auto)
  next
    case (push w)
    have w: "w < length (dg_names g)" "w \<notin> set (df_path s)"
      using D(1) D(4) [of w] push(4,5) by auto
    have e: "(node, w) \<in> edge_rel g" using edge_relI push(1,2,3) by blast
    show ?thesis
    proof (rule search_okI)
      show "successively (\<lambda>u v. (u, v) \<in> edge_rel g) (df_path s')"
        using D(6) path push(6) e by (simp add: successively_append_iff)
      show "df_marks s' ! v = 1 \<longleftrightarrow> v \<in> set (df_path s')" if "v < length (dg_names g)" for v
        using that D(4) [OF that] push(6) D(1) w by (auto simp: nth_update_if)
      show "settled g s'" if "df_cycles s' = []"
        using that D(8) push(3,5,6) st finished_mark(2) [OF push(5)]
        by (auto simp: settled_def less_Suc_eq)
    qed (use P(1,3,5,7) path push(6) st w in auto)
  next
    case (cycle w c)
    have "closed_walk g c"
    proof -
      have "w < length (dg_names g)" using cycle(4) D(1) by simp
      moreover have "(node, w) \<in> edge_rel g" using edge_relI cycle(1,2,3) by blast
      ultimately show ?thesis using name_cycle_closed_walk [OF ok st] cycle(5,6) by (metis option.inject)
    qed
    then show ?thesis using P(1,3-8) cycle(7) st path by (intro search_okI) auto
  next
    case (skip w)
    have w: "w \<in> finished s" using skip(4,5,6) by (simp add: finished_def)
    show ?thesis
    proof (rule search_okI)
      show "settled g s'" if "df_cycles s' = []"
        using that D(8) skip(3,7) st w by (auto simp: settled_def less_Suc_eq)
      show "df_marks s' ! v = 1 \<longleftrightarrow> v \<in> set (df_path s')" if "v < length (dg_names g)" for v
        using D(4) [OF that] skip(7) by simp
      show "successively (\<lambda>u v. (u, v) \<in> edge_rel g) (df_path s')" using D(6) skip(7) by simp
    qed (use P(1,3,5,7) path skip(7) st in auto)
  qed
qed

lemma dfs_step_marks:
  assumes "dfs_step g s = Some s'" "df_stack s \<noteq> []" "df_marks s ! v \<noteq> 0"
  shows "df_marks s' ! v \<noteq> 0"
proof -
  obtain node edge rest where st: "df_stack s = (node, edge) # rest"
    using assms(2) by (cases "df_stack s") auto
  from assms(1) st show ?thesis
    by (cases rule: dfs_step_cases) (use assms(3) in \<open>auto simp: nth_update_if\<close>)
qed

lemma dfs_loop_ok:
  "graph_ok g \<Longrightarrow> search_ok g s \<Longrightarrow>
    \<exists>s'. dfs_loop g s = Some s' \<and> search_ok g s' \<and> df_stack s' = []
      \<and> (\<forall>v. df_marks s ! v \<noteq> 0 \<longrightarrow> df_marks s' ! v \<noteq> 0)"
proof (induction g s rule: dfs_loop.induct)
  case (1 g s)
  show ?case
  proof (cases "df_stack s")
    case Nil
    then show ?thesis using "1.prems" by (simp add: dfs_loop.simps)
  next
    case (Cons frame rest)
    obtain node edge where frame: "frame = (node, edge)" by force
    note st = Cons [unfolded frame]
    obtain s1 where s1: "dfs_step g s = Some s1" using dfs_step_progress [OF "1.prems" st] by blast
    have ne: "df_stack s \<noteq> []" using st by simp
    from "1.IH" [OF ne s1 "1.prems"(1) dfs_step_ok [OF "1.prems" st s1]]
    show ?thesis using s1 ne dfs_step_marks [OF s1 ne] dfs_loop.simps [of g s] by auto
  qed
qed

lemma enter_root:
  assumes ok: "search_ok g s" and st: "df_stack s = []"
    and root: "root < length (dg_names g)" "df_marks s ! root = 0"
  shows "search_ok g (s\<lparr>df_marks := (df_marks s)[root := 1], df_path := df_path s @ [root],
           df_stack := [(root, 0)]\<rparr>)"
proof -
  note D = search_okD [OF ok]
  have path: "df_path s = []" using D(2) st by simp
  show ?thesis
  proof (rule search_okI)
    let ?s = "s\<lparr>df_marks := (df_marks s)[root := 1], df_path := df_path s @ [root],
           df_stack := [(root, 0)]\<rparr>"
    show "df_marks ?s ! v = 1 \<longleftrightarrow> v \<in> set (df_path ?s)" if "v < length (dg_names g)" for v
      using D(1) D(4) [OF that] path root by (auto simp: nth_update_if)
    show "settled g ?s" if "df_cycles ?s = []"
      using that D(8) st finished_mark(2) [OF root(2)] by (auto simp: settled_def)
  qed (use D(1,7) path root in auto)
qed

lemma visit_roots_ok:
  "graph_ok g \<Longrightarrow> search_ok g s \<Longrightarrow> df_stack s = [] \<Longrightarrow> set roots \<subseteq> {..<length (dg_names g)} \<Longrightarrow>
    \<exists>s'. visit_roots g roots s = Some s' \<and> search_ok g s' \<and> df_stack s' = []
      \<and> (\<forall>v. df_marks s ! v \<noteq> 0 \<or> v \<in> set roots \<longrightarrow> df_marks s' ! v \<noteq> 0)"
proof (induction roots arbitrary: s)
  case (Cons root roots)
  have root: "root < length (dg_names g)" "root < length (df_marks s)"
    using Cons.prems(4) search_okD(1) [OF Cons.prems(2)] by auto
  show ?case
  proof (cases "df_marks s ! root = 0")
    case False
    with Cons.IH [OF Cons.prems(1-3)] Cons.prems(4) root show ?thesis by (auto simp: vec_get_def)
  next
    case True
    let ?s = "s\<lparr>df_marks := (df_marks s)[root := 1], df_path := df_path s @ [root], df_stack := [(root, 0)]\<rparr>"
    obtain s1 where s1: "dfs_loop g ?s = Some s1" "search_ok g s1" "df_stack s1 = []"
      and m: "\<forall>v. df_marks ?s ! v \<noteq> 0 \<longrightarrow> df_marks s1 ! v \<noteq> 0"
      using dfs_loop_ok [OF Cons.prems(1) enter_root [OF Cons.prems(2,3) root(1) True]] by blast
    obtain s2 where s2: "visit_roots g roots s1 = Some s2" "search_ok g s2" "df_stack s2 = []"
      "\<forall>v. df_marks s1 ! v \<noteq> 0 \<or> v \<in> set roots \<longrightarrow> df_marks s2 ! v \<noteq> 0"
      using Cons.IH [OF Cons.prems(1) s1(2,3)] Cons.prems(4) by auto
    have "df_marks s1 ! root \<noteq> 0" using m root by simp
    moreover have "df_marks s1 ! v \<noteq> 0" if "df_marks s ! v \<noteq> 0" for v
      using m that by (simp add: nth_update_if)
    ultimately show ?thesis using s1(1) s2 True root by (auto simp: vec_get_def)
  qed
qed simp

theorem cycles_index:
  assumes g: "graph_ok g"
  shows "\<exists>cs. cycles g = Some cs \<and> list_all (closed_walk g) cs \<and> (cs = [] \<longrightarrow> acyclic (edge_rel g))"
proof -
  let ?n = "length (dg_names g)"
  let ?s = "\<lparr>df_marks = replicate ?n 0, df_path = [], df_stack = [], df_cycles = []\<rparr>"
  have "search_ok g ?s" by (rule search_okI) (auto simp: settled_def finished_def)
  moreover have "set [0..<?n] \<subseteq> {..<?n}" by auto
  ultimately obtain s where s: "visit_roots g [0..<?n] ?s = Some s" "search_ok g s" "df_stack s = []"
    and m: "\<forall>v < ?n. df_marks s ! v \<noteq> 0" using visit_roots_ok [OF g, of ?s "[0..<?n]"] by auto
  note D = search_okD [OF s(2)]
  have "acyclic (edge_rel g)" if "df_cycles s = []"
  proof -
    have all: "finished s = {..<?n}" using D(1,2,4) m s(3) by (auto simp: finished_def)
    have "(v, v) \<notin> (edge_rel g)\<^sup>+" for v
    proof (cases "v < ?n")
      case True
      then show ?thesis using D(8) [OF that] all by (simp add: settled_def)
    next
      case False
      then show ?thesis using g by (auto simp: edge_rel_def graph_ok_def dest!: tranclD)
    qed
    then show ?thesis by (simp add: acyclic_def)
  qed
  then show ?thesis using s(1) D(7) by (simp add: cycles_def Let_def)
qed

subsection \<open>The graph of the declarations\<close>

text \<open>What the source calls name resolution: a name depends on the names of its last declaration
  that are declared themselves.\<close>

definition depends_on :: "named_node list \<Rightarrow> (string \<times> string) set" where
  "depends_on nodes = {(a, b). b \<in> fst ` set nodes
    \<and> (\<exists>dependencies. map_of (rev nodes) a = Some dependencies \<and> b \<in> set dependencies)}"

definition ids_ok :: "(string \<rightharpoonup> nat) \<Rightarrow> string list \<Rightarrow> bool" where
  "ids_ok ids names \<longleftrightarrow> distinct names \<and> (\<forall>x i. ids x = Some i \<longleftrightarrow> i < length names \<and> names ! i = x)"

lemma register_ok:
  "ids_ok (fst st) (snd st) \<Longrightarrow>
    (case register nodes st of (ids, names) \<Rightarrow>
       ids_ok ids names \<and> set names = set (snd st) \<union> fst ` set nodes)"
proof (induction nodes st rule: register.induct)
  case (1 st)
  then show ?case by (cases st) simp
next
  case (2 name uu nodes ids names)
  have range: "ids name = None \<longleftrightarrow> name \<notin> set names"
    using "2.prems" unfolding ids_ok_def by (metis fst_conv in_set_conv_nth not_None_eq snd_conv)
  have "ids_ok (ids(name \<mapsto> length names)) (names @ [name])" if "ids name = None"
    using "2.prems" that range by (auto simp: ids_ok_def nth_append less_Suc_eq in_set_conv_nth)
  with "2.IH" "2.prems" range show ?case
    by (cases "ids name") (simp_all add: insert_absorb del: fun_upd_apply split: prod.splits)
qed

lemma connect_length [simp]: "length (connect ids nodes edges) = length edges"
  by (induction ids nodes edges rule: connect.induct) simp_all

lemma connect_nth:
  "ids_ok ids names \<Longrightarrow> length edges = length names \<Longrightarrow> fst ` set nodes \<subseteq> set names \<Longrightarrow>
    i < length names \<Longrightarrow>
    connect ids nodes edges ! i =
      (case map_of (rev nodes) (names ! i) of
         None \<Rightarrow> edges ! i | Some dependencies \<Rightarrow> List.map_filter ids dependencies)"
proof (induction ids nodes edges rule: connect.induct)
  case (2 ids name dependencies nodes edges)
  obtain j where j: "j < length names" "names ! j = name" "ids name = Some j"
    using "2.prems"(1,3) by (auto simp: ids_ok_def in_set_conv_nth)
  have "i = j \<longleftrightarrow> names ! i = name"
    using "2.prems"(1,4) j by (auto simp: ids_ok_def nth_eq_iff_index_eq)
  then show ?case using 2 j by (auto simp: map_add_def nth_update_if split: option.splits)
qed simp

lemma new_graph_ok:
  "ids_ok (dg_ids (new_graph nodes)) (dg_names (new_graph nodes))"
  "set (dg_names (new_graph nodes)) = fst ` set nodes"
  "length (dg_edges (new_graph nodes)) = length (dg_names (new_graph nodes))"
proof -
  obtain ids names where r: "register nodes (Map.empty, []) = (ids, names)" by force
  have "ids_ok Map.empty []" by (simp add: ids_ok_def)
  with register_ok [of "(Map.empty, [])" nodes] r
  show "ids_ok (dg_ids (new_graph nodes)) (dg_names (new_graph nodes))"
    "set (dg_names (new_graph nodes)) = fst ` set nodes"
    "length (dg_edges (new_graph nodes)) = length (dg_names (new_graph nodes))"
    by (simp_all add: new_graph_def)
qed

lemma new_graph_edges:
  assumes "u < length (dg_names (new_graph nodes))"
  shows "v \<in> set (dg_edges (new_graph nodes) ! u) \<longleftrightarrow>
    v < length (dg_names (new_graph nodes))
      \<and> (dg_names (new_graph nodes) ! u, dg_names (new_graph nodes) ! v) \<in> depends_on nodes"
proof -
  let ?g = "new_graph nodes"
  note ids = new_graph_ok(1) [of nodes] and names = new_graph_ok(2) [of nodes]
  have "dg_names ?g ! u \<in> fst ` set nodes" using assms names by (metis nth_mem)
  then obtain deps where d: "map_of (rev nodes) (dg_names ?g ! u) = Some deps"
    by (cases "map_of (rev nodes) (dg_names ?g ! u)") (auto simp: map_of_eq_None_iff)
  have "dg_edges ?g = connect (dg_ids ?g) nodes (replicate (length (dg_names ?g)) [])"
    by (simp add: new_graph_def split: prod.splits)
  then have "dg_edges ?g ! u = List.map_filter (dg_ids ?g) deps"
    using connect_nth [OF ids _ _ assms] names d by simp
  moreover have "dg_ids ?g b = Some v \<longleftrightarrow> v < length (dg_names ?g) \<and> dg_names ?g ! v = b" for b
    using ids by (simp add: ids_ok_def)
  ultimately have "v \<in> set (dg_edges ?g ! u) \<longleftrightarrow>
      v < length (dg_names ?g) \<and> dg_names ?g ! v \<in> set deps"
    by (auto simp: set_map_filter)
  moreover have "dg_names ?g ! v \<in> fst ` set nodes" if "v < length (dg_names ?g)"
    using that names by (metis nth_mem)
  ultimately show ?thesis using d by (auto simp: depends_on_def)
qed

lemma new_graph_graph_ok [simp]: "graph_ok (new_graph nodes)"
  unfolding graph_ok_def list_all_length
  by (metis new_graph_edges new_graph_ok(3) nth_mem)

text \<open>A cycle as the report shows it: names of which each depends on the one after it, the first
  repeated at the end.\<close>

definition dependency_cycle :: "named_node list \<Rightarrow> string list \<Rightarrow> bool" where
  "dependency_cycle nodes c \<longleftrightarrow> 2 \<le> length c \<and> hd c = last c
    \<and> successively (\<lambda>a b. (a, b) \<in> depends_on nodes) c"

lemma closed_walk_cycle:
  assumes "closed_walk (new_graph nodes) c"
  shows "dependency_cycle nodes c"
proof -
  let ?g = "new_graph nodes"
  obtain us where us: "2 \<le> length us" "hd us = last us" "c = map ((!) (dg_names ?g)) us"
    "successively (\<lambda>u v. (u, v) \<in> edge_rel ?g) us" using assms by (auto simp: closed_walk_def)
  have "successively (\<lambda>u v. (dg_names ?g ! u, dg_names ?g ! v) \<in> depends_on nodes) us"
    using us(4) new_graph_edges [of _ nodes] new_graph_ok(3) [of nodes]
    by (auto simp: edge_rel_def elim!: successively_mono)
  moreover have "us \<noteq> []" using us(1) by auto
  ultimately show ?thesis using us by (simp add: dependency_cycle_def successively_map hd_map last_map)
qed

lemma successively_trancl:
  "successively (\<lambda>a b. (a, b) \<in> r) (x # xs) \<Longrightarrow> xs \<noteq> [] \<Longrightarrow> (x, last (x # xs)) \<in> r\<^sup>+"
proof (induction xs arbitrary: x)
  case (Cons y ys)
  then show ?case by (cases "ys = []") (auto intro: trancl_into_trancl2)
qed simp

lemma dependency_cycle_not_acyclic: "dependency_cycle nodes c \<Longrightarrow> \<not> acyclic (depends_on nodes)"
proof -
  assume c: "dependency_cycle nodes c"
  then obtain x xs where "c = x # xs" "xs \<noteq> []" by (cases c rule: list.exhaust [case_product list.exhaust]) (auto simp: dependency_cycle_def Suc_le_length_iff)
  then have "(x, x) \<in> (depends_on nodes)\<^sup>+"
    using c successively_trancl [of "depends_on nodes" x xs] by (auto simp: dependency_cycle_def)
  then show ?thesis by (auto simp: acyclic_def)
qed

lemma acyclic_names:
  assumes "acyclic (edge_rel (new_graph nodes))"
  shows "acyclic (depends_on nodes)"
proof -
  let ?g = "new_graph nodes"
  let ?id = "\<lambda>x. the (dg_ids ?g x)"
  have id: "?id a < length (dg_names ?g) \<and> dg_names ?g ! ?id a = a" if "a \<in> fst ` set nodes" for a
    using that new_graph_ok(1,2) [of nodes] unfolding ids_ok_def
    by (metis in_set_conv_nth option.sel)
  have decl: "a \<in> fst ` set nodes \<and> b \<in> fst ` set nodes" if "(a, b) \<in> depends_on nodes" for a b
    using that by (force simp: depends_on_def dest!: map_of_SomeD)
  have edge: "(?id a, ?id b) \<in> edge_rel ?g" if "(a, b) \<in> depends_on nodes" for a b
    using that decl [OF that] id [of a] id [of b] new_graph_edges [of "?id a" nodes "?id b"] new_graph_ok(3) [of nodes]
    by (simp add: edge_rel_def)
  have "(?id a, ?id b) \<in> (edge_rel ?g)\<^sup>+" if "(a, b) \<in> (depends_on nodes)\<^sup>+" for a b
    using that by (induction rule: trancl_induct) (auto intro: edge trancl_into_trancl)
  then show ?thesis using assms by (auto simp: acyclic_def)
qed

lemma cycles_ok:
  "\<exists>cs. cycles (new_graph nodes) = Some cs \<and> list_all (dependency_cycle nodes) cs
    \<and> (cs = [] \<longleftrightarrow> acyclic (depends_on nodes))"
proof -
  obtain cs where cs: "cycles (new_graph nodes) = Some cs" "list_all (closed_walk (new_graph nodes)) cs"
    "cs = [] \<Longrightarrow> acyclic (edge_rel (new_graph nodes))" using cycles_index [of "new_graph nodes"] by auto
  have all: "list_all (dependency_cycle nodes) cs"
    using cs(2) closed_walk_cycle by (auto simp: list_all_iff)
  have "cs = [] \<longleftrightarrow> acyclic (depends_on nodes)"
    using cs(3) acyclic_names all dependency_cycle_not_acyclic by (cases cs) auto
  then show ?thesis using cs(1) all by blast
qed

text \<open>C16. The search for dependency cycles never panics and always ends, every cycle it reports is
  a cycle of the declared dependencies, closed by its first name, and it reports none exactly when
  the dependencies are acyclic.\<close>

theorem cycles_sound_and_complete:
  "\<exists>cs. cycles (new_graph nodes) = Some cs \<and> list_all (dependency_cycle nodes) cs
    \<and> (cs = [] \<longleftrightarrow> acyclic (depends_on nodes))"
  by (rule cycles_ok)

end
