(* ===== verification/Mission_Graph.thy ===== *)
theory Mission_Graph
  imports Mission_Model Dependency_Graph
begin

text \<open>
  The flat view of a mission file, \<open>crates/game/src/eu4/mission/graph.rs\<close>: the effective layout,
  the spatial rule for dependency edges, the edges that violate it, and where a created or moved
  mission goes.
\<close>

record mission_loc =
  loc_tree :: nat
  loc_mission :: nat
  loc_slot :: cell
  loc_position :: cell

text \<open>The inner loop of \<open>effective_layout\<close>: \<open>next_position\<close> is one more than the last position.\<close>

fun tree_layout :: "nat \<Rightarrow> cell \<Rightarrow> nat \<Rightarrow> cell \<Rightarrow> mission list \<Rightarrow> mission_loc list" where
  "tree_layout tree_index slot mission_index next_position [] = []"
| "tree_layout tree_index slot mission_index next_position (mission # missions) =
    (let position = (case ms_position mission of None \<Rightarrow> next_position | Some p \<Rightarrow> p)
     in \<lparr>loc_tree = tree_index, loc_mission = mission_index, loc_slot = slot, loc_position = position\<rparr>
        # tree_layout tree_index slot (Suc mission_index) (position + 1) missions)"

definition effective_layout :: "mission_file \<Rightarrow> mission_loc list" where
  "effective_layout file =
    concat (map (\<lambda>(tree_index, tree).
        if mt_missions tree = [] then []
        else tree_layout tree_index (mt_slot tree) 0 1 (mt_missions tree))
      (enumerate 0 (mf_trees file)))"

text \<open>
  The position after the last 32-bit one wraps to row 0, above everything (a build with overflow
  checks panics instead).
\<close>

lemma layout_position_wraps:
  "map loc_position (tree_layout 0 1 0 1
     [(empty_mission ''a'')\<lparr>ms_position := Some 4294967295\<rparr>, empty_mission ''b'']) = [4294967295, 0]"
  by (simp add: empty_mission_def Let_def)

definition is_spatially_legal :: "mission_loc \<Rightarrow> mission_loc \<Rightarrow> bool" where
  "is_spatially_legal prereq dependent \<longleftrightarrow>
    loc_position prereq = saturating_sub (loc_position dependent) 1
    \<or> (loc_slot prereq = loc_slot dependent \<and> loc_position prereq < loc_position dependent)"

record spatial_violation =
  sv_tree :: nat
  sv_mission :: nat
  sv_required :: string
  sv_required_index :: nat

definition mission_at :: "mission_file \<Rightarrow> mission_loc \<Rightarrow> mission" where
  "mission_at file loc = mt_missions (mf_trees file ! loc_tree loc) ! loc_mission loc"

text \<open>The map from ids to places that both \<open>spatial_violations\<close> and \<open>check_edge_placement\<close>
  collect: the last mission of an id wins.\<close>

definition loc_of :: "mission_file \<Rightarrow> (string \<rightharpoonup> mission_loc)" where
  "loc_of file = map_of (rev (map (\<lambda>loc. (ms_id (mission_at file loc), loc)) (effective_layout file)))"

definition mission_violations :: "mission_file \<Rightarrow> mission_loc \<Rightarrow> spatial_violation list" where
  "mission_violations file loc =
    concat (map (\<lambda>(required_index, required).
        case loc_of file required of
          None \<Rightarrow> []
        | Some prereq \<Rightarrow>
            if is_spatially_legal prereq loc then []
            else [\<lparr>sv_tree = loc_tree loc, sv_mission = loc_mission loc,
                   sv_required = required, sv_required_index = required_index\<rparr>])
      (enumerate 0 (ms_required (mission_at file loc))))"

definition spatial_violations :: "mission_file \<Rightarrow> spatial_violation list" where
  "spatial_violations file = concat (map (mission_violations file) (effective_layout file))"

datatype create_error = OccupiedCell | MultipleGroups cell

datatype create_target = NewGroup | JoinGroup nat | Rejected create_error

datatype group_target = NewGroupTarget | ExistingGroup nat | RejectedGroup create_error

definition group_target_of :: "mission_file \<Rightarrow> cell \<Rightarrow> group_target" where
  "group_target_of file column =
    (let slot = saturating_add column 1;
         trees = map fst (filter (\<lambda>(_, tree). mt_slot tree = slot) (enumerate 0 (mf_trees file)))
     in case trees of
          [] \<Rightarrow> NewGroupTarget
        | [tree] \<Rightarrow> ExistingGroup tree
        | _ \<Rightarrow> RejectedGroup (MultipleGroups column))"

definition creation_target :: "mission_file \<Rightarrow> cell \<Rightarrow> cell \<Rightarrow> create_target" where
  "creation_target file column0 row0 =
    (let column = saturating_add column0 1; row = saturating_add row0 1
     in if \<exists>loc \<in> set (effective_layout file). loc_slot loc = column \<and> loc_position loc = row
        then Rejected OccupiedCell
        else (case group_target_of file (column - 1) of
                ExistingGroup tree \<Rightarrow> JoinGroup tree
              | NewGroupTarget \<Rightarrow> NewGroup
              | RejectedGroup e \<Rightarrow> Rejected e))"

definition group_members :: "mission_file \<Rightarrow> nat \<Rightarrow> nat list" where
  "group_members file tree_index =
    (case vec_get (mf_trees file) tree_index of
       None \<Rightarrow> [] | Some tree \<Rightarrow> [0..<length (mt_missions tree)])"

subsection \<open>The layout lists every mission once, in file order\<close>

lemma tree_layout_nth:
  "length (tree_layout t slot i p missions) = length missions"
  "k < length missions \<Longrightarrow>
    (let l = tree_layout t slot i p missions ! k
     in loc_tree l = t \<and> loc_mission l = i + k \<and> loc_slot l = slot
      \<and> loc_position l = (case ms_position (missions ! k) of
           Some q \<Rightarrow> q
         | None \<Rightarrow> if k = 0 then p else loc_position (tree_layout t slot i p missions ! (k - 1)) + 1))"
proof (induction missions arbitrary: i p k)
  case (Cons m ms)
  { case 1 show ?case using Cons.IH(1) by (simp add: Let_def) }
  { case 2 show ?case
    proof (cases k)
      case 0
      then show ?thesis by (simp add: Let_def split: option.splits)
    next
      case (Suc j)
      then show ?thesis using 2 Cons.IH(2) [of j "Suc i"]
        by (cases j) (auto simp: Let_def split: option.splits)
    qed }
qed simp_all

lemma effective_layout_alt:
  "effective_layout file =
    concat (map (\<lambda>(i, tree). tree_layout i (mt_slot tree) 0 1 (mt_missions tree)) (enumerate 0 (mf_trees file)))"
  unfolding effective_layout_def by (intro arg_cong [where f = concat] map_cong) auto

lemma effective_layout_set:
  "loc \<in> set (effective_layout file) \<longleftrightarrow>
    (\<exists>i k. i < length (mf_trees file) \<and> k < length (mt_missions (mf_trees file ! i))
      \<and> loc = tree_layout i (mt_slot (mf_trees file ! i)) 0 1 (mt_missions (mf_trees file ! i)) ! k)"
proof -
  let ?row = "\<lambda>i t. tree_layout i (mt_slot t) 0 1 (mt_missions t)"
  have "loc \<in> set (effective_layout file) \<longleftrightarrow>
      (\<exists>i < length (mf_trees file). loc \<in> set (?row i (mf_trees file ! i)))"
    by (auto simp: effective_layout_alt set_enumerate Bex_def)
  moreover have "loc \<in> set (?row i t) \<longleftrightarrow> (\<exists>k < length (mt_missions t). loc = ?row i t ! k)" for i t
    by (auto simp: in_set_conv_nth tree_layout_nth(1))
  ultimately show ?thesis by blast
qed

lemma effective_layout_in_range:
  assumes "loc \<in> set (effective_layout file)"
  shows "loc_tree loc < length (mf_trees file)"
    "loc_mission loc < length (mt_missions (mf_trees file ! loc_tree loc))"
    "loc_slot loc = mt_slot (mf_trees file ! loc_tree loc)"
    "mission_at file loc \<in> set (all_missions file)"
proof -
  obtain i k where ik: "i < length (mf_trees file)" "k < length (mt_missions (mf_trees file ! i))"
    "loc = tree_layout i (mt_slot (mf_trees file ! i)) 0 1 (mt_missions (mf_trees file ! i)) ! k"
    using assms effective_layout_set by blast
  then have l: "loc_tree loc = i" "loc_mission loc = k" "loc_slot loc = mt_slot (mf_trees file ! i)"
    using tree_layout_nth(2) [OF ik(2)] by (simp_all add: Let_def)
  then show "loc_tree loc < length (mf_trees file)"
    "loc_mission loc < length (mt_missions (mf_trees file ! loc_tree loc))"
    "loc_slot loc = mt_slot (mf_trees file ! loc_tree loc)" using ik by simp_all
  show "mission_at file loc \<in> set (all_missions file)"
    using ik l by (auto simp: mission_at_def all_missions_def intro!: bexI [of _ "mf_trees file ! i"])
qed

definition written_position :: "mission_loc option \<Rightarrow> mission \<Rightarrow> cell" where
  "written_position previous mission =
    (case ms_position mission of
       Some p \<Rightarrow> p
     | None \<Rightarrow> (case previous of None \<Rightarrow> 1 | Some loc \<Rightarrow> loc_position loc + 1))"

text \<open>The layout has one place for every mission of a file, in file order: its column is the slot
  of the tree, its row the written position, or else one more than the row of the mission before
  it in the tree (one for the first).\<close>

lemma effective_layout_places:
  "map (\<lambda>loc. (loc_tree loc, loc_mission loc, loc_slot loc)) (effective_layout file)
      = concat (map (\<lambda>(i, tree). map (\<lambda>k. (i, k, mt_slot tree)) [0..<length (mt_missions tree)])
          (enumerate 0 (mf_trees file)))
    \<and> list_all (\<lambda>j. let loc = effective_layout file ! j
        in loc_position loc = written_position
             (if loc_mission loc = 0 then None else Some (effective_layout file ! (j - 1)))
             (mission_at file loc)) [0..<length (effective_layout file)]"
proof
  have row: "map (\<lambda>loc. (loc_tree loc, loc_mission loc, loc_slot loc)) (tree_layout i slot 0 p missions)
      = map (\<lambda>k. (i, k, slot)) [0..<length missions]" for i slot p missions
    using tree_layout_nth by (intro nth_equalityI) (simp_all add: Let_def)
  show "map (\<lambda>loc. (loc_tree loc, loc_mission loc, loc_slot loc)) (effective_layout file)
      = concat (map (\<lambda>(i, tree). map (\<lambda>k. (i, k, mt_slot tree)) [0..<length (mt_missions tree)])
          (enumerate 0 (mf_trees file)))"
    unfolding effective_layout_alt map_concat map_map
    by (intro arg_cong [where f = concat] map_cong) (auto simp: row simp del: map_map)
  show "list_all (\<lambda>j. let loc = effective_layout file ! j
        in loc_position loc = written_position
             (if loc_mission loc = 0 then None else Some (effective_layout file ! (j - 1)))
             (mission_at file loc)) [0..<length (effective_layout file)]"
    unfolding list_all_iff
  proof (intro ballI)
    fix j assume "j \<in> set [0..<length (effective_layout file)]"
    then have j: "j < length (effective_layout file)" by simp
    let ?rows = "map (\<lambda>(i, tree). tree_layout i (mt_slot tree) 0 1 (mt_missions tree)) (enumerate 0 (mf_trees file))"
    obtain r k where rk: "r < length ?rows" "k < length (?rows ! r)"
      "effective_layout file ! j = ?rows ! r ! k"
      "0 < k \<longrightarrow> effective_layout file ! (j - 1) = ?rows ! r ! (k - 1)"
      using nth_concat_predecessor [of j ?rows] j unfolding effective_layout_alt by blast
    let ?t = "mf_trees file ! r"
    have row: "?rows ! r = tree_layout r (mt_slot ?t) 0 1 (mt_missions ?t)"
      using rk(1) by (simp add: nth_enumerate_eq)
    then have k: "k < length (mt_missions ?t)" using rk(2) by (simp add: tree_layout_nth(1))
    show "let loc = effective_layout file ! j
        in loc_position loc = written_position
             (if loc_mission loc = 0 then None else Some (effective_layout file ! (j - 1)))
             (mission_at file loc)"
      using tree_layout_nth(2) [OF k, of r "mt_slot ?t" 0 1] rk(3,4) row
      by (auto simp: Let_def written_position_def mission_at_def split: option.splits)
  qed
qed

subsection \<open>Legal edges and cycles\<close>

definition mission_nodes :: "mission_file \<Rightarrow> named_node list" where
  "mission_nodes file = map (\<lambda>m. (ms_id m, ms_required m)) (all_missions file)"

lemma mission_at_layout: "map (mission_at file) (effective_layout file) = all_missions file"
proof -
  have row: "map (mission_at file) (tree_layout i slot 0 p (mt_missions (mf_trees file ! i))) = mt_missions (mf_trees file ! i)"
    for i slot p
    using tree_layout_nth by (intro nth_equalityI) (simp_all add: Let_def mission_at_def)
  have "map (mission_at file) (effective_layout file) = concat (map (\<lambda>(i, tree). mt_missions tree) (enumerate 0 (mf_trees file)))"
    unfolding effective_layout_alt map_concat map_map
    by (intro arg_cong [where f = concat] map_cong) (auto simp: row set_enumerate simp del: map_map)
  also have "map (\<lambda>(i, tree). mt_missions tree) (enumerate 0 (mf_trees file)) = map mt_missions (map snd (enumerate 0 (mf_trees file)))"
    by (simp only: map_map comp_def case_prod_unfold)
  also have "map snd (enumerate 0 (mf_trees file)) = mf_trees file" by simp
  finally show ?thesis by (simp add: all_missions_def)
qed

lemma map_of_rev_images:
  "map_of (rev (map (\<lambda>l. (k l, f l)) ls)) a = map_option f (map_of (rev (map (\<lambda>l. (k l, l)) ls)) a)"
  by (induction ls) (auto simp: map_add_def split: option.splits)

lemma mission_nodes_lookup:
  "map_of (rev (mission_nodes file)) a = map_option (\<lambda>loc. ms_required (mission_at file loc)) (loc_of file a)"
proof -
  have nodes: "mission_nodes file
      = map (\<lambda>loc. (ms_id (mission_at file loc), ms_required (mission_at file loc))) (effective_layout file)"
    unfolding mission_nodes_def by (simp add: mission_at_layout [symmetric])
  show ?thesis unfolding loc_of_def nodes by (rule map_of_rev_images)
qed

lemma loc_of_Some: "loc_of file a = Some loc \<Longrightarrow> loc \<in> set (effective_layout file) \<and> ms_id (mission_at file loc) = a"
  by (auto simp: loc_of_def dest!: map_of_SomeD)

lemma loc_of_declared: "a \<in> fst ` set (mission_nodes file) \<Longrightarrow> loc_of file a \<noteq> None"
proof
  assume "a \<in> fst ` set (mission_nodes file)" "loc_of file a = None"
  then show False using mission_nodes_lookup [of "file" a] by (simp add: map_of_eq_None_iff)
qed

lemma spatial_violations_none:
  assumes "spatial_violations file = []" "loc_of file a = Some loc"
    "required \<in> set (ms_required (mission_at file loc))" "loc_of file required = Some prereq"
  shows "is_spatially_legal prereq loc"
proof -
  have none: "mission_violations file loc = []"
    using assms(1) loc_of_Some [OF assms(2)] by (auto simp: spatial_violations_def)
  obtain i where "i < length (ms_required (mission_at file loc))" "ms_required (mission_at file loc) ! i = required"
    using assms(3) by (auto simp: in_set_conv_nth)
  then have "(i, required) \<in> set (enumerate 0 (ms_required (mission_at file loc)))"
    by (auto simp: set_enumerate)
  with none show ?thesis using assms(4)
    by (auto simp: mission_violations_def split: if_splits)
qed

lemma legal_edge_descends:
  "is_spatially_legal prereq dependent \<Longrightarrow> 0 < loc_position dependent \<Longrightarrow>
    unat (loc_position prereq) < unat (loc_position dependent)"
  by (auto simp: is_spatially_legal_def unat_saturating_sub word_less_nat_alt)

lemma legal_file_acyclic:
  assumes "spatial_violations file = []"
    and pos: "\<And>loc. loc \<in> set (effective_layout file) \<Longrightarrow> 0 < loc_position loc"
  shows "acyclic (depends_on (mission_nodes file))"
proof (rule wf_acyclic, rule wf_subset [OF wf_measure])
  let ?row = "\<lambda>a. unat (loc_position (the (loc_of file a)))"
  let ?top = "\<lambda>a. 2 ^ 32 - ?row a"
  show "depends_on (mission_nodes file) \<subseteq> measure ?top"
  proof clarify
    fix a b assume "(a, b) \<in> depends_on (mission_nodes file)"
    then obtain deps where d: "map_of (rev (mission_nodes file)) a = Some deps" "b \<in> set deps"
      and b: "b \<in> fst ` set (mission_nodes file)" by (auto simp: depends_on_def)
    then obtain loc where loc: "loc_of file a = Some loc" "deps = ms_required (mission_at file loc)"
      by (auto simp: mission_nodes_lookup)
    obtain prereq where pre: "loc_of file b = Some prereq" using loc_of_declared [OF b] by blast
    have "is_spatially_legal prereq loc"
      using spatial_violations_none [OF assms(1) loc(1) _ pre] d(2) loc(2) by simp
    then have "unat (loc_position prereq) < unat (loc_position loc)"
      using legal_edge_descends pos loc_of_Some [OF loc(1)] by blast
    moreover have "unat (loc_position loc) < 2 ^ 32" using unsigned_less [of "loc_position loc"] by simp
    ultimately show "(a, b) \<in> measure ?top" using loc(1) pre by simp
  qed
qed

text \<open>C20. In a file whose edges all satisfy the spatial rule and whose missions all sit at row 1 or
  below, the search for dependency cycles finds nothing: the rule makes cycles impossible.\<close>

theorem legal_files_have_no_cycles:
  assumes "spatial_violations file = []"
    and "list_all (\<lambda>loc. 0 < loc_position loc) (effective_layout file)"
  shows "cycles (new_graph (mission_nodes file)) = Some []"
proof -
  have "acyclic (depends_on (mission_nodes file))"
    using assms by (intro legal_file_acyclic) (auto simp: list_all_iff)
  then show ?thesis using cycles_ok [of "mission_nodes file"] by auto
qed

definition two_missions :: mission_file where
  "two_missions = \<lparr>mf_trees = [(empty_tree ''t'')\<lparr>mt_missions :=
     [empty_mission ''a'', (empty_mission ''b'')\<lparr>ms_required := [''a'']\<rparr>]\<rparr>]\<rparr>"

theorem legal_files_have_no_cycles_witness:
  "cycles (new_graph (mission_nodes two_missions)) = Some [] \<and> spatial_violations two_missions = []"
proof -
  have v: "spatial_violations two_missions = []" by code_simp
  have "list_all (\<lambda>loc. 0 < loc_position loc) (effective_layout two_missions)" by code_simp
  with v show ?thesis using legal_files_have_no_cycles [OF v] by blast
qed

subsection \<open>Where a new mission goes\<close>

definition column_groups :: "mission_file \<Rightarrow> cell \<Rightarrow> nat list" where
  "column_groups file slot = filter (\<lambda>i. mt_slot (mf_trees file ! i) = slot) [0..<length (mf_trees file)]"

lemma group_target_groups:
  "group_target_of file column =
    (case column_groups file (saturating_add column 1) of
       [] \<Rightarrow> NewGroupTarget | [i] \<Rightarrow> ExistingGroup i | _ \<Rightarrow> RejectedGroup (MultipleGroups column))"
proof -
  have "map fst (filter (\<lambda>(_, tree). mt_slot tree = slot) (enumerate 0 (mf_trees file))) = column_groups file slot"
    for slot
  proof -
    have "enumerate 0 (mf_trees file) = map (\<lambda>i. (i, mf_trees file ! i)) [0..<length (mf_trees file)]"
      by (intro nth_equalityI) (simp_all add: nth_enumerate_eq)
    then show ?thesis by (simp add: column_groups_def filter_map comp_def)
  qed
  then show ?thesis by (simp add: group_target_of_def Let_def)
qed

lemma saturating_column: "saturating_add (saturating_add column 1 - 1) 1 = saturating_add column 1"
proof -
  have "0 < unat (saturating_add column 1)" by (simp add: unat_saturating_add)
  then have "unat (saturating_add column 1 - 1) = unat (saturating_add column 1) - 1"
    by (simp add: unat_sub word_le_nat_alt)
  then have "unat (saturating_add (saturating_add column 1 - 1) 1) = unat (saturating_add column 1)"
    using \<open>0 < unat (saturating_add column 1)\<close> unsigned_less [of "saturating_add column 1"]
    by (simp add: unat_saturating_add)
  then show ?thesis by (rule iffD2 [OF word_unat_eq_iff])
qed

text \<open>A new mission is refused exactly on an occupied cell or in a column with several groups; it
  joins the only group of its column, and opens a new one only when the column has none.\<close>

lemma creation_target_correct:
  "let slot = saturating_add column 1; row = saturating_add row0 1;
       occupied = (\<exists>loc \<in> set (effective_layout file). loc_slot loc = slot \<and> loc_position loc = row);
       groups = {i. i < length (mf_trees file) \<and> mt_slot (mf_trees file ! i) = slot}
   in case creation_target file column row0 of
        NewGroup \<Rightarrow> \<not> occupied \<and> groups = {}
      | JoinGroup i \<Rightarrow> \<not> occupied \<and> groups = {i}
      | Rejected OccupiedCell \<Rightarrow> occupied
      | Rejected (MultipleGroups _) \<Rightarrow> \<not> occupied \<and> 2 \<le> card groups"
proof -
  let ?slot = "saturating_add column 1"
  let ?gs = "column_groups file ?slot"
  have groups: "{i. i < length (mf_trees file) \<and> mt_slot (mf_trees file ! i) = ?slot} = set ?gs"
    by (auto simp: column_groups_def)
  have "distinct ?gs" by (simp add: column_groups_def)
  then have "card (set ?gs) = length ?gs" by (rule distinct_card)
  then show ?thesis unfolding Let_def groups creation_target_def group_target_groups saturating_column
    by (auto split: list.splits)
qed

end
