(* ===== verification/Mission_Edit.thy ===== *)
theory Mission_Edit
  imports Mission_Graph Format_Edits
begin

text \<open>
  The editing operations of \<open>crates/game/src/eu4/mission/edit.rs\<close>.  Each takes the file and gives
  the \<open>Result\<close> of the source with the file as the call leaves it, on errors too: \<open>&mut self\<close> keeps
  what was written before an early return.  A \<open>&mut\<close> reference that an operation returns or looks
  up is the element it points at, updated in place (\<open>update_tree\<close>, \<open>update_mission\<close>).
\<close>

datatype edit_error =
    DuplicateTreeId string
  | DuplicateMissionId string
  | TreeNotFound string
  | MissionNotFound string
  | SelfDependency string
  | IllegalEdgePlacement string string
  | CellOccupied cell cell
  | AmbiguousColumn cell
  | EmptyId

type_synonym edit_result = "(edit_error + unit) \<times> mission_file"

datatype block_field = Trigger | Effect

datatype tree_block_field = Potential | PotentialOnLoad

definition validate_id :: "string \<Rightarrow> edit_error + unit" where
  "validate_id name = (if trim name = [] then Inl EmptyId else Inr ())"

definition find_tree :: "mission_file \<Rightarrow> string \<Rightarrow> edit_error + mission_tree" where
  "find_tree file tree_id =
    (case find (\<lambda>t. mt_id t = tree_id) (mf_trees file) of
       None \<Rightarrow> Inl (TreeNotFound tree_id) | Some tree \<Rightarrow> Inr tree)"

definition find_mission :: "mission_file \<Rightarrow> string \<Rightarrow> string \<Rightarrow> edit_error + mission" where
  "find_mission file tree_id mission_id =
    (case find_tree file tree_id of
       Inl e \<Rightarrow> Inl e
     | Inr tree \<Rightarrow>
        (case find (\<lambda>m. ms_id m = mission_id) (mt_missions tree) of
           None \<Rightarrow> Inl (MissionNotFound mission_id) | Some mission \<Rightarrow> Inr mission))"

definition update_tree :: "string \<Rightarrow> (mission_tree \<Rightarrow> mission_tree) \<Rightarrow> mission_file \<Rightarrow> mission_file" where
  "update_tree tree_id f file =
    file\<lparr>mf_trees := update_first (\<lambda>t. mt_id t = tree_id) f (mf_trees file)\<rparr>"

definition update_mission ::
    "string \<Rightarrow> string \<Rightarrow> (mission \<Rightarrow> mission) \<Rightarrow> mission_file \<Rightarrow> mission_file" where
  "update_mission tree_id mission_id f =
    update_tree tree_id
      (\<lambda>t. t\<lparr>mt_missions := update_first (\<lambda>m. ms_id m = mission_id) f (mt_missions t)\<rparr>)"

subsection \<open>Trees and missions\<close>

definition add_tree :: "mission_file \<Rightarrow> string \<Rightarrow> edit_result" where
  "add_tree file name =
    (case validate_id name of
       Inl e \<Rightarrow> (Inl e, file)
     | Inr _ \<Rightarrow>
        if \<exists>t \<in> set (mf_trees file). mt_id t = name then (Inl (DuplicateTreeId name), file)
        else (Inr (), file\<lparr>mf_trees := mf_trees file @ [empty_tree name]\<rparr>))"

definition remove_tree :: "mission_file \<Rightarrow> string \<Rightarrow> edit_result" where
  "remove_tree file tree_id =
    (let kept = filter (\<lambda>t. mt_id t \<noteq> tree_id) (mf_trees file);
         file' = file\<lparr>mf_trees := kept\<rparr>
     in if length kept = length (mf_trees file) then (Inl (TreeNotFound tree_id), file')
        else (Inr (), file'))"

definition rename_tree :: "mission_file \<Rightarrow> string \<Rightarrow> string \<Rightarrow> edit_result" where
  "rename_tree file old_id new_id =
    (case validate_id new_id of
       Inl e \<Rightarrow> (Inl e, file)
     | Inr _ \<Rightarrow>
        if \<exists>t \<in> set (mf_trees file). mt_id t = new_id then (Inl (DuplicateTreeId new_id), file)
        else (case find_tree file old_id of
                Inl e \<Rightarrow> (Inl e, file)
              | Inr _ \<Rightarrow> (Inr (), update_tree old_id (\<lambda>t. t\<lparr>mt_id := new_id\<rparr>) file)))"

definition add_mission :: "mission_file \<Rightarrow> string \<Rightarrow> string \<Rightarrow> edit_result" where
  "add_mission file tree_id name =
    (case validate_id name of
       Inl e \<Rightarrow> (Inl e, file)
     | Inr _ \<Rightarrow>
        (case find_tree file tree_id of
           Inl e \<Rightarrow> (Inl e, file)
         | Inr tree \<Rightarrow>
            if \<exists>m \<in> set (mt_missions tree). ms_id m = name then (Inl (DuplicateMissionId name), file)
            else (Inr (), update_tree tree_id
                    (\<lambda>t. t\<lparr>mt_missions := mt_missions t @ [empty_mission name]\<rparr>) file)))"

definition remove_mission :: "mission_file \<Rightarrow> string \<Rightarrow> string \<Rightarrow> edit_result" where
  "remove_mission file tree_id mission_id =
    (case find_tree file tree_id of
       Inl e \<Rightarrow> (Inl e, file)
     | Inr tree \<Rightarrow>
        (let kept = filter (\<lambda>m. ms_id m \<noteq> mission_id) (mt_missions tree)
         in if length kept = length (mt_missions tree)
            then (Inl (MissionNotFound mission_id), update_tree tree_id (\<lambda>t. t\<lparr>mt_missions := kept\<rparr>) file)
            else (Inr (), update_tree tree_id
                    (\<lambda>t. t\<lparr>mt_missions :=
                        map (\<lambda>m. m\<lparr>ms_required := filter (\<lambda>r. r \<noteq> mission_id) (ms_required m)\<rparr>) kept\<rparr>) file)))"

definition rename_references :: "string \<Rightarrow> string \<Rightarrow> mission_file \<Rightarrow> mission_file" where
  "rename_references old_id new_id file =
    file\<lparr>mf_trees := map (\<lambda>t. t\<lparr>mt_missions :=
        map (\<lambda>m. m\<lparr>ms_required := map (\<lambda>r. if r = old_id then new_id else r) (ms_required m)\<rparr>)
          (mt_missions t)\<rparr>) (mf_trees file)\<rparr>"

definition rename_mission :: "mission_file \<Rightarrow> string \<Rightarrow> string \<Rightarrow> string \<Rightarrow> edit_result" where
  "rename_mission file tree_id old_id new_id =
    (case validate_id new_id of
       Inl e \<Rightarrow> (Inl e, file)
     | Inr _ \<Rightarrow>
        (case find_tree file tree_id of
           Inl e \<Rightarrow> (Inl e, file)
         | Inr tree \<Rightarrow>
            if \<exists>m \<in> set (mt_missions tree). ms_id m = new_id
            then (Inl (DuplicateMissionId new_id), file)
            else (case find_mission file tree_id old_id of
                    Inl e \<Rightarrow> (Inl e, file)
                  | Inr _ \<Rightarrow>
                     (Inr (), rename_references old_id new_id
                        (update_mission tree_id old_id (\<lambda>m. m\<lparr>ms_id := new_id\<rparr>) file)))))"

subsection \<open>Dependencies\<close>

definition check_edge_placement :: "mission_file \<Rightarrow> string \<Rightarrow> string \<Rightarrow> edit_error + unit" where
  "check_edge_placement file mission_id required_id =
    (case (loc_of file mission_id, loc_of file required_id) of
       (Some dependent, Some prereq) \<Rightarrow>
         if is_spatially_legal prereq dependent then Inr ()
         else Inl (IllegalEdgePlacement mission_id required_id)
     | _ \<Rightarrow> Inr ())"

definition add_required :: "mission_file \<Rightarrow> string \<Rightarrow> string \<Rightarrow> string \<Rightarrow> edit_result" where
  "add_required file tree_id mission_id required_id =
    (if required_id = mission_id then (Inl (SelfDependency mission_id), file)
     else (case find_mission file tree_id mission_id of
        Inl e \<Rightarrow> (Inl e, file)
      | Inr mission \<Rightarrow>
         if required_id \<in> set (ms_required mission) then (Inr (), file)
         else (case check_edge_placement file mission_id required_id of
                 Inl e \<Rightarrow> (Inl e, file)
               | Inr _ \<Rightarrow> (Inr (), update_mission tree_id mission_id
                             (\<lambda>m. m\<lparr>ms_required := ms_required m @ [required_id]\<rparr>) file))))"

definition remove_required :: "mission_file \<Rightarrow> string \<Rightarrow> string \<Rightarrow> string \<Rightarrow> edit_result" where
  "remove_required file tree_id mission_id required_id =
    (case find_mission file tree_id mission_id of
       Inl e \<Rightarrow> (Inl e, file)
     | Inr _ \<Rightarrow> (Inr (), update_mission tree_id mission_id
                   (\<lambda>m. m\<lparr>ms_required := filter (\<lambda>r. r \<noteq> required_id) (ms_required m)\<rparr>) file))"

text \<open>The filter over \<open>seen.insert(..)\<close>: the first occurrence of each name stays.\<close>

fun first_occurrences :: "string set \<Rightarrow> string list \<Rightarrow> string list" where
  "first_occurrences seen [] = []"
| "first_occurrences seen (r # rs) =
    (if r \<in> seen then first_occurrences seen rs else r # first_occurrences (insert r seen) rs)"

fun check_edges :: "mission_file \<Rightarrow> string \<Rightarrow> string list \<Rightarrow> edit_error + unit" where
  "check_edges file mission_id [] = Inr ()"
| "check_edges file mission_id (r # rs) =
    (case check_edge_placement file mission_id r of
       Inl e \<Rightarrow> Inl e | Inr _ \<Rightarrow> check_edges file mission_id rs)"

definition set_required :: "mission_file \<Rightarrow> string \<Rightarrow> string \<Rightarrow> string list \<Rightarrow> edit_result" where
  "set_required file tree_id mission_id required =
    (case find_mission file tree_id mission_id of
       Inl e \<Rightarrow> (Inl e, file)
     | Inr _ \<Rightarrow>
        if mission_id \<in> set required then (Inl (SelfDependency mission_id), file)
        else (case check_edges file mission_id required of
                Inl e \<Rightarrow> (Inl e, file)
              | Inr _ \<Rightarrow> (Inr (), update_mission tree_id mission_id
                            (\<lambda>m. m\<lparr>ms_required := first_occurrences {} required\<rparr>) file)))"

subsection \<open>Scalar fields and blocks\<close>

definition set_mission :: "(mission \<Rightarrow> mission) \<Rightarrow> mission_file \<Rightarrow> string \<Rightarrow> string \<Rightarrow> edit_result" where
  "set_mission f file tree_id mission_id =
    (case find_mission file tree_id mission_id of
       Inl e \<Rightarrow> (Inl e, file) | Inr _ \<Rightarrow> (Inr (), update_mission tree_id mission_id f file))"

definition non_blank :: "string option \<Rightarrow> string option" where
  "non_blank v = (case v of None \<Rightarrow> None | Some s \<Rightarrow> if trim s = [] then None else Some s)"

definition trimmed_block :: "string option \<Rightarrow> mission_block option" where
  "trimmed_block v =
    (case v of None \<Rightarrow> None | Some s \<Rightarrow> if trim s = [] then None else Some (new_block (trim s)))"

definition set_mission_position :: "mission_file \<Rightarrow> string \<Rightarrow> string \<Rightarrow> cell option \<Rightarrow> edit_result" where
  "set_mission_position file tree_id mission_id p =
    set_mission (\<lambda>m. m\<lparr>ms_position := p\<rparr>) file tree_id mission_id"

definition set_mission_icon :: "mission_file \<Rightarrow> string \<Rightarrow> string \<Rightarrow> string option \<Rightarrow> edit_result" where
  "set_mission_icon file tree_id mission_id icon =
    set_mission (\<lambda>m. m\<lparr>ms_icon := non_blank icon\<rparr>) file tree_id mission_id"

definition set_mission_completed_by :: "mission_file \<Rightarrow> string \<Rightarrow> string \<Rightarrow> string option \<Rightarrow> edit_result" where
  "set_mission_completed_by file tree_id mission_id completed_by =
    set_mission (\<lambda>m. m\<lparr>ms_completed_by := non_blank completed_by\<rparr>) file tree_id mission_id"

definition set_mission_block ::
    "mission_file \<Rightarrow> string \<Rightarrow> string \<Rightarrow> block_field \<Rightarrow> string option \<Rightarrow> edit_result" where
  "set_mission_block file tree_id mission_id field s =
    set_mission (\<lambda>m. case field of
        Trigger \<Rightarrow> m\<lparr>ms_trigger := trimmed_block s\<rparr>
      | Effect \<Rightarrow> m\<lparr>ms_effect := trimmed_block s\<rparr>) file tree_id mission_id"

definition set_tree :: "(mission_tree \<Rightarrow> mission_tree) \<Rightarrow> mission_file \<Rightarrow> string \<Rightarrow> edit_result" where
  "set_tree f file tree_id =
    (case find_tree file tree_id of
       Inl e \<Rightarrow> (Inl e, file) | Inr _ \<Rightarrow> (Inr (), update_tree tree_id f file))"

definition set_tree_block :: "mission_file \<Rightarrow> string \<Rightarrow> tree_block_field \<Rightarrow> string option \<Rightarrow> edit_result" where
  "set_tree_block file tree_id field s =
    set_tree (\<lambda>t. case field of
        Potential \<Rightarrow> t\<lparr>mt_potential := trimmed_block s\<rparr>
      | PotentialOnLoad \<Rightarrow> t\<lparr>mt_potential_on_load := trimmed_block s\<rparr>) file tree_id"

definition set_tree_slot :: "mission_file \<Rightarrow> string \<Rightarrow> cell \<Rightarrow> edit_result" where
  "set_tree_slot file tree_id slot = set_tree (\<lambda>t. t\<lparr>mt_slot := slot\<rparr>) file tree_id"

definition set_tree_generic :: "mission_file \<Rightarrow> string \<Rightarrow> bool \<Rightarrow> edit_result" where
  "set_tree_generic file tree_id g = set_tree (\<lambda>t. t\<lparr>mt_generic := g\<rparr>) file tree_id"

definition set_tree_ai :: "mission_file \<Rightarrow> string \<Rightarrow> bool option \<Rightarrow> edit_result" where
  "set_tree_ai file tree_id ai = set_tree (\<lambda>t. t\<lparr>mt_ai := ai\<rparr>) file tree_id"

definition set_tree_country_shield :: "mission_file \<Rightarrow> string \<Rightarrow> bool option \<Rightarrow> edit_result" where
  "set_tree_country_shield file tree_id shield =
    set_tree (\<lambda>t. t\<lparr>mt_has_country_shield := shield\<rparr>) file tree_id"

text \<open>\<open>move_mission\<close> takes the mission out of its tree before it looks for the target.\<close>

definition move_mission :: "mission_file \<Rightarrow> string \<Rightarrow> string \<Rightarrow> string \<Rightarrow> edit_result" where
  "move_mission file tree_id mission_id target_id =
    (if tree_id = target_id then (Inr (), file)
     else (case find_tree file tree_id of
        Inl e \<Rightarrow> (Inl e, file)
      | Inr tree \<Rightarrow>
         (case position_of (\<lambda>m. ms_id m = mission_id) (mt_missions tree) of
            None \<Rightarrow> (Inl (MissionNotFound mission_id), file)
          | Some index \<Rightarrow>
             (let mission = mt_missions tree ! index;
                  rest = take index (mt_missions tree) @ drop (Suc index) (mt_missions tree);
                  taken = update_tree tree_id (\<lambda>t. t\<lparr>mt_missions := rest\<rparr>) file
              in case find_tree taken target_id of
                   Inl e \<Rightarrow> (Inl e, taken)
                 | Inr target \<Rightarrow>
                    if \<exists>m \<in> set (mt_missions target). ms_id m = ms_id mission
                    then (Inl (DuplicateMissionId (ms_id mission)), taken)
                    else (Inr (), update_tree target_id
                            (\<lambda>t. t\<lparr>mt_missions := mt_missions t @ [mission]\<rparr>) taken)))))"

subsection \<open>Ids stay unique\<close>

definition missions_ok :: "mission_tree \<Rightarrow> bool" where
  "missions_ok tree \<longleftrightarrow> distinct (map ms_id (mt_missions tree))
    \<and> list_all (\<lambda>m. trim (ms_id m) \<noteq> []) (mt_missions tree)"

definition file_ok :: "mission_file \<Rightarrow> bool" where
  "file_ok file \<longleftrightarrow> distinct (map mt_id (mf_trees file))
    \<and> list_all (\<lambda>t. trim (mt_id t) \<noteq> [] \<and> missions_ok t) (mf_trees file)"

lemma find_tree_Inr:
  "find_tree file tree_id = Inr tree \<longleftrightarrow> find (\<lambda>t. mt_id t = tree_id) (mf_trees file) = Some tree"
  by (simp add: find_tree_def split: option.splits)

lemma update_tree_found:
  assumes "find_tree file tree_id = Inr tree"
  obtains as bs where "mf_trees file = as @ tree # bs" "mt_id tree = tree_id"
    "\<And>f. mf_trees (update_tree tree_id f file) = as @ f tree # bs"
proof -
  obtain as bs where "mf_trees file = as @ tree # bs" "mt_id tree = tree_id"
    and before: "\<forall>a \<in> set as. mt_id a \<noteq> tree_id"
    using update_first_found assms unfolding find_tree_Inr by fastforce
  moreover have "update_first (\<lambda>t. mt_id t = tree_id) f (as @ tree # bs) = as @ f tree # bs" for f
    using before \<open>mt_id tree = tree_id\<close> by (induction as) simp_all
  ultimately show thesis by (intro that) (simp_all add: update_tree_def)
qed

lemma update_tree_ok:
  assumes "file_ok file" and find: "find_tree file tree_id = Inr tree" and "missions_ok (f tree)"
    and "mt_id (f tree) = tree_id
      \<or> trim (mt_id (f tree)) \<noteq> [] \<and> mt_id (f tree) \<notin> mt_id ` set (mf_trees file)"
  shows "file_ok (update_tree tree_id f file)"
proof -
  obtain as bs where "mf_trees file = as @ tree # bs" "mt_id tree = tree_id"
    "\<And>f. mf_trees (update_tree tree_id f file) = as @ f tree # bs"
    by (rule update_tree_found [OF find]) blast
  then show ?thesis using assms by (fastforce simp: file_ok_def)
qed

lemma find_tree_ok: "file_ok file \<Longrightarrow> find_tree file tree_id = Inr tree \<Longrightarrow> missions_ok tree"
  by (auto simp: file_ok_def find_tree_Inr list_all_iff dest: find_Some_set)

lemma update_first_missions_ok:
  assumes "missions_ok tree" and "find (\<lambda>m. ms_id m = mission_id) (mt_missions tree) = Some m"
    and "ms_id (f m) = mission_id
      \<or> trim (ms_id (f m)) \<noteq> [] \<and> ms_id (f m) \<notin> ms_id ` set (mt_missions tree)"
  shows "missions_ok (tree\<lparr>mt_missions := update_first (\<lambda>m. ms_id m = mission_id) f (mt_missions tree)\<rparr>)"
  using update_first_found [OF assms(2), of f] assms by (auto simp: missions_ok_def)

lemma find_mission_Inr:
  "find_mission file tree_id mission_id = Inr m \<Longrightarrow>
    \<exists>tree. find_tree file tree_id = Inr tree \<and> find (\<lambda>m. ms_id m = mission_id) (mt_missions tree) = Some m"
  by (auto simp: find_mission_def split: sum.splits option.splits)

lemma update_mission_ok:
  assumes ok: "file_ok file" and find: "find_mission file tree_id mission_id = Inr m"
    and id: "ms_id (f m) = mission_id
      \<or> trim (ms_id (f m)) \<noteq> []
        \<and> (\<forall>tree. find_tree file tree_id = Inr tree \<longrightarrow> ms_id (f m) \<notin> ms_id ` set (mt_missions tree))"
  shows "file_ok (update_mission tree_id mission_id f file)"
proof -
  obtain tree where tree: "find_tree file tree_id = Inr tree"
    "find (\<lambda>m. ms_id m = mission_id) (mt_missions tree) = Some m" using find_mission_Inr [OF find] by blast
  have "missions_ok (tree\<lparr>mt_missions := update_first (\<lambda>m. ms_id m = mission_id) f (mt_missions tree)\<rparr>)"
    using id tree by (intro update_first_missions_ok [OF find_tree_ok [OF ok tree(1)] tree(2)]) auto
  then show ?thesis unfolding update_mission_def
    using tree(1) by (intro update_tree_ok [OF ok tree(1)]) (auto simp: find_tree_Inr dest: find_Some_set)
qed

lemma rename_references_ok: "file_ok (rename_references old_id new_id file) = file_ok file"
  by (simp add: file_ok_def missions_ok_def rename_references_def list_all_iff comp_def)

subsection \<open>Editing sessions\<close>

text \<open>One call of the module, and the files that a sequence of calls can reach.\<close>

datatype edit_command =
    AddTree string
  | RemoveTree string
  | RenameTree string string
  | AddMission string string
  | RemoveMission string string
  | RenameMission string string string
  | AddRequired string string string
  | RemoveRequired string string string
  | SetRequired string string "string list"
  | SetPosition string string "cell option"
  | SetIcon string string "string option"
  | SetCompletedBy string string "string option"
  | SetMissionBlock string string block_field "string option"
  | SetTreeBlock string tree_block_field "string option"
  | SetTreeSlot string cell
  | SetTreeGeneric string bool
  | SetTreeAi string "bool option"
  | SetTreeShield string "bool option"
  | MoveMission string string string

fun apply_command :: "edit_command \<Rightarrow> mission_file \<Rightarrow> edit_result" where
  "apply_command (AddTree name) file = add_tree file name"
| "apply_command (RemoveTree t) file = remove_tree file t"
| "apply_command (RenameTree old new) file = rename_tree file old new"
| "apply_command (AddMission t name) file = add_mission file t name"
| "apply_command (RemoveMission t m) file = remove_mission file t m"
| "apply_command (RenameMission t old new) file = rename_mission file t old new"
| "apply_command (AddRequired t m r) file = add_required file t m r"
| "apply_command (RemoveRequired t m r) file = remove_required file t m r"
| "apply_command (SetRequired t m rs) file = set_required file t m rs"
| "apply_command (SetPosition t m p) file = set_mission_position file t m p"
| "apply_command (SetIcon t m v) file = set_mission_icon file t m v"
| "apply_command (SetCompletedBy t m v) file = set_mission_completed_by file t m v"
| "apply_command (SetMissionBlock t m f v) file = set_mission_block file t m f v"
| "apply_command (SetTreeBlock t f v) file = set_tree_block file t f v"
| "apply_command (SetTreeSlot t s) file = set_tree_slot file t s"
| "apply_command (SetTreeGeneric t g) file = set_tree_generic file t g"
| "apply_command (SetTreeAi t v) file = set_tree_ai file t v"
| "apply_command (SetTreeShield t v) file = set_tree_country_shield file t v"
| "apply_command (MoveMission t m target) file = move_mission file t m target"

inductive edits_to :: "mission_file \<Rightarrow> mission_file \<Rightarrow> bool" where
  no_edit: "edits_to file file"
| one_more: "edits_to file file' \<Longrightarrow> edits_to file (snd (apply_command command file'))"

lemma find_mission_id: "find_mission file t m = Inr mission \<Longrightarrow> ms_id mission = m"
  by (auto dest: find_mission_Inr find_Some_set)

lemma update_fields_ok:
  "file_ok file \<Longrightarrow> find_mission file t m = Inr mission \<Longrightarrow> (\<And>x. ms_id (f x) = ms_id x) \<Longrightarrow>
    file_ok (update_mission t m f file)"
  by (rule update_mission_ok) (auto dest: find_mission_id)

lemma set_mission_ok:
  "file_ok file \<Longrightarrow> (\<And>m. ms_id (f m) = ms_id m) \<Longrightarrow> file_ok (snd (set_mission f file t m))"
  by (auto simp: set_mission_def intro: update_fields_ok split: sum.splits)

lemma required_ok:
  assumes "file_ok file"
  shows "file_ok (snd (add_required file t m r))" "file_ok (snd (remove_required file t m r))"
    "file_ok (snd (set_required file t m rs))"
  using assms by (auto simp: add_required_def remove_required_def set_required_def
      intro: update_fields_ok split: sum.splits)

lemma set_tree_ok:
  "file_ok file \<Longrightarrow> (\<And>t. mt_id (f t) = mt_id t \<and> mt_missions (f t) = mt_missions t) \<Longrightarrow>
    file_ok (snd (set_tree f file t))"
  using find_tree_ok [of "file" t]
  by (auto simp: set_tree_def missions_ok_def find_tree_Inr intro!: update_tree_ok dest: find_Some_set
      split: sum.splits)

lemma validate_id_Inr: "validate_id name = Inr u \<longleftrightarrow> trim name \<noteq> []"
  by (simp add: validate_id_def)

lemma add_tree_ok: "file_ok file \<Longrightarrow> file_ok (snd (add_tree file name))"
  by (auto simp: add_tree_def file_ok_def validate_id_Inr empty_tree_def missions_ok_def split: sum.splits)

lemma remove_tree_ok: "file_ok file \<Longrightarrow> file_ok (snd (remove_tree file t))"
  by (auto simp: remove_tree_def file_ok_def Let_def list_all_iff distinct_map_filter)

lemma rename_tree_ok: "file_ok file \<Longrightarrow> file_ok (snd (rename_tree file old new))"
  by (auto simp: rename_tree_def validate_id_Inr missions_ok_def split: sum.splits
      intro!: update_tree_ok dest: find_tree_ok)

lemma set_missions_ok:
  assumes "file_ok file" and find: "find_tree file t = Inr tree"
    and "missions_ok (tree\<lparr>mt_missions := g tree\<rparr>)"
  shows "file_ok (update_tree t (\<lambda>x. x\<lparr>mt_missions := g x\<rparr>) file)"
proof -
  have "mt_id tree = t" using find find_Some_set by (fastforce simp: find_tree_Inr)
  then show ?thesis using assms by (intro update_tree_ok [OF assms(1) find]) simp_all
qed

lemma missions_ok_append:
  "missions_ok tree \<Longrightarrow> trim (ms_id m) \<noteq> [] \<Longrightarrow> ms_id m \<notin> ms_id ` set (mt_missions tree) \<Longrightarrow>
    missions_ok (tree\<lparr>mt_missions := mt_missions tree @ [m]\<rparr>)"
  by (auto simp: missions_ok_def)

lemma add_mission_ok: "file_ok file \<Longrightarrow> file_ok (snd (add_mission file t name))"
proof -
  assume ok: "file_ok file"
  have "file_ok (update_tree t (\<lambda>x. x\<lparr>mt_missions := mt_missions x @ [empty_mission name]\<rparr>) file)"
    if "find_tree file t = Inr tree" "trim name \<noteq> []" "name \<notin> ms_id ` set (mt_missions tree)" for tree
    by (rule set_missions_ok [OF ok that(1)], rule missions_ok_append [OF find_tree_ok [OF ok that(1)]])
      (use that in \<open>simp_all add: empty_mission_def\<close>)
  with ok show ?thesis
    by (fastforce simp: add_mission_def validate_id_Inr split: sum.splits)
qed

lemma missions_ok_filter:
  "missions_ok tree \<Longrightarrow> missions_ok (tree\<lparr>mt_missions := filter P (mt_missions tree)\<rparr>)"
  by (auto simp: missions_ok_def list_all_iff distinct_map_filter)

lemma remove_mission_ok: "file_ok file \<Longrightarrow> file_ok (snd (remove_mission file t m))"
proof -
  assume ok: "file_ok file"
  have "file_ok (update_tree t (\<lambda>x. x\<lparr>mt_missions := filter P (mt_missions tree)\<rparr>) file)
      \<and> file_ok (update_tree t (\<lambda>x. x\<lparr>mt_missions := map (\<lambda>x. x\<lparr>ms_required := f x\<rparr>) (filter P (mt_missions tree))\<rparr>) file)"
    if tree: "find_tree file t = Inr tree" for tree P f
  proof -
    have kept: "missions_ok (tree\<lparr>mt_missions := filter P (mt_missions tree)\<rparr>)"
      by (rule missions_ok_filter [OF find_tree_ok [OF ok tree]])
    then have "missions_ok (tree\<lparr>mt_missions := map (\<lambda>x. x\<lparr>ms_required := f x\<rparr>) (filter P (mt_missions tree))\<rparr>)"
      by (simp add: missions_ok_def list_all_iff comp_def)
    with kept show ?thesis
      by (intro conjI set_missions_ok [OF ok tree, where g = "\<lambda>_. filter P (mt_missions tree)"]
        set_missions_ok [OF ok tree, where g = "\<lambda>_. map (\<lambda>x. x\<lparr>ms_required := f x\<rparr>) (filter P (mt_missions tree))"])
  qed
  with ok show ?thesis by (simp add: remove_mission_def Let_def split: sum.splits)
qed

lemma rename_mission_ok: "file_ok file \<Longrightarrow> file_ok (snd (rename_mission file t old new))"
  by (auto simp: rename_mission_def validate_id_Inr rename_references_ok
      split: sum.splits intro!: update_mission_ok)

lemma move_mission_ok: "file_ok file \<Longrightarrow> file_ok (snd (move_mission file t m target))"
proof -
  assume ok: "file_ok file"
  show ?thesis
  proof (cases "t = target \<or> (\<exists>e. find_tree file t = Inl e)")
    case True
    then show ?thesis using ok by (auto simp: move_mission_def)
  next
    case False
    then obtain tree where tree: "find_tree file t = Inr tree" by (cases "find_tree file t") auto
    have mt: "mt_id tree = t" using tree find_Some_set by (fastforce simp: find_tree_Inr)
    show ?thesis
    proof (cases "position_of (\<lambda>x. ms_id x = m) (mt_missions tree)")
      case None
      show ?thesis using ok False tree by (simp add: move_mission_def None)
    next
      case (Some i)
      let ?ms = "mt_missions tree"
      have i: "i < length ?ms" "ms_id (?ms ! i) = m" using position_of_Some [OF Some] by auto
      let ?rest = "take i ?ms @ drop (Suc i) ?ms"
      have split: "?ms = take i ?ms @ ?ms ! i # drop (Suc i) ?ms" using i(1) by (rule id_take_nth_drop)
      have missions: "missions_ok tree" by (rule find_tree_ok [OF ok tree])
      then have "missions_ok (tree\<lparr>mt_missions := ?rest\<rparr>)" and blank: "trim (ms_id (?ms ! i)) \<noteq> []"
        unfolding missions_ok_def by (subst (asm) (1 2) split, auto)+
      then have ok1: "file_ok (update_tree t (\<lambda>t. t\<lparr>mt_missions := ?rest\<rparr>) file)" (is "file_ok ?taken")
        using mt by (intro update_tree_ok [OF ok tree]) simp_all
      have "file_ok (update_tree target (\<lambda>t. t\<lparr>mt_missions := mt_missions t @ [?ms ! i]\<rparr>) ?taken)"
        if found: "find_tree ?taken target = Inr tt" "\<forall>m \<in> set (mt_missions tt). ms_id m \<noteq> ms_id (?ms ! i)" for tt
      proof (rule update_tree_ok [OF ok1 found(1)])
        show "missions_ok (tt\<lparr>mt_missions := mt_missions tt @ [?ms ! i]\<rparr>)"
          using find_tree_ok [OF ok1 found(1)] found(2) blank by (auto simp: missions_ok_def)
      qed (use found(1) in \<open>auto simp: find_tree_Inr dest: find_Some_set\<close>)
      then show ?thesis using ok1 False tree Some
        by (auto simp: move_mission_def Let_def split: sum.splits)
    qed
  qed
qed

lemma apply_command_ok: "file_ok file \<Longrightarrow> file_ok (snd (apply_command command file))"
  by (cases command)
    (simp_all add: set_mission_position_def set_mission_icon_def set_mission_completed_by_def
      set_mission_block_def set_tree_block_def set_tree_slot_def set_tree_generic_def set_tree_ai_def
      set_tree_country_shield_def add_tree_ok remove_tree_ok rename_tree_ok add_mission_ok
      remove_mission_ok rename_mission_ok move_mission_ok set_mission_ok set_tree_ok required_ok
      split: block_field.splits tree_block_field.splits)

text \<open>C17. Whatever sequence of edits is applied, whether they succeed or fail, tree ids stay unique in
  the file, mission ids stay unique in their tree, and no id is blank.\<close>

theorem editing_keeps_ids_unique:
  assumes "edits_to file file'" and "file_ok file"
  shows "file_ok file'"
  using assms by (induction rule: edits_to.induct) (simp_all add: apply_command_ok)

theorem editing_keeps_ids_unique_witness:
  "file_ok (snd (apply_command (AddMission ''t'' ''c'') two_missions))"
proof -
  have "file_ok two_missions"
    by (simp add: file_ok_def missions_ok_def two_missions_def empty_tree_def empty_mission_def, code_simp)
  then show ?thesis
    using editing_keeps_ids_unique [OF one_more [OF no_edit]] by blast
qed

lemma filter_same: "length (filter P xs) = length xs \<Longrightarrow> filter P xs = xs"
  by (metis filter_id_conv length_filter_less nat_neq_iff)

lemma update_tree_same:
  "find_tree file t = Inr tree \<Longrightarrow> f tree = tree \<Longrightarrow> update_tree t f file = file"
  by (rule update_tree_found) (auto simp: update_tree_def)

lemma failed_trees:
  "fst (add_tree file name) = Inl e \<Longrightarrow> snd (add_tree file name) = file"
  "fst (remove_tree file t) = Inl e \<Longrightarrow> snd (remove_tree file t) = file"
  "fst (rename_tree file old new) = Inl e \<Longrightarrow> snd (rename_tree file old new) = file"
  "fst (set_tree f file t) = Inl e \<Longrightarrow> snd (set_tree f file t) = file"
  by (auto simp: add_tree_def remove_tree_def rename_tree_def set_tree_def Let_def filter_same
      split: sum.splits if_splits)

lemma failed_missions:
  "fst (add_mission file t name) = Inl e \<Longrightarrow> snd (add_mission file t name) = file"
  "fst (rename_mission file t old new) = Inl e \<Longrightarrow> snd (rename_mission file t old new) = file"
  "fst (set_mission f file t m) = Inl e \<Longrightarrow> snd (set_mission f file t m) = file"
  by (auto simp: add_mission_def rename_mission_def set_mission_def split: sum.splits if_splits)

lemma failed_remove_mission:
  assumes "fst (remove_mission file t m) = Inl e"
  shows "snd (remove_mission file t m) = file"
proof (cases "find_tree file t")
  case (Inr tree)
  then have "length (filter (\<lambda>x. ms_id x \<noteq> m) (mt_missions tree)) = length (mt_missions tree)"
    using assms by (simp add: remove_mission_def Let_def split: if_splits)
  then have "filter (\<lambda>x. ms_id x \<noteq> m) (mt_missions tree) = mt_missions tree" by (rule filter_same)
  then show ?thesis using update_tree_same [OF Inr, of "\<lambda>t. t\<lparr>mt_missions := mt_missions tree\<rparr>"] Inr
    by (simp add: remove_mission_def)
qed (simp add: remove_mission_def)

lemma failed_required:
  "fst (add_required file t m r) = Inl e \<Longrightarrow> snd (add_required file t m r) = file"
  "fst (remove_required file t m r) = Inl e \<Longrightarrow> snd (remove_required file t m r) = file"
  "fst (set_required file t m rs) = Inl e \<Longrightarrow> snd (set_required file t m rs) = file"
  by (auto simp: add_required_def remove_required_def set_required_def split: sum.splits if_splits)

text \<open>C34. An edit that fails changes nothing, unless it is the move of a mission.\<close>

theorem failed_edit_changes_nothing:
  assumes "fst (apply_command command file) = Inl e"
    and "\<And>t m target. command \<noteq> MoveMission t m target"
  shows "snd (apply_command command file) = file"
  using assms
  by (cases command)
    (auto simp: failed_trees failed_missions failed_remove_mission failed_required
      set_mission_position_def set_mission_icon_def set_mission_completed_by_def
      set_mission_block_def set_tree_block_def set_tree_slot_def set_tree_generic_def
      set_tree_ai_def set_tree_country_shield_def)

theorem failed_edit_changes_nothing_witness:
  "snd (apply_command (RemoveMission ''t'' ''ghost'') two_missions) = two_missions"
proof -
  have "fst (apply_command (RemoveMission ''t'' ''ghost'') two_missions) = Inl (MissionNotFound ''ghost'')"
    by code_simp
  then show ?thesis by (rule failed_edit_changes_nothing) simp
qed

text \<open>The move of a mission to a tree that does not exist fails after the mission has been taken out
  of the file.\<close>

lemma failed_move_loses_mission:
  "fst (move_mission two_missions ''t'' ''a'' ''ghost'') = Inl (TreeNotFound ''ghost'')
    \<and> ''a'' \<notin> ms_id ` set (all_missions (snd (move_mission two_missions ''t'' ''a'' ''ghost'')))"
  by code_simp

subsection \<open>References\<close>


text \<open>Removing a mission leaves the other trees as they are; in its own tree the mission is gone,
  with every prerequisite that named it, and every other mission keeps all its other fields.\<close>

lemma remove_mission_cleans_its_tree:
  assumes "fst (remove_mission file t m) = Inr ()"
  shows "\<exists>as tree bs tree'. mf_trees file = as @ tree # bs \<and> mt_id tree = t
    \<and> mf_trees (snd (remove_mission file t m)) = as @ tree' # bs
    \<and> mt_missions tree' = map (\<lambda>x. x\<lparr>ms_required := filter (\<lambda>r. r \<noteq> m) (ms_required x)\<rparr>)
        (filter (\<lambda>x. ms_id x \<noteq> m) (mt_missions tree))
    \<and> tree'\<lparr>mt_missions := mt_missions tree\<rparr> = tree
    \<and> m \<in> ms_id ` set (mt_missions tree)"
proof -
  obtain tree where tree: "find_tree file t = Inr tree"
    using assms by (cases "find_tree file t") (auto simp: remove_mission_def)
  let ?kept = "filter (\<lambda>x. ms_id x \<noteq> m) (mt_missions tree)"
  have len: "length ?kept \<noteq> length (mt_missions tree)"
    using assms tree by (auto simp: remove_mission_def Let_def split: if_splits)
  have "m \<in> ms_id ` set (mt_missions tree)"
  proof (rule ccontr)
    assume "m \<notin> ms_id ` set (mt_missions tree)"
    then have "?kept = mt_missions tree" by (intro filter_True) auto
    then show False using len by simp
  qed
  moreover obtain as bs where "mf_trees file = as @ tree # bs" "mt_id tree = t"
    "\<And>f. mf_trees (update_tree t f file) = as @ f tree # bs" by (rule update_tree_found [OF tree]) blast
  moreover let ?tree = "tree\<lparr>mt_missions := map (\<lambda>x. x\<lparr>ms_required := filter (\<lambda>r. r \<noteq> m) (ms_required x)\<rparr>) ?kept\<rparr>"
  have "mf_trees (snd (remove_mission file t m)) = as @ ?tree # bs"
    using tree len calculation(4) by (simp add: remove_mission_def)
  ultimately show ?thesis
    by (intro exI [of _ as] exI [of _ tree] exI [of _ bs] exI [of _ ?tree]) simp
qed




text \<open>Updating the one mission that a lookup finds, in the list of all missions.\<close>

lemma update_mission_all:
  assumes "find_mission file t m = Inr x"
  obtains as bs where "all_missions file = as @ x # bs" "ms_id x = m"
    "\<And>f. all_missions (update_mission t m f file) = as @ f x # bs"
proof -
  obtain tree where tree: "find_tree file t = Inr tree"
    and x: "find (\<lambda>x. ms_id x = m) (mt_missions tree) = Some x"
    using find_mission_Inr [OF assms] by blast
  obtain as bs where t: "mf_trees file = as @ tree # bs"
    "\<And>f. mf_trees (update_tree t f file) = as @ f tree # bs" by (rule update_tree_found [OF tree]) blast
  obtain cs ds where c: "mt_missions tree = cs @ x # ds" "ms_id x = m" and cs: "\<forall>c \<in> set cs. ms_id c \<noteq> m"
    using update_first_found [OF x] by blast
  have "update_first (\<lambda>x. ms_id x = m) f (cs @ x # ds) = cs @ f x # ds" for f
    using cs c(2) by (induction cs) auto
  then have "all_missions (update_mission t m f file)
      = (concat (map mt_missions as) @ cs) @ f x # (ds @ concat (map mt_missions bs))" for f
    using t(2) c(1) by (simp add: all_missions_def update_mission_def)
  moreover have "all_missions file = (concat (map mt_missions as) @ cs) @ x # (ds @ concat (map mt_missions bs))"
    using t(1) c(1) by (simp add: all_missions_def)
  ultimately show thesis using c(2) that by blast
qed



subsection \<open>The spatial rule and the edits\<close>

lemma tree_layout_positions:
  "map ms_position ms = map ms_position ms' \<Longrightarrow> tree_layout i s k p ms = tree_layout i s k p ms'"
proof (induction ms arbitrary: ms' k p)
  case (Cons m ms)
  then obtain m' ms1 where "ms' = m' # ms1" "ms_position m' = ms_position m"
    "map ms_position ms = map ms_position ms1" by (cases ms') auto
  then show ?case using Cons.IH by (auto simp: Let_def)
qed simp

lemma layout_unchanged:
  assumes "map (\<lambda>t. (mt_slot t, map ms_position (mt_missions t))) (mf_trees file')
      = map (\<lambda>t. (mt_slot t, map ms_position (mt_missions t))) (mf_trees file)"
  shows "effective_layout file' = effective_layout file"
proof -
  have len: "length (mf_trees file') = length (mf_trees file)" using map_eq_imp_length_eq [OF assms] .
  have shape: "mt_slot (mf_trees file' ! i) = mt_slot (mf_trees file ! i)
      \<and> map ms_position (mt_missions (mf_trees file' ! i)) = map ms_position (mt_missions (mf_trees file ! i))"
    if "i < length (mf_trees file)" for i
  proof -
    have "map (\<lambda>t. (mt_slot t, map ms_position (mt_missions t))) (mf_trees file') ! i
        = map (\<lambda>t. (mt_slot t, map ms_position (mt_missions t))) (mf_trees file) ! i"
      using assms by (rule arg_cong)
    then show ?thesis using that len by (simp only: nth_map prod.inject)
  qed
  have row: "tree_layout i (mt_slot (mf_trees file' ! i)) 0 1 (mt_missions (mf_trees file' ! i))
      = tree_layout i (mt_slot (mf_trees file ! i)) 0 1 (mt_missions (mf_trees file ! i))"
    if "i < length (mf_trees file)" for i
    using shape [OF that] by (simp add: tree_layout_positions [OF conjunct2 [OF shape [OF that]]])
  have "map (\<lambda>(i, tree). tree_layout i (mt_slot tree) 0 1 (mt_missions tree)) (enumerate 0 (mf_trees file'))
      = map (\<lambda>(i, tree). tree_layout i (mt_slot tree) 0 1 (mt_missions tree)) (enumerate 0 (mf_trees file))"
    using len row by (intro nth_equalityI) (simp_all add: nth_enumerate_eq)
  then show ?thesis by (simp only: effective_layout_alt)
qed

lemma update_mission_layout:
  assumes "\<And>m. ms_position (f m) = ms_position m"
  shows "effective_layout (update_mission t m f file) = effective_layout file"
  using assms by (intro layout_unchanged) (simp add: update_mission_def update_tree_def map_update_first)

lemma loc_of_alt: "loc_of file = map_of (rev (zip (map ms_id (all_missions file)) (effective_layout file)))"
  unfolding loc_of_def mission_at_layout [symmetric]
  by (simp add: zip_map1 zip_same_conv_map comp_def)

lemma spatial_violations_iff:
  "spatial_violations file = [] \<longleftrightarrow>
    (\<forall>k < length (effective_layout file). \<forall>r \<in> set (ms_required (all_missions file ! k)). \<forall>p.
       loc_of file r = Some p \<longrightarrow> is_spatially_legal p (effective_layout file ! k))"
proof -
  have one: "mission_violations file loc = [] \<longleftrightarrow> (\<forall>r \<in> set (ms_required (mission_at file loc)). \<forall>p.
      loc_of file r = Some p \<longrightarrow> is_spatially_legal p loc)" for loc
  proof -
    let ?xs = "enumerate 0 (ms_required (mission_at file loc))"
    have "(\<forall>r \<in> set (map snd ?xs). \<forall>p. loc_of file r = Some p \<longrightarrow> is_spatially_legal p loc)
        \<longleftrightarrow> (\<forall>e \<in> set ?xs. \<forall>p. loc_of file (snd e) = Some p \<longrightarrow> is_spatially_legal p loc)"
      unfolding set_map ball_simps ..
    moreover have "mission_violations file loc = []
        \<longleftrightarrow> (\<forall>e \<in> set ?xs. \<forall>p. loc_of file (snd e) = Some p \<longrightarrow> is_spatially_legal p loc)"
      unfolding mission_violations_def concat_eq_Nil_conv set_map ball_simps
      by (intro ball_cong refl) (auto split: option.splits prod.splits)
    ultimately show ?thesis by simp
  qed
  have "all_missions file ! k = mission_at file (effective_layout file ! k)"
    if "k < length (effective_layout file)" for k
    using that mission_at_layout [of "file"] by (metis nth_map)
  then show ?thesis by (auto simp: spatial_violations_def one all_set_conv_all_nth)
qed

lemma layout_length: "length (effective_layout file) = length (all_missions file)"
  using mission_at_layout [of "file"] by (metis length_map)

lemma loc_of_distinct:
  assumes "distinct (map ms_id (all_missions file))" "k < length (all_missions file)"
  shows "loc_of file (ms_id (all_missions file ! k)) = Some (effective_layout file ! k)"
proof -
  let ?z = "zip (map ms_id (all_missions file)) (effective_layout file)"
  have "distinct (map fst ?z)" using assms(1) by (simp add: layout_length)
  moreover have "?z ! k = (ms_id (all_missions file ! k), effective_layout file ! k)"
    using assms(2) by (simp add: layout_length)
  then have "(ms_id (all_missions file ! k), effective_layout file ! k) \<in> set ?z"
    using assms(2) by (metis layout_length length_map length_zip min.idem nth_mem)
  ultimately show ?thesis unfolding loc_of_alt by (simp add: map_of_eq_Some_iff rev_map [symmetric] del: set_zip)
qed

lemma required_update_legal:
  assumes legal: "spatial_violations file = []" and ids: "distinct (map ms_id (all_missions file))"
    and x: "find_mission file t m = Inr x"
    and new: "\<And>r. r \<in> set (g x) \<Longrightarrow> r \<in> set (ms_required x) \<or> check_edge_placement file m r = Inr ()"
  shows "spatial_violations (update_mission t m (\<lambda>x. x\<lparr>ms_required := g x\<rparr>) file) = []"
proof -
  let ?file = "update_mission t m (\<lambda>x. x\<lparr>ms_required := g x\<rparr>) file"
  obtain as bs where all: "all_missions file = as @ x # bs" "ms_id x = m"
    "all_missions ?file = as @ x\<lparr>ms_required := g x\<rparr> # bs" by (rule update_mission_all [OF x]) blast
  have layout: "effective_layout ?file = effective_layout file" by (rule update_mission_layout) simp
  have loc: "loc_of ?file = loc_of file" by (simp add: loc_of_alt layout all)
  have m: "loc_of file m = Some (effective_layout file ! length as)"
    using loc_of_distinct [OF ids, of "length as"] all by simp
  note old = legal [unfolded spatial_violations_iff, rule_format]
  have "is_spatially_legal p (effective_layout file ! k)"
    if k: "k < length (effective_layout file)" and r: "r \<in> set (ms_required (all_missions ?file ! k))"
      and p: "loc_of file r = Some p" for k r p
  proof (cases "k = length as \<and> r \<notin> set (ms_required x)")
    case True
    then have "check_edge_placement file m r = Inr ()" using new [of r] r all True by simp
    then show ?thesis using True m p by (simp add: check_edge_placement_def split: if_splits)
  next
    case False
    have "r \<in> set (ms_required (all_missions file ! k))"
      using False r all by (cases "k = length as") (auto simp: nth_append nth_Cons split: if_splits nat.splits)
    then show ?thesis using old k p by blast
  qed
  then show ?thesis unfolding spatial_violations_iff layout loc by blast
qed

lemma check_edges_Inr: "check_edges file m rs = Inr () \<longleftrightarrow> (\<forall>r \<in> set rs. check_edge_placement file m r = Inr ())"
  by (induction "file" m rs rule: check_edges.induct) (auto split: sum.splits)

lemma set_first_occurrences: "set (first_occurrences seen rs) = set rs - seen"
  by (induction seen rs rule: first_occurrences.induct) auto

lemma accepted_edges_legal:
  assumes "spatial_violations file = []" and "distinct (map ms_id (all_missions file))"
  shows "spatial_violations (snd (add_required file t m r)) = []"
    and "spatial_violations (snd (set_required file t m rs)) = []"
proof -
  show "spatial_violations (snd (add_required file t m r)) = []"
    using assms by (auto simp: add_required_def intro!: required_update_legal split: sum.splits)
  show "spatial_violations (snd (set_required file t m rs)) = []"
    using assms by (auto simp: set_required_def check_edges_Inr set_first_occurrences
        intro!: required_update_legal split: sum.splits)
qed

lemma required_layout:
  "effective_layout (snd (add_required file t m r)) = effective_layout file"
  "effective_layout (snd (set_required file t m rs)) = effective_layout file"
  by (auto simp: add_required_def set_required_def update_mission_layout split: sum.splits)

text \<open>C18. In a file whose ids are unique, whose edges are legal and whose missions sit at row 1 or
  below, adding a prerequisite or replacing a prerequisite list keeps every edge legal and never
  makes a dependency cycle.\<close>

theorem new_edges_make_no_cycle:
  assumes "spatial_violations file = []" and "distinct (map ms_id (all_missions file))"
    and "list_all (\<lambda>loc. 0 < loc_position loc) (effective_layout file)"
    and "file' = snd (add_required file t m r) \<or> file' = snd (set_required file t m rs)"
  shows "spatial_violations file' = [] \<and> cycles (new_graph (mission_nodes file')) = Some []"
proof -
  have "effective_layout file' = effective_layout file" using assms(4) required_layout by metis
  moreover have "spatial_violations file' = []" using assms(1,2,4) accepted_edges_legal by blast
  ultimately have "acyclic (depends_on (mission_nodes file'))"
    using assms(3) by (intro legal_file_acyclic) (auto simp: list_all_iff)
  then show ?thesis using \<open>spatial_violations file' = []\<close> cycles_ok [of "mission_nodes file'"] by auto
qed

theorem new_edges_make_no_cycle_witness:
  "cycles (new_graph (mission_nodes (snd (add_required two_missions ''t'' ''b'' ''c'')))) = Some []
    \<and> distinct (map ms_id (all_missions two_missions))"
proof -
  have v: "spatial_violations two_missions = []" by code_simp
  have d: "distinct (map ms_id (all_missions two_missions))" by code_simp
  have p: "list_all (\<lambda>loc. 0 < loc_position loc) (effective_layout two_missions)" by code_simp
  show ?thesis using new_edges_make_no_cycle [OF v d p disjI1 [OF refl]] d by blast
qed

text \<open>At row 0 the subtraction of the rule saturates, and two missions may require each other.\<close>

definition row_zero_file :: mission_file where
  "row_zero_file = \<lparr>mf_trees = [(empty_tree ''t'')\<lparr>mt_missions :=
     [(empty_mission ''a'')\<lparr>ms_position := Some 0\<rparr>, (empty_mission ''b'')\<lparr>ms_position := Some 0\<rparr>]\<rparr>]\<rparr>"

lemma row_zero_cycle:
  "(let (r1, f1) = add_required row_zero_file ''t'' ''a'' ''b'';
        (r2, f2) = add_required f1 ''t'' ''b'' ''a''
    in r1 = Inr () \<and> r2 = Inr () \<and> spatial_violations f2 = []
      \<and> cycles (new_graph (mission_nodes f2)) = Some [[''a'', ''b'', ''a'']])"
  by code_simp

end
