(* ===== verification/Mission_Validate.thy ===== *)
theory Mission_Validate
  imports Mission_Graph
begin

text \<open>
  Structural validation, \<open>crates/game/src/eu4/mission/validate.rs\<close>: duplicate ids, zero
  positions, unresolved prerequisites, dependency cycles and misplaced edges, in the order in
  which the source reports them.  An index or an \<open>expect\<close> that could fail is the value \<open>None\<close>;
  the theorems show that validation never gets there, and what it means that it is silent.
\<close>

datatype severity = Error | Warning

record diagnostic =
  dg_severity :: severity
  dg_code :: string
  dg_message :: string
  dg_range :: text_range
  dg_tree :: string
  dg_mission :: "string option"

definition tree_scoped :: "severity \<Rightarrow> string \<Rightarrow> mission_tree \<Rightarrow> string \<Rightarrow> diagnostic" where
  "tree_scoped severity code tree message =
    \<lparr>dg_severity = severity, dg_code = code, dg_message = message, dg_range = mt_id_range tree,
     dg_tree = mt_id tree, dg_mission = None\<rparr>"

definition mission_scoped ::
    "severity \<Rightarrow> string \<Rightarrow> mission_tree \<Rightarrow> mission \<Rightarrow> text_range \<Rightarrow> string \<Rightarrow> diagnostic" where
  "mission_scoped severity code tree mission span message =
    \<lparr>dg_severity = severity, dg_code = code, dg_message = message, dg_range = span,
     dg_tree = mt_id tree, dg_mission = Some (ms_id mission)\<rparr>"

fun duplicate_trees :: "string set \<Rightarrow> mission_tree list \<Rightarrow> diagnostic list" where
  "duplicate_trees seen [] = []"
| "duplicate_trees seen (tree # trees) =
    (if mt_id tree \<in> seen
     then [tree_scoped Warning ''duplicate-tree-id'' tree (''duplicate mission tree `'' @ mt_id tree @ ''`'')]
     else []) @ duplicate_trees (insert (mt_id tree) seen) trees"

definition zero_position :: "mission_tree \<Rightarrow> mission \<Rightarrow> diagnostic list" where
  "zero_position tree mission =
    (if ms_position mission = Some 0
     then [mission_scoped Warning ''zero-position'' tree mission
             (case ms_position_range mission of Some r \<Rightarrow> r | None \<Rightarrow> ms_id_range mission)
             (''mission `'' @ ms_id mission @ ''` has position = 0; game columns start at 1'')]
     else [])"

text \<open>\<open>required_ranges.get(index)\<close>, or the range of the id.\<close>

definition required_range :: "mission \<Rightarrow> nat \<Rightarrow> text_range" where
  "required_range mission index =
    (case vec_get (ms_required_ranges mission) index of Some r \<Rightarrow> r | None \<Rightarrow> ms_id_range mission)"

definition dangling_required ::
    "mission_file \<Rightarrow> string set \<Rightarrow> mission_tree \<Rightarrow> mission \<Rightarrow> diagnostic list" where
  "dangling_required focus universe_ids tree mission =
    concat (map (\<lambda>(index, required).
        if mission_ids focus required = None \<and> required \<notin> universe_ids
        then [mission_scoped Error ''dangling-required'' tree mission (required_range mission index)
                (''mission `'' @ ms_id mission @ ''` requires unknown mission `'' @ required @ ''`'')]
        else [])
      (enumerate 0 (ms_required mission)))"

fun check_missions ::
    "mission_file \<Rightarrow> string set \<Rightarrow> mission_tree \<Rightarrow> string set \<Rightarrow> mission list \<Rightarrow> diagnostic list" where
  "check_missions focus universe_ids tree seen [] = []"
| "check_missions focus universe_ids tree seen (mission # missions) =
    (if ms_id mission \<in> seen
     then [mission_scoped Warning ''duplicate-mission-id'' tree mission (ms_id_range mission)
             (''duplicate mission id `'' @ ms_id mission @ ''`'')]
     else [])
    @ zero_position tree mission @ dangling_required focus universe_ids tree mission
    @ check_missions focus universe_ids tree (insert (ms_id mission) seen) missions"

text \<open>The name of a cycle's first node is looked up among the missions of the file.\<close>

definition cycle_diagnostic :: "mission_file \<Rightarrow> string list \<Rightarrow> diagnostic option" where
  "cycle_diagnostic file cycle =
    (case vec_get cycle 0 of
       None \<Rightarrow> None
     | Some name \<Rightarrow>
        (case mission_ids file name of
           None \<Rightarrow> None
         | Some (tree, mission) \<Rightarrow>
             Some \<lparr>dg_severity = Error, dg_code = ''dependency-cycle'',
                   dg_message = ''mission dependency cycle: '' @ join_with '' -> '' cycle,
                   dg_range = ms_id_range mission, dg_tree = mt_id tree,
                   dg_mission = Some (ms_id mission)\<rparr>))"

definition find_cycles :: "mission_file \<Rightarrow> diagnostic list option" where
  "find_cycles file =
    (case cycles (new_graph (mission_nodes file)) of
       None \<Rightarrow> None | Some cs \<Rightarrow> those (map (cycle_diagnostic file) cs))"

definition placement_diagnostic :: "mission_file \<Rightarrow> spatial_violation \<Rightarrow> diagnostic" where
  "placement_diagnostic focus violation =
    (let tree = mf_trees focus ! sv_tree violation;
         mission = mt_missions tree ! sv_mission violation
     in mission_scoped Warning ''illegal-edge-placement'' tree mission
          (required_range mission (sv_required_index violation))
          (''mission `'' @ ms_id mission @ ''` requires `'' @ sv_required violation @
           ''`, but the prerequisite is not on the row directly above or directly above in the same column''))"

definition validate_with_universe_ids :: "mission_file \<Rightarrow> string set \<Rightarrow> diagnostic list option" where
  "validate_with_universe_ids focus universe_ids =
    (case find_cycles focus of
       None \<Rightarrow> None
     | Some found \<Rightarrow>
         Some (duplicate_trees {} (mf_trees focus)
           @ concat (map (\<lambda>tree. check_missions focus universe_ids tree {} (mt_missions tree)) (mf_trees focus))
           @ found
           @ map (placement_diagnostic focus) (spatial_violations focus)))"

definition universe_of :: "mission_file list \<Rightarrow> string set" where
  "universe_of files = (\<Union>file \<in> set files. dom (mission_ids file))"

definition validate_in :: "mission_file \<Rightarrow> mission_file list \<Rightarrow> diagnostic list option" where
  "validate_in focus files = validate_with_universe_ids focus (universe_of files)"

definition validate :: "mission_file \<Rightarrow> diagnostic list option" where
  "validate file = validate_in file []"

lemma universe_of_code [code]: "universe_of files = set (concat (map (map ms_id \<circ> all_missions) files))"
proof -
  have "dom (mission_ids file) = ms_id ` set (all_missions file)" for "file"
    unfolding set_eq_iff domIff mission_ids_dom by simp
  then show ?thesis by (auto simp: universe_of_def)
qed

subsection \<open>What the checks find\<close>

lemma duplicate_trees_Nil:
  "duplicate_trees seen trees = [] \<longleftrightarrow> distinct (map mt_id trees) \<and> mt_id ` set trees \<inter> seen = {}"
  by (induction seen trees rule: duplicate_trees.induct) auto

lemma duplicate_trees_warn: "d \<in> set (duplicate_trees seen trees) \<Longrightarrow> dg_severity d = Warning"
  by (induction seen trees rule: duplicate_trees.induct) (auto simp: tree_scoped_def split: if_splits)

definition resolved :: "mission_file \<Rightarrow> string set \<Rightarrow> mission \<Rightarrow> bool" where
  "resolved focus universe_ids mission \<longleftrightarrow>
    set (ms_required mission) \<subseteq> ms_id ` set (all_missions focus) \<union> universe_ids"

lemma dangling_required_cases:
  "dangling_required focus universe_ids tree mission = [] \<longleftrightarrow> resolved focus universe_ids mission"
  "d \<in> set (dangling_required focus universe_ids tree mission) \<Longrightarrow> dg_severity d = Error"
proof -
  let ?xs = "enumerate 0 (ms_required mission)"
  have "(\<forall>r \<in> set (map snd ?xs). mission_ids focus r \<noteq> None \<or> r \<in> universe_ids)
      \<longleftrightarrow> (\<forall>e \<in> set ?xs. mission_ids focus (snd e) \<noteq> None \<or> snd e \<in> universe_ids)"
    unfolding set_map ball_simps ..
  moreover have "dangling_required focus universe_ids tree mission = []
      \<longleftrightarrow> (\<forall>e \<in> set ?xs. mission_ids focus (snd e) \<noteq> None \<or> snd e \<in> universe_ids)"
    unfolding dangling_required_def concat_eq_Nil_conv set_map ball_simps
    by (intro ball_cong refl) (auto split: prod.splits)
  ultimately show "dangling_required focus universe_ids tree mission = [] \<longleftrightarrow> resolved focus universe_ids mission"
    unfolding resolved_def subset_iff Un_iff mission_ids_dom [symmetric] by (simp add: Ball_def)
  show "d \<in> set (dangling_required focus universe_ids tree mission) \<Longrightarrow> dg_severity d = Error"
    by (auto simp: dangling_required_def mission_scoped_def split: if_splits)
qed

lemma check_missions_Nil:
  "check_missions focus universe_ids tree seen missions = [] \<longleftrightarrow>
    distinct (map ms_id missions) \<and> ms_id ` set missions \<inter> seen = {}
    \<and> list_all (\<lambda>m. ms_position m \<noteq> Some 0) missions \<and> list_all (resolved focus universe_ids) missions"
  by (induction focus universe_ids tree seen missions rule: check_missions.induct)
    (auto simp: dangling_required_cases(1) zero_position_def)

lemma check_missions_errors:
  "list_all (\<lambda>d. dg_severity d = Warning) (check_missions focus universe_ids tree seen missions)
    \<longleftrightarrow> list_all (resolved focus universe_ids) missions"
proof (induction focus universe_ids tree seen missions rule: check_missions.induct)
  case (2 focus universe_ids tree seen mission missions)
  have "list_all (\<lambda>d. dg_severity d = Warning) (dangling_required focus universe_ids tree mission)
      \<longleftrightarrow> resolved focus universe_ids mission"
    using dangling_required_cases(1) [of focus universe_ids tree mission]
      dangling_required_cases(2) [of _ focus universe_ids tree mission]
    by (cases "dangling_required focus universe_ids tree mission") force+
  then show ?case using 2 by (simp add: zero_position_def mission_scoped_def)
qed simp

lemma find_cycles_ok:
  "\<exists>ds. find_cycles file = Some ds \<and> list_all (\<lambda>d. dg_severity d = Error) ds
    \<and> (ds = [] \<longleftrightarrow> acyclic (depends_on (mission_nodes file)))"
proof -
  obtain cs where cs: "cycles (new_graph (mission_nodes file)) = Some cs"
    "list_all (dependency_cycle (mission_nodes file)) cs"
    "cs = [] \<longleftrightarrow> acyclic (depends_on (mission_nodes file))" using cycles_ok by blast
  have "\<exists>d. cycle_diagnostic file c = Some d \<and> dg_severity d = Error"
    if cycle: "dependency_cycle (mission_nodes file) c" for c
  proof -
    obtain a b rest where c: "c = a # b # rest" "(a, b) \<in> depends_on (mission_nodes file)"
      using cycle unfolding dependency_cycle_def by (cases c; cases "tl c") auto
    then have "a \<in> ms_id ` set (all_missions file)"
      by (auto simp: depends_on_def mission_nodes_lookup dest!: loc_of_Some)
        (metis effective_layout_in_range(4) image_eqI)
    then show ?thesis using c(1) mission_ids_dom [of "file" a] by (auto simp: cycle_diagnostic_def)
  qed
  then have "\<exists>ds. those (map (cycle_diagnostic file) cs) = Some ds \<and> length ds = length cs
      \<and> list_all (\<lambda>d. dg_severity d = Error) ds"
    using cs(2) by (induction cs) fastforce+
  then show ?thesis using cs(1,3) by (auto simp: find_cycles_def)
qed

text \<open>C19. Validation never panics.  It reports an error exactly when some prerequisite is neither in
  the file nor in the universe or the dependencies have a cycle, and it reports nothing at all
  exactly when also all ids are unique, no position is 0, and every edge satisfies the spatial
  rule.\<close>

theorem validation_complete:
  "\<exists>ds. validate_with_universe_ids focus universe_ids = Some ds
    \<and> (list_all (\<lambda>d. dg_severity d = Warning) ds \<longleftrightarrow>
         list_all (resolved focus universe_ids) (all_missions focus)
         \<and> acyclic (depends_on (mission_nodes focus)))
    \<and> (ds = [] \<longleftrightarrow>
         list_all (resolved focus universe_ids) (all_missions focus)
         \<and> acyclic (depends_on (mission_nodes focus))
         \<and> distinct (map mt_id (mf_trees focus))
         \<and> list_all (\<lambda>t. distinct (map ms_id (mt_missions t))) (mf_trees focus)
         \<and> list_all (\<lambda>m. ms_position m \<noteq> Some 0) (all_missions focus)
         \<and> spatial_violations focus = [])"
proof -
  obtain found where f: "find_cycles focus = Some found" "list_all (\<lambda>d. dg_severity d = Error) found"
    "found = [] \<longleftrightarrow> acyclic (depends_on (mission_nodes focus))" using find_cycles_ok by blast
  let ?trees = "duplicate_trees {} (mf_trees focus)"
  let ?missions = "concat (map (\<lambda>tree. check_missions focus universe_ids tree {} (mt_missions tree)) (mf_trees focus))"
  let ?places = "map (placement_diagnostic focus) (spatial_violations focus)"
  have "list_all (\<lambda>d. dg_severity d = Warning) ?trees" using duplicate_trees_warn by (auto simp: list_all_iff)
  moreover have "list_all (\<lambda>d. dg_severity d = Warning) ?places"
    by (simp add: list_all_iff placement_diagnostic_def mission_scoped_def Let_def)
  moreover have "list_all (\<lambda>d. dg_severity d = Warning) found \<longleftrightarrow> found = []"
    using f(2) by (cases found) auto
  moreover have "list_all (\<lambda>d. dg_severity d = Warning) ?missions
      \<longleftrightarrow> list_all (resolved focus universe_ids) (all_missions focus)"
    using check_missions_errors by (simp add: list_all_iff all_missions_def)
  moreover have "?missions = [] \<longleftrightarrow> list_all (resolved focus universe_ids) (all_missions focus)
      \<and> list_all (\<lambda>t. distinct (map ms_id (mt_missions t))) (mf_trees focus)
      \<and> list_all (\<lambda>m. ms_position m \<noteq> Some 0) (all_missions focus)"
    by (auto simp: check_missions_Nil list_all_iff all_missions_def)
  ultimately show ?thesis using f(1,3) duplicate_trees_Nil [of "{}"]
    by (simp add: validate_with_universe_ids_def) blast
qed

end
