(* ===== verification/Structured_Write.thy ===== *)
theory Structured_Write
  imports Text_Model Vec_Ops "HOL-Library.Multiset"
begin

text \<open>
  The deterministic writes of \<open>crates/engine/src/structure.rs\<close>: fields in declared role order
  (\<open>write_ordered_fields\<close>) and the replacement of one block (\<open>replace_block\<close>), whose slices
  panic off a character boundary.
\<close>

definition usize_max :: nat where "usize_max = 18446744073709551615"

definition field_rank :: "string list \<Rightarrow> string \<times> string \<Rightarrow> nat" where
  "field_rank order field =
    (case position_of (\<lambda>name. name = fst field) order of Some i \<Rightarrow> i | None \<Rightarrow> usize_max)"

definition write_ordered_fields ::
    "string \<Rightarrow> (string \<times> string) list \<Rightarrow> string list \<Rightarrow> string" where
  "write_ordered_fields output chunks order =
    output @ concat (map snd (sort_key (field_rank order) chunks))"

definition replace_block :: "string \<Rightarrow> text_range \<Rightarrow> string \<Rightarrow> string option" where
  "replace_block source span rendered =
    (case (str_get source 0 (range_start span), str_get source (range_end span) (length source)) of
       (Some before, Some after) \<Rightarrow> Some (before @ rendered @ after)
     | _ \<Rightarrow> None)"

text \<open>The fields come out in declared role order, each exactly once, and fields of the same role,
  as all those of no declared role, keep the order in which they were given.\<close>

lemma write_ordered_fields_stable:
  "\<exists>sorted_fields. write_ordered_fields output chunks order = output @ concat (map snd sorted_fields)
    \<and> mset sorted_fields = mset chunks
    \<and> sorted (map (field_rank order) sorted_fields)
    \<and> (\<forall>k. filter (\<lambda>f. field_rank order f = k) sorted_fields = filter (\<lambda>f. field_rank order f = k) chunks)"
  by (intro exI [of _ "sort_key (field_rank order) chunks"])
    (simp add: write_ordered_fields_def sort_key_stable)

lemma write_ordered_fields_keeps:
  "(role, chunk) \<in> set chunks \<Longrightarrow> \<exists>before after. write_ordered_fields output chunks order = before @ chunk @ after"
proof -
  assume "(role, chunk) \<in> set chunks"
  then have "(role, chunk) \<in> set (sort_key (field_rank order) chunks)" by simp
  then obtain fs gs where "sort_key (field_rank order) chunks = fs @ (role, chunk) # gs"
    by (metis split_list)
  then show ?thesis
    by (intro exI [of _ "output @ concat (map snd fs)"] exI [of _ "concat (map snd gs)"])
      (simp add: write_ordered_fields_def)
qed

lemma replace_block_Some:
  "range_start span \<le> range_end span \<Longrightarrow> range_end span \<le> length source \<Longrightarrow>
    is_boundary source (range_start span) \<Longrightarrow> is_boundary source (range_end span) \<Longrightarrow>
    replace_block source span rendered =
      Some (take (range_start span) source @ rendered @ drop (range_end span) source)"
  by (simp add: replace_block_def str_get_def)

end
