(* ===== verification/Decimal.thy ===== *)
theory Decimal
  imports Prelude
begin

text \<open>
  Decimal numbers as the standard library prints and reads them: \<open>to_string\<close> of an unsigned
  integer and \<open>parse::<u32>()\<close>, which accepts a leading plus sign and refuses the empty string, any
  other character and every value beyond 32 bits.
\<close>

fun decimal :: "nat \<Rightarrow> string" where
  "decimal n = (if n < 10 then [char_of (48 + n)] else decimal (n div 10) @ [char_of (48 + n mod 10)])"

declare decimal.simps [simp del]

fun digits_u32 :: "nat \<Rightarrow> string \<Rightarrow> nat option" where
  "digits_u32 acc [] = Some acc"
| "digits_u32 acc (c # cs) =
    (if is_ascii_digit c \<and> acc * 10 + (byte_of c - 48) \<le> u32_max
     then digits_u32 (acc * 10 + (byte_of c - 48)) cs else None)"

definition parse_u32_text :: "string \<Rightarrow> nat option" where
  "parse_u32_text s =
    (case s of
       [] \<Rightarrow> None
     | c # cs \<Rightarrow> if c = CHR ''+'' then (if cs = [] then None else digits_u32 0 cs) else digits_u32 0 s)"

lemma byte_of_digit: "n < 10 \<Longrightarrow> byte_of (char_of (48 + n)) = 48 + n \<and> is_ascii_digit (char_of (48 + n))"
  by (auto simp: byte_of_def is_ascii_digit_def of_char_of)

lemma digits_u32_append:
  "digits_u32 acc (s @ t) = (case digits_u32 acc s of None \<Rightarrow> None | Some a \<Rightarrow> digits_u32 a t)"
  by (induction acc s rule: digits_u32.induct) auto

lemma digits_u32_decimal: "n \<le> u32_max \<Longrightarrow> digits_u32 0 (decimal n) = Some n"
proof (induction n rule: decimal.induct)
  case (1 n)
  show ?case
  proof (cases "n < 10")
    case True
    then show ?thesis using 1 byte_of_digit [OF True] by (simp add: decimal.simps)
  next
    case False
    have "n div 10 \<le> u32_max" using 1(2) by (meson div_le_dividend le_trans)
    then have "digits_u32 0 (decimal (n div 10)) = Some (n div 10)" using 1 False by blast
    moreover have "n div 10 * 10 + n mod 10 = n" by simp
    ultimately show ?thesis using False 1(2) byte_of_digit [of "n mod 10"]
      by (simp add: decimal.simps [of n] digits_u32_append)
  qed
qed

lemma decimal_head: "\<exists>c cs. decimal n = c # cs \<and> is_ascii_digit c"
proof (induction n rule: decimal.induct)
  case (1 n)
  then show ?case using byte_of_digit [of n] by (cases "n < 10") (auto simp: decimal.simps [of n])
qed

text \<open>Reading back a printed number.\<close>

lemma parse_decimal: "n \<le> u32_max \<Longrightarrow> parse_u32_text (decimal n) = Some n"
  using digits_u32_decimal [of n] decimal_head [of n]
  by (auto simp: parse_u32_text_def is_ascii_digit_def byte_of_def)

end
