(* ===== verification/Mission_Write.thy ===== *)
theory Mission_Write
  imports Mission_Model Structured_Write Decimal Cst "HOL-Library.Sublist"
begin

text \<open>
  Rendering missions, \<open>crates/game/src/eu4/mission/write.rs\<close>, over the field spellings of
  \<open>ProfileMissionViewSpec\<close> (\<open>crates/rules/src/profile.rs\<close>), whose value is data of the game rules
  and an argument here.  The style is detected from the source, which the code slices at fixed
  byte offsets: \<open>None\<close> is the panic of a slice off a character boundary.
\<close>

record tree_fields =
  tf_slot :: string
  tf_generic :: string
  tf_ai :: string
  tf_has_country_shield :: string
  tf_potential :: string
  tf_potential_on_load :: string

record node_fields =
  nf_icon :: string
  nf_type :: string
  nf_provinces_to_highlight :: string
  nf_required_missions :: string
  nf_position :: string
  nf_completed_by :: string
  nf_trigger :: string
  nf_effect :: string

record mission_view_spec =
  vs_tree_fields :: tree_fields
  vs_node_fields :: node_fields
  vs_tree_field_order :: "string list"
  vs_node_field_order :: "string list"

subsection \<open>Style detection\<close>

datatype indent = Tab | Spaces nat

datatype block_spacing = Compact | Spacious

record write_style =
  ws_indent :: indent
  ws_newline :: string
  ws_spacing :: block_spacing

definition default_style :: write_style where
  "default_style = \<lparr>ws_indent = Tab, ws_newline = [NL], ws_spacing = Compact\<rparr>"

definition indent_text :: "write_style \<Rightarrow> nat \<Rightarrow> string" where
  "indent_text style level =
    (case ws_indent style of Tab \<Rightarrow> replicate level TAB | Spaces n \<Rightarrow> replicate (n * level) CHR '' '')"

text \<open>\<open>str::matches(..).count()\<close>: occurrences that do not overlap, from the left.\<close>

function count_matches :: "string \<Rightarrow> string \<Rightarrow> nat" where
  "count_matches pattern s =
    (if s = [] then 0
     else if pattern \<noteq> [] \<and> take (length pattern) s = pattern
     then Suc (count_matches pattern (drop (length pattern) s))
     else count_matches pattern (tl s))"
  by pat_completeness auto
termination
  by (relation "measure (\<lambda>(_, s). length s)") auto

declare count_matches.simps [simp del]

text \<open>\<open>str::lines\<close>: a line feed ends a line, with a carriage return before it.\<close>

definition strip_cr :: "string \<Rightarrow> string" where
  "strip_cr line = (if line \<noteq> [] \<and> last line = CR then butlast line else line)"

definition str_lines :: "string \<Rightarrow> string list" where
  "str_lines s =
    (let pieces = split_on NL s
     in map strip_cr (butlast pieces) @ (if last pieces = [] then [] else [last pieces]))"

definition is_indent :: "char \<Rightarrow> bool" where
  "is_indent c \<longleftrightarrow> c = TAB \<or> c = CHR '' ''"

fun indent_of_lines :: "string list \<Rightarrow> indent" where
  "indent_of_lines [] = Tab"
| "indent_of_lines (line # rest) =
    (let leading = takeWhile is_indent line; trimmed = dropWhile is_indent line
     in if trimmed = [] \<or> hd trimmed = CHR ''#'' \<or> leading = [] then indent_of_lines rest
        else if TAB \<in> set leading then Tab
        else Spaces (if length leading \<le> 255 then length leading else 4))"

definition bom_text :: string where "bom_text = [CHR 0xEF, CHR 0xBB, CHR 0xBF]"

definition detect_indent :: "string \<Rightarrow> indent option" where
  "detect_indent source =
    (let start = (if take 3 source = bom_text then 1 else 0)
     in map_option (indent_of_lines \<circ> str_lines) (str_get source start (length source)))"

definition detect_spacing :: "string \<Rightarrow> block_spacing option" where
  "detect_spacing source =
    (case str_get source 0 (min (length source) (256 * 1024)) of
       None \<Rightarrow> None
     | Some probe \<Rightarrow>
        (let blank_lines = count_matches [NL, NL] probe + count_matches [CR, NL, CR, NL] probe
         in Some (if blank_lines > 0 then Spacious else Compact)))"

definition detect_style :: "string \<Rightarrow> write_style option" where
  "detect_style source =
    (case str_get source 0 (min (length source) (64 * 1024)) of
       None \<Rightarrow> None
     | Some probe \<Rightarrow>
        (let crlf = count_matches [CR, NL] probe;
             lf_only = count_matches [NL] probe - crlf;
             newline = (if crlf > lf_only then [CR, NL] else [NL])
         in case (detect_indent source, detect_spacing source) of
              (Some indent, Some spacing) \<Rightarrow>
                Some \<lparr>ws_indent = indent, ws_newline = newline, ws_spacing = spacing\<rparr>
            | _ \<Rightarrow> None))"

subsection \<open>Rendering\<close>

definition scalar_field :: "string \<Rightarrow> string \<Rightarrow> string \<Rightarrow> write_style \<Rightarrow> string" where
  "scalar_field ind name v style = ind @ name @ '' = '' @ v @ ws_newline style"

definition block_line :: "string \<Rightarrow> string \<Rightarrow> mission_block \<Rightarrow> write_style \<Rightarrow> string" where
  "block_line ind name b style = ind @ name @ '' = '' @ block_text b @ ws_newline style"

definition raw_field_line :: "string \<Rightarrow> raw_field \<Rightarrow> write_style \<Rightarrow> string" where
  "raw_field_line ind f style = ind @ field_name f @ '' = '' @ field_text f @ ws_newline style"

definition blank_line :: "string \<Rightarrow> write_style \<Rightarrow> string" where
  "blank_line ind style = ind @ ws_newline style"

text \<open>One optional field of a role: the closures \<open>add_scalar\<close> and the loops over blocks.\<close>

definition yes_no :: "bool \<Rightarrow> string" where
  "yes_no b = (if b then ''yes'' else ''no'')"

definition optional_scalar ::
    "string \<Rightarrow> write_style \<Rightarrow> string \<Rightarrow> string \<Rightarrow> string option \<Rightarrow> (string \<times> string) list" where
  "optional_scalar ind style role key v =
    (case v of None \<Rightarrow> [] | Some s \<Rightarrow> [(role, scalar_field ind key s style)])"

definition optional_block ::
    "string \<Rightarrow> string \<Rightarrow> write_style \<Rightarrow> string \<Rightarrow> string \<Rightarrow> mission_block option \<Rightarrow> (string \<times> string) list" where
  "optional_block lead ind style role key v =
    (case v of None \<Rightarrow> [] | Some b \<Rightarrow> [(role, lead @ block_line ind key b style)])"

definition mission_chunks :: "string \<Rightarrow> mission \<Rightarrow> write_style \<Rightarrow> node_fields \<Rightarrow> (string \<times> string) list" where
  "mission_chunks ind m style nf =
    (let lead = (if ws_spacing style = Spacious then blank_line ind style else []) in
     optional_scalar ind style ''icon'' (nf_icon nf) (ms_icon m)
     @ optional_scalar ind style ''position'' (nf_position nf)
         (map_option (\<lambda>p. decimal (unat p)) (ms_position m))
     @ optional_scalar ind style ''completed_by'' (nf_completed_by nf) (ms_completed_by m)
     @ optional_scalar ind style ''type'' (nf_type nf) (ms_type m)
     @ [(''required_missions'', ind @ nf_required_missions nf @ '' = {''
          @ concat (map (\<lambda>r. '' '' @ r) (ms_required m)) @ '' }'' @ ws_newline style)]
     @ optional_block lead ind style ''provinces_to_highlight'' (nf_provinces_to_highlight nf)
         (ms_provinces_to_highlight m)
     @ optional_block lead ind style ''trigger'' (nf_trigger nf) (ms_trigger m)
     @ optional_block lead ind style ''effect'' (nf_effect nf) (ms_effect m)
     @ map (\<lambda>f. ([], raw_field_line ind f style)) (ms_unknown m))"

definition render_mission_with_spec ::
    "string \<Rightarrow> string \<Rightarrow> mission \<Rightarrow> write_style \<Rightarrow> mission_view_spec \<Rightarrow> string" where
  "render_mission_with_spec ind_mission ind_field m style spec =
    write_ordered_fields (ind_mission @ ms_id m @ '' = {'' @ ws_newline style)
      (mission_chunks ind_field m style (vs_node_fields spec)) (vs_node_field_order spec)
    @ ind_mission @ ''}'' @ ws_newline style"

definition render_mission_block :: "mission \<Rightarrow> write_style \<Rightarrow> mission_view_spec \<Rightarrow> string" where
  "render_mission_block m style spec =
    render_mission_with_spec (indent_text style 1) (indent_text style 2) m style spec"

definition tree_chunks :: "string \<Rightarrow> mission_tree \<Rightarrow> write_style \<Rightarrow> tree_fields \<Rightarrow> (string \<times> string) list" where
  "tree_chunks ind t style tf =
    [(''slot'', scalar_field ind (tf_slot tf) (decimal (unat (mt_slot t))) style),
     (''generic'', scalar_field ind (tf_generic tf) (yes_no (mt_generic t)) style)]
    @ optional_scalar ind style ''ai'' (tf_ai tf) (map_option yes_no (mt_ai t))
    @ optional_scalar ind style ''has_country_shield'' (tf_has_country_shield tf)
        (map_option yes_no (mt_has_country_shield t))
    @ optional_block [] ind style ''potential_on_load'' (tf_potential_on_load tf) (mt_potential_on_load t)
    @ optional_block [] ind style ''potential'' (tf_potential tf) (mt_potential t)
    @ map (\<lambda>f. ([], raw_field_line ind f style)) (mt_unknown t)"

text \<open>The missions of a tree, a blank line before each but the first when the style is spacious.\<close>

fun render_missions :: "bool \<Rightarrow> write_style \<Rightarrow> mission_view_spec \<Rightarrow> mission list \<Rightarrow> string" where
  "render_missions first style spec [] = []"
| "render_missions first style spec (m # ms) =
    (if \<not> first \<and> ws_spacing style = Spacious then blank_line (indent_text style 1) style else [])
    @ render_mission_with_spec (indent_text style 1) (indent_text style 2) m style spec
    @ render_missions False style spec ms"

definition render_tree :: "mission_tree \<Rightarrow> write_style \<Rightarrow> mission_view_spec \<Rightarrow> string" where
  "render_tree t style spec =
    (let ind1 = indent_text style 1;
         out = mt_id t @ '' = {'' @ ws_newline style
           @ (if ws_spacing style = Spacious then ws_newline style else []);
         out = write_ordered_fields out (tree_chunks ind1 t style (vs_tree_fields spec)) (vs_tree_field_order spec)
     in out
        @ (if mt_missions t \<noteq> [] \<and> ws_spacing style = Spacious then blank_line ind1 style else [])
        @ render_missions True style spec (mt_missions t)
        @ ''}'')"

definition apply_tree_edit :: "string \<Rightarrow> text_range \<Rightarrow> string \<Rightarrow> string option" where
  "apply_tree_edit source span rendered = replace_block source span rendered"

subsection \<open>What rendering keeps\<close>

lemma sublist_mid: "sublist xs (as @ xs @ bs)"
  by (auto simp: sublist_def)

lemma sublist_in_written:
  "(role, chunk) \<in> set chunks \<Longrightarrow> sublist xs chunk \<Longrightarrow> sublist xs (write_ordered_fields out chunks order)"
  using write_ordered_fields_keeps [of role chunk chunks out order] sublist_order.order_trans sublist_mid by metis

text \<open>What a list of missions leaves in the text: each mission's own block, in the order of the tree.\<close>

lemma render_missions_parts:
  "\<exists>separators. length separators = length ms
    \<and> render_missions first style spec ms
        = concat (map2 (\<lambda>sep m. sep @ render_mission_block m style spec) separators ms)
    \<and> set separators \<subseteq> {[], blank_line (indent_text style 1) style}"
proof (induction first style spec ms rule: render_missions.induct)
  case (2 first style spec m ms)
  then obtain seps where "length seps = length ms"
    "render_missions False style spec ms = concat (map2 (\<lambda>sep m. sep @ render_mission_block m style spec) seps ms)"
    "set seps \<subseteq> {[], blank_line (indent_text style 1) style}" by blast
  then show ?case
    by (intro exI [of _ "(if \<not> first \<and> ws_spacing style = Spacious
        then blank_line (indent_text style 1) style else []) # seps"])
      (simp add: render_mission_block_def)
qed simp

definition written_in :: "string \<Rightarrow> string \<Rightarrow> string \<Rightarrow> bool" where
  "written_in key v out \<longleftrightarrow> sublist (key @ '' = '' @ v) out"

lemma optional_block_written:
  "set (optional_block lead ind style role key v) \<subseteq> set chunks \<Longrightarrow> v = Some b \<Longrightarrow>
    written_in key (block_text b) (write_ordered_fields out chunks order)"
proof -
  assume sub: "set (optional_block lead ind style role key v) \<subseteq> set chunks" and v: "v = Some b"
  then have "(role, lead @ block_line ind key b style) \<in> set chunks" by (simp add: optional_block_def)
  moreover have "sublist (key @ '' = '' @ block_text b) (lead @ block_line ind key b style)"
    using sublist_mid [of "key @ '' = '' @ block_text b" "lead @ ind" "ws_newline style"]
    by (simp add: block_line_def)
  ultimately show ?thesis unfolding written_in_def by (rule sublist_in_written)
qed

lemma raw_fields_written:
  "f \<in> set fs \<Longrightarrow> set (map (\<lambda>f. ([], raw_field_line ind f style)) fs) \<subseteq> set chunks \<Longrightarrow>
    written_in (field_name f) (field_text f) (write_ordered_fields out chunks order)"
proof -
  assume "f \<in> set fs" "set (map (\<lambda>f. ([], raw_field_line ind f style)) fs) \<subseteq> set chunks"
  then have "([], raw_field_line ind f style) \<in> set chunks" by auto
  moreover have "sublist (field_name f @ '' = '' @ field_text f) (raw_field_line ind f style)"
    using sublist_mid [of "field_name f @ '' = '' @ field_text f" ind "ws_newline style"]
    by (simp add: raw_field_line_def)
  ultimately show ?thesis unfolding written_in_def by (rule sublist_in_written)
qed

definition fields_written :: "raw_field list \<Rightarrow> string \<Rightarrow> bool" where
  "fields_written fs out \<longleftrightarrow> list_all (\<lambda>f. written_in (field_name f) (field_text f) out) fs"

fun blocks_written :: "(string \<times> mission_block option) list \<Rightarrow> string \<Rightarrow> bool" where
  "blocks_written [] out = True"
| "blocks_written ((key, None) # rest) out = blocks_written rest out"
| "blocks_written ((key, Some b) # rest) out = (written_in key (block_text b) out \<and> blocks_written rest out)"

lemma written_in_mono: "written_in key v out \<Longrightarrow> sublist out out' \<Longrightarrow> written_in key v out'"
  unfolding written_in_def by (rule sublist_order.order_trans)

lemma written_mono:
  "fields_written fs out \<Longrightarrow> sublist out out' \<Longrightarrow> fields_written fs out'"
  "blocks_written kvs out \<Longrightarrow> sublist out out' \<Longrightarrow> blocks_written kvs out'"
proof -
  show "fields_written fs out \<Longrightarrow> sublist out out' \<Longrightarrow> fields_written fs out'"
    by (auto simp: fields_written_def list_all_iff intro: written_in_mono)
  show "blocks_written kvs out \<Longrightarrow> sublist out out' \<Longrightarrow> blocks_written kvs out'"
    by (induction kvs out rule: blocks_written.induct) (auto intro: written_in_mono)
qed

lemma blocks_written_iff:
  "blocks_written kvs out \<longleftrightarrow> (\<forall>key b. (key, Some b) \<in> set kvs \<longrightarrow> written_in key (block_text b) out)"
  by (induction kvs out rule: blocks_written.induct) auto

definition mission_blocks :: "node_fields \<Rightarrow> mission \<Rightarrow> (string \<times> mission_block option) list" where
  "mission_blocks nf m = [(nf_trigger nf, ms_trigger m), (nf_effect nf, ms_effect m),
     (nf_provinces_to_highlight nf, ms_provinces_to_highlight m)]"

definition tree_blocks :: "tree_fields \<Rightarrow> mission_tree \<Rightarrow> (string \<times> mission_block option) list" where
  "tree_blocks tf t = [(tf_potential tf, mt_potential t), (tf_potential_on_load tf, mt_potential_on_load t)]"

lemma mission_block_keeps:
  "fields_written (ms_unknown m) (render_mission_block m style spec)
    \<and> blocks_written (mission_blocks (vs_node_fields spec) m) (render_mission_block m style spec)"
proof -
  let ?ind = "indent_text style 2"
  let ?lead = "if ws_spacing style = Spacious then blank_line ?ind style else []"
  let ?chunks = "mission_chunks ?ind m style (vs_node_fields spec)"
  let ?out = "write_ordered_fields (indent_text style 1 @ ms_id m @ '' = {'' @ ws_newline style)
      ?chunks (vs_node_field_order spec)"
  have sub: "sublist ?out (render_mission_block m style spec)"
    using sublist_mid [of ?out "[]"] by (simp add: render_mission_block_def render_mission_with_spec_def)
  have "fields_written (ms_unknown m) ?out" unfolding fields_written_def list_all_iff
    by (intro ballI raw_fields_written [where ind = ?ind and style = style])
      (auto simp: mission_chunks_def Let_def)
  moreover have "blocks_written (mission_blocks (vs_node_fields spec) m) ?out"
    unfolding blocks_written_iff mission_blocks_def
  proof (intro allI impI)
    fix key b assume "(key, Some b) \<in> set [(nf_trigger (vs_node_fields spec), ms_trigger m),
        (nf_effect (vs_node_fields spec), ms_effect m),
        (nf_provinces_to_highlight (vs_node_fields spec), ms_provinces_to_highlight m)]"
    then obtain role where "set (optional_block ?lead ?ind style role key (Some b)) \<subseteq> set ?chunks"
      by (fastforce simp: mission_chunks_def Let_def)
    then show "written_in key (block_text b) ?out" by (rule optional_block_written) simp
  qed
  ultimately show ?thesis using written_mono sub by blast
qed

lemma tree_head_keeps:
  assumes "out = write_ordered_fields start (tree_chunks ind t style tf) order"
  shows "fields_written (mt_unknown t) out" "blocks_written (tree_blocks tf t) out"
proof -
  show "fields_written (mt_unknown t) out" unfolding fields_written_def list_all_iff assms
    by (intro ballI raw_fields_written [where ind = ind and style = style]) (auto simp: tree_chunks_def)
  show "blocks_written (tree_blocks tf t) out" unfolding blocks_written_iff tree_blocks_def assms
  proof (intro allI impI)
    fix key b assume "(key, Some b) \<in> set [(tf_potential tf, mt_potential t), (tf_potential_on_load tf, mt_potential_on_load t)]"
    then obtain role where "set (optional_block [] ind style role key (Some b)) \<subseteq> set (tree_chunks ind t style tf)"
      by (fastforce simp: tree_chunks_def)
    then show "written_in key (block_text b) (write_ordered_fields start (tree_chunks ind t style tf) order)"
      by (rule optional_block_written) simp
  qed
qed

text \<open>C23. Rendering loses nothing that the editor does not model: every opaque block and every unknown
  field of the tree and of its missions stands in the text as it was kept, under its name, and the
  blocks of the missions follow in the order of the tree.\<close>

theorem render_tree_keeps_opaque_parts:
  "fields_written (mt_unknown t) (render_tree t style spec)
    \<and> blocks_written (tree_blocks (vs_tree_fields spec) t) (render_tree t style spec)
    \<and> list_all (\<lambda>m. fields_written (ms_unknown m) (render_mission_block m style spec)
        \<and> blocks_written (mission_blocks (vs_node_fields spec) m) (render_mission_block m style spec)) (mt_missions t)
    \<and> (\<exists>head separators. length separators = length (mt_missions t)
        \<and> render_tree t style spec = head
            @ concat (map2 (\<lambda>sep m. sep @ render_mission_block m style spec) separators (mt_missions t)) @ ''}'')"
proof -
  let ?ms = "render_missions True style spec (mt_missions t)"
  define written where "written = write_ordered_fields
    (mt_id t @ '' = {'' @ ws_newline style @ (if ws_spacing style = Spacious then ws_newline style else []))
    (tree_chunks (indent_text style 1) t style (vs_tree_fields spec)) (vs_tree_field_order spec)"
  obtain seps where seps: "length seps = length (mt_missions t)"
    "?ms = concat (map2 (\<lambda>sep m. sep @ render_mission_block m style spec) seps (mt_missions t))"
    using render_missions_parts by blast
  obtain head where out: "render_tree t style spec = written @ head @ ?ms @ ''}''"
    unfolding render_tree_def Let_def written_def by blast
  have "sublist written (render_tree t style spec)" using sublist_mid [of written "[]"] by (simp add: out)
  with tree_head_keeps [OF written_def]
  have "fields_written (mt_unknown t) (render_tree t style spec)"
    "blocks_written (tree_blocks (vs_tree_fields spec) t) (render_tree t style spec)"
    by (blast intro: written_mono)+
  moreover have "render_tree t style spec = (written @ head)
      @ concat (map2 (\<lambda>sep m. sep @ render_mission_block m style spec) seps (mt_missions t)) @ ''}''"
    by (simp add: out seps(2))
  then have "\<exists>head separators. length separators = length (mt_missions t)
        \<and> render_tree t style spec = head
            @ concat (map2 (\<lambda>sep m. sep @ render_mission_block m style spec) separators (mt_missions t)) @ ''}''"
    using seps(1) by blast
  ultimately show ?thesis by (simp add: list_all_iff mission_block_keeps)
qed

subsection \<open>When style detection panics\<close>

lemma count_line_feeds: "count_matches [NL] s = length (filter (\<lambda>c. c = NL) s)"
proof (induction s)
  case (Cons c cs)
  then show ?case by (simp add: count_matches.simps [of _ "c # cs"])
qed (simp add: count_matches.simps)

text \<open>The subtraction of the two counts does not underflow.\<close>

lemma crlf_count_le: "count_matches [CR, NL] s \<le> count_matches [NL] s"
proof (induction "[CR, NL]" s rule: count_matches.induct)
  case (1 s)
  show ?case
  proof (cases "take 2 s = [CR, NL]")
    case True
    then obtain r where r: "s = CR # NL # r" by (cases s; cases "tl s") auto
    then have "count_matches [CR, NL] s = Suc (count_matches [CR, NL] r)"
      by (simp add: count_matches.simps [of "[CR, NL]" "CR # NL # r"])
    moreover have "CR \<noteq> NL" by (simp add: CR_def NL_def)
    ultimately show ?thesis using 1 True r by (simp add: count_line_feeds)
  next
    case False
    show ?thesis
    proof (cases s)
      case Nil
      then show ?thesis by (simp add: count_matches.simps)
    next
      case (Cons x xs)
      have "count_matches [CR, NL] (x # xs) = count_matches [CR, NL] xs"
        using False Cons count_matches.simps [of "[CR, NL]" "x # xs"] by (auto split: if_splits)
      then show ?thesis using 1(2) False Cons by (simp add: count_line_feeds)
    qed
  qed
qed

text \<open>Style detection panics exactly on a text that starts with a byte order mark, and on a long text
  with a character across the 64 KiB or the 256 KiB mark.\<close>

lemma detect_style_panics:
  "detect_style source = None \<longleftrightarrow>
    take 3 source = bom_text
    \<or> 64 * 1024 < length source \<and> \<not> is_boundary source (64 * 1024)
    \<or> 256 * 1024 < length source \<and> \<not> is_boundary source (256 * 1024)"
proof -
  have probe: "str_get source 0 (min (length source) n) = None \<longleftrightarrow> n < length source \<and> \<not> is_boundary source n" for n
    by (auto simp: str_get_def min_def)
  have bom: "detect_indent source = None \<longleftrightarrow> take 3 source = bom_text"
  proof (cases "take 3 source = bom_text")
    case True
    then obtain r where r: "source = CHR 0xEF # CHR 0xBB # CHR 0xBF # r"
      by (cases source; cases "tl source"; cases "tl (tl source)") (auto simp: bom_text_def)
    have "\<not> is_boundary source 1" by (simp add: r is_boundary_def is_cont_def byte_of_def)
    then show ?thesis using True by (simp add: detect_indent_def Let_def str_get_def)
  next
    case False
    then show ?thesis by (simp add: detect_indent_def Let_def str_get_def)
  qed
  show ?thesis using probe [of "64 * 1024"] probe [of "256 * 1024"] bom
    by (auto simp: detect_style_def detect_spacing_def Let_def split: option.splits)
qed

end
