(* ===== verification/Mission_Load.thy ===== *)
theory Mission_Load
  imports Mission_Write Format_Edits
begin

text \<open>
  Mission files out of the syntax tree, \<open>crates/game/src/eu4/mission/load.rs\<close>: what fits the model
  becomes a field, everything else is kept as raw text, and what is dropped or kept verbatim is
  reported in the warnings.
\<close>

record loaded_file =
  lf_file :: mission_file
  lf_syntax_errors :: "syntax_error list"
  lf_warnings :: "string list"

subsection \<open>Reading the syntax tree\<close>

definition is_block_kind :: "cst_kind \<Rightarrow> bool" where
  "is_block_kind k \<longleftrightarrow> k = Block \<or> k = HeaderBlock"

definition as_block :: "cst \<Rightarrow> cst option" where
  "as_block node =
    (if is_block_kind (cst_kind node) then Some node
     else if cst_kind node = Value then find (\<lambda>c. is_block_kind (cst_kind c)) (cst_children node)
     else None)"

definition prop_parts :: "cst \<Rightarrow> (cst \<times> cst) option" where
  "prop_parts prop =
    (case fold (\<lambda>child (key, val).
          if cst_kind child = Key then (Some child, val)
          else if cst_kind child = Value then (key, Some child)
          else (key, val)) (cst_children prop) (None, None) of
       (Some key, Some val) \<Rightarrow> Some (key, val)
     | _ \<Rightarrow> None)"

definition block_props :: "cst \<Rightarrow> cst list" where
  "block_props node = filter (\<lambda>c. cst_kind c = Property) (cst_children node)"

definition unquote :: "string \<Rightarrow> string" where
  "unquote s =
    (case strip_prefix QUOTE s of
       None \<Rightarrow> s
     | Some rest \<Rightarrow> (case strip_suffix QUOTE rest of None \<Rightarrow> s | Some inner \<Rightarrow> inner))"

definition value_text :: "parsed_file \<Rightarrow> cst \<Rightarrow> string" where
  "value_text parsed node =
    trim (case pf_text (cst_range node) parsed of None \<Rightarrow> [] | Some s \<Rightarrow> s)"

definition scalar_text :: "parsed_file \<Rightarrow> cst \<Rightarrow> string" where
  "scalar_text parsed node = unquote (value_text parsed node)"

definition read_block :: "parsed_file \<Rightarrow> cst \<Rightarrow> mission_block" where
  "read_block parsed node = new_block (value_text parsed node)"

definition block_scalars :: "parsed_file \<Rightarrow> cst \<Rightarrow> (string \<times> text_range) list" where
  "block_scalars parsed node =
    filter (\<lambda>(s, _). s \<noteq> [])
      (map (\<lambda>c. (scalar_text parsed c, cst_range c))
        (filter (\<lambda>c. cst_kind c = BareValue \<or> cst_kind c = QuotedString) (cst_children node)))"

definition read_u32 :: "parsed_file \<Rightarrow> cst \<Rightarrow> cell option" where
  "read_u32 parsed node = map_option word_of_nat (parse_u32_text (scalar_text parsed node))"

definition read_bool :: "parsed_file \<Rightarrow> cst \<Rightarrow> bool option" where
  "read_bool parsed node =
    (if scalar_text parsed node = ''yes'' then Some True
     else if scalar_text parsed node = ''no'' then Some False else None)"

definition kept_verbatim :: "string \<Rightarrow> string" where
  "kept_verbatim name = ''field `'' @ name @ ''` has an unexpected value type; kept verbatim''"

definition raw_field_of :: "parsed_file \<Rightarrow> string \<Rightarrow> cst \<Rightarrow> raw_field" where
  "raw_field_of parsed name v = \<lparr>field_name = name, field_text = value_text parsed v\<rparr>"

subsection \<open>Missions\<close>

definition mission_unknown ::
    "parsed_file \<Rightarrow> string \<Rightarrow> cst \<Rightarrow> mission \<times> string list \<Rightarrow> mission \<times> string list" where
  "mission_unknown parsed name v st =
    (case st of (m, warnings) \<Rightarrow>
       (m\<lparr>ms_unknown := ms_unknown m @ [raw_field_of parsed name v]\<rparr>, warnings @ [kept_verbatim name]))"

definition mission_property ::
    "parsed_file \<Rightarrow> node_fields \<Rightarrow> cst \<Rightarrow> mission \<times> string list \<Rightarrow> mission \<times> string list" where
  "mission_property parsed nf prop st =
    (case (prop_parts prop, st) of
       (None, _) \<Rightarrow> st
     | (Some (k, v), (m, warnings)) \<Rightarrow>
        (let name = scalar_text parsed k; b = as_block v in
         if name = nf_icon nf then (m\<lparr>ms_icon := Some (scalar_text parsed v)\<rparr>, warnings)
         else if name = nf_type nf then (m\<lparr>ms_type := Some (scalar_text parsed v)\<rparr>, warnings)
         else if name = nf_provinces_to_highlight nf \<and> b \<noteq> None
           then (m\<lparr>ms_provinces_to_highlight := map_option (read_block parsed) b\<rparr>, warnings)
         else if name = nf_required_missions nf
           then (case b of
                   None \<Rightarrow> mission_unknown parsed name v st
                 | Some node \<Rightarrow>
                     (m\<lparr>ms_required := ms_required m @ map fst (block_scalars parsed node),
                        ms_required_ranges := ms_required_ranges m @ map snd (block_scalars parsed node)\<rparr>,
                      warnings))
         else if name = nf_position nf
           then (case read_u32 parsed v of
                   None \<Rightarrow> mission_unknown parsed name v st
                 | Some n \<Rightarrow> (m\<lparr>ms_position := Some n, ms_position_range := Some (cst_range v)\<rparr>, warnings))
         else if name = nf_completed_by nf
           then (m\<lparr>ms_completed_by := Some (scalar_text parsed v)\<rparr>, warnings)
         else if name = nf_trigger nf \<and> b \<noteq> None
           then (m\<lparr>ms_trigger := map_option (read_block parsed) b\<rparr>, warnings)
         else if name = nf_effect nf \<and> b \<noteq> None
           then (m\<lparr>ms_effect := map_option (read_block parsed) b\<rparr>, warnings)
         else if name = nf_trigger nf \<or> name = nf_effect nf
           then mission_unknown parsed name v st
         else (m\<lparr>ms_unknown := ms_unknown m @ [raw_field_of parsed name v]\<rparr>, warnings)))"

definition parse_mission ::
    "parsed_file \<Rightarrow> node_fields \<Rightarrow> cst \<Rightarrow> cst \<Rightarrow> text_range \<Rightarrow> string list \<Rightarrow> mission \<times> string list" where
  "parse_mission parsed nf key val extent warnings =
    fold (mission_property parsed nf) (block_props val)
      ((empty_mission (scalar_text parsed key))\<lparr>ms_id_range := cst_range key, ms_span := extent\<rparr>, warnings)"

subsection \<open>Trees\<close>

definition tree_unknown ::
    "parsed_file \<Rightarrow> string \<Rightarrow> cst \<Rightarrow> mission_tree \<times> string list \<Rightarrow> mission_tree \<times> string list" where
  "tree_unknown parsed name v st =
    (case st of (t, warnings) \<Rightarrow>
       (t\<lparr>mt_unknown := mt_unknown t @ [raw_field_of parsed name v]\<rparr>, warnings @ [kept_verbatim name]))"

definition tree_property ::
    "parsed_file \<Rightarrow> mission_view_spec \<Rightarrow> cst \<Rightarrow> mission_tree \<times> string list \<Rightarrow> mission_tree \<times> string list" where
  "tree_property parsed spec prop st =
    (case (prop_parts prop, st) of
       (None, _) \<Rightarrow> st
     | (Some (k, v), (t, warnings)) \<Rightarrow>
        (let name = scalar_text parsed k; b = as_block v; tf = vs_tree_fields spec in
         if name = tf_slot tf
           then (case read_u32 parsed v of
                   Some n \<Rightarrow> (t\<lparr>mt_slot := n\<rparr>, warnings) | None \<Rightarrow> tree_unknown parsed name v st)
         else if name = tf_generic tf
           then (case read_bool parsed v of
                   Some x \<Rightarrow> (t\<lparr>mt_generic := x\<rparr>, warnings) | None \<Rightarrow> tree_unknown parsed name v st)
         else if name = tf_ai tf
           then (case read_bool parsed v of
                   Some x \<Rightarrow> (t\<lparr>mt_ai := Some x\<rparr>, warnings) | None \<Rightarrow> tree_unknown parsed name v st)
         else if name = tf_has_country_shield tf
           then (case read_bool parsed v of
                   Some x \<Rightarrow> (t\<lparr>mt_has_country_shield := Some x\<rparr>, warnings)
                 | None \<Rightarrow> tree_unknown parsed name v st)
         else if name = tf_potential tf \<and> b \<noteq> None
           then (t\<lparr>mt_potential := map_option (read_block parsed) b\<rparr>, warnings)
         else if name = tf_potential_on_load tf \<and> b \<noteq> None
           then (t\<lparr>mt_potential_on_load := map_option (read_block parsed) b\<rparr>, warnings)
         else if name = tf_potential tf \<or> name = tf_potential_on_load tf
           then tree_unknown parsed name v st
         else (case b of
                 Some node \<Rightarrow>
                   (case parse_mission parsed (vs_node_fields spec) k node (cst_range prop) warnings of
                      (m, warnings') \<Rightarrow> (t\<lparr>mt_missions := mt_missions t @ [m]\<rparr>, warnings'))
               | None \<Rightarrow> (t\<lparr>mt_unknown := mt_unknown t @ [raw_field_of parsed name v]\<rparr>, warnings))))"

definition parse_tree ::
    "parsed_file \<Rightarrow> mission_view_spec \<Rightarrow> cst \<Rightarrow> cst \<Rightarrow> text_range \<Rightarrow> string list
      \<Rightarrow> mission_tree \<times> string list" where
  "parse_tree parsed spec key val extent warnings =
    fold (tree_property parsed spec) (block_props val)
      ((empty_tree (scalar_text parsed key))\<lparr>mt_id_range := cst_range key, mt_span := extent\<rparr>, warnings)"

definition top_level ::
    "parsed_file \<Rightarrow> mission_view_spec \<Rightarrow> cst \<Rightarrow> mission_tree list \<times> string list
      \<Rightarrow> mission_tree list \<times> string list" where
  "top_level parsed spec node st =
    (case st of (trees, warnings) \<Rightarrow>
       if cst_kind node \<noteq> Property then st
       else (case prop_parts node of
          None \<Rightarrow> (trees, warnings @ [''skipped malformed top-level property''])
        | Some (key, val) \<Rightarrow>
           (case as_block val of
              None \<Rightarrow> st
            | Some b \<Rightarrow>
               (case parse_tree parsed spec key b (cst_range node) warnings of
                  (t, warnings') \<Rightarrow> (trees @ [t], warnings')))))"

definition extract_trees :: "parsed_file \<Rightarrow> mission_view_spec \<Rightarrow> mission_tree list \<times> string list" where
  "extract_trees parsed spec =
    fold (top_level parsed spec) (cst_children (pf_tree parsed)) ([], [])"

definition parse_mission_file :: "string \<Rightarrow> mission_view_spec \<Rightarrow> loaded_file option" where
  "parse_mission_file source spec =
    (case parse_file ScriptFormat source of
       None \<Rightarrow> None
     | Some parsed \<Rightarrow>
        (case extract_trees parsed spec of (trees, warnings) \<Rightarrow>
           Some \<lparr>lf_file = \<lparr>mf_trees = trees\<rparr>, lf_syntax_errors = pf_errors parsed, lf_warnings = warnings\<rparr>))"

subsection \<open>Loaded files are well formed\<close>

text \<open>A range inside another, both on character boundaries of the source.\<close>

definition range_in :: "string \<Rightarrow> text_range \<Rightarrow> text_range \<Rightarrow> bool" where
  "range_in src outer r \<longleftrightarrow> valid_range src r
    \<and> range_start outer \<le> range_start r \<and> range_end r \<le> range_end outer"

definition mission_well_formed :: "string \<Rightarrow> mission \<Rightarrow> bool" where
  "mission_well_formed src m \<longleftrightarrow> valid_range src (ms_span m) \<and> range_in src (ms_span m) (ms_id_range m)
    \<and> length (ms_required_ranges m) = length (ms_required m)
    \<and> list_all (range_in src (ms_span m)) (ms_required_ranges m)
    \<and> list_all (\<lambda>r. r \<noteq> []) (ms_required m)
    \<and> rel_option (\<lambda>_ r. range_in src (ms_span m) r) (ms_position m) (ms_position_range m)"

definition tree_well_formed :: "string \<Rightarrow> mission_tree \<Rightarrow> bool" where
  "tree_well_formed src t \<longleftrightarrow> valid_range src (mt_span t) \<and> range_in src (mt_span t) (mt_id_range t)
    \<and> list_all (mission_well_formed src) (mt_missions t)
    \<and> list_all (\<lambda>m. range_in src (mt_span t) (ms_span m)) (mt_missions t)"

text \<open>A node of the tree inside a range.\<close>

definition node_in :: "string \<Rightarrow> text_range \<Rightarrow> cst \<Rightarrow> bool" where
  "node_in src outer node \<longleftrightarrow> valid_node src None node \<and> range_in src outer (cst_range node)"

lemma range_in_trans: "range_in src a b \<Longrightarrow> range_in src b c \<Longrightarrow> range_in src a c"
  by (simp add: range_in_def)

lemma node_in_range: "node_in src outer node \<Longrightarrow> range_in src outer (cst_range node)"
  by (simp add: node_in_def)

lemma node_in_child:
  assumes "node_in src outer node" "child \<in> set (cst_children node)"
  shows "node_in src outer child" "node_in src (cst_range node) child"
proof -
  obtain k r cs where n: "node = Node k r cs" by (cases node)
  have c: "valid_node src (Some r) child" and r: "range_in src outer r"
    using assms by (auto simp: node_in_def n list_all_iff)
  obtain k' r' cs' where n': "child = Node k' r' cs'" by (cases child)
  have "range_in src r r'" "valid_node src None child" using c by (auto simp: n' range_in_def)
  then show "node_in src (cst_range node) child" "node_in src outer child"
    using range_in_trans [OF r] by (simp_all add: node_in_def n n')
qed

lemma as_block_in: "as_block v = Some b \<Longrightarrow> node_in src outer v \<Longrightarrow> node_in src outer b"
  by (auto simp: as_block_def dest: find_Some_set intro: node_in_child split: if_splits)

lemma prop_parts_in:
  assumes "prop_parts prop = Some (key, val)" "node_in src outer prop"
  shows "node_in src (cst_range prop) key \<and> node_in src (cst_range prop) val \<and> node_in src outer val"
proof -
  have "set_option (fst (fold (\<lambda>child (key, val).
          if cst_kind child = Key then (Some child, val)
          else if cst_kind child = Value then (key, Some child)
          else (key, val)) cs st)) \<subseteq> set cs \<union> set_option (fst st)
      \<and> set_option (snd (fold (\<lambda>child (key, val).
          if cst_kind child = Key then (Some child, val)
          else if cst_kind child = Value then (key, Some child)
          else (key, val)) cs st)) \<subseteq> set cs \<union> set_option (snd st)" for cs st
    by (induction cs arbitrary: st) (force split: if_splits prod.splits)+
  from this [of "cst_children prop" "(None, None)"]
  have "key \<in> set (cst_children prop)" "val \<in> set (cst_children prop)"
    using assms(1) by (auto simp: prop_parts_def split: prod.splits option.splits)
  then show ?thesis using assms(2) node_in_child by blast
qed

lemma block_scalars_in:
  assumes "node_in src outer node"
  shows "list_all (range_in src outer) (map snd (block_scalars parsed node))"
    "list_all (\<lambda>s. s \<noteq> []) (map fst (block_scalars parsed node))"
  using node_in_child(1) [OF assms] by (auto simp: block_scalars_def list_all_iff node_in_def)

lemma mission_property_ok:
  assumes "mission_well_formed src (fst st)" "node_in src (ms_span (fst st)) prop"
  shows "mission_well_formed src (fst (mission_property parsed nf prop st))
    \<and> ms_span (fst (mission_property parsed nf prop st)) = ms_span (fst st)"
proof (cases "prop_parts prop")
  case None
  then show ?thesis using assms by (simp add: mission_property_def)
next
  case (Some kv)
  obtain k v m warnings where kv: "kv = (k, v)" "st = (m, warnings)" by (cases kv, cases st)
  have v: "node_in src (ms_span m) v" using prop_parts_in Some kv assms(2) by simp
  have scalars: "list_all (range_in src (ms_span m)) (map snd (block_scalars parsed b))"
      "list_all (\<lambda>s. s \<noteq> []) (map fst (block_scalars parsed b))" if "as_block v = Some b" for b
    using block_scalars_in as_block_in [OF that v] by blast+
  have "range_in src (ms_span m) (cst_range v)" by (rule node_in_range [OF v])
  then show ?thesis using assms(1) Some kv scalars
    by (auto simp: mission_property_def mission_unknown_def mission_well_formed_def Let_def
        split: option.splits)
qed

lemma fold_invariant:
  "(\<And>x st. x \<in> set xs \<Longrightarrow> P st \<Longrightarrow> P (f x st)) \<Longrightarrow> P st \<Longrightarrow> P (fold f xs st)"
  by (induction xs arbitrary: st) auto

lemma parse_mission_ok:
  assumes "range_in src outer extent" "node_in src extent key" "node_in src extent val"
  shows "mission_well_formed src (fst (parse_mission parsed nf key val extent warnings))
    \<and> ms_span (fst (parse_mission parsed nf key val extent warnings)) = extent"
  unfolding parse_mission_def
proof (rule fold_invariant)
  fix p and st :: "mission \<times> string list" assume p: "p \<in> set (block_props val)"
    and st: "mission_well_formed src (fst st) \<and> ms_span (fst st) = extent"
  have "node_in src extent p" using p node_in_child(1) [OF assms(3)] by (simp add: block_props_def)
  then show "mission_well_formed src (fst (mission_property parsed nf p st))
      \<and> ms_span (fst (mission_property parsed nf p st)) = extent"
    using st mission_property_ok [of src st p] by auto
qed (use assms in \<open>simp add: mission_well_formed_def empty_mission_def node_in_def range_in_def\<close>)

lemma tree_property_ok:
  assumes "tree_well_formed src (fst st)" "node_in src (mt_span (fst st)) prop"
  shows "tree_well_formed src (fst (tree_property parsed spec prop st))
    \<and> mt_span (fst (tree_property parsed spec prop st)) = mt_span (fst st)"
proof (cases "prop_parts prop")
  case None
  then show ?thesis using assms by (simp add: tree_property_def)
next
  case (Some kv)
  obtain k v t warnings where kv: "kv = (k, v)" "st = (t, warnings)" by (cases kv, cases st)
  have parts: "node_in src (cst_range prop) k" "node_in src (cst_range prop) v"
    using prop_parts_in Some kv assms(2) by blast+
  have inside: "range_in src (mt_span t) (cst_range prop)" using assms(2) kv by (simp add: node_in_def)
  have mission: "mission_well_formed src m \<and> range_in src (mt_span t) (ms_span m)"
    if "as_block v = Some b" "parse_mission parsed nf k b (cst_range prop) warnings = (m, w)" for b m w nf
    using parse_mission_ok [OF inside parts(1) as_block_in [OF that(1) parts(2)], of parsed nf warnings] that(2) inside
    by simp
  show ?thesis using assms(1) Some kv mission
    by (auto simp: tree_property_def tree_unknown_def tree_well_formed_def Let_def
        split: option.splits prod.splits)
qed

lemma parse_tree_ok:
  assumes "node_in src extent key" "node_in src extent val" "valid_range src extent"
  shows "tree_well_formed src (fst (parse_tree parsed spec key val extent warnings))
    \<and> mt_span (fst (parse_tree parsed spec key val extent warnings)) = extent"
  unfolding parse_tree_def
proof (rule fold_invariant)
  fix p and st :: "mission_tree \<times> string list" assume p: "p \<in> set (block_props val)"
    and st: "tree_well_formed src (fst st) \<and> mt_span (fst st) = extent"
  have "node_in src extent p" using p node_in_child(1) [OF assms(2)] by (simp add: block_props_def)
  then show "tree_well_formed src (fst (tree_property parsed spec p st))
      \<and> mt_span (fst (tree_property parsed spec p st)) = extent"
    using st tree_property_ok [of src st p] by auto
qed (use assms in \<open>simp add: tree_well_formed_def empty_tree_def node_in_def range_in_def\<close>)

lemma extract_trees_ok:
  assumes "valid_node src None (pf_tree parsed)"
  shows "list_all (tree_well_formed src) (fst (extract_trees parsed spec))"
proof -
  obtain k r cs where root: "pf_tree parsed = Node k r cs" by (cases "pf_tree parsed")
  have node: "node_in src r node" if "node \<in> set cs" for node
    using that assms node_in_child(1) [of src r "Node k r cs" node] by (simp add: node_in_def range_in_def root)
  show ?thesis unfolding extract_trees_def root
  proof (rule fold_invariant)
    fix node :: cst and st :: "mission_tree list \<times> string list"
    assume n: "node \<in> set (cst_children (Node k r cs))"
      and st: "list_all (tree_well_formed src) (fst st)"
    obtain trees warnings where w: "st = (trees, warnings)" by (cases st)
    have "node_in src (cst_range node) node" using node n by (simp add: node_in_def range_in_def)
    then have "tree_well_formed src t"
      if "prop_parts node = Some (key, val)" "as_block val = Some b"
        "parse_tree parsed spec key b (cst_range node) warnings = (t, ws)" for key val b t ws
      using parse_tree_ok [of src "cst_range node" key b parsed spec warnings] prop_parts_in [OF that(1)]
        as_block_in [OF that(2)] that(3) by (auto simp: node_in_def range_in_def)
    then show "list_all (tree_well_formed src) (fst (top_level parsed spec node st))"
      using st w by (auto simp: top_level_def split: option.splits prod.splits)
  qed simp
qed

lemma parse_mission_file_ok:
  assumes "valid_utf8 src" "length src \<le> u32_max"
  shows "\<exists>loaded. parse_mission_file src spec = Some loaded
    \<and> list_all (tree_well_formed src) (mf_trees (lf_file loaded))"
proof -
  obtain parsed where p: "parse_file ScriptFormat src = Some parsed" "is_valid_for ScriptFormat src parsed"
    using parse_with_revision_ok [OF assms, of ScriptFormat 0] by (auto simp: parse_file_def)
  then have "list_all (tree_well_formed src) (fst (extract_trees parsed spec))"
    by (intro extract_trees_ok) (simp add: is_valid_for_def)
  then show ?thesis using p(1) by (auto simp: parse_mission_file_def split: prod.splits)
qed

text \<open>C21. Every valid text below 4 GiB loads, and what is loaded is well formed: ids, prerequisites and
  written positions lie inside their mission, missions inside their tree, all on character
  boundaries; there is one range for every prerequisite, and a position range exactly for a written
  position.\<close>

theorem loaded_files_well_formed:
  assumes "valid_utf8 src" and "length src \<le> u32_max"
  shows "\<exists>loaded. parse_mission_file src spec = Some loaded
    \<and> list_all (tree_well_formed src) (mf_trees (lf_file loaded))"
  using assms by (rule parse_mission_file_ok)

definition sample_spec :: mission_view_spec where
  "sample_spec =
    \<lparr>vs_tree_fields = \<lparr>tf_slot = ''slot'', tf_generic = ''generic'', tf_ai = ''ai'',
        tf_has_country_shield = ''has_country_shield'', tf_potential = ''potential'',
        tf_potential_on_load = ''potential_on_load''\<rparr>,
     vs_node_fields = \<lparr>nf_icon = ''icon'', nf_type = ''type'',
        nf_provinces_to_highlight = ''provinces_to_highlight'',
        nf_required_missions = ''required_missions'', nf_position = ''position'',
        nf_completed_by = ''completed_by'', nf_trigger = ''trigger'', nf_effect = ''effect''\<rparr>,
     vs_tree_field_order = [''slot'', ''generic'', ''ai'', ''potential_on_load'', ''potential'',
        ''has_country_shield''],
     vs_node_field_order = [''icon'', ''required_missions'', ''position'', ''completed_by'', ''type'',
        ''provinces_to_highlight'', ''trigger'', ''effect'']\<rparr>"

theorem loaded_files_well_formed_witness:
  "\<exists>loaded. parse_mission_file ''t = { m = { position = 2 } }'' sample_spec = Some loaded
    \<and> list_all (tree_well_formed ''t = { m = { position = 2 } }'') (mf_trees (lf_file loaded))"
  by (rule loaded_files_well_formed) (code_simp, simp add: u32_max_def)

text \<open>C22. Writing a tree back never panics and touches nothing but the bytes of that tree: the text
  before its span and the text after it stay as they are, for every tree of a loaded file.\<close>

theorem tree_edit_touches_only_its_tree:
  assumes "valid_utf8 src" and "length src \<le> u32_max"
  shows "\<exists>loaded. parse_mission_file src spec = Some loaded
    \<and> list_all (\<lambda>t. apply_tree_edit src (mt_span t) rendered =
          Some (take (range_start (mt_span t)) src @ rendered @ drop (range_end (mt_span t)) src))
        (mf_trees (lf_file loaded))"
proof -
  obtain loaded where l: "parse_mission_file src spec = Some loaded"
    "list_all (tree_well_formed src) (mf_trees (lf_file loaded))" using parse_mission_file_ok [OF assms] by blast
  have "apply_tree_edit src (mt_span t) rendered =
      Some (take (range_start (mt_span t)) src @ rendered @ drop (range_end (mt_span t)) src)"
    if "tree_well_formed src t" for t
  proof -
    have r: "valid_range src (mt_span t)" using that by (simp add: tree_well_formed_def)
    then show ?thesis using r [unfolded valid_range_def] unfolding apply_tree_edit_def valid_range_iff
      by (intro replace_block_Some) simp_all
  qed
  then show ?thesis using l by (auto simp: list_all_iff)
qed

theorem tree_edit_touches_only_its_tree_witness:
  "\<exists>loaded. parse_mission_file ''t = { m = { position = 2 } }'' sample_spec = Some loaded
    \<and> list_all (\<lambda>t. apply_tree_edit ''t = { m = { position = 2 } }'' (mt_span t) ''x = { }'' =
          Some (take (range_start (mt_span t)) ''t = { m = { position = 2 } }'' @ ''x = { }''
            @ drop (range_end (mt_span t)) ''t = { m = { position = 2 } }''))
        (mf_trees (lf_file loaded))"
  by (rule tree_edit_touches_only_its_tree) (code_simp, simp add: u32_max_def)

end
