(* ===== verification/Mission_Encoding.thy ===== *)
theory Mission_Encoding
  imports Transcode_File Vec_Ops
begin

text \<open>
  The file encoding of mission files, \<open>crates/game/src/eu4/mission/encoding.rs\<close>: strict UTF-8 or
  a bijective reading of single bytes, and the way back.  Text is a list of code points here, as
  in the codec; \<open>None\<close> is the failing \<open>expect\<close>.
\<close>

datatype file_encoding = Utf8 | Cp1252

definition cp1252_high :: "u32 option list" where
  "cp1252_high =
    [Some 0x20AC, None, Some 0x201A, Some 0x0192, Some 0x201E, Some 0x2026, Some 0x2020, Some 0x2021,
     Some 0x02C6, Some 0x2030, Some 0x0160, Some 0x2039, Some 0x0152, None, Some 0x017D, None,
     None, Some 0x2018, Some 0x2019, Some 0x201C, Some 0x201D, Some 0x2022, Some 0x2013, Some 0x2014,
     Some 0x02DC, Some 0x2122, Some 0x0161, Some 0x203A, Some 0x0153, None, Some 0x017E, Some 0x0178]"

definition char_from_cp1252 :: "u8 \<Rightarrow> u32" where
  "char_from_cp1252 b =
    (if b \<le> 0x7F then ucast b
     else if b \<le> 0x9F then
       (case cp1252_high ! unat (b - 0x80) of Some c \<Rightarrow> c | None \<Rightarrow> ucast b)
     else ucast b)"

definition byte_from_cp1252 :: "u32 \<Rightarrow> u8 option" where
  "byte_from_cp1252 c =
    (case position_of (\<lambda>m. m = Some c) cp1252_high of
       Some pos \<Rightarrow> Some (0x80 + of_nat pos)
     | None \<Rightarrow> if c < 0x100 then Some (ucast c) else None)"

definition decode_bytes :: "u8 list \<Rightarrow> u32 list \<times> file_encoding" where
  "decode_bytes bytes =
    (case from_utf8 bytes of
       Some s \<Rightarrow> (s, Utf8)
     | None \<Rightarrow> (map char_from_cp1252 bytes, Cp1252))"

record encoding_error =
  ee_character :: u32

definition encode_mission_text :: "u32 list \<Rightarrow> file_encoding \<Rightarrow> (encoding_error + u8 list) option" where
  "encode_mission_text s encoding =
    (case encoding of
       Utf8 \<Rightarrow> Some (Inr (into_bytes s))
     | Cp1252 \<Rightarrow>
        (case those (map byte_from_cp1252 s) of
           Some bytes \<Rightarrow> Some (Inr bytes)
         | None \<Rightarrow> map_option (\<lambda>c. Inl \<lparr>ee_character = c\<rparr>)
                     (find (\<lambda>c. byte_from_cp1252 c = None) s)))"

lemma cp1252_high_entries:
  "list_all (\<lambda>m. case m of Some c \<Rightarrow> 0x100 \<le> c | None \<Rightarrow> True) cp1252_high"
  "list_all (\<lambda>i. case cp1252_high ! i of Some c \<Rightarrow> position_of (\<lambda>m. m = Some c) cp1252_high = Some i
     | None \<Rightarrow> True) [0..<32]"
  by (simp_all add: cp1252_high_def upt_rec)

lemma byte_of_low_character:
  assumes "c < 0x100"
  shows "byte_from_cp1252 c = Some (ucast c)"
proof -
  have "m \<noteq> Some c" if "m \<in> set cp1252_high" for m
    using that cp1252_high_entries(1) assms by (auto simp: list_all_iff dest: bspec)
  then have none: "position_of (\<lambda>m. m = Some c) cp1252_high = None" by simp
  show ?thesis unfolding byte_from_cp1252_def none using assms by simp
qed

lemma byte_round_trip: "byte_from_cp1252 (char_from_cp1252 b) = Some b"
proof (cases "0x80 \<le> b \<and> b \<le> 0x9F \<and> cp1252_high ! unat (b - 0x80) \<noteq> None")
  case True
  then obtain c where c: "cp1252_high ! unat (b - 0x80) = Some c" by blast
  have "unat (b - 0x80) < 32" using True by unat_arith
  then have "position_of (\<lambda>m. m = Some c) cp1252_high = Some (unat (b - 0x80))"
    using bspec [OF cp1252_high_entries(2) [unfolded list_all_iff], of "unat (b - 0x80)"] c by simp
  moreover have "\<not> b \<le> 0x7F" using True by unat_arith
  ultimately show ?thesis using True c by (simp add: char_from_cp1252_def byte_from_cp1252_def)
next
  case False
  have "\<not> b \<le> 0x7F \<longleftrightarrow> 0x80 \<le> b" by unat_arith
  with False have "char_from_cp1252 b = ucast b" by (auto simp: char_from_cp1252_def)
  moreover have "(ucast b :: u32) < 0x100" by (rule ucast_u8_less)
  ultimately show ?thesis by (simp add: byte_of_low_character)
qed

lemma those_map: "(\<And>x. x \<in> set xs \<Longrightarrow> f x = Some (g x)) \<Longrightarrow> those (map f xs) = Some (map g xs)"
  by (induction xs) auto

text \<open>C24. Loading a mission file and saving its text unchanged writes the very bytes that were
  loaded, whatever they are.\<close>

theorem untouched_file_keeps_its_bytes:
  "(case decode_bytes bytes of (s, encoding) \<Rightarrow> encode_mission_text s encoding) = Some (Inr bytes)"
proof (cases "from_utf8 bytes")
  case None
  have "those (map (byte_from_cp1252 \<circ> char_from_cp1252) bytes) = Some (map (\<lambda>b. b) bytes)"
    by (rule those_map) (simp add: byte_round_trip)
  then show ?thesis using None by (simp add: decode_bytes_def encode_mission_text_def)
next
  case (Some s)
  then show ?thesis using from_utf8_Some [OF Some] by (simp add: decode_bytes_def encode_mission_text_def)
qed

text \<open>A character of the encoding is one that some byte decodes to; the control characters U+0080 to
  U+009F that the table replaces are the only others that the encoder accepts.\<close>

definition single_byte_character :: "u32 \<Rightarrow> bool" where
  "single_byte_character c \<longleftrightarrow> c \<in> char_from_cp1252 ` UNIV"

definition shadowed_control :: "u32 \<Rightarrow> bool" where
  "shadowed_control c \<longleftrightarrow> 0x80 \<le> c \<and> c \<le> 0x9F \<and> \<not> single_byte_character c"

lemma narrow_widen_u8: "c < 0x100 \<Longrightarrow> ucast (ucast c :: u8) = (c :: u32)"
  by transfer (simp add: take_bit_eq_mod)

lemma u8_bounds:
  "\<not> (b :: u8) \<le> 0x7F \<Longrightarrow> (0x80 :: u32) \<le> ucast b"
  "(b :: u8) \<le> 0x9F \<Longrightarrow> (ucast b :: u32) \<le> 0x9F"
  by (simp_all add: word_le_nat_alt unat_ucast_up)

lemma byte_reads_back:
  assumes "byte_from_cp1252 c = Some b"
  shows "char_from_cp1252 b = c \<or> shadowed_control c \<and> b = ucast c"
proof (cases "position_of (\<lambda>m. m = Some c) cp1252_high")
  case (Some pos)
  then have pos: "pos < 32" "cp1252_high ! pos = Some c"
    using position_of_Some [OF Some] by (simp_all add: cp1252_high_def)
  have b: "b = 0x80 + of_nat pos" using assms Some by (simp add: byte_from_cp1252_def)
  have u: "unat b = 0x80 + pos" unfolding b using pos(1)
    by (simp add: unat_word_ariths unat_of_nat)
  then have "\<not> b \<le> 0x7F" "b \<le> 0x9F" using pos(1) by (simp_all add: word_le_nat_alt)
  moreover have "unat (b - 0x80) = pos" unfolding b using pos(1) by (simp add: unat_of_nat)
  ultimately show ?thesis using pos(2) by (simp add: char_from_cp1252_def)
next
  case None
  then have lt: "c < 0x100" and b: "b = ucast c"
    using assms unfolding byte_from_cp1252_def None by (simp_all split: if_splits)
  have c: "ucast b = c" unfolding b using lt by (rule narrow_widen_u8)
  show ?thesis
  proof (cases "char_from_cp1252 b = c")
    case False
    then have "\<not> b \<le> 0x7F" "b \<le> 0x9F" using c by (auto simp: char_from_cp1252_def split: if_splits)
    then have range: "0x80 \<le> c" "c \<le> 0x9F" unfolding c [symmetric] by (simp_all add: u8_bounds)
    have "single_byte_character c \<Longrightarrow> char_from_cp1252 b = c"
      using byte_round_trip assms by (auto simp: single_byte_character_def)
    then show ?thesis using False range b by (auto simp: shadowed_control_def)
  qed simp
qed

lemma no_byte:
  assumes "byte_from_cp1252 c = None"
  shows "\<not> single_byte_character c \<and> \<not> shadowed_control c"
proof -
  have "\<not> c < 0x100" using assms byte_of_low_character by auto
  then have "\<not> c \<le> 0x9F" by unat_arith
  then show ?thesis using assms byte_round_trip
    by (auto simp: single_byte_character_def shadowed_control_def)
qed

text \<open>C25. Saving under the single-byte encoding never panics. It succeeds exactly when every
  character is one that some byte decodes to (or one of the control characters that the table
  replaces, which keep their code as byte): then each byte written decodes to the character it was
  written for. Otherwise it fails with the first character that no byte decodes to.\<close>

theorem encoding_reports_first_unmappable:
  "case encode_mission_text s Cp1252 of
     None \<Rightarrow> False
   | Some (Inr bytes) \<Rightarrow>
       list_all2 (\<lambda>c b. char_from_cp1252 b = c \<or> shadowed_control c \<and> b = ucast c) s bytes
   | Some (Inl e) \<Rightarrow> \<exists>before after. s = before @ ee_character e # after
       \<and> \<not> single_byte_character (ee_character e) \<and> \<not> shadowed_control (ee_character e)
       \<and> list_all (\<lambda>c. single_byte_character c \<or> shadowed_control c) before"
proof (cases "those (map byte_from_cp1252 s)")
  case (Some bytes)
  then have "list_all2 (\<lambda>c b. byte_from_cp1252 c = Some b) s bytes"
    by (induction s arbitrary: bytes) (auto split: option.splits)
  then have "list_all2 (\<lambda>c b. char_from_cp1252 b = c \<or> shadowed_control c \<and> b = ucast c) s bytes"
    by (rule list_all2_mono) (rule byte_reads_back)
  then show ?thesis using Some by (simp add: encode_mission_text_def)
next
  case None
  then obtain c where c: "find (\<lambda>c. byte_from_cp1252 c = None) s = Some c"
    by (cases "find (\<lambda>c. byte_from_cp1252 c = None) s") (auto simp: those_None find_None_iff)
  have has: "single_byte_character c \<or> shadowed_control c" if "byte_from_cp1252 c \<noteq> None" for c
    using that byte_reads_back by (fastforce simp: single_byte_character_def)
  obtain before after where "s = before @ c # after" "byte_from_cp1252 c = None"
    "\<forall>x\<in>set before. byte_from_cp1252 x \<noteq> None"
    using update_first_found [OF c, of "\<lambda>x. x"] by (auto simp: list_all_iff)
  then have "s = before @ c # after \<and> \<not> single_byte_character c \<and> \<not> shadowed_control c
      \<and> list_all (\<lambda>c. single_byte_character c \<or> shadowed_control c) before"
    using has no_byte by (auto simp: list_all_iff)
  then show ?thesis using None c by (auto simp: encode_mission_text_def)
qed

text \<open>The control character U+0080 has no byte of its own: it is written, without an error, as the
  byte of the euro sign.\<close>

lemma control_character_saved_as_euro:
  "encode_mission_text [0x80] Cp1252 = Some (Inr [0x80]) \<and> char_from_cp1252 0x80 = 0x20AC"
  by (simp add: encode_mission_text_def byte_from_cp1252_def char_from_cp1252_def cp1252_high_def)

end
