(* ===== verification/Position_Codec.thy ===== *)
theory Position_Codec
  imports Text_Model Vec_Ops Decimal "HOL-Library.Word"
begin

unbundle bit_operations_syntax

text \<open>
  The compact encoding of navigation positions in the index cache,
  \<open>crates/engine/src/index_cache/position_codec.rs\<close>: LEB128 integers of 64-bit words, zigzag for
  the signed differences, and the checks on both sides.  Offsets, lines and characters are \<open>u32\<close>
  in the source and natural numbers here; every narrowing is a comparison with \<open>u32_max\<close>.
\<close>

type_synonym byte = "8 word"
type_synonym u64w = "64 word"

text \<open>
  \<open>IndexCacheError\<close>, of which the codec makes two variants; errors of foreign types are the texts they
  print.  The last constructor stands for the panic of an arithmetic overflow, which a build with
  overflow checks raises instead of returning.
\<close>

datatype index_cache_error =
    Cancelled
  | Io string
  | Sql string
  | NotIndexCache
  | InvalidMetadata string
  | LimitExceeded string nat
  | InvalidData string
  | GameMismatch string string
  | RootConflict string string
  | LspVersionMismatch string string
  | OverflowPanic

definition codec_version :: byte where "codec_version = 1"

definition max_cache_symbols :: nat where "max_cache_symbols = 5000000"

subsection \<open>Integers\<close>

function push_varint :: "u64w \<Rightarrow> byte list" where
  "push_varint v =
    (let b = ucast (v AND 0x7F); v' = drop_bit 7 v
     in if v' = 0 then [b] else (b OR 0x80) # push_varint v')"
  by pat_completeness auto
termination
proof (relation "measure unat")
  fix b :: byte and v v' :: u64w
  assume "v' = drop_bit 7 v" "v' \<noteq> 0"
  moreover have "unat (drop_bit 7 v) = unat v div 2 ^ 7" by (simp add: drop_bit_eq_div unat_div)
  moreover from \<open>v' \<noteq> 0\<close> have "unat v' \<noteq> 0" by (metis unat_eq_zero)
  ultimately have "unat v' = unat v div 128" "unat v' \<noteq> 0" by simp_all
  then show "(v', v) \<in> measure unat" by (simp add: div_less_dividend)
qed simp

declare push_varint.simps [simp del]

definition zigzag :: "u64w \<Rightarrow> u64w" where
  "zigzag v = push_bit 1 v XOR signed_drop_bit 63 v"

definition push_zigzag :: "u64w \<Rightarrow> byte list" where
  "push_zigzag v = push_varint (zigzag v)"

record cursor =
  cu_bytes :: "byte list"
  cu_offset :: nat

definition read_u8 :: "cursor \<Rightarrow> (byte \<times> cursor) option" where
  "read_u8 c = map_option (\<lambda>b. (b, c\<lparr>cu_offset := cu_offset c + 1\<rparr>)) (vec_get (cu_bytes c) (cu_offset c))"

fun read_varint_loop :: "nat list \<Rightarrow> u64w \<Rightarrow> cursor \<Rightarrow> index_cache_error + u64w \<times> cursor" where
  "read_varint_loop [] v c = Inl (InvalidData ''navigation position varint exceeds u64'')"
| "read_varint_loop (shift # shifts) v c =
    (case read_u8 c of
       None \<Rightarrow> Inl (InvalidData ''truncated navigation position varint'')
     | Some (b, c') \<Rightarrow>
        if 57 \<le> shift \<and> 1 < b then Inl (InvalidData ''navigation position varint exceeds u64'')
        else (let v' = v OR push_bit shift (ucast (b AND 0x7F))
              in if b AND 0x80 = 0 then Inr (v', c') else read_varint_loop shifts v' c'))"

definition read_varint :: "cursor \<Rightarrow> index_cache_error + u64w \<times> cursor" where
  "read_varint c = read_varint_loop (map ((*) 7) [0..<10]) 0 c"

definition unzigzag :: "u64w \<Rightarrow> u64w" where
  "unzigzag v = drop_bit 1 v XOR - (v AND 1)"

definition read_zigzag :: "cursor \<Rightarrow> index_cache_error + u64w \<times> cursor" where
  "read_zigzag c = (case read_varint c of Inl e \<Rightarrow> Inl e | Inr (v, c') \<Rightarrow> Inr (unzigzag v, c'))"

subsection \<open>Entries\<close>

text \<open>\<open>Position\<close> derives \<open>Ord\<close>: lines first, then characters.\<close>

instantiation position_ext :: (linorder) linorder
begin

definition less_position_ext :: "'a position_ext \<Rightarrow> 'a position_ext \<Rightarrow> bool" where
  "less_position_ext p q \<longleftrightarrow> pos_line p < pos_line q
    \<or> pos_line p = pos_line q \<and> (pos_character p < pos_character q
       \<or> pos_character p = pos_character q \<and> position.more p < position.more q)"

definition less_eq_position_ext :: "'a position_ext \<Rightarrow> 'a position_ext \<Rightarrow> bool" where
  "less_eq_position_ext p q \<longleftrightarrow> p < q \<or> p = q"

instance
proof
  fix p q :: "'a position_ext"
  show "p \<le> q \<or> q \<le> p"
    using linorder_less_linear [of "position.more p" "position.more q"]
    by (auto simp: less_eq_position_ext_def less_position_ext_def)
qed (auto simp: less_eq_position_ext_def less_position_ext_def)

end

type_synonym nav_entry = "text_range \<times> position_range"

text \<open>The test \<open>start < previous_start || (start == previous_start && end <= previous_end)\<close>.\<close>

definition not_after :: "(nat \<times> nat) option \<Rightarrow> nat \<Rightarrow> nat \<Rightarrow> bool" where
  "not_after previous s e =
    (case previous of None \<Rightarrow> False | Some (ps, pe) \<Rightarrow> s < ps \<or> s = ps \<and> e \<le> pe)"

definition encode_entry :: "(nat \<times> nat) option \<Rightarrow> nat \<Rightarrow> nav_entry \<Rightarrow> index_cache_error + byte list" where
  "encode_entry previous previous_start entry =
    (let (r, p) = entry; s = range_start r; e = range_end r
     in if e < s
        then Inl (InvalidData (''navigation range end '' @ decimal e @ '' precedes start '' @ decimal s))
        else if pr_end p < pr_start p then Inl (InvalidData ''navigation position end precedes start'')
        else if not_after previous s e then Inl (InvalidData ''navigation positions are not strictly ordered'')
        else if s < previous_start then Inl (InvalidData ''navigation range start regressed'')
        else Inr (push_varint (of_nat (s - previous_start))
          @ push_varint (of_nat (e - s))
          @ push_varint (of_nat (pos_line (pr_start p)))
          @ push_zigzag (of_nat (pos_character (pr_start p)))
          @ push_varint (of_nat (pos_line (pr_end p) - pos_line (pr_start p)))
          @ push_zigzag (of_nat (pos_character (pr_end p)) - of_nat (pos_character (pr_start p)))))"

fun encode_entries ::
  "(nat \<times> nat) option \<Rightarrow> nat \<Rightarrow> nav_entry list \<Rightarrow> index_cache_error + byte list" where
  "encode_entries previous previous_start [] = Inr []"
| "encode_entries previous previous_start (entry # entries) =
    (case encode_entry previous previous_start entry of
       Inl e \<Rightarrow> Inl e
     | Inr bytes \<Rightarrow>
        map_sum id ((@) bytes)
          (encode_entries (Some (range_start (fst entry), range_end (fst entry))) (range_start (fst entry)) entries))"

definition encode :: "nav_entry list \<Rightarrow> index_cache_error + byte list" where
  "encode entries =
    (if max_cache_symbols < length entries then Inl (LimitExceeded ''navigation position'' max_cache_symbols)
     else map_sum id (\<lambda>bytes. codec_version # push_varint (of_nat (length entries)) @ bytes)
       (encode_entries None 0 entries))"

text \<open>The question mark operator, and the narrowing conversions that report an error.\<close>

definition and_then :: "'e + 'a \<Rightarrow> ('a \<Rightarrow> 'e + 'b) \<Rightarrow> 'e + 'b" where
  "and_then r f = (case r of Inl e \<Rightarrow> Inl e | Inr x \<Rightarrow> f x)"

lemma and_then_simps [simp]: "and_then (Inl e) f = Inl e" "and_then (Inr x) f = f x"
  by (simp_all add: and_then_def)

definition within_u32 :: "string \<Rightarrow> nat \<Rightarrow> index_cache_error + nat" where
  "within_u32 message n = (if n \<le> u32_max then Inr n else Inl (InvalidData message))"

definition i64_within_u32 :: "string \<Rightarrow> u64w \<Rightarrow> index_cache_error + nat" where
  "i64_within_u32 message v =
    (if sint v < 0 then Inl (InvalidData message) else within_u32 message (nat (sint v)))"

definition read_varint_u32 :: "string \<Rightarrow> cursor \<Rightarrow> index_cache_error + nat \<times> cursor" where
  "read_varint_u32 message c =
    and_then (read_varint c) (\<lambda>(v, c). map_sum id (\<lambda>n. (n, c)) (within_u32 message (unat v)))"

text \<open>\<open>i64\<close> addition with and without overflow checks.\<close>

definition add_i64 :: "bool \<Rightarrow> u64w \<Rightarrow> u64w \<Rightarrow> index_cache_error + u64w" where
  "add_i64 checked a b =
    (if checked \<and> (sint a + sint b < - (2 ^ 63) \<or> 2 ^ 63 \<le> sint a + sint b) then Inl OverflowPanic
     else Inr (a + b))"

text \<open>The body of the loop of \<open>decode\<close>.\<close>

definition decode_entry ::
  "bool \<Rightarrow> (nat \<times> nat) option \<Rightarrow> nat \<Rightarrow> cursor \<Rightarrow> index_cache_error + nav_entry \<times> cursor" where
  "decode_entry checked previous previous_start c =
    and_then (read_varint_u32 ''navigation range start exceeds u32'' c) (\<lambda>(start_delta, c).
    and_then (within_u32 ''navigation range start overflows'' (previous_start + start_delta)) (\<lambda>s.
    and_then (read_varint_u32 ''navigation range length exceeds u32'' c) (\<lambda>(len, c).
    and_then (within_u32 ''navigation range end overflows'' (s + len)) (\<lambda>e.
    and_then (read_varint_u32 ''navigation start line exceeds u32'' c) (\<lambda>(start_line, c).
    and_then (read_zigzag c) (\<lambda>(v, c).
    and_then (i64_within_u32 ''navigation start character exceeds u32'' v) (\<lambda>start_character.
    and_then (read_varint_u32 ''navigation end line delta exceeds u32'' c) (\<lambda>(end_line_delta, c).
    and_then (within_u32 ''navigation end line overflows'' (start_line + end_line_delta)) (\<lambda>end_line.
    and_then (read_zigzag c) (\<lambda>(w, c).
    and_then (add_i64 checked (of_nat start_character) w) (\<lambda>sum.
    and_then (i64_within_u32 ''navigation end character exceeds u32'' sum) (\<lambda>end_character.
      if not_after previous s e
      then Inl (InvalidData ''navigation positions are not strictly ordered'')
      else (case text_range_new s e of
              None \<Rightarrow> Inl (InvalidData ''invalid navigation range'')
            | Some r \<Rightarrow>
                Inr ((r, \<lparr>pr_start = \<lparr>pos_line = start_line, pos_character = start_character\<rparr>,
                          pr_end = \<lparr>pos_line = end_line, pos_character = end_character\<rparr>\<rparr>), c))))))))))))))"

fun decode_entries ::
  "bool \<Rightarrow> nat \<Rightarrow> (nat \<times> nat) option \<Rightarrow> nat \<Rightarrow> cursor \<Rightarrow> index_cache_error + nav_entry list \<times> cursor" where
  "decode_entries checked 0 previous previous_start c = Inr ([], c)"
| "decode_entries checked (Suc n) previous previous_start c =
    and_then (decode_entry checked previous previous_start c) (\<lambda>(entry, c).
      map_sum id (\<lambda>(entries, c). (entry # entries, c))
        (decode_entries checked n (Some (range_start (fst entry), range_end (fst entry)))
          (range_start (fst entry)) c))"

definition decode :: "bool \<Rightarrow> byte list \<Rightarrow> index_cache_error + nav_entry list" where
  "decode checked payload =
    (case read_u8 \<lparr>cu_bytes = payload, cu_offset = 0\<rparr> of
       None \<Rightarrow> Inl (InvalidData ''empty navigation position payload'')
     | Some (version, c) \<Rightarrow>
        if version \<noteq> codec_version
        then Inl (InvalidData (''unsupported navigation position codec version '' @ decimal (unat version)))
        else and_then (read_varint c) (\<lambda>(count, c).
          if of_nat max_cache_symbols < count
          then Inl (LimitExceeded ''navigation position'' max_cache_symbols)
          else and_then (decode_entries checked (unat count) None 0 c) (\<lambda>(entries, c).
            if cu_offset c \<noteq> length payload
            then Inl (InvalidData ''navigation position payload has trailing bytes'')
            else Inr entries)))"

subsection \<open>Round trips of integers\<close>

text \<open>What a cursor has still to read, and the cursor after \<open>n\<close> more bytes.\<close>

definition left :: "cursor \<Rightarrow> byte list" where
  "left c = drop (cu_offset c) (cu_bytes c)"

definition advance :: "nat \<Rightarrow> cursor \<Rightarrow> cursor" where
  "advance n c = c\<lparr>cu_offset := cu_offset c + n\<rparr>"

lemma left_advance [simp]: "left (advance n c) = drop n (left c)"
  by (simp add: left_def advance_def add.commute)

lemma advance_advance [simp]: "advance m (advance n c) = advance (n + m) c" "advance 0 c = c"
  by (simp_all add: advance_def add.assoc)

lemma read_u8_left: "left c = b # rest \<Longrightarrow> read_u8 c = Some (b, advance 1 c)"
proof -
  assume l: "left c = b # rest"
  then have "cu_offset c < length (cu_bytes c)" by (metis drop_all left_def linorder_not_le list.discI)
  moreover from this have "left c = cu_bytes c ! cu_offset c # drop (Suc (cu_offset c)) (cu_bytes c)"
    by (simp add: left_def Cons_nth_drop_Suc)
  ultimately show ?thesis using l by (simp add: read_u8_def advance_def vec_get_def)
qed

lemma zigzag_inverse: "unzigzag (zigzag v) = v"
proof (rule bit_word_eqI)
  fix n assume n: "n < LENGTH(64)"
  have z: "bit (zigzag v) k \<longleftrightarrow> (0 < k \<and> bit v (k - 1)) \<noteq> bit v 63" if "k < 64" for k
    using that unfolding zigzag_def bit_xor_iff bit_push_bit_iff bit_signed_drop_bit_iff by (cases k) auto
  have sign: "zigzag v AND 1 = of_bool (bit v 63)"
    using z [of 0] by (simp add: and_one_eq mod_2_eq_odd flip: bit_0)
  have neg: "bit (- of_bool b :: u64w) n \<longleftrightarrow> b" for b using n by (cases b) (simp_all add: bit_simps)
  have d: "bit (drop_bit 1 (zigzag v)) n \<longleftrightarrow> n < 63 \<and> (bit v n \<noteq> bit v 63)"
    using n z [of "Suc n"] bit_imp_le_length [of "zigzag v" "Suc n"] unfolding bit_drop_bit_eq by (auto simp: not_less)
  show "bit (unzigzag (zigzag v)) n = bit v n"
    using n d unfolding unzigzag_def sign bit_xor_iff neg by (cases "n = 63") auto
qed

lemma byte_of_low:
  fixes v :: u64w
  defines "b \<equiv> ucast (v AND 0x7F) :: byte"
  shows "ucast (b AND 0x7F) = v AND 0x7F" "ucast ((b OR 0x80) AND 0x7F) = v AND 0x7F"
    "b AND 0x80 = 0" "(b OR 0x80) AND 0x80 \<noteq> 0"
proof -
  have m: "bit (0x7F :: u64w) k \<longleftrightarrow> k < 7" "bit (0x7F :: byte) k \<longleftrightarrow> k < 7" "bit (0x80 :: byte) k \<longleftrightarrow> k = 7" for k
    using bit_mask_iff [of 7 k, where 'a = "64 word"] bit_mask_iff [of 7 k, where 'a = "8 word"]
      bit_exp_iff [of 7 k, where 'a = "8 word"] by (auto simp: mask_eq_exp_minus_1 possible_bit_word)
  have b: "bit b k \<longleftrightarrow> k < 7 \<and> bit v k" for k
    unfolding b_def bit_ucast_iff bit_and_iff m by (auto simp: possible_bit_word)
  show "ucast (b AND 0x7F) = v AND 0x7F"
    by (rule bit_word_eqI, unfold bit_ucast_iff bit_and_iff b m) (auto simp: possible_bit_word)
  show "ucast ((b OR 0x80) AND 0x7F) = v AND 0x7F"
    by (rule bit_word_eqI, unfold bit_ucast_iff bit_and_iff bit_or_iff b m) (auto simp: possible_bit_word)
  show "b AND 0x80 = 0" by (rule bit_word_eqI, unfold bit_and_iff b m) auto
  have "bit ((b OR 0x80) AND 0x80) 7" by (simp add: bit_and_iff bit_or_iff m)
  then show "(b OR 0x80) AND 0x80 \<noteq> 0" by auto
qed

lemma low_then_high:
  fixes v acc :: u64w
  shows "(acc OR push_bit s (v AND 0x7F)) OR push_bit (s + 7) (drop_bit 7 v) = acc OR push_bit s v"
proof -
  have m: "bit (0x7F :: u64w) k \<longleftrightarrow> k < 7" for k
    using bit_mask_iff [of 7 k, where 'a = "64 word"] by (auto simp: mask_eq_exp_minus_1 possible_bit_word)
  have e: "7 + (n - (s + 7)) = n - s" if "\<not> n - s < 7" for n using that by simp
  show ?thesis
    by (rule bit_word_eqI, unfold bit_or_iff bit_push_bit_iff bit_and_iff bit_drop_bit_eq m)
      (auto simp: possible_bit_word comp_def, metis e)
qed

lemma low_all:
  fixes v :: u64w
  assumes "drop_bit 7 v = 0"
  shows "v AND 0x7F = v"
  using low_then_high [of 0 0 v] assms by (simp add: push_bit_0_id)

lemma one_bit_word:
  fixes v :: u64w
  assumes "drop_bit 1 v = 0"
  shows "v = 0 \<or> v = 1"
proof -
  have "unat v div 2 = unat (0 :: u64w)"
    using arg_cong [OF assms, of unat] by (simp add: drop_bit_eq_div unat_div)
  then have "unat v = 0 \<or> unat v = 1" by auto
  then show ?thesis by (metis unat_eq_zero unat_1 word_unat_eq_iff)
qed

lemma read_varint_loop_push:
  "\<lbrakk>k < 10; drop_bit (64 - 7 * k) v = 0; left c = push_varint v @ rest\<rbrakk> \<Longrightarrow>
    read_varint_loop (map ((*) 7) [k..<10]) acc c
    = Inr (acc OR push_bit (7 * k) v, advance (length (push_varint v)) c)"
proof (induction v arbitrary: k acc c rule: push_varint.induct)
  case (1 v)
  define b :: byte where "b = ucast (v AND 0x7F)"
  note low = byte_of_low [of v, folded b_def]
  have shifts: "map ((*) 7) [k..<10] = 7 * k # map ((*) 7) [Suc k..<10]" using "1.prems"(1) by (simp add: upt_conv_Cons)
  show ?case
  proof (cases "drop_bit 7 v = 0")
    case True
    then have p: "push_varint v = [b]" by (simp add: push_varint.simps [of v] b_def)
    have "\<not> (57 \<le> 7 * k \<and> 1 < b)"
    proof
      assume big: "57 \<le> 7 * k \<and> 1 < b"
      then have "k = 9" using "1.prems"(1) by simp
      then have "v = 0 \<or> v = 1" using "1.prems"(2) by (intro one_bit_word) simp
      then show False using big by (auto simp: b_def)
    qed
    then show ?thesis using "1.prems"(3) p low True
      by (simp add: shifts read_u8_left [where b = b] low_all)
  next
    case False
    then have p: "push_varint v = (b OR 0x80) # push_varint (drop_bit 7 v)"
      by (simp add: push_varint.simps [of v] b_def Let_def)
    have "k \<noteq> 9" using False "1.prems"(2) one_bit_word [of v] by auto
    then have k: "Suc k < 10" "64 - 7 * k = 64 - 7 * Suc k + 7" "\<not> 57 \<le> 7 * k" using "1.prems"(1) by auto
    have d: "drop_bit (64 - 7 * Suc k) (drop_bit 7 v) = 0" using "1.prems"(2) k(2) by (simp only: drop_bit_drop_bit)
    have l: "left (advance 1 c) = push_varint (drop_bit 7 v) @ rest" using "1.prems"(3) p by simp
    have "read_varint_loop (map ((*) 7) [k..<10]) acc c
        = read_varint_loop (map ((*) 7) [Suc k..<10]) (acc OR push_bit (7 * k) (v AND 0x7F)) (advance 1 c)"
      using "1.prems"(3) p low k
      by (simp add: shifts read_u8_left [where b = "b OR 0x80"] del: push_bit_and)
    also have "\<dots> = Inr (acc OR push_bit (7 * k) v, advance (length (push_varint v)) c)"
      using "1.IH" [OF refl refl False k(1) d l] low_then_high [of acc "7 * k" v]
      by (simp add: p add.commute del: push_bit_and)
    finally show ?thesis .
  qed
qed


text \<open>
  The contract of an integer format: what \<open>push\<close> writes, \<open>read\<close> returns, consuming exactly those
  bytes.  Reading in sequence and unique decodability follow from it once for every format.
\<close>

locale cursor_codec =
  fixes push :: "'v \<Rightarrow> byte list"
    and read :: "cursor \<Rightarrow> index_cache_error + 'v \<times> cursor"
    and ok :: "'v \<Rightarrow> bool"
  assumes read_push: "ok v \<Longrightarrow> left c = push v @ rest \<Longrightarrow> read c = Inr (v, advance (length (push v)) c)"
begin

lemma read_then:
  "ok v \<Longrightarrow> left c = push v @ rest \<Longrightarrow> and_then (read c) f = f (v, advance (length (push v)) c)"
  by (simp add: and_then_def read_push)

lemma prefix_free:
  assumes "ok v" "ok w" "push v @ xs = push w @ ys"
  shows "v = w \<and> xs = ys"
proof -
  define c where "c = \<lparr>cu_bytes = push v @ xs, cu_offset = 0\<rparr>"
  have "read c = Inr (v, advance (length (push v)) c)" "read c = Inr (w, advance (length (push w)) c)"
    using read_push [of v c xs] read_push [of w c ys] assms by (simp_all add: c_def left_def)
  then show ?thesis using assms(3) by auto
qed

end

interpretation varint: cursor_codec push_varint read_varint "\<lambda>_. True"
proof
  fix v c rest assume "left c = push_varint v @ rest"
  then show "read_varint c = Inr (v, advance (length (push_varint v)) c)"
    using read_varint_loop_push [of 0 v c rest 0] bit_imp_le_length [of v]
    by (simp add: read_varint_def drop_bit_word_beyond push_bit_0_id)
qed

interpretation zigzag: cursor_codec push_zigzag read_zigzag "\<lambda>_. True"
  by unfold_locales (simp add: read_zigzag_def push_zigzag_def varint.read_push zigzag_inverse)

lemma u32_word:
  assumes "n \<le> u32_max"
  shows "unat (of_nat n :: u64w) = n" "sint (of_nat n :: u64w) = int n"
proof -
  show u: "unat (of_nat n :: u64w) = n"
    using assms by (simp add: unat_of_nat u32_max_def)
  have "sint (of_int (int n) :: u64w) = int n"
    using assms by (subst signed_of_int, subst signed_take_bit_int_eq_self) (simp_all add: u32_max_def)
  then show "sint (of_nat n :: u64w) = int n" by simp
qed

interpretation varint_u32: cursor_codec "\<lambda>n. push_varint (of_nat n)" "read_varint_u32 message" "\<lambda>n. n \<le> u32_max"
  for message
proof
  fix n c rest assume "n \<le> u32_max" "left c = push_varint (of_nat n) @ rest"
  then show "read_varint_u32 message c = Inr (n, advance (length (push_varint (of_nat n))) c)"
    by (simp add: read_varint_u32_def varint.read_then u32_word within_u32_def)
qed

subsection \<open>Round trip of entries\<close>

definition u32_entry :: "nav_entry \<Rightarrow> bool" where
  "u32_entry entry \<longleftrightarrow> (let (r, p) = entry in
     list_all (\<lambda>n. n \<le> u32_max) [range_start r, range_end r, pos_line (pr_start p),
       pos_character (pr_start p), pos_line (pr_end p), pos_character (pr_end p)])"

lemma difference_word:
  assumes "a \<le> u32_max" "b \<le> u32_max"
  shows "sint (of_nat a - of_nat b :: u64w) = int a - int b"
proof -
  have "(of_nat a - of_nat b :: u64w) = of_int (int a - int b)" by simp
  also have "sint \<dots> = int a - int b"
    using assms by (subst signed_of_int, subst signed_take_bit_int_eq_self) (simp_all add: u32_max_def)
  finally show ?thesis .
qed

lemma decode_encode_entry:
  assumes enc: "encode_entry previous start0 entry = Inr bytes" and u: "u32_entry entry"
    and l: "left c = bytes @ rest"
  shows "decode_entry checked previous start0 c = Inr (entry, advance (length bytes) c)"
proof -
  obtain r p where entry: "entry = (r, p)" by (cases entry)
  define s e where "s = range_start r" and "e = range_end r"
  define l0 c0 l1 c1 where "l0 = pos_line (pr_start p)" and "c0 = pos_character (pr_start p)"
    and "l1 = pos_line (pr_end p)" and "c1 = pos_character (pr_end p)"
  have b: "s \<le> u32_max" "e \<le> u32_max" "l0 \<le> u32_max" "c0 \<le> u32_max" "l1 \<le> u32_max" "c1 \<le> u32_max"
    using u by (auto simp: u32_entry_def entry s_def e_def l0_def c0_def l1_def c1_def)
  have o: "s \<le> e" "l0 \<le> l1" "\<not> not_after previous s e" "start0 \<le> s" and
    bytes: "bytes = push_varint (of_nat (s - start0)) @ push_varint (of_nat (e - s)) @ push_varint (of_nat l0)
      @ push_zigzag (of_nat c0) @ push_varint (of_nat (l1 - l0)) @ push_zigzag (of_nat c1 - of_nat c0)"
    using enc
    by (auto simp: encode_entry_def entry Let_def s_def e_def l0_def c0_def l1_def c1_def less_position_ext_def
        not_less split: if_splits)
  define k1 where "k1 = advance (length (push_varint (of_nat (s - start0)))) c"
  define k2 where "k2 = advance (length (push_varint (of_nat (e - s)))) k1"
  define k3 where "k3 = advance (length (push_varint (of_nat l0))) k2"
  define k4 where "k4 = advance (length (push_zigzag (of_nat c0))) k3"
  define k5 where "k5 = advance (length (push_varint (of_nat (l1 - l0)))) k4"
  note ks = k1_def k2_def k3_def k4_def k5_def
  have r1: "and_then (read_varint_u32 m c) f = f (s - start0, k1)" for m and f :: "_ \<Rightarrow> _ + 'x"
    unfolding k1_def by (rule varint_u32.read_then) (use b l in \<open>simp_all add: bytes\<close>)
  have r2: "and_then (read_varint_u32 m k1) f = f (e - s, k2)" for m and f :: "_ \<Rightarrow> _ + 'x"
    unfolding k2_def by (rule varint_u32.read_then) (use b l in \<open>simp_all add: bytes ks\<close>)
  have r3: "and_then (read_varint_u32 m k2) f = f (l0, k3)" for m and f :: "_ \<Rightarrow> _ + 'x"
    unfolding k3_def by (rule varint_u32.read_then) (use b l in \<open>simp_all add: bytes ks\<close>)
  have r4: "and_then (read_zigzag k3) f = f (of_nat c0, k4)" for f :: "_ \<Rightarrow> _ + 'x"
    unfolding k4_def by (rule zigzag.read_then) (use b l in \<open>simp_all add: bytes ks\<close>)
  have r5: "and_then (read_varint_u32 m k4) f = f (l1 - l0, k5)" for m and f :: "_ \<Rightarrow> _ + 'x"
    unfolding k5_def by (rule varint_u32.read_then) (use b l in \<open>simp_all add: bytes ks\<close>)
  have r6: "and_then (read_zigzag k5) f = f (of_nat c1 - of_nat c0, advance (length bytes) c)"
    for f :: "_ \<Rightarrow> _ + 'x"
    by (subst zigzag.read_then) (use b l in \<open>simp_all add: bytes ks add.assoc\<close>)
  have w: "within_u32 m n = Inr n" if "n \<le> u32_max" for m n using that by (simp add: within_u32_def)
  have i: "i64_within_u32 m (of_nat n) = Inr n" if "n \<le> u32_max" for m n
    using that by (simp add: i64_within_u32_def u32_word w)
  have add: "add_i64 checked (of_nat c0) (of_nat c1 - of_nat c0) = Inr (of_nat c1)"
    using b difference_word [of c1 c0] by (simp add: add_i64_def u32_word u32_max_def)
  have tr: "text_range_new s e = Some r" using o by (simp add: text_range_new_def s_def e_def)
  have pr: "\<lparr>pr_start = \<lparr>pos_line = l0, pos_character = c0\<rparr>, pr_end = \<lparr>pos_line = l1, pos_character = c1\<rparr>\<rparr> = p"
    by (simp add: l0_def c0_def l1_def c1_def)
  show ?thesis
    unfolding decode_entry_def r1 entry
    using b o tr pr by (simp add: r2 r3 r4 r5 r6 w i add)
qed

definition start_of :: "(nat \<times> nat) option \<Rightarrow> nat" where
  "start_of previous = (case previous of None \<Rightarrow> 0 | Some (ps, _) \<Rightarrow> ps)"

lemma start_of_simps [simp]: "start_of None = 0" "start_of (Some (a, b)) = a"
  by (simp_all add: start_of_def)

lemma decode_encode_entries:
  "\<lbrakk>encode_entries previous start0 entries = Inr bytes; list_all u32_entry entries; left c = bytes @ rest\<rbrakk>
   \<Longrightarrow> decode_entries checked (length entries) previous start0 c = Inr (entries, advance (length bytes) c)"
proof (induction entries arbitrary: previous start0 c bytes)
  case (Cons entry entries)
  obtain b1 b2 where b: "encode_entry previous start0 entry = Inr b1" "bytes = b1 @ b2"
    "encode_entries (Some (range_start (fst entry), range_end (fst entry))) (range_start (fst entry)) entries = Inr b2"
    using Cons.prems(1) by (auto simp: map_sum_def split: sum.splits)
  then show ?case
    using decode_encode_entry [OF b(1), of c "b2 @ rest" checked]
      Cons.IH [OF b(3), of "advance (length b1) c"] Cons.prems
    by (simp add: and_then_def)
qed simp

definition ordered_entry :: "nav_entry \<Rightarrow> bool" where
  "ordered_entry entry \<longleftrightarrow> range_start (fst entry) \<le> range_end (fst entry) \<and> pr_start (snd entry) \<le> pr_end (snd entry)"

definition entry_before :: "nav_entry \<Rightarrow> nav_entry \<Rightarrow> bool" where
  "entry_before a b \<longleftrightarrow> \<not> not_after (Some (range_start (fst a), range_end (fst a))) (range_start (fst b)) (range_end (fst b))"

lemma entry_before_trans: "entry_before a b \<Longrightarrow> entry_before b d \<Longrightarrow> entry_before a d"
  by (auto simp: entry_before_def not_after_def)

lemma encode_entry_ok:
  "(\<exists>b. encode_entry previous (start_of previous) entry = Inr b)
   \<longleftrightarrow> ordered_entry entry \<and> \<not> not_after previous (range_start (fst entry)) (range_end (fst entry))"
  by (auto simp: encode_entry_def ordered_entry_def Let_def not_after_def not_less split: option.splits prod.splits)

lemma encode_entries_ok:
  "(\<exists>b. encode_entries previous (start_of previous) entries = Inr b)
   \<longleftrightarrow> list_all ordered_entry entries \<and> sorted_wrt entry_before entries
     \<and> (\<forall>entry \<in> set entries. \<not> not_after previous (range_start (fst entry)) (range_end (fst entry)))"
proof (induction entries arbitrary: previous)
  case (Cons entry entries)
  let ?p = "Some (range_start (fst entry), range_end (fst entry))"
  have "(\<exists>b. encode_entries previous (start_of previous) (entry # entries) = Inr b)
    \<longleftrightarrow> (\<exists>b. encode_entry previous (start_of previous) entry = Inr b)
      \<and> (\<exists>b. encode_entries ?p (start_of ?p) entries = Inr b)"
    by (auto simp: map_sum_def split: sum.splits)
  also have "\<dots> \<longleftrightarrow> ordered_entry entry \<and> \<not> not_after previous (range_start (fst entry)) (range_end (fst entry))
      \<and> list_all ordered_entry entries \<and> sorted_wrt entry_before entries \<and> (\<forall>x \<in> set entries. entry_before entry x)"
    unfolding encode_entry_ok Cons.IH entry_before_def by simp
  also have "\<dots> \<longleftrightarrow> list_all ordered_entry (entry # entries) \<and> sorted_wrt entry_before (entry # entries)
      \<and> (\<forall>x \<in> set (entry # entries). \<not> not_after previous (range_start (fst x)) (range_end (fst x)))"
    by (auto simp: entry_before_def not_after_def split: option.splits)
  finally show ?case .
qed simp

definition encodable :: "nav_entry list \<Rightarrow> bool" where
  "encodable entries \<longleftrightarrow> length entries \<le> max_cache_symbols \<and> list_all ordered_entry entries
     \<and> sorted_wrt entry_before entries"

lemma encode_ok: "(\<exists>payload. encode entries = Inr payload) \<longleftrightarrow> encodable entries"
  using encode_entries_ok [of None entries]
  by (auto simp: encode_def encodable_def not_after_def map_sum_def split: sum.splits)

lemma decode_encode:
  assumes enc: "encode entries = Inr payload" and u: "list_all u32_entry entries"
  shows "decode checked payload = Inr entries"
proof -
  obtain bytes where len: "length entries \<le> max_cache_symbols" and b: "encode_entries None 0 entries = Inr bytes"
    and p: "payload = codec_version # push_varint (of_nat (length entries)) @ bytes"
    using enc by (auto simp: encode_def map_sum_def split: if_splits sum.splits)
  have len_word: "unat (of_nat (length entries) :: u64w) = length entries" "length entries \<le> u32_max"
    using len by (auto intro!: u32_word simp: max_cache_symbols_def u32_max_def)
  have "\<not> (of_nat max_cache_symbols :: u64w) < of_nat (length entries)"
    using len len_word(1) by (simp add: word_less_nat_alt max_cache_symbols_def)
  moreover define c where "c = \<lparr>cu_bytes = payload, cu_offset = 0\<rparr>"
  have l: "left c = codec_version # push_varint (of_nat (length entries)) @ bytes"
    by (simp add: c_def left_def p)
  define n where "n = length (push_varint (of_nat (length entries)))"
  have first: "read_u8 \<lparr>cu_bytes = payload, cu_offset = 0\<rparr> = Some (codec_version, advance 1 c)"
    using read_u8_left [OF l] by (simp add: c_def)
  have "and_then (read_varint (advance 1 c)) f = f (of_nat (length entries), advance (1 + n) c)"
    for f :: "_ \<Rightarrow> _ + nav_entry list"
    unfolding n_def by (subst varint.read_then) (simp_all add: l)
  moreover have "decode_entries checked (length entries) None 0 (advance (1 + n) c)
      = Inr (entries, advance (1 + n + length bytes) c)"
    using decode_encode_entries [OF b u, of "advance (1 + n) c" "[]" checked] by (simp add: l n_def)
  moreover have "cu_offset (advance (1 + n + length bytes) c) = length payload"
    by (simp add: c_def advance_def p n_def)
  ultimately show ?thesis
    unfolding decode_def first using len_word by simp
qed

subsection \<open>What decoding accepts\<close>

lemma and_then_Inr: "and_then r f = Inr y \<longleftrightarrow> (\<exists>x. r = Inr x \<and> f x = Inr y)"
  by (cases r) simp_all

lemma map_sum_Inr: "map_sum id f r = Inr y \<longleftrightarrow> (\<exists>x. r = Inr x \<and> y = f x)"
  by (cases r) auto

lemma within_u32_Inr: "within_u32 m n = Inr k \<longleftrightarrow> k = n \<and> n \<le> u32_max"
  by (auto simp: within_u32_def)

lemma i64_within_u32_Inr: "i64_within_u32 m v = Inr k \<Longrightarrow> k \<le> u32_max"
  by (auto simp: i64_within_u32_def within_u32_Inr split: if_splits)

lemma read_varint_u32_Inr: "read_varint_u32 m c = Inr (n, c') \<Longrightarrow> n \<le> u32_max"
  by (auto simp: read_varint_u32_def and_then_Inr map_sum_Inr within_u32_Inr)

definition accepted_entry :: "nav_entry \<Rightarrow> bool" where
  "accepted_entry entry \<longleftrightarrow> u32_entry entry \<and> range_start (fst entry) \<le> range_end (fst entry)
     \<and> pos_line (pr_start (snd entry)) \<le> pos_line (pr_end (snd entry))"

lemma decode_entry_accepts:
  assumes "decode_entry checked previous start0 c = Inr (entry, c')"
  shows "accepted_entry entry \<and> \<not> not_after previous (range_start (fst entry)) (range_end (fst entry))"
  using assms unfolding decode_entry_def and_then_Inr
  by (auto simp: and_then_Inr within_u32_Inr accepted_entry_def u32_entry_def text_range_new_def
      dest!: read_varint_u32_Inr i64_within_u32_Inr split: if_splits option.splits)

lemma decode_entries_accept:
  "decode_entries checked n previous start0 c = Inr (entries, c') \<Longrightarrow>
    length entries = n \<and> list_all accepted_entry entries \<and> sorted_wrt entry_before entries
    \<and> (\<forall>entry \<in> set entries. \<not> not_after previous (range_start (fst entry)) (range_end (fst entry)))"
proof (induction n arbitrary: previous start0 c entries)
  case (Suc n)
  obtain entry c1 es where e: "decode_entry checked previous start0 c = Inr (entry, c1)" "entries = entry # es"
    "decode_entries checked n (Some (range_start (fst entry), range_end (fst entry))) (range_start (fst entry)) c1
      = Inr (es, c')"
    using Suc.prems by (auto simp: and_then_Inr map_sum_Inr)
  have "\<forall>x \<in> set es. entry_before entry x" using Suc.IH [OF e(3)] by (simp add: entry_before_def)
  then show ?case
    using decode_entry_accepts [OF e(1)] Suc.IH [OF e(3)] e(2)
    by (auto simp: not_after_def entry_before_def split: option.splits)
qed simp

lemma decode_accepts:
  assumes "decode checked payload = Inr entries"
  shows "length entries \<le> max_cache_symbols \<and> list_all accepted_entry entries \<and> sorted_wrt entry_before entries"
proof -
  obtain count c c' where "\<not> (of_nat max_cache_symbols :: u64w) < count"
    "decode_entries checked (unat count) None 0 c = Inr (entries, c')"
    using assms by (auto simp: decode_def and_then_Inr split: option.splits if_splits)
  moreover from this(1) have "unat count \<le> max_cache_symbols"
    by (simp add: word_less_nat_alt max_cache_symbols_def)
  ultimately show ?thesis using decode_entries_accept by metis
qed

lemmas decode_eval = decode_def read_u8_def read_varint_def upt_rec codec_version_def max_cache_symbols_def
  decode_entry_def read_varint_u32_def within_u32_def u32_max_def i64_within_u32_def read_zigzag_def
  unzigzag_def add_i64_def not_after_def text_range_new_def

lemma decode_overflow_panics:
  "decode True [1, 1, 0, 0, 0, 2, 0, 0xFE, 0xFF, 0xFF, 0xFF, 0xFF, 0xFF, 0xFF, 0xFF, 0xFF, 1] = Inl OverflowPanic"
  by (simp add: decode_eval)

lemma decode_overflow_wraps:
  "decode False [1, 1, 0, 0, 0, 2, 0, 0xFE, 0xFF, 0xFF, 0xFF, 0xFF, 0xFF, 0xFF, 0xFF, 0xFF, 1]
     = Inl (InvalidData ''navigation end character exceeds u32'')"
  by (simp add: decode_eval)

lemma decode_accepts_reversed_positions:
  "decode checked [1, 1, 0, 1, 0, 10, 0, 3] = Inr [(\<lparr>range_start = 0, range_end = 1\<rparr>,
       \<lparr>pr_start = \<lparr>pos_line = 0, pos_character = 5\<rparr>, pr_end = \<lparr>pos_line = 0, pos_character = 3\<rparr>\<rparr>)]"
  by (simp add: decode_eval)

subsection \<open>Properties\<close>

text \<open>
  C26. Navigation positions round trip.  For entries whose numbers fit \<open>u32\<close>, \<open>encode\<close> succeeds
  exactly on at most \<open>MAX_CACHE_SYMBOLS\<close> entries with ordered ranges and positions, strictly sorted
  by range, and then \<open>decode\<close> returns these entries from the payload, with or without overflow
  checks and without a byte left over.
\<close>

theorem navigation_positions_round_trip:
  assumes "list_all u32_entry entries"
  shows "case encode entries of
      Inl _ \<Rightarrow> \<not> encodable entries
    | Inr payload \<Rightarrow> encodable entries \<and> decode checked payload = Inr entries"
  using encode_ok [of entries] decode_encode [OF _ assms, of _ checked] by (auto split: sum.splits)

definition large_entry :: nav_entry where
  "large_entry = (\<lparr>range_start = u32_max - 5, range_end = u32_max\<rparr>,
     \<lparr>pr_start = \<lparr>pos_line = u32_max - 1, pos_character = u32_max - 3\<rparr>,
      pr_end = \<lparr>pos_line = u32_max, pos_character = 4\<rparr>\<rparr>)"

lemma navigation_positions_round_trip_witness:
  "\<exists>payload. encode [large_entry] = Inr payload \<and> decode True payload = Inr [large_entry]"
proof -
  have "list_all u32_entry [large_entry]" by (simp add: large_entry_def u32_entry_def u32_max_def)
  moreover have "encodable [large_entry]"
    by (simp add: encodable_def ordered_entry_def large_entry_def max_cache_symbols_def u32_max_def
        less_eq_position_ext_def less_position_ext_def)
  ultimately show ?thesis
    using navigation_positions_round_trip [of "[large_entry]" True] by (auto split: sum.splits)
qed

text \<open>
  Whatever the payload, what \<open>decode\<close> accepts is at most \<open>MAX_CACHE_SYMBOLS\<close> entries whose numbers
  all fit \<open>u32\<close>, whose byte ranges do not end before they start and whose end line is not before the
  start line, and the entries are strictly sorted by byte range. (The characters of two positions on
  one line may still be in reverse order: \<open>decode_accepts_reversed_positions\<close>.)
\<close>

lemma decoded_positions_accepted:
  "case decode checked payload of
      Inl _ \<Rightarrow> True
    | Inr entries \<Rightarrow> length entries \<le> max_cache_symbols \<and> list_all accepted_entry entries
        \<and> sorted_wrt entry_before entries"
  using decode_accepts [of checked payload] by (auto split: sum.splits)

end
