(* ===== verification/Edit_Distance.thy ===== *)
theory Edit_Distance
  imports Main
begin

text \<open>
  The Levenshtein distance as a specification: the least number of insertions, deletions and
  substitutions of one element that turn one list into another (\<open>edit_step\<close>, \<open>lev_least\<close>), its
  recursion on both ends, and the facts about the distances of prefixes on which a row-by-row
  computation rests.
\<close>

inductive edit_step :: "'a list \<Rightarrow> 'a list \<Rightarrow> bool" where
  insert: "edit_step (xs @ ys) (xs @ y # ys)"
| delete: "edit_step (xs @ x # ys) (xs @ ys)"
| substitute: "edit_step (xs @ x # ys) (xs @ y # ys)"

fun lev :: "'a list \<Rightarrow> 'a list \<Rightarrow> nat" where
  "lev [] ys = length ys"
| "lev (x # xs) [] = Suc (length xs)"
| "lev (x # xs) (y # ys) =
    min (min (lev xs (y # ys) + 1) (lev (x # xs) ys + 1)) (lev xs ys + (if x \<noteq> y then 1 else 0))"

lemma lev_Nil2 [simp]: "lev xs [] = length xs"
  by (cases xs) simp_all

lemma lev_refl [simp]: "lev xs xs = 0"
  by (induction xs) simp_all

lemma lev_Cons1: "lev (x # xs) ys \<le> lev xs ys + 1"
  by (cases ys) (auto simp: min_le_iff_disj)

lemma lev_Cons2: "lev xs (y # ys) \<le> lev xs ys + 1"
  by (cases xs) (auto simp: min_le_iff_disj)

lemma lev_drop2: "lev xs ys \<le> lev xs (y # ys) + 1"
proof (induction xs arbitrary: y ys)
  case (Cons x xs)
  show ?case using Cons [of ys y] lev_Cons1 [of x xs ys] by (simp add: min_def)
qed simp

lemma lev_change2: "lev xs (y # ys) \<le> lev xs (z # ys) + 1"
proof (induction xs)
  case (Cons x xs)
  then show ?case using lev_Cons2 by (auto simp: min_def)
qed simp

lemma lev_under_Cons: "(\<And>xs. lev xs zs \<le> lev xs ys + 1) \<Longrightarrow> lev xs (a # zs) \<le> lev xs (a # ys) + 1"
proof (induction xs)
  case Nil
  then show ?case using Nil [of "[]"] by simp
next
  case (Cons x xs)
  have "lev xs (a # zs) \<le> lev xs (a # ys) + 1" using Cons by blast
  moreover have "lev xs zs \<le> lev xs ys + 1" "lev (x # xs) zs \<le> lev (x # xs) ys + 1" using Cons(2) by blast+
  ultimately show ?case by (auto simp: min_def)
qed

lemma lev_under_append: "(\<And>xs. lev xs zs \<le> lev xs ys + 1) \<Longrightarrow> lev xs (as @ zs) \<le> lev xs (as @ ys) + 1"
  by (induction as arbitrary: xs) (simp_all add: lev_under_Cons [simplified])

lemma lev_edit_step: "edit_step ys zs \<Longrightarrow> lev xs zs \<le> lev xs ys + 1"
proof (induction rule: edit_step.induct)
  case (insert as bs b)
  then show ?case by (rule lev_under_append) (rule lev_Cons2)
next
  case (delete as b bs)
  then show ?case by (rule lev_under_append) (rule lev_drop2)
next
  case (substitute as b bs b')
  then show ?case by (rule lev_under_append) (rule lev_change2)
qed

lemma lev_lower: "(edit_step ^^ n) xs ys \<Longrightarrow> lev xs ys \<le> n"
proof (induction n arbitrary: ys)
  case (Suc n)
  then obtain zs where "(edit_step ^^ n) xs zs" "edit_step zs ys" by auto
  then show ?case using Suc.IH [of zs] lev_edit_step [of zs ys xs] by simp
qed simp

lemma edit_step_Cons: "edit_step xs ys \<Longrightarrow> edit_step (a # xs) (a # ys)"
  by (induction rule: edit_step.induct) (metis append_Cons edit_step.intros)+

lemma edit_steps_Cons: "(edit_step ^^ n) xs ys \<Longrightarrow> (edit_step ^^ n) (a # xs) (a # ys)"
proof (induction n arbitrary: ys)
  case (Suc n)
  then show ?case by (auto intro: edit_step_Cons)
qed simp

lemma edit_steps_delete: "(edit_step ^^ n) xs ys \<Longrightarrow> (edit_step ^^ Suc n) (x # xs) ys"
  using relpowp_Suc_I2 [of edit_step "x # xs" xs n ys] edit_step.delete [of "[]" x xs] by simp

lemma edit_steps_substitute: "(edit_step ^^ n) xs ys \<Longrightarrow> (edit_step ^^ Suc n) (x # xs) (y # ys)"
  using relpowp_Suc_I2 [of edit_step "x # xs" "y # xs" n "y # ys"] edit_step.substitute [of "[]" x xs y]
    edit_steps_Cons [of n xs ys y] by simp

lemma edit_steps_insert: "(edit_step ^^ n) xs ys \<Longrightarrow> (edit_step ^^ Suc n) xs (y # ys)"
  using relpowp_Suc_I [of n edit_step xs ys "y # ys"] edit_step.insert [of "[]" ys y] by simp

lemma lev_reached: "(edit_step ^^ lev xs ys) xs ys"
proof (induction xs ys rule: lev.induct)
  case (1 ys)
  show ?case by (induction ys) (use edit_steps_insert in force)+
next
  case (2 x xs)
  have "(edit_step ^^ length xs) xs []" for xs :: "'a list"
    by (induction xs) (use edit_steps_delete in force)+
  then show ?case using edit_steps_delete by fastforce
next
  case (3 x xs y ys)
  have "lev (x # xs) (y # ys) = Suc (lev xs (y # ys)) \<or> lev (x # xs) (y # ys) = Suc (lev (x # xs) ys)
      \<or> lev (x # xs) (y # ys) = lev xs ys \<and> x = y \<or> lev (x # xs) (y # ys) = Suc (lev xs ys)"
    by (cases "x = y") (simp_all add: min_def)
  then consider "lev (x # xs) (y # ys) = Suc (lev xs (y # ys))" | "lev (x # xs) (y # ys) = Suc (lev (x # xs) ys)"
    | "lev (x # xs) (y # ys) = lev xs ys" "x = y" | "lev (x # xs) (y # ys) = Suc (lev xs ys)"
    by blast
  then show ?case
  proof cases
    case 1
    show ?thesis unfolding 1 by (rule edit_steps_delete) (rule 3)
  next
    case 2
    show ?thesis unfolding 2 by (rule edit_steps_insert) (rule 3)
  next
    case a: 3
    show ?thesis unfolding a(1) unfolding a(2) by (rule edit_steps_Cons) (rule 3)
  next
    case 4
    show ?thesis unfolding 4 by (rule edit_steps_substitute) (rule 3)
  qed
qed

theorem lev_least: "lev xs ys = (LEAST n. (edit_step ^^ n) xs ys)"
  by (rule Least_equality [symmetric]) (use lev_reached lev_lower in auto)

subsection \<open>Both ends\<close>

lemma edit_step_rev: "edit_step xs ys \<Longrightarrow> edit_step (rev xs) (rev ys)"
proof (induction rule: edit_step.induct)
  case (insert xs ys y)
  then show ?case using edit_step.insert [of "rev ys" "rev xs" y] by simp
next
  case (delete xs x ys)
  then show ?case using edit_step.delete [of "rev ys" x "rev xs"] by simp
next
  case (substitute xs x ys y)
  then show ?case using edit_step.substitute [of "rev ys" x "rev xs" y] by simp
qed

lemma edit_steps_rev: "(edit_step ^^ n) xs ys \<Longrightarrow> (edit_step ^^ n) (rev xs) (rev ys)"
  by (induction n arbitrary: ys) (auto intro: edit_step_rev)

lemma lev_rev: "lev (rev xs) (rev ys) = lev xs ys"
proof (rule antisym)
  show "lev (rev xs) (rev ys) \<le> lev xs ys" by (rule lev_lower) (rule edit_steps_rev, rule lev_reached)
  show "lev xs ys \<le> lev (rev xs) (rev ys)"
    using lev_lower [OF edit_steps_rev [OF lev_reached [of "rev xs" "rev ys"]]] by simp
qed

lemma lev_snoc:
  "lev (xs @ [x]) (ys @ [y]) =
    min (min (lev xs (ys @ [y]) + 1) (lev (xs @ [x]) ys + 1)) (lev xs ys + (if x \<noteq> y then 1 else 0))"
proof -
  have "lev (xs @ [x]) (ys @ [y]) = lev (x # rev xs) (y # rev ys)" using lev_rev [of "xs @ [x]" "ys @ [y]"] by simp
  also have "\<dots> = min (min (lev (rev xs) (rev (ys @ [y])) + 1) (lev (rev (xs @ [x])) (rev ys) + 1))
      (lev (rev xs) (rev ys) + (if x \<noteq> y then 1 else 0))" by simp
  finally show ?thesis unfolding lev_rev .
qed

subsection \<open>Distances of prefixes\<close>

definition prefix_lev :: "'a list \<Rightarrow> 'a list \<Rightarrow> nat \<Rightarrow> nat \<Rightarrow> nat" where
  "prefix_lev xs ys i j = lev (take i xs) (take j ys)"

lemma prefix_lev_0 [simp]:
  "j \<le> length ys \<Longrightarrow> prefix_lev xs ys 0 j = j" "i \<le> length xs \<Longrightarrow> prefix_lev xs ys i 0 = i"
  by (simp_all add: prefix_lev_def)

lemma prefix_lev_Suc:
  "i < length xs \<Longrightarrow> j < length ys \<Longrightarrow> prefix_lev xs ys (Suc i) (Suc j) =
    min (min (prefix_lev xs ys i (Suc j) + 1) (prefix_lev xs ys (Suc i) j + 1))
      (prefix_lev xs ys i j + (if xs ! i \<noteq> ys ! j then 1 else 0))"
  by (simp add: prefix_lev_def take_Suc_conv_app_nth lev_snoc)

lemma prefix_lev_all: "prefix_lev xs ys (length xs) (length ys) = lev xs ys"
  by (simp add: prefix_lev_def)

lemma lev_length: "length xs \<le> lev xs ys + length ys \<and> length ys \<le> lev xs ys + length xs"
  by (induction xs ys rule: lev.induct) (auto simp: min_def)

lemma prefix_lev_far:
  "i \<le> length xs \<Longrightarrow> j \<le> length ys \<Longrightarrow> i \<le> prefix_lev xs ys i j + j \<and> j \<le> prefix_lev xs ys i j + i"
  using lev_length [of "take i xs" "take j ys"] by (simp add: prefix_lev_def)

lemma prefix_lev_row_before:
  "i < length xs \<Longrightarrow> j \<le> length ys \<Longrightarrow> \<exists>k \<le> j. prefix_lev xs ys i k \<le> prefix_lev xs ys (Suc i) j"
proof (induction j)
  case 0
  then show ?case by (intro exI [of _ 0]) simp
next
  case (Suc j)
  then obtain k where "k \<le> j" "prefix_lev xs ys i k \<le> prefix_lev xs ys (Suc i) j" by auto
  moreover consider "prefix_lev xs ys i (Suc j) \<le> prefix_lev xs ys (Suc i) (Suc j)"
    | "prefix_lev xs ys (Suc i) j \<le> prefix_lev xs ys (Suc i) (Suc j)"
    | "prefix_lev xs ys i j \<le> prefix_lev xs ys (Suc i) (Suc j)"
    using prefix_lev_Suc [of i xs j ys] Suc.prems by (fastforce simp: min_def split: if_splits)
  ultimately show ?case by cases (meson le_SucI le_refl le_trans)+
qed

lemma prefix_lev_rows:
  "i \<le> n \<Longrightarrow> n \<le> length xs \<Longrightarrow> j \<le> length ys \<Longrightarrow> \<exists>k \<le> length ys. prefix_lev xs ys i k \<le> prefix_lev xs ys n j"
proof (induction n arbitrary: j rule: dec_induct)
  case (step n)
  obtain k where "k \<le> j" "prefix_lev xs ys n k \<le> prefix_lev xs ys (Suc n) j"
    using prefix_lev_row_before [of n xs j ys] step by auto
  then show ?case using step.IH [of k] step.prems by (meson Suc_leD le_trans)
qed auto

end
