(* ===== verification/Suggest.thy ===== *)
theory Suggest
  imports Vec_Ops Edit_Distance
begin

text \<open>
  The did-you-mean suggestions of \<open>crates/ide/src/suggest.rs\<close>: a Levenshtein distance computed on a
  diagonal band of two reused rows, and the choice of the unique closest candidate.  An index out
  of range is the value \<open>None\<close>; a character is the string of its UTF-8 bytes.
\<close>

subsection \<open>The banded distance\<close>

definition max_distance :: nat where "max_distance = 2"

definition min_candidate_len :: nat where "min_candidate_len = 3"

record distance_workspace =
  dw_query :: "string list"
  dw_candidate :: "string list"
  dw_previous :: "nat list"
  dw_current :: "nat list"

text \<open>\<open>chars().map(|ch| ch.to_ascii_lowercase())\<close>.\<close>

definition lower_chars :: "string \<Rightarrow> string list" where
  "lower_chars s = map to_ascii_lowercase (str_chars s)"

definition workspace_new :: "string \<Rightarrow> distance_workspace" where
  "workspace_new query = \<lparr>dw_query = lower_chars query, dw_candidate = [], dw_previous = [], dw_current = []\<rparr>"

definition abs_diff :: "nat \<Rightarrow> nat \<Rightarrow> nat" where
  "abs_diff n m = (n - m) + (m - n)"

text \<open>\<open>Vec::resize\<close> and an indexed write.\<close>

definition vec_resize :: "nat \<Rightarrow> 'a \<Rightarrow> 'a list \<Rightarrow> 'a list" where
  "vec_resize n v xs = take n xs @ replicate (n - length xs) v"

definition vec_set :: "'a list \<Rightarrow> nat \<Rightarrow> 'a \<Rightarrow> 'a list option" where
  "vec_set xs i v = (if i < length xs then Some (xs[i := v]) else None)"

text \<open>The cell of row \<open>i\<close> and column \<open>j\<close>, from the row above and the cell before it.\<close>

definition distance_cell ::
  "string list \<Rightarrow> string list \<Rightarrow> nat list \<Rightarrow> nat list \<Rightarrow> nat \<Rightarrow> nat \<Rightarrow> nat option" where
  "distance_cell query cand previous current i j =
    (case (vec_get query (i - 1), vec_get cand (j - 1), vec_get previous j, vec_get current (j - 1),
           vec_get previous (j - 1)) of
       (Some x, Some y, Some up, Some before, Some diagonal) \<Rightarrow>
         Some (min (min (up + 1) (before + 1)) (diagonal + (if x \<noteq> y then 1 else 0)))
     | _ \<Rightarrow> None)"

text \<open>The inner loop over the columns of the band, with the least value of the row.\<close>

fun distance_columns ::
  "string list \<Rightarrow> string list \<Rightarrow> nat list \<Rightarrow> nat \<Rightarrow> nat list \<Rightarrow> nat list \<Rightarrow> nat \<Rightarrow> (nat list \<times> nat) option" where
  "distance_columns query cand previous i [] current row_min = Some (current, row_min)"
| "distance_columns query cand previous i (j # js) current row_min =
    (case distance_cell query cand previous current i j of
       None \<Rightarrow> None
     | Some v \<Rightarrow>
        (case vec_set current j v of
           None \<Rightarrow> None
         | Some current' \<Rightarrow> distance_columns query cand previous i js current' (min row_min v)))"

text \<open>The body of the outer loop: the new row and its least value.\<close>

definition distance_row ::
  "string list \<Rightarrow> string list \<Rightarrow> nat \<Rightarrow> nat list \<Rightarrow> nat list \<Rightarrow> nat \<Rightarrow> (nat list \<times> nat) option" where
  "distance_row query cand bound previous current i =
    (let m = length cand; outside = bound + 1; first = max (i - bound) 1; last = min (i + bound) m
     in case vec_set current 0 (min i outside) of None \<Rightarrow> None
     | Some current \<Rightarrow>
      (case (if 1 < first then vec_set current (first - 1) outside else Some current) of None \<Rightarrow> None
       | Some current \<Rightarrow>
        (case (if last < m then vec_set current (last + 1) outside else Some current) of None \<Rightarrow> None
         | Some current \<Rightarrow>
            distance_columns query cand previous i [first..<last + 1] current (min i outside))))"

text \<open>
  The outer loop; the flag says that it ran to its end, and is false when a row had no value within
  the bound, where the code returns before it swaps the rows.
\<close>

fun distance_rows ::
  "string list \<Rightarrow> string list \<Rightarrow> nat \<Rightarrow> nat list \<Rightarrow> nat list \<Rightarrow> nat list \<Rightarrow> (nat list \<times> nat list \<times> bool) option" where
  "distance_rows query cand bound [] previous current = Some (previous, current, True)"
| "distance_rows query cand bound (i # is) previous current =
    (case distance_row query cand bound previous current i of
       None \<Rightarrow> None
     | Some (current', row_min) \<Rightarrow>
        if bound < row_min then Some (previous, current', False)
        else distance_rows query cand bound is current' previous)"

definition distance :: "distance_workspace \<Rightarrow> string \<Rightarrow> nat \<Rightarrow> (distance_workspace \<times> nat option) option" where
  "distance w candidate limit =
    (let cand = lower_chars candidate; w = w\<lparr>dw_candidate := cand\<rparr>;
         n = length (dw_query w); m = length cand
     in if limit < abs_diff n m then Some (w, None)
        else if n = 0 then Some (w, Some m)
        else
          (let bound = min limit (max n m); outside = bound + 1;
               previous = map (\<lambda>j. if j < bound + 1 then j else outside) [0..<m + 1];
               current = vec_resize (m + 1) outside (dw_current w)
           in case distance_rows (dw_query w) cand bound [1..<n + 1] previous current of
                None \<Rightarrow> None
              | Some (previous, current, finished) \<Rightarrow>
                 (let w = w\<lparr>dw_previous := previous, dw_current := current\<rparr>
                  in if finished
                     then (case vec_get previous m of None \<Rightarrow> None
                           | Some d \<Rightarrow> Some (w, if d \<le> bound then Some d else None))
                     else Some (w, None))))"

subsection \<open>The choice of a suggestion\<close>

fun suggest_loop ::
  "distance_workspace \<Rightarrow> nat \<Rightarrow> (string \<times> nat) option \<Rightarrow> bool \<Rightarrow> string list \<Rightarrow> string option option" where
  "suggest_loop w key_len best tied [] =
    Some (case best of Some (candidate, _) \<Rightarrow> if \<not> tied then Some candidate else None | None \<Rightarrow> None)"
| "suggest_loop w key_len best tied (candidate # candidates) =
    (let candidate_len = length (str_chars candidate)
     in if max_distance < abs_diff candidate_len key_len then suggest_loop w key_len best tied candidates
        else if candidate_len < min_candidate_len then suggest_loop w key_len best tied candidates
        else
          (case distance w candidate max_distance of
             None \<Rightarrow> None
           | Some (w', None) \<Rightarrow> suggest_loop w' key_len best tied candidates
           | Some (w', Some d) \<Rightarrow>
              if d = 0 then Some (Some candidate)
              else
                (case best of
                   Some (best_candidate, best_d) \<Rightarrow>
                     if d < best_d then suggest_loop w' key_len (Some (candidate, d)) False candidates
                     else if d = best_d \<and> \<not> eq_ignore_ascii_case candidate best_candidate
                     then suggest_loop w' key_len best True candidates
                     else suggest_loop w' key_len best tied candidates
                 | None \<Rightarrow> suggest_loop w' key_len (Some (candidate, d)) tied candidates)))"

definition best_suggestion :: "string \<Rightarrow> string list \<Rightarrow> string option option" where
  "best_suggestion key candidates =
    (let w = workspace_new key in suggest_loop w (length (dw_query w)) None False candidates)"

lemma best_suggestion_examples:
  "best_suggestion ''naem'' [''name'', ''count''] = Some (Some ''name'')"
  "best_suggestion ''rat'' [''cat'', ''bat''] = Some None"
  "best_suggestion ''cont'' [''count'', ''count''] = Some (Some ''count'')"
  by code_simp+

subsection \<open>The band computes the distance\<close>

text \<open>
  Values beyond the bound are told apart by nothing: two cells agree when they agree up to
  \<open>bound + 1\<close>.  A row is right when its cells in the band, and the two next to it, agree with the
  distances of the prefixes.
\<close>

definition agree :: "nat \<Rightarrow> nat \<Rightarrow> nat \<Rightarrow> bool" where
  "agree bound a b \<longleftrightarrow> min a (bound + 1) = min b (bound + 1)"

definition row_ok :: "string list \<Rightarrow> string list \<Rightarrow> nat \<Rightarrow> nat \<Rightarrow> nat list \<Rightarrow> bool" where
  "row_ok q c bound i row \<longleftrightarrow> length row = length c + 1
     \<and> (\<forall>j \<le> length c. i \<le> j + bound + 1 \<and> j \<le> i + bound + 1 \<longrightarrow> agree bound (row ! j) (prefix_lev q c i j))"

lemma agree_add: "agree bound a b \<Longrightarrow> agree bound (a + k) (b + k)"
  by (auto simp: agree_def min_def split: if_splits)

lemma agree_min: "agree bound a a' \<Longrightarrow> agree bound b b' \<Longrightarrow> agree bound (min a b) (min a' b')"
  by (auto simp: agree_def min_def split: if_splits)

lemma agree_cell:
  assumes "agree bound a a'" "agree bound b b'" "agree bound d d'"
  shows "agree bound (min (min (a + 1) (b + 1)) (d + e)) (min (min (a' + 1) (b' + 1)) (d' + e))"
  using assms by (intro agree_min agree_add)

lemma agree_bound: "agree bound a b \<Longrightarrow> bound < a \<longleftrightarrow> bound < b"
  by (auto simp: agree_def min_def split: if_splits)

lemma distance_columns_ok:
  assumes "i < length q" "hi \<le> length c" "hi \<le> Suc i + bound" and prev: "row_ok q c bound i prev"
  shows "\<lbrakk>length cur = length c + 1; 1 \<le> j; j \<le> hi + 1; Suc i \<le> j + bound;
      \<forall>k < j. Suc i \<le> k + bound + 1 \<longrightarrow> agree bound (cur ! k) (prefix_lev q c (Suc i) k)\<rbrakk> \<Longrightarrow>
    \<exists>cur' rm'. distance_columns q c prev (Suc i) [j..<hi + 1] cur rm = Some (cur', rm')
      \<and> length cur' = length c + 1
      \<and> (\<forall>k \<le> hi. Suc i \<le> k + bound + 1 \<longrightarrow> agree bound (cur' ! k) (prefix_lev q c (Suc i) k))
      \<and> (\<forall>k > hi. cur' ! k = cur ! k)
      \<and> (bound < rm' \<longleftrightarrow> bound < rm \<and> (\<forall>k. j \<le> k \<and> k \<le> hi \<longrightarrow> bound < prefix_lev q c (Suc i) k))"
proof (induction "hi + 1 - j" arbitrary: j cur rm)
  case 0
  then have "j = hi + 1" by simp
  then show ?case using 0 by auto
next
  case (Suc d)
  obtain h where h: "j = Suc h" "h < length c" using Suc.prems Suc.hyps(2) assms(2) by (cases j) auto
  let ?P = "prefix_lev q c"
  define v where "v = min (min (prev ! j + 1) (cur ! h + 1)) (prev ! h + (if q ! i \<noteq> c ! h then 1 else 0))"
  have cell: "distance_cell q c prev cur (Suc i) j = Some v"
    using assms(1) prev Suc.prems(1) h by (simp add: distance_cell_def vec_get_def row_ok_def v_def)
  have ok: "agree bound v (?P (Suc i) j)"
    unfolding v_def h(1) prefix_lev_Suc [OF assms(1) h(2)]
  proof (rule agree_cell)
    show "agree bound (prev ! Suc h) (?P i (Suc h))" "agree bound (prev ! h) (?P i h)"
      using prev h Suc.prems(3,4) Suc.hyps(2) assms by (auto simp: row_ok_def)
    show "agree bound (cur ! h) (?P (Suc i) h)" using Suc.prems(4,5) h by simp
  qed
  have "j < hi + 1" using Suc.hyps(2) by linarith
  then have upt: "[j..<hi + 1] = j # [Suc j..<hi + 1]" by (rule upt_conv_Cons)
  have "cur[j := v] ! j = v" using Suc.prems(1) h by simp
  then have "\<forall>k < Suc j. Suc i \<le> k + bound + 1 \<longrightarrow> agree bound (cur[j := v] ! k) (?P (Suc i) k)"
    using Suc.prems(5) ok by (auto simp: less_Suc_eq)
  moreover have "d = hi + 1 - Suc j" "length (cur[j := v]) = length c + 1" "1 \<le> Suc j" "Suc j \<le> hi + 1"
    "Suc i \<le> Suc j + bound" using Suc.prems Suc.hyps(2) by simp_all
  ultimately obtain cur' rm' where
    r: "distance_columns q c prev (Suc i) [Suc j..<hi + 1] (cur[j := v]) (min rm v) = Some (cur', rm')"
      "length cur' = length c + 1"
      "\<forall>k \<le> hi. Suc i \<le> k + bound + 1 \<longrightarrow> agree bound (cur' ! k) (?P (Suc i) k)"
      "\<forall>k > hi. cur' ! k = cur[j := v] ! k"
      "bound < rm' \<longleftrightarrow> bound < min rm v \<and> (\<forall>k. Suc j \<le> k \<and> k \<le> hi \<longrightarrow> bound < ?P (Suc i) k)"
    using Suc.hyps(1) [of "Suc j" "cur[j := v]" "min rm v"] by blast
  have "bound < rm' \<longleftrightarrow> bound < rm \<and> (\<forall>k. j \<le> k \<and> k \<le> hi \<longrightarrow> bound < ?P (Suc i) k)"
    using r(5) agree_bound [OF ok] Suc.hyps(2) by (auto simp: le_Suc_eq Suc_le_eq) (metis le_neq_implies_less)+
  moreover have "distance_columns q c prev (Suc i) [j..<hi + 1] cur rm = Some (cur', rm')"
    using r(1) cell Suc.prems(1) h unfolding upt by (simp add: vec_set_def)
  ultimately show ?case using r(2-4) Suc.hyps(2) by auto
qed

lemma far_agree:
  assumes "bound < d" "bound < p"
  shows "agree bound d p"
  using assms by (simp add: agree_def)

lemma distance_row_ok:
  assumes i: "i < length q" and diff: "length q \<le> length c + bound" "length c \<le> length q + bound"
    and prev: "row_ok q c bound i prev" and cur: "length cur = length c + 1"
  shows "\<exists>cur' rm. distance_row q c bound prev cur (Suc i) = Some (cur', rm) \<and> row_ok q c bound (Suc i) cur'
    \<and> (bound < rm \<longrightarrow> (\<forall>j \<le> length c. bound < prefix_lev q c (Suc i) j))"
proof -
  let ?P = "prefix_lev q c"
  define m lo hi where "m = length c" and "lo = max (Suc i - bound) 1" and "hi = min (Suc i + bound) m"
  define c1 where "c1 = cur[0 := min (Suc i) (bound + 1)]"
  define c2 where "c2 = (if 1 < lo then c1[lo - 1 := bound + 1] else c1)"
  define c3 where "c3 = (if hi < m then c2[hi + 1 := bound + 1] else c2)"
  have len: "length c1 = m + 1" "length c2 = m + 1" "length c3 = m + 1"
    using cur by (simp_all add: c1_def c2_def c3_def m_def)
  have b: "lo - 1 \<le> m" "hi \<le> m" "hi \<le> Suc i + bound" "1 \<le> lo" "lo \<le> hi + 1" "Suc i \<le> lo + bound"
    using i diff by (auto simp: lo_def hi_def m_def)
  have far: "bound < ?P (Suc i) k" if "k \<le> m" "k + bound < Suc i \<or> Suc i + bound < k" for k
    using prefix_lev_far [of "Suc i" q k c] that i by (auto simp: m_def)
  have zero: "agree bound (c3 ! 0) (?P (Suc i) 0)"
    using i len b(4) cur by (auto simp: c3_def c2_def c1_def agree_def nth_list_update lo_def)
  have below: "agree bound (c3 ! k) (?P (Suc i) k)" if k: "k < lo" "Suc i \<le> k + bound + 1" for k
  proof (cases "k = 0")
    case False
    then have lo: "1 < lo" "k = lo - 1" "k + bound < Suc i" using k by (auto simp: lo_def)
    then have "c3 ! k = bound + 1" using b len lo k by (auto simp: c3_def c2_def nth_list_update)
    then show ?thesis using far [of k] lo b by (auto intro: far_agree)
  qed (use zero in simp)
  obtain cur' rm where
    r: "distance_columns q c prev (Suc i) [lo..<hi + 1] c3 (min (Suc i) (bound + 1)) = Some (cur', rm)"
      "length cur' = m + 1" "\<forall>k \<le> hi. Suc i \<le> k + bound + 1 \<longrightarrow> agree bound (cur' ! k) (?P (Suc i) k)"
      "\<forall>k > hi. cur' ! k = c3 ! k"
      "bound < rm \<longleftrightarrow> bound < min (Suc i) (bound + 1) \<and> (\<forall>k. lo \<le> k \<and> k \<le> hi \<longrightarrow> bound < ?P (Suc i) k)"
    using distance_columns_ok [OF i b(2) [unfolded m_def] b(3) prev, of c3 lo "min (Suc i) (bound + 1)"] below len b
    by (auto simp: m_def)
  have "distance_row q c bound prev cur (Suc i) = Some (cur', rm)"
    using r(1) len b cur
    unfolding distance_row_def Let_def m_def [symmetric] lo_def [symmetric] hi_def [symmetric]
    by (auto simp: vec_set_def c1_def c2_def c3_def m_def)
  moreover have "row_ok q c bound (Suc i) cur'"
    unfolding row_ok_def
  proof (intro conjI allI impI)
    fix j assume j: "j \<le> length c" "Suc i \<le> j + bound + 1 \<and> j \<le> Suc i + bound + 1"
    show "agree bound (cur' ! j) (?P (Suc i) j)"
    proof (cases "j \<le> hi")
      case False
      then have "hi < m" "j = hi + 1" "Suc i + bound < j" using j by (auto simp: hi_def m_def)
      then have "cur' ! j = bound + 1" using r(4) len by (simp add: c3_def)
      then show ?thesis using far [of j] j \<open>Suc i + bound < j\<close> by (auto intro: far_agree simp: m_def)
    qed (use r(3) j in blast)
  qed (use r(2) in \<open>simp add: m_def\<close>)
  moreover have "bound < ?P (Suc i) j" if "bound < rm" "j \<le> length c" for j
  proof (cases "lo \<le> j \<and> j \<le> hi")
    case False
    show ?thesis
    proof (cases "j = 0")
      case True
      then show ?thesis using r(5) that(1) i by (simp add: min_def split: if_splits)
    next
      case j: False
      then have "j + bound < Suc i \<or> Suc i + bound < j" using False that(2) by (auto simp: lo_def hi_def m_def)
      then show ?thesis using far [of j] that(2) by (auto simp: m_def)
    qed
  qed (use r(5) that in blast)
  ultimately show ?thesis by blast
qed

lemma distance_rows_ok:
  assumes diff: "length q \<le> length c + bound" "length c \<le> length q + bound"
  shows "\<lbrakk>i \<le> length q; row_ok q c bound i prev; length cur = length c + 1\<rbrakk> \<Longrightarrow>
    \<exists>prev' cur' f. distance_rows q c bound [Suc i..<length q + 1] prev cur = Some (prev', cur', f)
      \<and> (f \<longrightarrow> row_ok q c bound (length q) prev') \<and> (\<not> f \<longrightarrow> bound < lev q c)"
proof (induction "length q - i" arbitrary: i prev cur)
  case 0
  then show ?case by (intro exI [of _ prev] exI [of _ cur] exI [of _ True]) simp
next
  case (Suc d)
  then have i: "i < length q" by simp
  obtain cur' rm where r: "distance_row q c bound prev cur (Suc i) = Some (cur', rm)" "row_ok q c bound (Suc i) cur'"
    "bound < rm \<longrightarrow> (\<forall>j \<le> length c. bound < prefix_lev q c (Suc i) j)"
    using distance_row_ok [OF i diff Suc.prems(2,3)] by blast
  have upt: "[Suc i..<length q + 1] = Suc i # [Suc (Suc i)..<length q + 1]" using i by (simp add: upt_conv_Cons)
  show ?case
  proof (cases "bound < rm")
    case True
    obtain k where "k \<le> length c" "prefix_lev q c (Suc i) k \<le> lev q c"
      using prefix_lev_rows [of "Suc i" "length q" q "length c" c] i by (auto simp: prefix_lev_all)
    then show ?thesis using True r(1,3) unfolding upt by fastforce
  next
    case False
    have "length prev = length c + 1" using Suc.prems(2) by (simp add: row_ok_def)
    then show ?thesis using Suc.hyps(1) [of "Suc i" cur' prev] Suc.hyps(2) i False r(1,2) unfolding upt by auto
  qed
qed

lemma lev_le_max: "lev xs ys \<le> max (length xs) (length ys)"
  by (induction xs ys rule: lev.induct) (auto simp: min_def)

definition levenshtein :: "string \<Rightarrow> string \<Rightarrow> nat" where
  "levenshtein s t = lev (lower_chars s) (lower_chars t)"

lemma distance_ok:
  "\<exists>w'. distance w candidate limit = Some (w', if lev (dw_query w) (lower_chars candidate) \<le> limit
      then Some (lev (dw_query w) (lower_chars candidate)) else None) \<and> dw_query w' = dw_query w"
proof -
  define q c where "q = dw_query w" and "c = lower_chars candidate"
  let ?d = "lev q c"
  consider "limit < abs_diff (length q) (length c)" | "abs_diff (length q) (length c) \<le> limit" "q = []"
    | "abs_diff (length q) (length c) \<le> limit" "q \<noteq> []" by linarith
  then show ?thesis
  proof cases
    case 1
    then have "\<not> ?d \<le> limit" using lev_length [of q c] by (auto simp: abs_diff_def)
    then show ?thesis using 1 by (simp add: distance_def Let_def q_def c_def)
  next
    case 2
    then show ?thesis by (simp add: distance_def Let_def q_def c_def abs_diff_def)
  next
    case 3
    define bound where "bound = min limit (max (length q) (length c))"
    have diff: "length q \<le> length c + bound" "length c \<le> length q + bound"
      using 3(1) by (auto simp: bound_def abs_diff_def)
    have same: "?d \<le> bound \<longleftrightarrow> ?d \<le> limit" using lev_le_max [of q c] by (auto simp: bound_def)
    define prev where "prev = map (\<lambda>j. if j < bound + 1 then j else bound + 1) [0..<length c + 1]"
    define cur where "cur = vec_resize (length c + 1) (bound + 1) (dw_current w)"
    have "row_ok q c bound 0 prev"
      by (auto simp: row_ok_def prev_def agree_def nth_append simp del: upt_Suc)
    moreover have "length cur = length c + 1" by (simp add: cur_def vec_resize_def)
    ultimately obtain prev' cur' f where
      r: "distance_rows q c bound [1..<length q + 1] prev cur = Some (prev', cur', f)"
        "f \<longrightarrow> row_ok q c bound (length q) prev'" "\<not> f \<longrightarrow> bound < ?d"
      using distance_rows_ok [OF diff, of 0 prev cur] by auto
    define w0 where "w0 = w\<lparr>dw_candidate := c\<rparr>"
    have w0: "dw_query w0 = q" "dw_current w0 = dw_current w" by (simp_all add: w0_def q_def)
    have n: "\<not> limit < abs_diff (length q) (length c)" "length q \<noteq> 0" using 3 by simp_all
    have d: "distance w candidate limit =
        (if f then (case vec_get prev' (length c) of None \<Rightarrow> None
           | Some d \<Rightarrow> Some (w0\<lparr>dw_previous := prev', dw_current := cur'\<rparr>, if d \<le> bound then Some d else None))
         else Some (w0\<lparr>dw_previous := prev', dw_current := cur'\<rparr>, None))"
      unfolding distance_def Let_def c_def [symmetric] w0_def [symmetric] w0 bound_def [symmetric]
        prev_def [symmetric] cur_def [symmetric] r(1)
      using n by simp
    show ?thesis
    proof (cases f)
      case True
      then have p: "length prev' = length c + 1" "agree bound (prev' ! length c) ?d"
        using r(2) diff by (auto simp: row_ok_def prefix_lev_all)
      then have "prev' ! length c \<le> bound \<longleftrightarrow> ?d \<le> bound" "?d \<le> bound \<Longrightarrow> prev' ! length c = ?d"
        using agree_bound [OF p(2)] by (auto simp: agree_def)
      then show ?thesis using d True p(1) same by (simp add: vec_get_def q_def c_def w0_def)
    next
      case False
      then show ?thesis using d r(3) same by (simp add: q_def c_def w0_def)
    qed
  qed
qed

subsection \<open>The suggestion is the unique closest candidate\<close>

definition eligible :: "string \<Rightarrow> string \<Rightarrow> bool" where
  "eligible key c \<longleftrightarrow> min_candidate_len \<le> length (str_chars c) \<and> levenshtein key c \<le> max_distance"

text \<open>
  A candidate is the unique closest one when every eligible candidate is farther away, or just as
  far and the same up to ASCII case.
\<close>

definition unique_closest :: "string \<Rightarrow> string list \<Rightarrow> string \<Rightarrow> bool" where
  "unique_closest key candidates c \<longleftrightarrow> eligible key c
     \<and> (\<forall>d \<in> set candidates. eligible key d \<longrightarrow>
          levenshtein key c < levenshtein key d
          \<or> levenshtein key c = levenshtein key d \<and> eq_ignore_ascii_case d c)"

lemma lev_0: "lev xs ys = 0 \<longleftrightarrow> xs = ys"
  by (induction xs ys rule: lev.induct) auto

lemma lower_chars_eq: "lower_chars s = lower_chars t \<Longrightarrow> eq_ignore_ascii_case s t"
proof -
  assume "lower_chars s = lower_chars t"
  then have "concat (lower_chars s) = concat (lower_chars t)" by simp
  moreover have "concat (lower_chars u) = to_ascii_lowercase u" for u
    using map_concat [of ascii_lower "str_chars u"]
    by (simp add: lower_chars_def to_ascii_lowercase_def [abs_def])
  ultimately show ?thesis by (simp add: eq_ignore_ascii_case_def to_ascii_lowercase_def)
qed

lemma eligible_len: "eligible key c \<Longrightarrow> abs_diff (length (str_chars c)) (length (str_chars key)) \<le> max_distance"
  using lev_length [of "lower_chars key" "lower_chars c"]
  by (auto simp: eligible_def levenshtein_def lower_chars_def abs_diff_def)

text \<open>One turn of the loop, by the eligibility of the candidate.\<close>

lemma suggest_loop_Cons:
  assumes w: "dw_query w = lower_chars key" and l: "l = length (str_chars key)"
  shows "\<exists>w'. dw_query w' = lower_chars key \<and> suggest_loop w l best tied (c # cs) =
    (if \<not> eligible key c then suggest_loop w' l best tied cs
     else if levenshtein key c = 0 then Some (Some c)
     else case best of
         None \<Rightarrow> suggest_loop w' l (Some (c, levenshtein key c)) tied cs
       | Some (b, d) \<Rightarrow>
          if levenshtein key c < d then suggest_loop w' l (Some (c, levenshtein key c)) False cs
          else if levenshtein key c = d \<and> \<not> eq_ignore_ascii_case c b then suggest_loop w' l best True cs
          else suggest_loop w' l best tied cs)"
proof (cases "max_distance < abs_diff (length (str_chars c)) l \<or> length (str_chars c) < min_candidate_len")
  case True
  then have "\<not> eligible key c" using eligible_len [of key c] l by (auto simp: eligible_def)
  then show ?thesis using True w by (intro exI [of _ w]) (auto simp: Let_def)
next
  case False
  obtain w' where w': "distance w c max_distance =
      Some (w', if levenshtein key c \<le> max_distance then Some (levenshtein key c) else None)"
    "dw_query w' = lower_chars key"
    using distance_ok [of w c max_distance] w by (auto simp: levenshtein_def)
  then show ?thesis
    using False by (intro exI [of _ w']) (auto simp: Let_def eligible_def split: option.splits)
qed

text \<open>What the loop knows of the candidates it has seen.\<close>

definition loop_state :: "string \<Rightarrow> string list \<Rightarrow> (string \<times> nat) option \<Rightarrow> bool \<Rightarrow> bool" where
  "loop_state key seen best tied =
    (case best of
       None \<Rightarrow> \<not> tied \<and> (\<forall>e \<in> set seen. \<not> eligible key e)
     | Some (b, d) \<Rightarrow> 0 < d \<and> eligible key b \<and> d = levenshtein key b
        \<and> (\<exists>pre post. seen = pre @ b # post \<and> (\<forall>e \<in> set pre. eligible key e \<longrightarrow> d < levenshtein key e))
        \<and> (\<forall>e \<in> set seen. eligible key e \<longrightarrow> d \<le> levenshtein key e)
        \<and> (tied \<longleftrightarrow> (\<exists>e \<in> set seen. eligible key e \<and> levenshtein key e = d \<and> \<not> eq_ignore_ascii_case e b)))"

lemma find_first:
  "\<lbrakk>P b; \<forall>e \<in> set pre. \<not> P e\<rbrakk> \<Longrightarrow> List.find P (pre @ b # post) = Some b"
  by (induction pre) auto

lemma loop_state_result:
  assumes "loop_state key seen best tied"
  shows "(case best of Some (b, _) \<Rightarrow> if \<not> tied then Some b else None | None \<Rightarrow> None)
    = List.find (unique_closest key seen) seen"
proof (cases best)
  case None
  then have "\<nexists>e. e \<in> set seen \<and> unique_closest key seen e"
    using assms by (auto simp: loop_state_def unique_closest_def)
  then have "List.find (unique_closest key seen) seen = None" by (auto simp: find_None_iff)
  then show ?thesis using None by simp
next
  case (Some bd)
  then obtain b d pre post where b: "best = Some (b, d)" "eligible key b" "d = levenshtein key b"
    "seen = pre @ b # post" "\<forall>e \<in> set pre. eligible key e \<longrightarrow> d < levenshtein key e"
    "\<forall>e \<in> set seen. eligible key e \<longrightarrow> d \<le> levenshtein key e"
    "tied \<longleftrightarrow> (\<exists>e \<in> set seen. eligible key e \<and> levenshtein key e = d \<and> \<not> eq_ignore_ascii_case e b)"
    using assms by (cases bd) (auto simp: loop_state_def)
  have b_seen: "b \<in> set seen" using b(4) by simp
  have nearest: "levenshtein key c = d" if "unique_closest key seen c" "c \<in> set seen" for c
    using that b(2,3,6) b_seen by (fastforce simp: unique_closest_def)
  show ?thesis
  proof (cases tied)
    case False
    have "unique_closest key seen b"
      using b False unfolding unique_closest_def by (metis le_neq_implies_less)
    moreover have "\<forall>e \<in> set pre. \<not> unique_closest key seen e"
      using b(4,5) nearest by (fastforce simp: unique_closest_def)
    ultimately have "List.find (unique_closest key seen) seen = Some b"
      using find_first [of "unique_closest key seen" b pre post] b(4) by simp
    then show ?thesis using b(1) False by simp
  next
    case True
    then obtain e where e: "e \<in> set seen" "eligible key e" "levenshtein key e = d" "\<not> eq_ignore_ascii_case e b"
      using b(7) by blast
    have "\<not> unique_closest key seen c" if c_seen: "c \<in> set seen" for c
    proof
      assume c: "unique_closest key seen c"
      then have "eq_ignore_ascii_case e c" "eq_ignore_ascii_case b c"
        using nearest [OF c c_seen] e b(2,3) b_seen unfolding unique_closest_def by (metis less_irrefl)+
      then show False using e(4) by (metis eq_ignore_ascii_case_sym eq_ignore_ascii_case_trans)
    qed
    then have "List.find (unique_closest key seen) seen = None" by (auto simp: find_None_iff)
    then show ?thesis using b(1) True by simp
  qed
qed

lemma loop_state_skip: "loop_state key seen best tied \<Longrightarrow> \<not> eligible key c \<Longrightarrow> loop_state key (seen @ [c]) best tied"
  unfolding loop_state_def by (auto split: option.splits) (metis append_Cons append_assoc)+

lemma loop_state_new:
  assumes "loop_state key seen best tied" "eligible key c" "0 < levenshtein key c"
    and less: "case best of None \<Rightarrow> \<not> tied' | Some (_, d) \<Rightarrow> levenshtein key c < d \<and> \<not> tied'"
  shows "loop_state key (seen @ [c]) (Some (c, levenshtein key c)) tied'"
proof -
  have far: "levenshtein key c < levenshtein key e" if "e \<in> set seen" "eligible key e" for e
    using assms that by (fastforce simp: loop_state_def split: option.splits)
  have "\<not> tied'" using less by (auto split: option.splits)
  moreover have "\<exists>pre post. seen @ [c] = pre @ c # post
      \<and> (\<forall>e \<in> set pre. eligible key e \<longrightarrow> levenshtein key c < levenshtein key e)"
    using far by (intro exI [of _ seen] exI [of _ "[]"]) simp
  moreover have "\<forall>e \<in> set (seen @ [c]). eligible key e \<longrightarrow> levenshtein key c \<le> levenshtein key e"
    using far by (auto dest: less_imp_le)
  moreover have "eq_ignore_ascii_case e c"
    if "e \<in> set (seen @ [c])" "eligible key e" "levenshtein key e = levenshtein key c" for e
    using far [of e] that by auto
  ultimately show ?thesis
    unfolding loop_state_def using assms(2,3) by auto
qed

lemma loop_state_keep:
  assumes "loop_state key seen (Some (b, d)) tied" "eligible key c" "d \<le> levenshtein key c"
    and "tied' \<longleftrightarrow> tied \<or> levenshtein key c = d \<and> \<not> eq_ignore_ascii_case c b"
  shows "loop_state key (seen @ [c]) (Some (b, d)) tied'"
proof -
  obtain pre post where "seen = pre @ b # post" "\<forall>e \<in> set pre. eligible key e \<longrightarrow> d < levenshtein key e"
    using assms(1) by (auto simp: loop_state_def)
  then have "\<exists>pre post. seen @ [c] = pre @ b # post \<and> (\<forall>e \<in> set pre. eligible key e \<longrightarrow> d < levenshtein key e)"
    by (intro exI [of _ pre] exI [of _ "post @ [c]"]) simp
  then show ?thesis using assms unfolding loop_state_def by auto
qed

lemma suggest_loop_ok:
  "\<lbrakk>dw_query w = lower_chars key; loop_state key seen best tied\<rbrakk> \<Longrightarrow>
    suggest_loop w (length (str_chars key)) best tied cs
    = Some (List.find (unique_closest key (seen @ cs)) (seen @ cs))"
proof (induction cs arbitrary: w seen best tied)
  case Nil
  then show ?case using loop_state_result by simp
next
  case (Cons c cs)
  let ?d = "levenshtein key c" and ?l = "length (str_chars key)"
  have step: "suggest_loop w' ?l best' tied' cs = Some (List.find (unique_closest key (seen @ c # cs)) (seen @ c # cs))"
    if "dw_query w' = lower_chars key" "loop_state key (seen @ [c]) best' tied'" for w' best' tied'
    using Cons.IH [OF that] by simp
  obtain w' where w': "dw_query w' = lower_chars key" and run: "suggest_loop w ?l best tied (c # cs) =
    (if \<not> eligible key c then suggest_loop w' ?l best tied cs
     else if ?d = 0 then Some (Some c)
     else case best of
         None \<Rightarrow> suggest_loop w' ?l (Some (c, ?d)) tied cs
       | Some (b, d) \<Rightarrow>
          if ?d < d then suggest_loop w' ?l (Some (c, ?d)) False cs
          else if ?d = d \<and> \<not> eq_ignore_ascii_case c b then suggest_loop w' ?l best True cs
          else suggest_loop w' ?l best tied cs)"
    using suggest_loop_Cons [OF Cons.prems(1) refl] by blast
  consider "\<not> eligible key c" | "eligible key c" "?d = 0" | "eligible key c" "0 < ?d" by blast
  then show ?case
  proof cases
    case 1
    then show ?thesis using step [OF w'] loop_state_skip [OF Cons.prems(2)] unfolding run by simp
  next
    case 2
    have "\<not> unique_closest key (seen @ c # cs) e" if "e \<in> set seen" for e
      using that 2 Cons.prems(2) unfolding unique_closest_def loop_state_def
      by (fastforce split: option.splits)
    moreover have "unique_closest key (seen @ c # cs) c"
      using 2 lower_chars_eq unfolding unique_closest_def levenshtein_def lev_0
      by (metis eq_ignore_ascii_case_sym gr0I lev_0)
    ultimately show ?thesis using 2 find_first [of "unique_closest key (seen @ c # cs)" c seen cs] unfolding run by simp
  next
    case 3
    show ?thesis
    proof (cases best)
      case None
      then show ?thesis
        using 3 step [OF w'] loop_state_new [OF Cons.prems(2) 3, of tied] Cons.prems(2)
        unfolding run by (simp add: loop_state_def)
    next
      case (Some bd)
      obtain b d where b: "best = Some (b, d)" using Some by (cases bd) auto
      consider "?d < d" | "d \<le> ?d" "?d = d \<and> \<not> eq_ignore_ascii_case c b"
        | "d \<le> ?d" "\<not> (?d = d \<and> \<not> eq_ignore_ascii_case c b)" by linarith
      then show ?thesis
      proof cases
        case 1
        then show ?thesis using 3 b step [OF w'] loop_state_new [OF Cons.prems(2) 3, of False] unfolding run by simp
      next
        case 2
        then show ?thesis
          using 3 b step [OF w'] loop_state_keep [OF Cons.prems(2) [unfolded b] 3(1), of True] unfolding run by simp
      next
        case k: 3
        then show ?thesis
          using 3 b step [OF w'] loop_state_keep [OF Cons.prems(2) [unfolded b] 3(1), of tied] unfolding run by auto
      qed
    qed
  qed
qed

subsection \<open>Properties\<close>

text \<open>
  C27. The banded distance is the Levenshtein distance.  Whatever an earlier call left in the rows,
  \<open>distance\<close> never reads outside them and answers the least number of insertions, deletions and
  substitutions of characters between the query and the candidate, both in ASCII lower case, when
  that number is within the limit, and \<open>None\<close> otherwise.
\<close>

theorem distance_is_levenshtein:
  "let d = (LEAST n. (edit_step ^^ n) (dw_query w) (lower_chars candidate))
   in map_option snd (distance w candidate limit) = Some (if d \<le> limit then Some d else None)"
  using distance_ok [of w candidate limit] unfolding lev_least [symmetric] Let_def by auto

text \<open>
  C28. A suggestion is the unique closest candidate.  \<open>best_suggestion\<close> never panics and returns the
  first candidate of at least three characters, at most two edits away, such that every other
  candidate of that kind is farther away or equal to it up to case; it returns none exactly when
  there is no such candidate.
\<close>

theorem best_suggestion_unique_closest:
  "best_suggestion key candidates = Some (List.find (unique_closest key candidates) candidates)"
  using suggest_loop_ok [of "workspace_new key" key "[]" None False candidates]
  by (simp add: best_suggestion_def workspace_new_def loop_state_def) (simp add: lower_chars_def)

end
