(* ===== verification/Template_Relations.thy ===== *)
theory Template_Relations
  imports Text_Model Vec_Ops "HOL-Library.List_Lexorder" "HOL-Library.Product_Lexorder" "HOL-Library.Char_ord"
begin

text \<open>
  The finite string relations of the template analysis: \<open>crates/hir/src/template_relations.rs\<close> with the
  coverage of \<open>crates/hir/src/analysis.rs\<close>.  A witness, a \<open>BTreeMap\<close> from parameter names to strings,
  is its list of entries in key order; a \<open>BTreeSet\<close> of witnesses is their sorted list, in the
  lexicographic order that the source derives.  A checkpoint is the function from the number of the
  call to the error that it returns.
\<close>

subsection \<open>Coverage\<close>

datatype analysis_limit =
    FactStability | PatternSearch | CallDepth | LimitNodes | RecursiveState | UnavailableTemplate
  | TextBytes | ParseNodes | ConsumptionDepth | Output | DependentQuery | StructuralRecovery

fun limit_message :: "analysis_limit \<Rightarrow> string" where
  "limit_message FactStability = ''Generated fact discovery did not reach a stable state''"
| "limit_message PatternSearch = ''Pattern matching did not finish within its search budget''"
| "limit_message CallDepth = ''Template analysis reached its call-depth limit''"
| "limit_message LimitNodes = ''Template analysis exhausted its semantic-node budget''"
| "limit_message RecursiveState = ''Template analysis retained an unresolved recursive state''"
| "limit_message UnavailableTemplate = ''Template source could not be fully represented''"
| "limit_message TextBytes = ''Template text exceeded the analysis byte budget''"
| "limit_message ParseNodes = ''Template parsing exceeded the analysis node budget''"
| "limit_message ConsumptionDepth = ''Template consumption exceeded the analysis depth limit''"
| "limit_message Output = ''Template result projection exceeded its output budget''"
| "limit_message DependentQuery = ''A related Template query did not complete''"
| "limit_message StructuralRecovery = ''Template syntax requires binding-dependent recovery''"

text \<open>The derived order is the order of declaration.\<close>

definition all_limits :: "analysis_limit list" where
  "all_limits = [FactStability, PatternSearch, CallDepth, LimitNodes, RecursiveState, UnavailableTemplate,
     TextBytes, ParseNodes, ConsumptionDepth, Output, DependentQuery, StructuralRecovery]"

datatype residual_reason = DynamicKey | ResidualBinding | Interpretation | Scope | TextInterpretation

record analysis_coverage =
  ac_limits :: "analysis_limit set"
  ac_residuals :: "residual_reason set"

definition coverage_default :: analysis_coverage where
  "coverage_default = \<lparr>ac_limits = {}, ac_residuals = {}\<rparr>"

definition coverage_is_complete :: "analysis_coverage \<Rightarrow> bool" where
  "coverage_is_complete c \<longleftrightarrow> ac_limits c = {}"

definition coverage_is_known :: "analysis_coverage \<Rightarrow> bool" where
  "coverage_is_known c \<longleftrightarrow> coverage_is_complete c \<and> ac_residuals c = {}"

definition coverage_merge :: "analysis_coverage \<Rightarrow> analysis_coverage \<Rightarrow> analysis_coverage" where
  "coverage_merge c d = \<lparr>ac_limits = ac_limits c \<union> ac_limits d, ac_residuals = ac_residuals c \<union> ac_residuals d\<rparr>"

definition limit_description :: "analysis_coverage \<Rightarrow> string" where
  "limit_description c = join_with ''; '' (map limit_message (filter (\<lambda>l. l \<in> ac_limits c) all_limits))"

subsection \<open>Fragments, witnesses and the budget\<close>

datatype template_fragment = Literal string | Parameter string text_range

type_synonym witness = "(string \<times> string) list"

text \<open>\<open>BTreeMap::insert\<close>: a key keeps its place, its value is replaced.\<close>

fun btree_insert :: "string \<Rightarrow> string \<Rightarrow> witness \<Rightarrow> witness" where
  "btree_insert k v [] = [(k, v)]"
| "btree_insert k v ((k', v') # w) =
    (if k < k' then (k, v) # (k', v') # w
     else if k = k' then (k', v) # w
     else (k', v') # btree_insert k v w)"

definition btree_extend :: "witness \<Rightarrow> witness \<Rightarrow> witness" where
  "btree_extend a b = fold (\<lambda>(k, v). btree_insert k v) b a"

record search_budget =
  sb_remaining :: nat
  sb_coverage :: analysis_coverage
  sb_calls :: nat

definition search_budget_new :: "nat \<Rightarrow> search_budget" where
  "search_budget_new steps = \<lparr>sb_remaining = steps, sb_coverage = coverage_default, sb_calls = 0\<rparr>"

type_synonym 'e checkpoint = "nat \<Rightarrow> 'e option"

definition search_step :: "'e checkpoint \<Rightarrow> search_budget \<Rightarrow> 'e + bool \<times> search_budget" where
  "search_step checkpoint b =
    (let b' = b\<lparr>sb_calls := sb_calls b + 1\<rparr>
     in case checkpoint (sb_calls b) of
          Some e \<Rightarrow> Inl e
        | None \<Rightarrow>
           if sb_remaining b = 0
           then Inr (False, b'\<lparr>sb_coverage := (sb_coverage b)\<lparr>ac_limits := insert LimitNodes (ac_limits (sb_coverage b))\<rparr>\<rparr>)
           else Inr (True, b'\<lparr>sb_remaining := sb_remaining b - 1\<rparr>))"

definition fragment_names :: "template_fragment list \<Rightarrow> string list" where
  "fragment_names fragments = sort (remdups (List.map_filter
     (\<lambda>p. case p of Parameter name _ \<Rightarrow> Some (to_ascii_lowercase name) | Literal _ \<Rightarrow> None) fragments))"

subsection \<open>Inversion\<close>

text \<open>The case of one unknown: every occurrence has the same width.\<close>

definition literal_bytes :: "template_fragment list \<Rightarrow> nat" where
  "literal_bytes fragments =
    sum_list (map (\<lambda>p. case p of Literal t \<Rightarrow> length t | Parameter _ _ \<Rightarrow> 0) fragments)"

definition parameter_count :: "template_fragment list \<Rightarrow> nat" where
  "parameter_count fragments =
    length (filter (\<lambda>p. case p of Parameter _ _ \<Rightarrow> True | Literal _ \<Rightarrow> False) fragments)"

fun single_loop :: "string \<Rightarrow> nat \<Rightarrow> nat \<Rightarrow> string option \<Rightarrow> template_fragment list \<Rightarrow> string option option" where
  "single_loop v width offset bound [] = Some bound"
| "single_loop v width offset bound (part # parts) =
    (let len = (case part of Literal t \<Rightarrow> length t | Parameter _ _ \<Rightarrow> width)
     in case str_get v offset (offset + len) of
          None \<Rightarrow> None
        | Some piece \<Rightarrow>
           (let bound' = (case part of Literal t \<Rightarrow> bound
                          | Parameter _ _ \<Rightarrow> (case bound of Some b \<Rightarrow> Some b | None \<Rightarrow> Some piece));
                expected = (case part of Literal t \<Rightarrow> t
                            | Parameter _ _ \<Rightarrow> (case bound of Some b \<Rightarrow> b | None \<Rightarrow> piece))
            in if eq_ignore_ascii_case piece expected then single_loop v width (offset + len) bound' parts
               else None))"

definition inverse_single :: "template_fragment list \<Rightarrow> string \<Rightarrow> string \<Rightarrow> witness list" where
  "inverse_single fragments name v =
    (let literal = literal_bytes fragments; count = parameter_count fragments
     in if length v < literal then []
        else if (length v - literal) mod count \<noteq> 0 then []
        else case single_loop v ((length v - literal) div count) 0 None fragments of
               None \<Rightarrow> []
             | Some bound \<Rightarrow> [[(name, case bound of Some b \<Rightarrow> b | None \<Rightarrow> [])]])"

text \<open>The general case: a depth-first search over an explicit stack.\<close>

type_synonym inverse_task = "nat \<times> nat \<times> witness"

definition slice_matches :: "string \<Rightarrow> nat \<Rightarrow> string \<Rightarrow> bool" where
  "slice_matches v offset t =
    (case str_get v offset (offset + length t) of
       None \<Rightarrow> False | Some head \<Rightarrow> eq_ignore_ascii_case head t)"

text \<open>The ends of the characters of the tail, the empty prefix first.\<close>

definition tail_ends :: "string \<Rightarrow> nat list" where
  "tail_ends tail = filter (is_boundary tail) [0..<length tail] @ [length tail]"

fun push_splits ::
  "'e checkpoint \<Rightarrow> string \<Rightarrow> string \<Rightarrow> nat \<Rightarrow> nat \<Rightarrow> witness \<Rightarrow> nat list \<Rightarrow> search_budget \<Rightarrow> inverse_task list
    \<Rightarrow> 'e + inverse_task list \<times> search_budget" where
  "push_splits checkpoint name tail index offset bindings [] b pending = Inr (pending, b)"
| "push_splits checkpoint name tail index offset bindings (stop # stops) b pending =
    (case search_step checkpoint b of
       Inl e \<Rightarrow> Inl e
     | Inr (False, b') \<Rightarrow> Inr (pending, b')
     | Inr (True, b') \<Rightarrow>
        push_splits checkpoint name tail index offset bindings stops b'
          ((index + 1, offset + stop, btree_insert name (take stop tail) bindings) # pending))"

lemma push_splits_remaining:
  "push_splits checkpoint name tail index offset bindings stops b pending = Inr (pending', b') \<Longrightarrow>
    sb_remaining b' \<le> sb_remaining b"
proof (induction stops arbitrary: b pending)
  case (Cons stop stops)
  then show ?case
    by (auto simp: search_step_def Let_def split: option.splits if_splits) (use Cons.IH in fastforce)
qed simp

function inverse_loop ::
  "'e checkpoint \<Rightarrow> template_fragment list \<Rightarrow> string \<Rightarrow> search_budget \<Rightarrow> inverse_task list \<Rightarrow> witness list
    \<Rightarrow> 'e + witness list \<times> search_budget" where
  "inverse_loop checkpoint fragments v b [] rows = Inr (rows, b)"
| "inverse_loop checkpoint fragments v b ((index, offset, bindings) # pending) rows =
    (case search_step checkpoint b of
       Inl e \<Rightarrow> Inl e
     | Inr (go, b') \<Rightarrow>
        if \<not> go then Inr (rows, b')
        else
          (case vec_get fragments index of
             None \<Rightarrow>
               inverse_loop checkpoint fragments v b' pending
                 (if offset = length v then insort_insert bindings rows else rows)
           | Some (Literal t) \<Rightarrow>
               inverse_loop checkpoint fragments v b'
                 (if slice_matches v offset t then (index + 1, offset + length t, bindings) # pending else pending) rows
           | Some (Parameter name _) \<Rightarrow>
              (case map_of bindings (to_ascii_lowercase name) of
                 Some bound \<Rightarrow>
                   inverse_loop checkpoint fragments v b'
                     (if slice_matches v offset bound then (index + 1, offset + length bound, bindings) # pending
                      else pending) rows
               | None \<Rightarrow>
                  (case str_get v offset (length v) of
                     None \<Rightarrow> inverse_loop checkpoint fragments v b' pending rows
                   | Some tail \<Rightarrow>
                      (case push_splits checkpoint (to_ascii_lowercase name) tail index offset bindings
                              (tail_ends tail) b' pending of
                         Inl e \<Rightarrow> Inl e
                       | Inr (pending', b'') \<Rightarrow> inverse_loop checkpoint fragments v b'' pending' rows)))))"
  by pat_completeness auto
termination
proof (relation "measure (\<lambda>(_, _, _, b, _, _). sb_remaining b)", goal_cases)
  case 1
  show ?case by simp
qed (auto simp: search_step_def Let_def dest!: push_splits_remaining split: option.splits if_splits)

definition inverse_of ::
  "'e checkpoint \<Rightarrow> template_fragment list \<Rightarrow> string \<Rightarrow> search_budget \<Rightarrow> 'e + witness list \<times> search_budget" where
  "inverse_of checkpoint fragments v b =
    (case fragment_names fragments of
       [name] \<Rightarrow>
         (case search_step checkpoint b of
            Inl e \<Rightarrow> Inl e
          | Inr (False, b') \<Rightarrow> Inr ([], b')
          | Inr (True, b') \<Rightarrow> Inr (inverse_single fragments name v, b'))
     | _ \<Rightarrow> inverse_loop checkpoint fragments v b [(0, 0, [])] [])"

subsection \<open>Join\<close>

definition compatible :: "witness \<Rightarrow> witness \<Rightarrow> bool" where
  "compatible a b \<longleftrightarrow> list_all (\<lambda>(name, v).
     case map_of b name of None \<Rightarrow> True | Some other \<Rightarrow> eq_ignore_ascii_case other v) a"

text \<open>The inner loop; the flag tells that the budget ran out, which leaves both loops.\<close>

fun join_row ::
  "'e checkpoint \<Rightarrow> witness \<Rightarrow> witness list \<Rightarrow> search_budget \<Rightarrow> witness list \<Rightarrow> 'e + bool \<times> witness list \<times> search_budget" where
  "join_row checkpoint a [] b joined = Inr (True, joined, b)"
| "join_row checkpoint a (r # right) b joined =
    (case search_step checkpoint b of
       Inl e \<Rightarrow> Inl e
     | Inr (False, b') \<Rightarrow> Inr (False, joined, b')
     | Inr (True, b') \<Rightarrow>
        join_row checkpoint a right b' (if compatible a r then insort_insert (btree_extend a r) joined else joined))"

fun join_loop ::
  "'e checkpoint \<Rightarrow> witness list \<Rightarrow> witness list \<Rightarrow> search_budget \<Rightarrow> witness list \<Rightarrow> 'e + witness list \<times> search_budget" where
  "join_loop checkpoint [] right b joined = Inr (joined, b)"
| "join_loop checkpoint (a # left) right b joined =
    (case join_row checkpoint a right b joined of
       Inl e \<Rightarrow> Inl e
     | Inr (False, joined', b') \<Rightarrow> Inr (joined', b')
     | Inr (True, joined', b') \<Rightarrow> join_loop checkpoint left right b' joined')"

definition join :: "'e checkpoint \<Rightarrow> witness list \<Rightarrow> witness list \<Rightarrow> search_budget \<Rightarrow> 'e + witness list \<times> search_budget" where
  "join checkpoint left right b = join_loop checkpoint left right b []"

subsection \<open>ASCII case and character boundaries\<close>

definition lower_byte :: "nat \<Rightarrow> nat" where
  "lower_byte b = (if 65 \<le> b \<and> b \<le> 90 then b + 32 else b)"

lemma byte_of_ascii_lower: "byte_of (ascii_lower c) = lower_byte (byte_of c)"
  by (auto simp: ascii_lower_def lower_byte_def is_ascii_upper_def byte_of_def of_char_of)

lemma lower_byte_facts:
  "is_cont (lower_byte b) = is_cont b" "lower_byte b < 128 \<longleftrightarrow> b < 128" "128 \<le> b \<Longrightarrow> lower_byte b = b"
  by (auto simp: lower_byte_def is_cont_def)

lemma utf8_seq_lower: "utf8_seq (map lower_byte bs) = utf8_seq bs"
proof (cases bs)
  case (Cons a cs)
  have c: "is_cont b \<Longrightarrow> lower_byte b = b" for b by (auto simp: is_cont_def lower_byte_def)
  show ?thesis
  proof (cases "a < 128")
    case False
    then show ?thesis
      by (cases cs; cases "tl cs"; cases "tl (tl cs)")
        (auto simp: Cons utf8_seq.simps lower_byte_facts(1) lower_byte_facts(3) c split: list.splits)
  qed (simp add: Cons utf8_seq.simps lower_byte_facts)
qed simp

lemma valid_utf8_bytes_lower: "valid_utf8_bytes (map lower_byte bs) = valid_utf8_bytes bs"
  by (induction bs rule: valid_utf8_bytes.induct)
    (subst (1 2) valid_utf8_bytes.simps, auto simp: utf8_seq_lower drop_map split: option.splits)

lemma valid_utf8_case: "eq_ignore_ascii_case s t \<Longrightarrow> valid_utf8 s = valid_utf8 t"
proof -
  assume "eq_ignore_ascii_case s t"
  then have "map byte_of (map ascii_lower s) = map byte_of (map ascii_lower t)"
    by (simp add: eq_ignore_ascii_case_def)
  then have "map lower_byte (map byte_of s) = map lower_byte (map byte_of t)"
    by (simp add: byte_of_ascii_lower comp_def)
  then show ?thesis unfolding valid_utf8_def using valid_utf8_bytes_lower by metis
qed

lemma valid_chars_append: "list_all is_char cs \<Longrightarrow> valid_utf8 (concat cs @ t) = valid_utf8 t"
  by (induction cs) (simp_all add: is_char_append(2))

lemma valid_utf8_prefix: "valid_utf8 s \<Longrightarrow> valid_utf8 (s @ t) = valid_utf8 t"
  using valid_chars_append [OF valid_str_chars [of s]] by simp

lemma prefix_boundary:
  assumes "valid_utf8 v" "valid_utf8 s" "eq_ignore_ascii_case s (take k v)" "k \<le> length v"
  shows "is_boundary v k"
proof -
  have "valid_utf8 (take k v)" using assms(2,3) valid_utf8_case by blast
  then have "valid_utf8 (drop k v)" using assms(1) valid_utf8_prefix [of "take k v" "drop k v"] by simp
  then have "drop k v = [] \<or> \<not> is_cont (byte_of (hd (drop k v)))"
    by (cases "drop k v") (auto simp: valid_utf8_def dest!: valid_utf8_bytes_Cons utf8_seq_head)
  then show ?thesis using assms(4) by (auto simp: is_boundary_def hd_drop_conv_nth)
qed

lemma boundary_shift: "is_boundary v a \<Longrightarrow> is_boundary (drop a v) k \<longleftrightarrow> is_boundary v (a + k)"
  using is_boundary_le [of v a] by (cases "k = 0") (auto simp: is_boundary_def)

subsection \<open>Assignments that solve a pattern\<close>

definition binding_of :: "witness \<Rightarrow> string \<Rightarrow> string" where
  "binding_of w n = (case map_of w n of Some x \<Rightarrow> x | None \<Rightarrow> [])"

definition fill :: "witness \<Rightarrow> template_fragment \<Rightarrow> string" where
  "fill w p = (case p of Literal t \<Rightarrow> t | Parameter n _ \<Rightarrow> binding_of w (to_ascii_lowercase n))"

text \<open>The string that the fragments make under an assignment.\<close>

definition instantiate :: "witness \<Rightarrow> template_fragment list \<Rightarrow> string" where
  "instantiate w fragments = concat (map (fill w) fragments)"

lemma instantiate_simps [simp]:
  "instantiate w [] = []" "instantiate w (p # ps) = fill w p @ instantiate w ps"
  "instantiate w (ps @ qs) = instantiate w ps @ instantiate w qs"
  by (simp_all add: instantiate_def)

text \<open>
  A solution binds exactly the names of the fragments, to strings, and makes the value up to ASCII
  case; two assignments are the same up to case.
\<close>

definition solution :: "template_fragment list \<Rightarrow> string \<Rightarrow> witness \<Rightarrow> bool" where
  "solution fragments v w \<longleftrightarrow> map fst w = fragment_names fragments \<and> list_all valid_utf8 (map snd w)
     \<and> eq_ignore_ascii_case (instantiate w fragments) v"

definition similar :: "witness \<Rightarrow> witness \<Rightarrow> bool" where
  "similar w r \<longleftrightarrow> map fst w = map fst r \<and> list_all2 eq_ignore_ascii_case (map snd w) (map snd r)"

definition lower_names :: "template_fragment list \<Rightarrow> string set" where
  "lower_names fragments = {to_ascii_lowercase n | n r. Parameter n r \<in> set fragments}"

lemma lower_names_simps [simp]:
  "lower_names [] = {}" "lower_names (Literal t # ps) = lower_names ps"
  "lower_names (Parameter n r # ps) = insert (to_ascii_lowercase n) (lower_names ps)"
  "lower_names (ps @ qs) = lower_names ps \<union> lower_names qs"
  by (auto simp: lower_names_def)

lemma fragment_names_set: "set (fragment_names fragments) = lower_names fragments"
proof -
  have p: "(case p of Parameter name _ \<Rightarrow> Some (to_ascii_lowercase name) | Literal _ \<Rightarrow> None) = Some n
      \<longleftrightarrow> (\<exists>m r. p = Parameter m r \<and> n = to_ascii_lowercase m)" for p n
    by (cases p) auto
  show ?thesis
    by (rule set_eqI, unfold fragment_names_def lower_names_def) (simp add: set_map_filter p, blast)
qed

lemma fragment_names_sorted: "sorted_wrt (<) (fragment_names fragments)"
  by (simp add: fragment_names_def strict_sorted_iff)

lemma strict_sorted_eq: "sorted_wrt (<) (xs :: 'a :: linorder list) \<Longrightarrow> sorted_wrt (<) ys \<Longrightarrow> set xs = set ys \<Longrightarrow> xs = ys"
  by (simp add: strict_sorted_iff sorted_distinct_set_unique)

lemma instantiate_cong:
  "(\<And>n. n \<in> lower_names ps \<Longrightarrow> binding_of w n = binding_of w' n) \<Longrightarrow> instantiate w ps = instantiate w' ps"
proof (induction ps)
  case (Cons p ps)
  then show ?case by (cases p) (auto simp: fill_def)
qed simp

lemma instantiate_similar:
  "(\<And>n. n \<in> lower_names ps \<Longrightarrow> eq_ignore_ascii_case (binding_of w n) (binding_of w' n)) \<Longrightarrow>
    eq_ignore_ascii_case (instantiate w ps) (instantiate w' ps)"
proof (induction ps)
  case (Cons p ps)
  then show ?case
    by (cases p) (auto simp: fill_def intro!: eq_ignore_ascii_case_append)
qed simp

lemma instantiate_valid:
  "(\<And>t. Literal t \<in> set ps \<Longrightarrow> valid_utf8 t) \<Longrightarrow> (\<And>n. valid_utf8 (binding_of w n)) \<Longrightarrow> valid_utf8 (instantiate w ps)"
  by (induction ps) (auto simp: fill_def intro!: valid_utf8_append split: template_fragment.splits)

subsection \<open>Maps in key order\<close>

lemma btree_insert_keys: "set (map fst (btree_insert k v w)) = insert k (set (map fst w))"
proof (induction w)
  case (Cons p w)
  then show ?case by (cases p) (simp add: insert_commute)
qed simp

lemma btree_insert_sorted: "sorted_wrt (<) (map fst w) \<Longrightarrow> sorted_wrt (<) (map fst (btree_insert k v w))"
proof (induction w)
  case (Cons p w)
  obtain k' v' where p: "p = (k', v')" by (cases p)
  have "\<forall>x \<in> set (map fst (btree_insert k v w)). k' < x" if "k' < k"
    using that Cons.prems unfolding btree_insert_keys by (auto simp: p)
  then show ?case using Cons by (auto simp: p not_less_iff_gr_or_eq)
qed simp

lemma btree_insert_map_of:
  "sorted_wrt (<) (map fst w) \<Longrightarrow> map_of (btree_insert k v w) n = (if n = k then Some v else map_of w n)"
proof (induction w)
  case (Cons p w)
  obtain k' v' where p: "p = (k', v')" by (cases p)
  have "n \<notin> fst ` set w" if "n \<le> k'" using that Cons.prems by (auto simp: p)
  then have "map_of w n = None" if "n \<le> k'" using that by (simp add: map_of_eq_None_iff)
  then show ?case using Cons by (auto simp: p)
qed simp

lemma btree_insert_values: "set (map snd (btree_insert k v w)) \<subseteq> insert v (set (map snd w))"
proof (induction w)
  case (Cons p w)
  then show ?case by (cases p) (auto split: if_splits)
qed simp

lemma binding_insert:
  "sorted_wrt (<) (map fst w) \<Longrightarrow> binding_of (btree_insert k v w) n = (if n = k then v else binding_of w n)"
  by (simp add: binding_of_def btree_insert_map_of)

lemma binding_valid: "list_all valid_utf8 (map snd w) \<Longrightarrow> valid_utf8 (binding_of w n)"
  by (auto simp: binding_of_def list_all_iff split: option.splits dest!: map_of_SomeD)

lemma keys_map_of: "n \<in> set (map fst w) \<longleftrightarrow> map_of w n \<noteq> None"
  by (simp add: map_of_eq_None_iff)

lemma similar_iff:
  assumes "map fst w = map fst r" "distinct (map fst w)"
  shows "similar w r \<longleftrightarrow> (\<forall>n \<in> set (map fst w). eq_ignore_ascii_case (binding_of w n) (binding_of r n))"
proof -
  have l: "length w = length r" using assms(1) by (metis length_map)
  have "binding_of w (fst (w ! i)) = snd (w ! i) \<and> binding_of r (fst (w ! i)) = snd (r ! i)" if i: "i < length w" for i
  proof -
    have "fst (w ! i) = fst (r ! i)" using assms(1) i l by (metis nth_map)
    moreover have "map_of w (fst (w ! i)) = Some (snd (w ! i))" using assms(2) i by (simp add: map_of_eq_Some_iff)
    moreover have "map_of r (fst (r ! i)) = Some (snd (r ! i))" using assms i l by (simp add: map_of_eq_Some_iff)
    ultimately show ?thesis by (simp add: binding_of_def)
  qed
  then have "(\<forall>i < length w. eq_ignore_ascii_case (snd (w ! i)) (snd (r ! i)))
      \<longleftrightarrow> (\<forall>i < length w. eq_ignore_ascii_case (binding_of w (fst (w ! i))) (binding_of r (fst (w ! i))))"
    by auto
  moreover have "(\<forall>n \<in> set (map fst w). eq_ignore_ascii_case (binding_of w n) (binding_of r n))
      \<longleftrightarrow> (\<forall>i < length w. eq_ignore_ascii_case (binding_of w (fst (w ! i))) (binding_of r (fst (w ! i))))"
    by (simp add: all_set_conv_all_nth)
  moreover have "similar w r \<longleftrightarrow> (\<forall>i < length w. eq_ignore_ascii_case (snd (w ! i)) (snd (r ! i)))"
    using assms(1) l by (simp add: similar_def list_all2_conv_all_nth)
  ultimately show ?thesis by simp
qed

subsection \<open>The search is sound and complete\<close>

definition exhausted :: "search_budget \<Rightarrow> bool" where
  "exhausted b \<longleftrightarrow> LimitNodes \<in> ac_limits (sb_coverage b)"

lemma search_step_cases:
  assumes "search_step checkpoint b = Inr (go, b')"
  shows "exhausted b' \<longleftrightarrow> exhausted b \<or> \<not> go"
  using assms by (auto simp: search_step_def Let_def exhausted_def split: option.splits if_splits)

lemma search_step_error: "search_step checkpoint b = Inl e \<Longrightarrow> \<exists>n. checkpoint n = Some e"
  by (auto simp: search_step_def Let_def split: option.splits if_splits)

text \<open>A task of the stack describes a prefix of the fragments that makes a prefix of the value.\<close>

definition task_ok :: "template_fragment list \<Rightarrow> string \<Rightarrow> inverse_task \<Rightarrow> bool" where
  "task_ok fragments v t = (case t of (index, offset, w) \<Rightarrow>
     index \<le> length fragments \<and> is_boundary v offset \<and> sorted_wrt (<) (map fst w)
     \<and> set (map fst w) = lower_names (take index fragments) \<and> list_all valid_utf8 (map snd w)
     \<and> eq_ignore_ascii_case (instantiate w (take index fragments)) (take offset v))"

text \<open>The prefix can grow into the solution \<open>w\<close>.\<close>

definition leads_to :: "witness \<Rightarrow> inverse_task \<Rightarrow> bool" where
  "leads_to w t = (case t of (_, _, u) \<Rightarrow> \<forall>n \<in> set (map fst u). eq_ignore_ascii_case (binding_of w n) (binding_of u n))"

lemma finished_task:
  assumes "task_ok fragments v (index, length v, w)" "length fragments \<le> index"
  shows "solution fragments v w"
  using assms fragment_names_sorted [of fragments] fragment_names_set [of fragments]
  by (auto simp: task_ok_def solution_def intro!: strict_sorted_eq)

lemma finished_similar:
  assumes "solution fragments v w" "solution fragments v u" "leads_to w (index, offset, u)"
  shows "similar w u"
proof -
  have "distinct (map fst w)" "map fst w = map fst u"
    using assms(1,2) fragment_names_sorted [of fragments] by (simp_all add: solution_def strict_sorted_iff)
  then show ?thesis using assms(3) by (subst similar_iff) (simp_all add: leads_to_def)
qed

text \<open>Where the value has to go on, for a task that leads to a solution.\<close>

lemma task_offset:
  assumes ok: "task_ok fragments v (index, offset, u)" and w: "solution fragments v w" and l: "leads_to w (index, offset, u)"
  shows "offset = length (instantiate w (take index fragments))"
    "eq_ignore_ascii_case (instantiate w (drop index fragments)) (drop offset v)"
proof -
  have "eq_ignore_ascii_case (instantiate w (take index fragments)) (instantiate u (take index fragments))"
  proof (rule instantiate_similar)
    fix n assume "n \<in> lower_names (take index fragments)"
    then have "n \<in> set (map fst u)" using ok by (simp only: task_ok_def prod.case)
    then show "eq_ignore_ascii_case (binding_of w n) (binding_of u n)" using l by (simp only: leads_to_def prod.case)
  qed
  then have e: "eq_ignore_ascii_case (instantiate w (take index fragments)) (take offset v)"
    using ok eq_ignore_ascii_case_trans by (fastforce simp: task_ok_def)
  have "offset \<le> length v" using ok by (auto simp: task_ok_def dest: is_boundary_le)
  then show o: "offset = length (instantiate w (take index fragments))"
    using eq_ignore_ascii_case_length [OF e] by simp
  have "instantiate w fragments = instantiate w (take index fragments) @ instantiate w (drop index fragments)"
    by (metis append_take_drop_id instantiate_simps(3))
  then have "map ascii_lower (instantiate w (take index fragments)) @ map ascii_lower (instantiate w (drop index fragments))
      = map ascii_lower (take offset v) @ map ascii_lower (drop offset v)"
    using w by (simp add: solution_def eq_ignore_ascii_case_def flip: map_append)
  then show "eq_ignore_ascii_case (instantiate w (drop index fragments)) (drop offset v)"
    using e by (simp add: eq_ignore_ascii_case_def)
qed

lemma instantiate_drop:
  "index < length fragments \<Longrightarrow>
    instantiate w (drop index fragments) = fill w (fragments ! index) @ instantiate w (drop (Suc index) fragments)"
  by (simp add: Cons_nth_drop_Suc [symmetric] del: Cons_nth_drop_Suc)

lemma instantiate_take:
  "index < length fragments \<Longrightarrow>
    instantiate w (take (Suc index) fragments) = instantiate w (take index fragments) @ fill w (fragments ! index)"
  by (simp add: take_Suc_conv_app_nth)

text \<open>The piece of the value that a solution puts under the fragment at \<open>index\<close>.\<close>

lemma solution_piece:
  assumes ok: "task_ok fragments v (index, offset, u)" and w: "solution fragments v w"
    and l: "leads_to w (index, offset, u)" and i: "index < length fragments"
    and v: "valid_utf8 v" and lits: "\<And>t. Literal t \<in> set fragments \<Longrightarrow> valid_utf8 t"
  defines "k \<equiv> length (fill w (fragments ! index))"
  shows "eq_ignore_ascii_case (fill w (fragments ! index)) (take k (drop offset v))" "offset + k \<le> length v"
    "is_boundary v (offset + k)" "is_boundary (drop offset v) k"
    "str_get v offset (offset + k) = Some (take k (drop offset v))"
proof -
  have b: "is_boundary v offset" using ok by (simp add: task_ok_def)
  have e: "eq_ignore_ascii_case (fill w (fragments ! index) @ instantiate w (drop (Suc index) fragments)) (drop offset v)"
    using task_offset(2) [OF ok w l] instantiate_drop [OF i] by simp
  then have "map ascii_lower (fill w (fragments ! index)) = take k (map ascii_lower (drop offset v))"
    unfolding eq_ignore_ascii_case_def k_def by (metis append_eq_conv_conj length_map map_append)
  then show p: "eq_ignore_ascii_case (fill w (fragments ! index)) (take k (drop offset v))"
    by (simp add: eq_ignore_ascii_case_def take_map)
  have len: "k \<le> length (drop offset v)" using eq_ignore_ascii_case_length [OF e] by (simp add: k_def)
  have "valid_utf8 (fill w (fragments ! index))"
    using lits [of "case fragments ! index of Literal t \<Rightarrow> t | _ \<Rightarrow> []"] nth_mem [OF i] w
    by (cases "fragments ! index") (auto simp: fill_def solution_def intro: binding_valid)
  then show db: "is_boundary (drop offset v) k"
    using prefix_boundary [OF valid_utf8_drop [OF v b] _ p len] by simp
  then show ob: "is_boundary v (offset + k)" by (simp add: boundary_shift [OF b])
  show "offset + k \<le> length v" using is_boundary_le [OF ob] .
  show "str_get v offset (offset + k) = Some (take k (drop offset v))" using b ob by (simp add: str_get_def)
qed

lemma str_get_boundary: "str_get v a b = Some t \<Longrightarrow> is_boundary v a \<and> is_boundary v b \<and> take b v = take a v @ t"
  by (auto simp: str_get_Some simp flip: take_add)

lemma lower_names_take:
  "index < length fragments \<Longrightarrow> lower_names (take (Suc index) fragments) =
    lower_names (take index fragments) \<union> lower_names [fragments ! index]"
  by (simp add: take_Suc_conv_app_nth)

lemma extend_same:
  assumes ok: "task_ok fragments v (index, offset, u)" and i: "index < length fragments"
    and f: "fill u (fragments ! index) = t" and n: "lower_names [fragments ! index] \<subseteq> set (map fst u)"
    and m: "slice_matches v offset t"
  shows "task_ok fragments v (Suc index, offset + length t, u)"
proof -
  obtain head where h: "str_get v offset (offset + length t) = Some head" "eq_ignore_ascii_case head t"
    using m by (auto simp: slice_matches_def split: option.splits)
  have "eq_ignore_ascii_case (instantiate u (take index fragments) @ t) (take offset v @ head)"
    using ok h(2) by (auto simp: task_ok_def intro!: eq_ignore_ascii_case_append intro: eq_ignore_ascii_case_sym [THEN iffD1])
  then show ?thesis
    using ok i f n str_get_boundary [OF h(1)]
    by (auto simp: task_ok_def instantiate_take lower_names_take simp del: set_map)
qed

lemma match_solution:
  assumes ok: "task_ok fragments v (index, offset, u)" and w: "solution fragments v w"
    and l: "leads_to w (index, offset, u)" and i: "index < length fragments"
    and v: "valid_utf8 v" and lits: "\<And>t. Literal t \<in> set fragments \<Longrightarrow> valid_utf8 t"
    and t: "eq_ignore_ascii_case (fill w (fragments ! index)) t"
  shows "slice_matches v offset t"
  using solution_piece(1,5) [OF ok w l i v lits] t eq_ignore_ascii_case_length [OF t]
  by (auto simp: slice_matches_def) (metis eq_ignore_ascii_case_sym eq_ignore_ascii_case_trans)

text \<open>A fresh parameter: every cut of the tail is a good task, and one of them leads on.\<close>

lemma extend_fresh:
  assumes ok: "task_ok fragments v (index, offset, u)" and i: "index < length fragments"
    and p: "fragments ! index = Parameter name r" and fresh: "map_of u (to_ascii_lowercase name) = None"
    and v: "valid_utf8 v" and k: "is_boundary (drop offset v) k"
  shows "task_ok fragments v (Suc index, offset + k, btree_insert (to_ascii_lowercase name) (take k (drop offset v)) u)"
proof -
  let ?n = "to_ascii_lowercase name" and ?x = "take k (drop offset v)"
  define u' where "u' = btree_insert ?n ?x u"
  have b: "is_boundary v offset" and sorted: "sorted_wrt (<) (map fst u)"
    and names: "set (map fst u) = lower_names (take index fragments)"
    using ok by (simp_all add: task_ok_def del: set_map)
  have "?n \<notin> lower_names (take index fragments)"
    using fresh unfolding names [symmetric] keys_map_of by simp
  then have "instantiate u' (take index fragments) = instantiate u (take index fragments)"
    using binding_insert [OF sorted] by (intro instantiate_cong) (auto simp: u'_def)
  moreover have "fill u' (fragments ! index) = ?x"
    using binding_insert [OF sorted] by (simp add: p fill_def u'_def)
  moreover have "eq_ignore_ascii_case (instantiate u (take index fragments) @ ?x) (take (offset + k) v)"
    using ok by (auto simp: task_ok_def take_add intro!: eq_ignore_ascii_case_append)
  moreover have "is_boundary v (offset + k)" using k by (simp add: boundary_shift [OF b])
  moreover have "valid_utf8 ?x" by (rule valid_utf8_take [OF valid_utf8_drop [OF v b] k])
  then have "list_all valid_utf8 (map snd u')"
    using btree_insert_values [of ?n ?x u] ok unfolding u'_def task_ok_def list_all_iff by (auto simp del: set_map)
  moreover have "sorted_wrt (<) (map fst u')" "set (map fst u') = lower_names (take (Suc index) fragments)"
    using sorted names by (simp_all add: u'_def btree_insert_sorted btree_insert_keys lower_names_take i p del: set_map)
  ultimately show ?thesis using i unfolding task_ok_def u'_def [symmetric] by (simp add: instantiate_take)
qed

lemma tail_ends_set: "set (tail_ends tail) = {k. is_boundary tail k}"
  by (auto simp: tail_ends_def is_boundary_le dest: is_boundary_le)

lemma fresh_leads:
  assumes ok: "task_ok fragments v (index, offset, u)" and w: "solution fragments v w"
    and l: "leads_to w (index, offset, u)" and i: "index < length fragments"
    and p: "fragments ! index = Parameter name r"
    and v: "valid_utf8 v" and lits: "\<And>t. Literal t \<in> set fragments \<Longrightarrow> valid_utf8 t"
  shows "\<exists>k \<in> set (tail_ends (drop offset v)).
    leads_to w (Suc index, offset + k, btree_insert (to_ascii_lowercase name) (take k (drop offset v)) u)"
proof -
  let ?n = "to_ascii_lowercase name"
  define k where "k = length (fill w (fragments ! index))"
  have sorted: "sorted_wrt (<) (map fst u)" using ok by (simp add: task_ok_def)
  have x: "eq_ignore_ascii_case (binding_of w ?n) (take k (drop offset v))" "is_boundary (drop offset v) k"
    using solution_piece(1,4) [OF ok w l i v lits] by (simp_all add: k_def p fill_def)
  have "leads_to w (Suc index, offset + k, btree_insert ?n (take k (drop offset v)) u)"
    using l x(1) by (auto simp: leads_to_def btree_insert_keys binding_insert [OF sorted] simp del: set_map)
  then show ?thesis using x(2) by (auto simp: tail_ends_set)
qed

lemma push_splits_ok:
  "push_splits checkpoint name tail index offset bindings stops b pending = Inr (pending', b') \<Longrightarrow>
    set pending \<subseteq> set pending' \<and> (exhausted b \<longrightarrow> exhausted b')
    \<and> set pending' \<subseteq> set pending \<union> {(index + 1, offset + k, btree_insert name (take k tail) bindings) | k. k \<in> set stops}
    \<and> (\<not> exhausted b' \<longrightarrow> (\<forall>k \<in> set stops. (index + 1, offset + k, btree_insert name (take k tail) bindings) \<in> set pending'))"
proof (induction stops arbitrary: b pending)
  case (Cons stop stops)
  from Cons.prems obtain go b1 where s: "search_step checkpoint b = Inr (go, b1)"
    by (auto split: sum.splits bool.splits)
  show ?case
  proof (cases go)
    case True
    then have "push_splits checkpoint name tail index offset bindings stops b1
        ((index + 1, offset + stop, btree_insert name (take stop tail) bindings) # pending) = Inr (pending', b')"
      using Cons.prems s by simp
    from Cons.IH [OF this] show ?thesis using search_step_cases [OF s] True by auto
  next
    case False
    then show ?thesis using Cons.prems s search_step_cases [OF s] by auto
  qed
qed simp

lemma push_splits_error:
  "push_splits checkpoint name tail index offset bindings stops b pending = Inl e \<Longrightarrow> \<exists>n. checkpoint n = Some e"
  by (induction stops arbitrary: b pending) (auto split: sum.splits bool.splits dest: search_step_error)

definition good_outcome ::
  "'e checkpoint \<Rightarrow> template_fragment list \<Rightarrow> string \<Rightarrow> search_budget \<Rightarrow> inverse_task list \<Rightarrow> witness list
    \<Rightarrow> 'e + witness list \<times> search_budget \<Rightarrow> bool" where
  "good_outcome checkpoint fragments v b pending rows res =
    (case res of
       Inl e \<Rightarrow> \<exists>n. checkpoint n = Some e
     | Inr (rows', b') \<Rightarrow> set rows \<subseteq> set rows' \<and> (\<forall>r \<in> set rows'. solution fragments v r)
         \<and> (exhausted b \<longrightarrow> exhausted b')
         \<and> (\<not> exhausted b' \<longrightarrow> (\<forall>w. solution fragments v w \<and> (\<exists>t \<in> set pending. leads_to w t)
              \<longrightarrow> (\<exists>r \<in> set rows'. similar w r))))"

lemma good_step:
  assumes "good_outcome checkpoint fragments v b2 p2 rows2 res" "set rows1 \<subseteq> set rows2" "exhausted b1 \<longrightarrow> exhausted b2"
    and "\<And>w t. \<not> exhausted b2 \<Longrightarrow> solution fragments v w \<Longrightarrow> t \<in> set p1 \<Longrightarrow> leads_to w t \<Longrightarrow>
      (\<exists>t \<in> set p2. leads_to w t) \<or> (\<exists>r \<in> set rows2. similar w r)"
  shows "good_outcome checkpoint fragments v b1 p1 rows1 res"
  using assms unfolding good_outcome_def by (fastforce split: sum.splits)

lemma inverse_loop_ok:
  assumes v: "valid_utf8 v" and lits: "\<And>t. Literal t \<in> set fragments \<Longrightarrow> valid_utf8 t"
  shows "\<lbrakk>\<forall>t \<in> set pending. task_ok fragments v t; \<forall>r \<in> set rows. solution fragments v r\<rbrakk> \<Longrightarrow>
    good_outcome checkpoint fragments v b pending rows (inverse_loop checkpoint fragments v b pending rows)"
  using v lits
proof (induction checkpoint fragments v b pending rows rule: inverse_loop.induct)
  case (1 checkpoint fragments v b rows)
  then show ?case by (simp add: good_outcome_def)
next
  case (2 checkpoint fragments v b index offset bindings pending rows)
  note v = "2.prems"(3) and lits = "2.prems"(4)
  have ok: "task_ok fragments v (index, offset, bindings)" and oks: "\<forall>t \<in> set pending. task_ok fragments v t"
    and sols: "\<forall>r \<in> set rows. solution fragments v r" using "2.prems"(1,2) by simp_all
  show ?case
  proof (cases "search_step checkpoint b")
    case (Inl e)
    then show ?thesis using search_step_error [OF Inl] by (simp add: good_outcome_def)
  next
    case (Inr s)
    obtain go b1 where s: "search_step checkpoint b = Inr (go, b1)" using Inr by (cases s) simp
    note step = search_step_cases [OF s]
    show ?thesis
    proof (cases go)
      case False
      then show ?thesis using s step sols by (simp add: good_outcome_def)
    next
      case go: True
      then have "\<not> \<not> go" by simp
      note IH = "2.IH" [OF s refl this]
      show ?thesis
      proof (cases "vec_get fragments index")
        case None
        define rows2 where "rows2 = (if offset = length v then insort_insert bindings rows else rows)"
        have sol: "solution fragments v bindings" if "offset = length v"
          using finished_task [of fragments v index bindings] ok that None by simp
        then have "\<forall>r \<in> set rows2. solution fragments v r"
          using sols by (auto simp: rows2_def set_insort_insert)
        then have "good_outcome checkpoint fragments v b1 pending rows2 (inverse_loop checkpoint fragments v b1 pending rows2)"
          using IH(1) [OF None oks _ v lits] by (simp add: rows2_def)
        then have "good_outcome checkpoint fragments v b ((index, offset, bindings) # pending) rows
            (inverse_loop checkpoint fragments v b1 pending rows2)"
        proof (rule good_step)
          fix w t
          assume w: "solution fragments v w" and t: "t \<in> set ((index, offset, bindings) # pending)" "leads_to w t"
          show "(\<exists>t \<in> set pending. leads_to w t) \<or> (\<exists>r \<in> set rows2. similar w r)"
          proof (cases "t \<in> set pending")
            case False
            then have l: "leads_to w (index, offset, bindings)" using t by simp
            have "offset = length v"
              using task_offset(2) [OF ok w l] None ok
              by (auto simp: task_ok_def eq_ignore_ascii_case_def dest: is_boundary_le)
            then show ?thesis
              using finished_similar [OF w sol l] by (auto simp: rows2_def set_insort_insert)
          qed (use t in blast)
        qed (use step in \<open>auto simp: rows2_def set_insort_insert\<close>)
        then show ?thesis by (simp add: s go None rows2_def)
      next
        case (Some part)
        then have i: "index < length fragments" and part: "fragments ! index = part" by simp_all
        show ?thesis
        proof (cases part)
          case (Literal t)
          define p2 where "p2 = (if slice_matches v offset t then (index + 1, offset + length t, bindings) # pending else pending)"
          have "\<forall>t \<in> set p2. task_ok fragments v t"
            using extend_same [OF ok i, of t] part Literal oks by (auto simp: p2_def fill_def)
          then have "good_outcome checkpoint fragments v b1 p2 rows (inverse_loop checkpoint fragments v b1 p2 rows)"
            using IH(2) [OF Some Literal _ sols v lits] by (simp add: p2_def)
          then have "good_outcome checkpoint fragments v b ((index, offset, bindings) # pending) rows
              (inverse_loop checkpoint fragments v b1 p2 rows)"
            by (rule good_step)
              (use step match_solution [OF ok _ _ i v lits] in \<open>auto simp: p2_def part Literal fill_def leads_to_def\<close>)
          then show ?thesis by (simp add: s go Some Literal p2_def)
        next
          case (Parameter name r)
          let ?n = "to_ascii_lowercase name"
          show ?thesis
          proof (cases "map_of bindings ?n")
            case bound: (Some x)
            define p2 where "p2 = (if slice_matches v offset x then (index + 1, offset + length x, bindings) # pending else pending)"
            have n: "?n \<in> set (map fst bindings)" using bound unfolding keys_map_of by simp
            have x: "binding_of bindings ?n = x" by (simp add: binding_of_def bound)
            have "\<forall>t \<in> set p2. task_ok fragments v t"
              using extend_same [OF ok i, of x] part Parameter oks n x by (auto simp: p2_def fill_def simp del: set_map)
            then have "good_outcome checkpoint fragments v b1 p2 rows (inverse_loop checkpoint fragments v b1 p2 rows)"
              using IH(5) [OF Some Parameter bound _ sols v lits] by (simp add: p2_def)
            then have "good_outcome checkpoint fragments v b ((index, offset, bindings) # pending) rows
                (inverse_loop checkpoint fragments v b1 p2 rows)"
            proof (rule good_step)
              fix w t
              assume w: "solution fragments v w" and t: "t \<in> set ((index, offset, bindings) # pending)" "leads_to w t"
              show "(\<exists>t \<in> set p2. leads_to w t) \<or> (\<exists>r \<in> set rows. similar w r)"
              proof (cases "t \<in> set pending")
                case False
                then have l: "leads_to w (index, offset, bindings)" using t by simp
                then have "eq_ignore_ascii_case (binding_of w ?n) x" using n x by (auto simp: leads_to_def simp del: set_map)
                then have "slice_matches v offset x"
                  using match_solution [OF ok w l i v lits] by (simp add: part Parameter fill_def)
                then show ?thesis using l by (auto simp: p2_def leads_to_def)
              qed (use t in \<open>auto simp: p2_def\<close>)
            qed (use step in auto)
            then show ?thesis by (simp add: s go Some Parameter bound p2_def)
          next
            case fresh: None
            have tail: "str_get v offset (length v) = Some (drop offset v)"
              using ok is_boundary_le by (fastforce simp: task_ok_def str_get_Some)
            show ?thesis
            proof (cases "push_splits checkpoint ?n (drop offset v) index offset bindings (tail_ends (drop offset v)) b1 pending")
              case (Inl e)
              then show ?thesis
                using push_splits_error [OF Inl] by (simp add: s go Some Parameter fresh tail good_outcome_def)
            next
              case (Inr q)
              obtain p2 b2 where q: "push_splits checkpoint ?n (drop offset v) index offset bindings
                  (tail_ends (drop offset v)) b1 pending = Inr (p2, b2)" using Inr by (cases q) simp
              note pushed = push_splits_ok [OF q]
              have "\<forall>t \<in> set p2. task_ok fragments v t"
                using pushed oks extend_fresh [OF ok i part [unfolded Parameter] fresh v]
                by (auto simp: tail_ends_set)
              then have "good_outcome checkpoint fragments v b2 p2 rows (inverse_loop checkpoint fragments v b2 p2 rows)"
                using IH(4) [OF Some Parameter fresh tail q refl _ sols v lits] by simp
              then have "good_outcome checkpoint fragments v b ((index, offset, bindings) # pending) rows
                  (inverse_loop checkpoint fragments v b2 p2 rows)"
              proof (rule good_step)
                fix w t
                assume nx: "\<not> exhausted b2" and w: "solution fragments v w"
                  and t: "t \<in> set ((index, offset, bindings) # pending)" "leads_to w t"
                show "(\<exists>t \<in> set p2. leads_to w t) \<or> (\<exists>r \<in> set rows. similar w r)"
                proof (cases "t \<in> set pending")
                  case False
                  then have l: "leads_to w (index, offset, bindings)" using t by simp
                  then show ?thesis
                    using fresh_leads [OF ok w l i part [unfolded Parameter] v lits] pushed nx by fastforce
                qed (use t pushed in blast)
              qed (use step pushed in auto)
              then show ?thesis by (simp add: s go Some Parameter fresh tail q)
            qed
          qed
        qed
      qed
    qed
  qed
qed

declare inverse_loop.simps(2) [simp del]

subsection \<open>The case of one unknown\<close>

definition part_width :: "nat \<Rightarrow> template_fragment \<Rightarrow> nat" where
  "part_width width p = (case p of Literal t \<Rightarrow> length t | Parameter _ _ \<Rightarrow> width)"

lemma part_widths: "sum_list (map (part_width width) ps) = literal_bytes ps + parameter_count ps * width"
proof (induction ps)
  case (Cons p ps)
  then show ?case by (cases p) (simp_all add: part_width_def literal_bytes_def parameter_count_def)
qed (simp add: literal_bytes_def parameter_count_def)

lemma instantiate_width:
  "lower_names ps \<subseteq> {name} \<Longrightarrow> length (instantiate [(name, x)] ps) = literal_bytes ps + parameter_count ps * length x"
proof (induction ps)
  case (Cons p ps)
  then show ?case
    by (cases p) (simp_all add: fill_def binding_of_def literal_bytes_def parameter_count_def)
qed (simp add: literal_bytes_def parameter_count_def)

lemma single_loop_sound:
  "\<lbrakk>single_loop v width offset bound parts = Some bound'; is_boundary v offset; valid_utf8 v; lower_names parts \<subseteq> {name}\<rbrakk>
   \<Longrightarrow> is_boundary v (offset + sum_list (map (part_width width) parts))
     \<and> (\<forall>b. bound = Some b \<longrightarrow> bound' = Some b) \<and> (lower_names parts \<noteq> {} \<longrightarrow> bound' \<noteq> None)
     \<and> (\<forall>x. bound' = Some x \<longrightarrow> (bound = None \<longrightarrow> valid_utf8 x)
          \<and> eq_ignore_ascii_case (instantiate [(name, x)] parts) (take (sum_list (map (part_width width) parts)) (drop offset v)))"
proof (induction parts arbitrary: offset bound)
  case Nil
  then show ?case by (auto)
next
  case (Cons p parts)
  define len where "len = part_width width p"
  define bound1 where "bound1 piece = (case p of Literal t \<Rightarrow> bound
     | Parameter _ _ \<Rightarrow> (case bound of Some b \<Rightarrow> Some b | None \<Rightarrow> Some piece))" for piece
  define expected where "expected piece = (case p of Literal t \<Rightarrow> t
     | Parameter _ _ \<Rightarrow> (case bound of Some b \<Rightarrow> b | None \<Rightarrow> piece))" for piece
  obtain piece where piece: "str_get v offset (offset + len) = Some piece"
    "eq_ignore_ascii_case piece (expected piece)" "single_loop v width (offset + len) (bound1 piece) parts = Some bound'"
    using Cons.prems(1)
    unfolding single_loop.simps Let_def part_width_def [symmetric] len_def [symmetric] bound1_def [symmetric] expected_def [symmetric]
    by (auto split: option.splits if_splits)
  have b: "is_boundary v (offset + len)" and cut: "piece = take len (drop offset v)"
    using piece(1) by (simp_all add: str_get_Some)
  have sub: "lower_names parts \<subseteq> {name}" using Cons.prems(4) by (cases p) auto
  note IH = Cons.IH [OF piece(3) b Cons.prems(3) sub]
  let ?rest = "sum_list (map (part_width width) parts)"
  have whole: "take (len + ?rest) (drop offset v) = piece @ take ?rest (drop (offset + len) v)"
    by (simp add: cut take_add add.commute)
  have valid: "valid_utf8 piece"
    using valid_utf8_take [OF valid_utf8_drop [OF Cons.prems(3,2)], of len] b
    by (simp add: cut boundary_shift [OF Cons.prems(2)])
  have "eq_ignore_ascii_case (instantiate [(name, x)] (p # parts)) (take (len + ?rest) (drop offset v))
      \<and> (bound = None \<longrightarrow> valid_utf8 x)" if x: "bound' = Some x" for x
  proof (cases p)
    case (Literal t)
    then show ?thesis
      using IH x piece(2) unfolding whole
      by (auto simp: fill_def bound1_def expected_def intro!: eq_ignore_ascii_case_append
          intro: eq_ignore_ascii_case_sym [THEN iffD1])
  next
    case (Parameter n r)
    then have n: "fill [(name, x)] p = x" using Cons.prems(4) by (simp add: fill_def binding_of_def)
    have "bound1 piece = Some (expected piece)" using Parameter by (auto simp: bound1_def expected_def split: option.splits)
    then have "x = expected piece" using IH x by simp
    then have "eq_ignore_ascii_case x piece" using piece(2) by (simp add: eq_ignore_ascii_case_sym)
    moreover have "valid_utf8 x" if "bound = None"
      using that \<open>x = expected piece\<close> valid Parameter by (simp add: expected_def)
    ultimately show ?thesis using IH x n unfolding whole by (auto intro!: eq_ignore_ascii_case_append)
  qed
  moreover have "\<forall>b. bound = Some b \<longrightarrow> bound' = Some b" using IH by (cases p) (auto simp: bound1_def)
  moreover have "bound' \<noteq> None" if "lower_names (p # parts) \<noteq> {}"
    using IH that by (cases p) (auto simp: bound1_def split: option.splits)
  moreover have "is_boundary v (offset + (len + ?rest))" using IH by (simp add: add.assoc)
  ultimately show ?case by (simp add: len_def)
qed

lemma single_loop_complete:
  assumes v: "valid_utf8 v" and x: "valid_utf8 x"
  shows "\<lbrakk>is_boundary v offset; lower_names parts \<subseteq> {name}; \<And>t. Literal t \<in> set parts \<Longrightarrow> valid_utf8 t;
     eq_ignore_ascii_case (instantiate [(name, x)] parts) (drop offset v);
     \<And>b. bound = Some b \<Longrightarrow> eq_ignore_ascii_case b x\<rbrakk>
   \<Longrightarrow> \<exists>bound'. single_loop v (length x) offset bound parts = Some bound' \<and> (\<forall>b. bound' = Some b \<longrightarrow> eq_ignore_ascii_case b x)"
proof (induction parts arbitrary: offset bound)
  case (Cons p parts)
  define t where "t = fill [(name, x)] p"
  have tx: "t = x" if "p = Parameter n r" for n r
    using that Cons.prems(2) by (simp add: t_def fill_def binding_of_def)
  have len: "(case p of Literal t \<Rightarrow> length t | Parameter _ _ \<Rightarrow> length x) = length t"
    using tx by (cases p) (simp_all add: t_def fill_def)
  have e: "eq_ignore_ascii_case (t @ instantiate [(name, x)] parts) (drop offset v)" using Cons.prems(4) by (simp add: t_def)
  define piece where "piece = take (length t) (drop offset v)"
  have split: "map ascii_lower t = map ascii_lower piece"
    "map ascii_lower (instantiate [(name, x)] parts) = map ascii_lower (drop (offset + length t) v)"
    using e unfolding eq_ignore_ascii_case_def piece_def
    by (metis append_eq_conv_conj length_map map_append take_map,
        metis (no_types) add.commute append_eq_conv_conj drop_drop drop_map length_map map_append)
  then have piece: "eq_ignore_ascii_case t piece" by (simp add: eq_ignore_ascii_case_def)
  have lenle: "length t \<le> length (drop offset v)" using eq_ignore_ascii_case_length [OF e] by simp
  have "valid_utf8 t" using Cons.prems(3) x tx by (cases p) (auto simp: t_def fill_def)
  then have db: "is_boundary (drop offset v) (length t)"
    using prefix_boundary [OF valid_utf8_drop [OF v Cons.prems(1)] _ piece [unfolded piece_def] lenle] by simp
  then have b: "is_boundary v (offset + length t)" by (simp add: boundary_shift [OF Cons.prems(1)])
  have get: "str_get v offset (offset + length t) = Some piece" using Cons.prems(1) b by (simp add: str_get_def piece_def)
  define bound1 where "bound1 = (case p of Literal t \<Rightarrow> bound
     | Parameter _ _ \<Rightarrow> (case bound of Some b \<Rightarrow> Some b | None \<Rightarrow> Some piece))"
  define expected where "expected = (case p of Literal t \<Rightarrow> t
     | Parameter _ _ \<Rightarrow> (case bound of Some b \<Rightarrow> b | None \<Rightarrow> piece))"
  have pt: "eq_ignore_ascii_case piece t" using piece by (simp add: eq_ignore_ascii_case_sym)
  have "eq_ignore_ascii_case t expected"
    using Cons.prems(5) tx piece
    by (cases p) (auto simp: expected_def t_def fill_def split: option.splits dest: eq_ignore_ascii_case_sym [THEN iffD1])
  then have ex: "eq_ignore_ascii_case piece expected" using pt eq_ignore_ascii_case_trans by blast
  have "\<exists>bound'. single_loop v (length x) (offset + length t) bound1 parts = Some bound' \<and> (\<forall>b. bound' = Some b \<longrightarrow> eq_ignore_ascii_case b x)"
  proof (rule Cons.IH [OF b])
    show "lower_names parts \<subseteq> {name}" using Cons.prems(2) by (cases p) auto
    show "valid_utf8 t" if "Literal t \<in> set parts" for t using Cons.prems(3) that by simp
    show "eq_ignore_ascii_case (instantiate [(name, x)] parts) (drop (offset + length t) v)"
      using split(2) by (simp add: eq_ignore_ascii_case_def)
    show "eq_ignore_ascii_case b x" if "bound1 = Some b" for b
      using that Cons.prems(5) tx pt by (cases p) (auto simp: bound1_def split: option.splits)
  qed
  then show ?case
    using get ex unfolding single_loop.simps Let_def len bound1_def expected_def by simp
qed simp

lemma inverse_single_ok:
  assumes names: "fragment_names fragments = [name]" and v: "valid_utf8 v"
    and lits: "\<And>t. Literal t \<in> set fragments \<Longrightarrow> valid_utf8 t"
  shows "(\<forall>r \<in> set (inverse_single fragments name v). solution fragments v r)
    \<and> (\<forall>w. solution fragments v w \<longrightarrow> (\<exists>r \<in> set (inverse_single fragments name v). similar w r))"
proof (intro conjI ballI allI impI)
  let ?lit = "literal_bytes fragments" and ?count = "parameter_count fragments"
  have one: "lower_names fragments = {name}" using fragment_names_set [of fragments] names by simp
  fix r assume "r \<in> set (inverse_single fragments name v)"
  then have lit: "?lit \<le> length v" "(length v - ?lit) mod ?count = 0"
    and member: "r \<in> set (case single_loop v ((length v - ?lit) div ?count) 0 None fragments of
      None \<Rightarrow> [] | Some bound \<Rightarrow> [[(name, case bound of Some b \<Rightarrow> b | None \<Rightarrow> [])]])"
    by (simp_all add: inverse_single_def Let_def split: if_splits)
  obtain bound where run: "single_loop v ((length v - ?lit) div ?count) 0 None fragments = Some bound"
    and r: "r = [(name, case bound of Some b \<Rightarrow> b | None \<Rightarrow> [])]"
    using member by (cases "single_loop v ((length v - ?lit) div ?count) 0 None fragments") auto
  have width: "?lit + ?count * ((length v - ?lit) div ?count) = length v"
    using lit mult_div_mod_eq [of ?count "length v - ?lit"] by simp
  note sound = single_loop_sound [OF run is_boundary_0 v, of name]
  obtain x where "bound = Some x" using sound one by auto
  then have "eq_ignore_ascii_case (instantiate [(name, x)] fragments) v" "valid_utf8 x"
    using sound one by (simp_all add: part_widths width)
  then show "solution fragments v r" using \<open>bound = Some x\<close> by (simp add: solution_def r names)
next
  let ?lit = "literal_bytes fragments" and ?count = "parameter_count fragments"
  have one: "lower_names fragments = {name}" using fragment_names_set [of fragments] names by simp
  fix w assume w: "solution fragments v w"
  then obtain x where x: "w = [(name, x)]" "valid_utf8 x" "eq_ignore_ascii_case (instantiate [(name, x)] fragments) v"
    using names by (auto simp: solution_def map_eq_Cons_conv)
  have len: "length v = ?lit + ?count * length x"
    using instantiate_width [of fragments name x] eq_ignore_ascii_case_length [OF x(3)] one by simp
  have "?count \<noteq> 0"
  proof -
    obtain n r where "Parameter n r \<in> set fragments" using one by (auto simp: lower_names_def)
    then have "filter (\<lambda>p. case p of Parameter _ _ \<Rightarrow> True | Literal _ \<Rightarrow> False) fragments \<noteq> []"
      by (auto simp: filter_empty_conv intro!: bexI [of _ "Parameter n r"])
    then show ?thesis by (simp add: parameter_count_def)
  qed
  moreover obtain bound where run: "single_loop v (length x) 0 None fragments = Some bound"
    "\<forall>b. bound = Some b \<longrightarrow> eq_ignore_ascii_case b x"
    using single_loop_complete [OF v x(2) is_boundary_0, of fragments name None] one lits x(3) by auto
  moreover obtain b where "bound = Some b"
    using single_loop_sound [OF run(1) is_boundary_0 v, of name] one by auto
  ultimately show "\<exists>r \<in> set (inverse_single fragments name v). similar w r"
    by (simp add: inverse_single_def len x(1) similar_def eq_ignore_ascii_case_sym)
qed

lemma inverse_of_ok:
  assumes v: "valid_utf8 v" and lits: "\<And>t. Literal t \<in> set fragments \<Longrightarrow> valid_utf8 t"
    and run: "inverse_of checkpoint fragments v b = Inr (rows, b')"
  shows "\<forall>r \<in> set rows. solution fragments v r" "exhausted b \<longrightarrow> exhausted b'"
    "\<not> exhausted b' \<Longrightarrow> solution fragments v w \<Longrightarrow> \<exists>r \<in> set rows. similar w r"
proof -
  have "(\<forall>r \<in> set rows. solution fragments v r) \<and> (exhausted b \<longrightarrow> exhausted b')
    \<and> (\<not> exhausted b' \<longrightarrow> (\<forall>w. solution fragments v w \<longrightarrow> (\<exists>r \<in> set rows. similar w r)))"
  proof (cases "\<exists>name. fragment_names fragments = [name]")
    case True
    then obtain name where name: "fragment_names fragments = [name]" by blast
    then show ?thesis
      using run inverse_single_ok [OF name v lits] search_step_cases [of checkpoint b]
      by (auto simp: inverse_of_def split: sum.splits bool.splits)
  next
    case False
    then have "inverse_loop checkpoint fragments v b [(0, 0, [])] [] = Inr (rows, b')"
      using run by (auto simp: inverse_of_def split: list.splits)
    moreover have "task_ok fragments v (0, 0, [])" by (simp add: task_ok_def)
    moreover have "leads_to w (0, 0, [])" for w by (simp add: leads_to_def)
    ultimately show ?thesis
      using inverse_loop_ok [where fragments = fragments and pending = "[(0, 0, [])]" and rows = "[]"
          and checkpoint = checkpoint and b = b, OF v lits] by (simp add: good_outcome_def)
  qed
  then show "\<forall>r \<in> set rows. solution fragments v r" "exhausted b \<longrightarrow> exhausted b'"
    "\<not> exhausted b' \<Longrightarrow> solution fragments v w \<Longrightarrow> \<exists>r \<in> set rows. similar w r" by blast+
qed

lemma inverse_of_error:
  assumes v: "valid_utf8 v" and lits: "\<And>t. Literal t \<in> set fragments \<Longrightarrow> valid_utf8 t"
    and run: "inverse_of checkpoint fragments v b = Inl e"
  shows "\<exists>n. checkpoint n = Some e"
proof (cases "\<exists>name. fragment_names fragments = [name]")
  case True
  then show ?thesis using run search_step_error [of checkpoint b e]
    by (auto simp: inverse_of_def split: sum.splits bool.splits)
next
  case False
  then have "inverse_loop checkpoint fragments v b [(0, 0, [])] [] = Inl e"
    using run by (auto simp: inverse_of_def split: list.splits)
  moreover have "task_ok fragments v (0, 0, [])" by (simp add: task_ok_def)
  ultimately show ?thesis
    using inverse_loop_ok [where fragments = fragments and pending = "[(0, 0, [])]" and rows = "[]"
          and checkpoint = checkpoint and b = b, OF v lits] by (simp add: good_outcome_def)
qed

subsection \<open>The join is the conjunction of the sites\<close>

lemma join_row_ok:
  "join_row checkpoint a right b joined = Inr (go, joined', b') \<Longrightarrow>
    set joined \<subseteq> set joined' \<and> (exhausted b \<longrightarrow> exhausted b') \<and> (\<not> go \<longrightarrow> exhausted b')
    \<and> set joined' \<subseteq> set joined \<union> {btree_extend a r | r. r \<in> set right \<and> compatible a r}
    \<and> (\<not> exhausted b' \<longrightarrow> {btree_extend a r | r. r \<in> set right \<and> compatible a r} \<subseteq> set joined')"
proof (induction right arbitrary: b joined)
  case (Cons r right)
  from Cons.prems obtain g b1 where s: "search_step checkpoint b = Inr (g, b1)"
    by (auto split: sum.splits bool.splits)
  show ?case
  proof (cases g)
    case True
    then have "join_row checkpoint a right b1 (if compatible a r then insort_insert (btree_extend a r) joined else joined)
        = Inr (go, joined', b')" using Cons.prems s by simp
    from Cons.IH [OF this] show ?thesis using search_step_cases [OF s] True by (auto simp: set_insort_insert split: if_splits)
  next
    case False
    then show ?thesis using Cons.prems s search_step_cases [OF s] by auto
  qed
qed auto

lemma join_loop_ok:
  "join_loop checkpoint left right b joined = Inr (rows, b') \<Longrightarrow>
    set joined \<subseteq> set rows \<and> (exhausted b \<longrightarrow> exhausted b')
    \<and> set rows \<subseteq> set joined \<union> {btree_extend a r | a r. a \<in> set left \<and> r \<in> set right \<and> compatible a r}
    \<and> (\<not> exhausted b' \<longrightarrow> {btree_extend a r | a r. a \<in> set left \<and> r \<in> set right \<and> compatible a r} \<subseteq> set rows)"
proof (induction left arbitrary: b joined)
  case (Cons a left)
  from Cons.prems obtain go joined1 b1 where s: "join_row checkpoint a right b joined = Inr (go, joined1, b1)"
    by (auto split: sum.splits bool.splits)
  note row = join_row_ok [OF s]
  show ?case
  proof (cases go)
    case True
    then have "join_loop checkpoint left right b1 joined1 = Inr (rows, b')" using Cons.prems s by simp
    from Cons.IH [OF this] show ?thesis using row by auto blast+
  next
    case False
    then have "joined1 = rows" "b1 = b'" using Cons.prems s by simp_all
    then show ?thesis using row False by auto blast+
  qed
qed auto

lemma btree_extend_simps [simp]:
  "btree_extend a [] = a" "btree_extend a ((k, x) # r) = btree_extend (btree_insert k x a) r"
  by (simp_all add: btree_extend_def)

lemma btree_extend_sorted: "sorted_wrt (<) (map fst a) \<Longrightarrow> sorted_wrt (<) (map fst (btree_extend a r))"
  by (induction r arbitrary: a) (auto simp: btree_insert_sorted)

lemma btree_extend_keys: "set (map fst (btree_extend a r)) = set (map fst a) \<union> set (map fst r)"
proof (induction r arbitrary: a)
  case (Cons p r)
  then show ?case
    using Cons.IH [of "btree_insert (fst p) (snd p) a"] by (cases p) (simp add: btree_insert_keys [simplified])
qed simp

lemma btree_extend_binding:
  "sorted_wrt (<) (map fst a) \<Longrightarrow> distinct (map fst r) \<Longrightarrow>
    binding_of (btree_extend a r) n = (if n \<in> set (map fst r) then binding_of r n else binding_of a n)"
proof (induction r arbitrary: a)
  case (Cons p r)
  obtain k x where p: "p = (k, x)" by (cases p)
  have "binding_of (p # r) n = (if n = k then x else binding_of r n)" by (simp add: binding_of_def p)
  moreover have "binding_of r n = []" if "n \<notin> set (map fst r)"
    using that unfolding keys_map_of by (simp add: binding_of_def)
  ultimately show ?case
    using Cons.IH [OF btree_insert_sorted [OF Cons.prems(1)], of k x] Cons.prems(2) binding_insert [OF Cons.prems(1), of k x n]
    by (auto simp: p simp del: set_map)
qed simp

lemma btree_extend_values: "set (map snd (btree_extend a r)) \<subseteq> set (map snd a) \<union> set (map snd r)"
proof (induction r arbitrary: a)
  case (Cons p r)
  then show ?case
    using Cons.IH [of "btree_insert (fst p) (snd p) a"] btree_insert_values [of "fst p" "snd p" a]
    by (cases p) (simp del: set_map, blast)
qed simp

text \<open>An assignment that solves two sites, and its part for one of them.\<close>

definition assigns :: "template_fragment list \<Rightarrow> witness \<Rightarrow> bool" where
  "assigns fragments w \<longleftrightarrow> map fst w = fragment_names fragments \<and> list_all valid_utf8 (map snd w)"

lemma solution_assigns: "solution fragments v w \<longleftrightarrow> assigns fragments w \<and> eq_ignore_ascii_case (instantiate w fragments) v"
  by (auto simp: solution_def assigns_def)

lemma assigns_facts:
  assumes "assigns fragments w"
  shows "sorted_wrt (<) (map fst w)" "distinct (map fst w)" "set (map fst w) = lower_names fragments"
  using assms fragment_names_sorted [of fragments] fragment_names_set [of fragments]
  by (simp_all add: assigns_def strict_sorted_iff)

definition part_of :: "template_fragment list \<Rightarrow> witness \<Rightarrow> witness" where
  "part_of fragments w = filter (\<lambda>(n, _). n \<in> lower_names fragments) w"

lemma map_of_part: "map_of (part_of fragments w) n = (if n \<in> lower_names fragments then map_of w n else None)"
  by (induction w) (auto simp: part_of_def)

lemma part_solution:
  assumes w: "assigns whole w" and sub: "lower_names fragments \<subseteq> lower_names whole"
    and e: "eq_ignore_ascii_case (instantiate w fragments) v"
  shows "solution fragments v (part_of fragments w)"
proof -
  have keys: "map fst (part_of fragments w) = filter (\<lambda>n. n \<in> lower_names fragments) (map fst w)"
    by (induction w) (auto simp: part_of_def)
  have "sorted_wrt (<) (map fst (part_of fragments w))"
    unfolding keys using assigns_facts(1) [OF w] by (rule sorted_wrt_filter)
  moreover have "set (map fst (part_of fragments w)) = lower_names fragments"
    unfolding keys using assigns_facts(3) [OF w] sub by (auto simp del: set_map)
  ultimately have "map fst (part_of fragments w) = fragment_names fragments"
    using fragment_names_sorted fragment_names_set by (intro strict_sorted_eq) auto
  moreover have "list_all valid_utf8 (map snd (part_of fragments w))"
    using w by (auto simp: assigns_def part_of_def list_all_iff)
  moreover have "instantiate (part_of fragments w) fragments = instantiate w fragments"
    by (rule instantiate_cong) (simp add: binding_of_def map_of_part)
  ultimately show ?thesis using e by (simp add: solution_def)
qed

lemma compatible_iff:
  assumes "distinct (map fst a)"
  shows "compatible a r \<longleftrightarrow> (\<forall>n \<in> set (map fst a) \<inter> set (map fst r). eq_ignore_ascii_case (binding_of r n) (binding_of a n))"
proof -
  have "compatible a r \<longleftrightarrow> (\<forall>(n, x) \<in> set a. n \<in> set (map fst r) \<longrightarrow> eq_ignore_ascii_case (binding_of r n) x)"
    unfolding compatible_def list_all_iff keys_map_of binding_of_def by (auto split: option.splits)
  also have "\<dots> \<longleftrightarrow> (\<forall>(n, x) \<in> set a. n \<in> set (map fst r) \<longrightarrow> eq_ignore_ascii_case (binding_of r n) (binding_of a n))"
  proof -
    have "binding_of a n = x" if "(n, x) \<in> set a" for n x
      using that assms by (simp add: binding_of_def map_of_is_SomeI)
    then show ?thesis by auto
  qed
  finally show ?thesis by (force simp del: set_map simp: set_map)
qed

lemma extended_solution:
  assumes a: "solution fs1 v1 a" and r: "solution fs2 v2 r" and c: "compatible a r"
  defines "w \<equiv> btree_extend a r"
  shows "assigns (fs1 @ fs2) w" "eq_ignore_ascii_case (instantiate w fs1) v1" "eq_ignore_ascii_case (instantiate w fs2) v2"
proof -
  note fa = assigns_facts [OF a [unfolded solution_assigns, THEN conjunct1]]
  note fr = assigns_facts [OF r [unfolded solution_assigns, THEN conjunct1]]
  have "sorted_wrt (<) (map fst w)" "set (map fst w) = lower_names (fs1 @ fs2)"
    unfolding w_def using fa fr by (simp_all add: btree_extend_sorted btree_extend_keys del: set_map)
  then have "map fst w = fragment_names (fs1 @ fs2)"
    using fragment_names_sorted fragment_names_set by (intro strict_sorted_eq) auto
  moreover have "list_all valid_utf8 (map snd w)"
    using btree_extend_values [of a r] a r unfolding w_def solution_def list_all_iff by blast
  ultimately show "assigns (fs1 @ fs2) w" by (simp add: assigns_def)
  have b: "binding_of w n = (if n \<in> set (map fst r) then binding_of r n else binding_of a n)" for n
    unfolding w_def using btree_extend_binding [OF fa(1) fr(2)] .
  have "instantiate w fs2 = instantiate r fs2" by (rule instantiate_cong) (simp add: b fr(3) del: set_map)
  then show "eq_ignore_ascii_case (instantiate w fs2) v2" using r by (simp add: solution_def)
  have "eq_ignore_ascii_case (instantiate w fs1) (instantiate a fs1)"
    using c unfolding compatible_iff [OF fa(2)] fa(3)
    by (intro instantiate_similar) (auto simp: b simp del: set_map)
  then show "eq_ignore_ascii_case (instantiate w fs1) v1"
    using a eq_ignore_ascii_case_trans by (auto simp: solution_def)
qed

lemma joined_similar:
  assumes w: "assigns (fs1 @ fs2) w" and a: "solution fs1 v1 a" "similar (part_of fs1 w) a"
    and r: "solution fs2 v2 r" "similar (part_of fs2 w) r"
    and e: "eq_ignore_ascii_case (instantiate w fs1) v1" "eq_ignore_ascii_case (instantiate w fs2) v2"
  shows "compatible a r \<and> similar w (btree_extend a r)"
proof -
  note fw = assigns_facts [OF w]
  note fa = assigns_facts [OF a(1) [unfolded solution_assigns, THEN conjunct1]]
  note fr = assigns_facts [OF r(1) [unfolded solution_assigns, THEN conjunct1]]
  have part: "eq_ignore_ascii_case (binding_of w n) (binding_of u n)"
    if u: "solution fs v u" "similar (part_of fs w) u" and n: "n \<in> lower_names fs"
      and e: "eq_ignore_ascii_case (instantiate w fs) v" "lower_names fs \<subseteq> lower_names (fs1 @ fs2)" for fs v u n
  proof -
    note p = part_solution [OF w e(2,1)]
    have "map fst (part_of fs w) = map fst u" "distinct (map fst (part_of fs w))" "n \<in> set (map fst (part_of fs w))"
      using p u(1) n assigns_facts [OF p [unfolded solution_assigns, THEN conjunct1]]
      by (simp_all add: solution_def del: set_map)
    then have "eq_ignore_ascii_case (binding_of (part_of fs w) n) (binding_of u n)" using u(2) similar_iff by blast
    then show ?thesis using n by (simp add: binding_of_def map_of_part)
  qed
  have wa: "eq_ignore_ascii_case (binding_of w n) (binding_of a n)" if "n \<in> lower_names fs1" for n
    using part [OF a that e(1)] by simp
  have wr: "eq_ignore_ascii_case (binding_of w n) (binding_of r n)" if "n \<in> lower_names fs2" for n
    using part [OF r that e(2)] by simp
  have c: "compatible a r"
    unfolding compatible_iff [OF fa(2)] fa(3) fr(3)
    using wa wr eq_ignore_ascii_case_trans eq_ignore_ascii_case_sym by (metis IntE)
  moreover have "similar w (btree_extend a r)"
  proof (subst similar_iff)
    show "map fst w = map fst (btree_extend a r)" "distinct (map fst w)"
      using w extended_solution(1) [OF a(1) r(1) c] fw(2) by (simp_all add: assigns_def)
    show "\<forall>n \<in> set (map fst w). eq_ignore_ascii_case (binding_of w n) (binding_of (btree_extend a r) n)"
      unfolding fw(3) btree_extend_binding [OF fa(1) fr(2)] fr(3) using wa wr by auto
  qed
  ultimately show ?thesis by blast
qed

subsection \<open>Properties\<close>

text \<open>
  C29. Inversion finds exactly the assignments.  On valid strings \<open>inverse\<close> ends without a panic; it
  fails only with an error of the checkpoint; every row binds exactly the parameters of the
  fragments and makes the value, up to ASCII case; and unless the work limit was recorded, every
  assignment that makes the value is, up to case, one of the rows.  The shortcut for one unknown
  obeys the same law as the search.
\<close>

theorem inverse_finds_all_assignments:
  assumes "valid_utf8 v" "\<And>t. Literal t \<in> set fragments \<Longrightarrow> valid_utf8 t"
  shows "case inverse_of checkpoint fragments v b of
      Inl e \<Rightarrow> \<exists>n. checkpoint n = Some e
    | Inr (rows, b') \<Rightarrow> list_all (solution fragments v) rows
        \<and> (exhausted b' \<or> (\<forall>w. solution fragments v w \<longrightarrow> (\<exists>r \<in> set rows. similar w r)))"
  using inverse_of_ok [OF assms] inverse_of_error [OF assms] by (fastforce simp: list_all_iff split: sum.splits)

definition two_slots :: "template_fragment list" where
  "two_slots = [Literal ''pre_'', Parameter ''P'' (text_range_empty 0), Literal ''_'', Parameter ''p'' (text_range_empty 0)]"

lemma inverse_finds_all_assignments_witness:
  "inverse_of (\<lambda>_. None :: unit option) two_slots ''PRE_a_A'' (search_budget_new 9)
     = Inr ([[(''p'', ''a'')]], (search_budget_new 9)\<lparr>sb_remaining := 8, sb_calls := 1\<rparr>)
   \<and> solution two_slots ''PRE_a_A'' [(''p'', ''a'')]"
proof -
  have run: "inverse_of (\<lambda>_. None :: unit option) two_slots ''PRE_a_A'' (search_budget_new 9)
     = Inr ([[(''p'', ''a'')]], (search_budget_new 9)\<lparr>sb_remaining := 8, sb_calls := 1\<rparr>)"
    by code_simp
  have valid: "valid_utf8 ''PRE_a_A''" "valid_utf8 ''pre_''" "valid_utf8 ''_''" by code_simp+
  then have lits: "Literal t \<in> set two_slots \<Longrightarrow> valid_utf8 t" for t by (auto simp: two_slots_def)
  show ?thesis
    using inverse_finds_all_assignments [where fragments = two_slots, OF valid(1) lits,
        where checkpoint = "\<lambda>_. None :: unit option" and b = "search_budget_new 9"] run
    by (simp add: exhausted_def search_budget_new_def coverage_default_def)
qed

definition solves_both ::
  "template_fragment list \<Rightarrow> string \<Rightarrow> template_fragment list \<Rightarrow> string \<Rightarrow> witness \<Rightarrow> bool" where
  "solves_both fs1 v1 fs2 v2 w \<longleftrightarrow> assigns (fs1 @ fs2) w
     \<and> eq_ignore_ascii_case (instantiate w fs1) v1 \<and> eq_ignore_ascii_case (instantiate w fs2) v2"

text \<open>
  C30. Two usage sites share their assignments.  Joining the inversions of two sites, on one budget,
  gives rows that bind the parameters of both and make both values; and unless the work limit was
  recorded, every assignment of these parameters that makes both values is, up to case, one of the
  rows.
\<close>

theorem join_solves_both_sites:
  assumes "valid_utf8 v1" "valid_utf8 v2" and lits: "\<And>t. Literal t \<in> set (fs1 @ fs2) \<Longrightarrow> valid_utf8 t"
    and inv: "inverse_of checkpoint fs1 v1 b = Inr (rows1, b1)" "inverse_of checkpoint fs2 v2 b1 = Inr (rows2, b2)"
    and join: "join checkpoint rows1 rows2 b2 = Inr (rows, b3)"
  shows "list_all (solves_both fs1 v1 fs2 v2) rows
    \<and> (exhausted b3 \<or> (\<forall>w. solves_both fs1 v1 fs2 v2 w \<longrightarrow> (\<exists>r \<in> set rows. similar w r)))"
proof -
  have "Literal t \<in> set fs1 \<Longrightarrow> valid_utf8 t" "Literal t \<in> set fs2 \<Longrightarrow> valid_utf8 t" for t using lits by auto
  note one = inverse_of_ok [OF assms(1) this(1) inv(1)] and two = inverse_of_ok [OF assms(2) this(2) inv(2)]
  note joined = join_loop_ok [OF join [unfolded join_def]]
  have "solves_both fs1 v1 fs2 v2 w" if member: "w \<in> set rows" for w
  proof -
    obtain a r where "w = btree_extend a r" "solution fs1 v1 a" "solution fs2 v2 r" "compatible a r"
      using member joined one(1) two(1) by fastforce
    then show ?thesis using extended_solution [of fs1 v1 a fs2 v2 r] by (simp add: solves_both_def)
  qed
  moreover have "\<exists>r \<in> set rows. similar w r" if "\<not> exhausted b3" and w: "solves_both fs1 v1 fs2 v2 w" for w
  proof -
    have nx: "\<not> exhausted b1" "\<not> exhausted b2" using that(1) joined two(2) by auto
    obtain a where a: "a \<in> set rows1" "similar (part_of fs1 w) a"
      using one(3) [OF _ nx(1)] part_solution [of "fs1 @ fs2" w fs1 v1] w by (auto simp: solves_both_def)
    obtain r where r: "r \<in> set rows2" "similar (part_of fs2 w) r"
      using two(3) [OF _ nx(2)] part_solution [of "fs1 @ fs2" w fs2 v2] w by (auto simp: solves_both_def)
    have "compatible a r \<and> similar w (btree_extend a r)"
      using joined_similar [of fs1 fs2 w v1 a v2 r] w a r one(1) two(1) by (simp add: solves_both_def)
    moreover from this have "btree_extend a r \<in> set rows" using joined that(1) a(1) r(1) by fastforce
    ultimately show ?thesis by blast
  qed
  ultimately show ?thesis by (auto simp: list_all_iff)
qed

definition site1 :: "template_fragment list" where
  "site1 = [Parameter ''p'' (text_range_empty 0), Literal ''-'', Parameter ''q'' (text_range_empty 0)]"

definition site2 :: "template_fragment list" where
  "site2 = [Parameter ''Q'' (text_range_empty 0)]"

definition two_sites :: "unit + witness list \<times> search_budget" where
  "two_sites =
    (case inverse_of (\<lambda>_. None) site1 ''a-b'' (search_budget_new 99) of Inl e \<Rightarrow> Inl e
     | Inr (rows1, b1) \<Rightarrow>
        (case inverse_of (\<lambda>_. None) site2 ''B'' b1 of Inl e \<Rightarrow> Inl e
         | Inr (rows2, b2) \<Rightarrow> join (\<lambda>_. None) rows1 rows2 b2))"

lemma join_solves_both_sites_witness:
  "map_sum id fst two_sites = Inr [[(''p'', ''a''), (''q'', ''B'')]] \<and> solves_both site1 ''a-b'' site2 ''B'' [(''p'', ''a''), (''q'', ''B'')]"
proof -
  have run: "map_sum id fst two_sites = Inr [[(''p'', ''a''), (''q'', ''B'')]]" by code_simp
  then obtain rows1 b1 rows2 b2 b3 where r: "inverse_of (\<lambda>_. None :: unit option) site1 ''a-b'' (search_budget_new 99) = Inr (rows1, b1)"
    "inverse_of (\<lambda>_. None :: unit option) site2 ''B'' b1 = Inr (rows2, b2)"
    "join (\<lambda>_. None :: unit option) rows1 rows2 b2 = Inr ([[(''p'', ''a''), (''q'', ''B'')]], b3)"
    by (auto simp: two_sites_def map_sum_def split: sum.splits)
  have valid: "valid_utf8 ''a-b''" "valid_utf8 ''B''" "valid_utf8 ''-''" by code_simp+
  then have lits: "Literal t \<in> set (site1 @ site2) \<Longrightarrow> valid_utf8 t" for t by (auto simp: site1_def site2_def)
  show ?thesis using run join_solves_both_sites [OF valid(1,2) lits r] by simp
qed

end
