(* ===== verification/Query_Cache.thy ===== *)
theory Query_Cache
  imports Prelude "HOL-Library.AList"
begin

text \<open>
  The revisioned cache of query results, \<open>crates/engine/src/query_cache.rs\<close>, and the calls by which
  the host moves it (\<open>crates/engine/src/host.rs\<close>).  The eight hash maps of \<open>CacheState\<close> are one
  function from the domain, as its \<open>map\<close> method selects them; each is the list of its entries with
  distinct keys.  Locks are held for a whole method, so methods are atomic steps.  Values are
  opaque; \<open>downcast\<close> tells whether a value has the type that the caller asks for.
\<close>

subsection \<open>The cache\<close>

datatype cache_domain =
    IndexDomain | Documents | Frontends | Definitions | SearchTexts | SearchLocalisations
  | SourceOwnership | SearchLocalisationReuse

record 'v cache_state =
  cs_index_revision :: "nat option"
  cs_documents_revision :: "nat option"
  cs_definitions_revision :: "nat option"
  cs_map :: "cache_domain \<Rightarrow> (string \<times> 'v) list"
  cs_capacity :: nat

definition with_capacity :: "nat \<Rightarrow> 'v cache_state" where
  "with_capacity capacity = \<lparr>cs_index_revision = None, cs_documents_revision = None,
     cs_definitions_revision = None, cs_map = (\<lambda>_. []), cs_capacity = capacity\<rparr>"

definition cache_new :: "'v cache_state" where
  "cache_new = with_capacity 32768"

text \<open>\<open>is_some_and(|current| revision >= current)\<close> and \<open>is_none_or(|current| revision > current)\<close>.\<close>

definition reached :: "nat option \<Rightarrow> nat \<Rightarrow> bool" where
  "reached mark revision = (case mark of None \<Rightarrow> False | Some current \<Rightarrow> current \<le> revision)"

definition advances :: "nat option \<Rightarrow> nat \<Rightarrow> bool" where
  "advances mark revision = (case mark of None \<Rightarrow> True | Some current \<Rightarrow> current < revision)"

definition stale :: "nat option \<Rightarrow> nat \<Rightarrow> bool" where
  "stale mark revision = (case mark of None \<Rightarrow> False | Some current \<Rightarrow> revision < current)"

text \<open>The maps that a reader at \<open>revision\<close> may use, in the order in which \<open>get\<close> probes them.\<close>

definition readable :: "'v cache_state \<Rightarrow> nat \<Rightarrow> cache_domain \<Rightarrow> bool" where
  "readable c revision d =
    (case d of
       SearchLocalisationReuse \<Rightarrow> True
     | Documents \<Rightarrow> cs_documents_revision c = Some revision
     | Frontends \<Rightarrow> cs_documents_revision c = Some revision
     | SearchLocalisations \<Rightarrow> cs_documents_revision c = Some revision
     | SourceOwnership \<Rightarrow> reached (cs_index_revision c) revision
     | SearchTexts \<Rightarrow> reached (cs_index_revision c) revision
     | Definitions \<Rightarrow> reached (cs_definitions_revision c) revision
     | IndexDomain \<Rightarrow> reached (cs_index_revision c) revision)"

definition probe_order :: "cache_domain list" where
  "probe_order = [SearchLocalisationReuse, Documents, Frontends, SearchLocalisations, SourceOwnership,
     SearchTexts, Definitions, IndexDomain]"

fun probe :: "'v cache_state \<Rightarrow> nat \<Rightarrow> string \<Rightarrow> cache_domain list \<Rightarrow> (cache_domain \<times> 'v) option" where
  "probe c revision key [] = None"
| "probe c revision key (d # ds) =
    (case (if readable c revision d then map_of (cs_map c d) key else None) of
       Some v \<Rightarrow> Some (d, v)
     | None \<Rightarrow> probe c revision key ds)"

definition cache_get :: "('v \<Rightarrow> bool) \<Rightarrow> 'v cache_state \<Rightarrow> nat \<Rightarrow> string \<Rightarrow> 'v option" where
  "cache_get downcast c revision key =
    (case probe c revision key probe_order of
       None \<Rightarrow> None | Some (_, v) \<Rightarrow> if downcast v then Some v else None)"

definition clear_domains :: "cache_domain set \<Rightarrow> 'v cache_state \<Rightarrow> 'v cache_state" where
  "clear_domains ds c = c\<lparr>cs_map := (\<lambda>d. if d \<in> ds then [] else cs_map c d)\<rparr>"

definition clear_documents :: "nat \<Rightarrow> 'v cache_state \<Rightarrow> 'v cache_state" where
  "clear_documents revision c =
    (clear_domains {Documents, Frontends, SearchLocalisations} c)\<lparr>cs_documents_revision := Some revision\<rparr>"

text \<open>The watermark part of \<open>insert\<close>: \<open>None\<close> where it returns without storing.\<close>

definition admit :: "nat \<Rightarrow> cache_domain \<Rightarrow> 'v cache_state \<Rightarrow> 'v cache_state option" where
  "admit revision d c =
    (case d of
       SourceOwnership \<Rightarrow>
         if stale (cs_documents_revision c) revision then None
         else Some (c\<lparr>cs_index_revision := (case cs_index_revision c of None \<Rightarrow> Some revision | Some q \<Rightarrow> Some q)\<rparr>)
     | SearchLocalisationReuse \<Rightarrow> if stale (cs_documents_revision c) revision then None else Some c
     | IndexDomain \<Rightarrow> if stale (cs_index_revision c) revision then None
         else Some (c\<lparr>cs_index_revision := (case cs_index_revision c of None \<Rightarrow> Some revision | Some q \<Rightarrow> Some q)\<rparr>)
     | SearchTexts \<Rightarrow> if stale (cs_index_revision c) revision then None
         else Some (c\<lparr>cs_index_revision := (case cs_index_revision c of None \<Rightarrow> Some revision | Some q \<Rightarrow> Some q)\<rparr>)
     | Definitions \<Rightarrow> if stale (cs_definitions_revision c) revision then None
         else Some (c\<lparr>cs_definitions_revision :=
                (case cs_definitions_revision c of None \<Rightarrow> Some revision | Some q \<Rightarrow> Some q)\<rparr>)
     | _ \<Rightarrow>
         (case cs_documents_revision c of
            None \<Rightarrow> Some (c\<lparr>cs_documents_revision := Some revision\<rparr>)
          | Some current \<Rightarrow>
             if revision < current then None
             else if current < revision then Some (clear_documents revision c)
             else Some c))"

definition domain_capacity :: "cache_domain \<Rightarrow> nat \<Rightarrow> nat" where
  "domain_capacity d capacity =
    (case d of
       Frontends \<Rightarrow> min capacity 32
     | SearchTexts \<Rightarrow> 1 | SearchLocalisations \<Rightarrow> 1 | SearchLocalisationReuse \<Rightarrow> 1 | SourceOwnership \<Rightarrow> 1
     | _ \<Rightarrow> capacity)"

definition is_memo :: "cache_domain \<Rightarrow> bool" where
  "is_memo d \<longleftrightarrow> d = SourceOwnership \<or> d = SearchLocalisationReuse"

definition store :: "cache_domain \<Rightarrow> string \<Rightarrow> 'v \<Rightarrow> 'v cache_state \<Rightarrow> 'v cache_state" where
  "store d key v c =
    (let entries = cs_map c d;
         entries = (if domain_capacity d (cs_capacity c) \<le> length entries \<and> map_of entries key = None then [] else entries);
         entries = (if is_memo d then AList.update key v entries
                    else if map_of entries key = None then AList.update key v entries else entries)
     in c\<lparr>cs_map := (cs_map c)(d := entries)\<rparr>)"

definition cache_insert :: "nat \<Rightarrow> cache_domain \<Rightarrow> string \<Rightarrow> 'v \<Rightarrow> 'v cache_state \<Rightarrow> 'v cache_state" where
  "cache_insert revision d key v c =
    (case admit revision d c of None \<Rightarrow> c | Some c' \<Rightarrow> store d key v c')"

definition advance_definitions :: "nat \<Rightarrow> 'v cache_state \<Rightarrow> 'v cache_state" where
  "advance_definitions revision c =
    (if advances (cs_definitions_revision c) revision
     then (clear_domains {Definitions} c)\<lparr>cs_definitions_revision := Some revision\<rparr> else c)"

definition advance_documents :: "nat \<Rightarrow> 'v cache_state \<Rightarrow> 'v cache_state" where
  "advance_documents revision c =
    (if advances (cs_documents_revision c) revision then clear_documents revision c else c)"

definition advance_index :: "nat \<Rightarrow> 'v cache_state \<Rightarrow> 'v cache_state" where
  "advance_index revision c =
    (if advances (cs_index_revision c) revision
     then (clear_domains {IndexDomain, SearchTexts, SourceOwnership} c)\<lparr>cs_index_revision := Some revision\<rparr> else c)"

definition advance_to :: "nat \<Rightarrow> 'v cache_state \<Rightarrow> 'v cache_state" where
  "advance_to revision c = advance_documents revision (advance_definitions revision (advance_index revision c))"

definition is_superseded :: "'v cache_state \<Rightarrow> cache_domain \<Rightarrow> nat \<Rightarrow> bool" where
  "is_superseded c d revision =
    (case d of
       IndexDomain \<Rightarrow> stale (cs_index_revision c) revision
     | SearchTexts \<Rightarrow> stale (cs_index_revision c) revision
     | Definitions \<Rightarrow> stale (cs_definitions_revision c) revision
     | _ \<Rightarrow> stale (cs_documents_revision c) revision)"

definition cache_len :: "'v cache_state \<Rightarrow> nat" where
  "cache_len c = length (cs_map c IndexDomain) + length (cs_map c Documents) + length (cs_map c Frontends)
     + length (cs_map c Definitions) + length (cs_map c SearchTexts) + length (cs_map c SearchLocalisations)
     + length (cs_map c SearchLocalisationReuse) + length (cs_map c SourceOwnership)"

definition cache_is_empty :: "'v cache_state \<Rightarrow> bool" where
  "cache_is_empty c \<longleftrightarrow> cache_len c = 0"

text \<open>The documented example: entries survive document edits and no full advance.\<close>

lemma cache_example:
  "let c = cache_insert 1 IndexDomain ''key'' (7 :: nat) (with_capacity 2); d = advance_documents 2 c
   in (cache_get (\<lambda>_. True) d 1 ''key'', cache_get (\<lambda>_. True) d 2 ''key'',
       cache_get (\<lambda>_. True) (advance_to 3 d) 3 ''key'',
       cache_get (\<lambda>_. True) (cache_insert 1 IndexDomain ''stale'' 11 (advance_to 3 d)) 3 ''stale'')
      = (Some 7, Some 7, None, None)"
  by code_simp

subsection \<open>The host and its workers\<close>

text \<open>
  Revisions of the host.  A commit to the workspace moves every lineage; an edit of a document (it is
  opened, staged, committed, changed or closed) leaves the index alone and tells the cache that the
  dynamic definitions may have changed only when the host finds a declaration in the document.  A
  revision counter at its limit no longer moves (\<open>saturating_add\<close>).
\<close>

definition revision_max :: nat where "revision_max = 2 ^ 64 - 1"

definition next_revision :: "nat \<Rightarrow> nat" where
  "next_revision revision = min (revision + 1) revision_max"

datatype lineage = IndexLine | DocumentsLine | DefinitionsLine

text \<open>The state that the entries of a domain are derived from (the comments of \<open>CacheDomain\<close>).\<close>

definition lineage_of :: "cache_domain \<Rightarrow> lineage" where
  "lineage_of d =
    (case d of
       IndexDomain \<Rightarrow> IndexLine | SearchTexts \<Rightarrow> IndexLine | SourceOwnership \<Rightarrow> IndexLine
     | Definitions \<Rightarrow> DefinitionsLine
     | _ \<Rightarrow> DocumentsLine)"

text \<open>\<open>w_declared\<close> remembers the revision of the last step that advanced the definitions.\<close>

record ('s, 'v) world =
  w_revision :: nat
  w_declared :: nat
  w_history :: "nat \<Rightarrow> lineage \<Rightarrow> 's"
  w_cache :: "'v cache_state"

definition host_advance_revision :: "(lineage \<Rightarrow> 's) \<Rightarrow> ('s, 'v) world \<Rightarrow> ('s, 'v) world" where
  "host_advance_revision s w =
    (let revision = next_revision (w_revision w)
     in \<lparr>w_revision = revision, w_declared = revision, w_history = (w_history w)(revision := s),
         w_cache = advance_to revision (w_cache w)\<rparr>)"

definition host_advance_document_revision :: "(lineage \<Rightarrow> 's) \<Rightarrow> ('s, 'v) world \<Rightarrow> ('s, 'v) world" where
  "host_advance_document_revision s w =
    (let revision = next_revision (w_revision w)
     in \<lparr>w_revision = revision, w_declared = w_declared w, w_history = (w_history w)(revision := s),
         w_cache = advance_documents revision (w_cache w)\<rparr>)"

text \<open>
  The end of \<open>open_document\<close> and of the other overlay operations; \<open>stage_open_document\<close> never advances
  the definitions, so it is the case of \<open>declares = False\<close>.
\<close>

definition host_edit_document :: "bool \<Rightarrow> (lineage \<Rightarrow> 's) \<Rightarrow> ('s, 'v) world \<Rightarrow> ('s, 'v) world" where
  "host_edit_document declares s w =
    (let w = host_advance_document_revision s w
     in if declares
        then w\<lparr>w_declared := w_revision w, w_cache := advance_definitions (w_revision w) (w_cache w)\<rparr>
        else w)"

definition worker_insert :: "nat \<Rightarrow> cache_domain \<Rightarrow> string \<Rightarrow> 'v \<Rightarrow> ('s, 'v) world \<Rightarrow> ('s, 'v) world" where
  "worker_insert revision d key v w = w\<lparr>w_cache := cache_insert revision d key v (w_cache w)\<rparr>"

text \<open>
  The steps, with \<open>compute d key s\<close> the answer that a worker computes for a key from the state of
  the lineage.  An edit may change the documents and the dynamic definitions in any way, whether or
  not the host has noticed the latter.  A worker holds the snapshot of any revision so far, and may finish late.  The two
  memo domains are validated by their callers, so any value may be stored there.
\<close>

inductive cache_step ::
  "(cache_domain \<Rightarrow> string \<Rightarrow> 's \<Rightarrow> 'v) \<Rightarrow> ('s, 'v) world \<Rightarrow> ('s, 'v) world \<Rightarrow> bool"
  for compute :: "cache_domain \<Rightarrow> string \<Rightarrow> 's \<Rightarrow> 'v" where
  commit: "w_revision w < revision_max \<Longrightarrow> cache_step compute w (host_advance_revision s w)"
| edit: "w_revision w < revision_max \<Longrightarrow> s IndexLine = w_history w (w_revision w) IndexLine \<Longrightarrow>
    cache_step compute w (host_edit_document declares s w)"
| insert: "revision \<le> w_revision w \<Longrightarrow>
    is_memo d \<or> v = compute d key (w_history w revision (lineage_of d)) \<Longrightarrow>
    cache_step compute w (worker_insert revision d key v w)"

definition world_start :: "nat \<Rightarrow> (nat \<Rightarrow> lineage \<Rightarrow> 's) \<Rightarrow> ('s, 'v) world" where
  "world_start capacity history = \<lparr>w_revision = 0, w_declared = 0, w_history = history, w_cache = with_capacity capacity\<rparr>"

definition reachable ::
  "(cache_domain \<Rightarrow> string \<Rightarrow> 's \<Rightarrow> 'v) \<Rightarrow> nat \<Rightarrow> (nat \<Rightarrow> lineage \<Rightarrow> 's) \<Rightarrow> ('s, 'v) world \<Rightarrow> bool" where
  "reachable compute capacity history w = (cache_step compute)\<^sup>*\<^sup>* (world_start capacity history) w"

subsection \<open>Freshness\<close>

definition serves :: "lineage \<Rightarrow> cache_domain \<Rightarrow> bool" where
  "serves l d \<longleftrightarrow> lineage_of d = l \<and> \<not> is_memo d"

text \<open>
  A lineage that has not changed since \<open>q\<close>; a set of maps without entries, or with the entries that
  the state \<open>s\<close> gives.
\<close>

definition unchanged :: "nat \<Rightarrow> nat \<Rightarrow> (nat \<Rightarrow> 's) \<Rightarrow> bool" where
  "unchanged q now line \<longleftrightarrow> (\<forall>r. q \<le> r \<and> r \<le> now \<longrightarrow> line r = line now)"

definition vacant :: "lineage \<Rightarrow> (cache_domain \<Rightarrow> (string \<times> 'v) list) \<Rightarrow> bool" where
  "vacant l m \<longleftrightarrow> (\<forall>d. serves l d \<longrightarrow> m d = [])"

definition fresh_entries ::
  "(cache_domain \<Rightarrow> string \<Rightarrow> 's \<Rightarrow> 'v) \<Rightarrow> lineage \<Rightarrow> 's \<Rightarrow> (cache_domain \<Rightarrow> (string \<times> 'v) list) \<Rightarrow> bool" where
  "fresh_entries compute l s m \<longleftrightarrow>
    (\<forall>d key v. serves l d \<and> map_of (m d) key = Some v \<longrightarrow> v = compute d key s)"

text \<open>
  A watermark \<open>q\<close> of the index: the lineage has not changed since \<open>q\<close>, and every
  entry is what the present state gives; without a watermark it has never changed.
\<close>

definition line_ok ::
  "(cache_domain \<Rightarrow> string \<Rightarrow> 's \<Rightarrow> 'v) \<Rightarrow> lineage \<Rightarrow> nat option \<Rightarrow> nat \<Rightarrow> (nat \<Rightarrow> 's)
    \<Rightarrow> (cache_domain \<Rightarrow> (string \<times> 'v) list) \<Rightarrow> bool" where
  "line_ok compute l mark now line m =
    (case mark of
       None \<Rightarrow> vacant l m \<and> unchanged 0 now line
     | Some q \<Rightarrow> q \<le> now \<and> unchanged q now line \<and> fresh_entries compute l (line now) m)"

definition documents_ok ::
  "(cache_domain \<Rightarrow> string \<Rightarrow> 's \<Rightarrow> 'v) \<Rightarrow> nat option \<Rightarrow> nat \<Rightarrow> (nat \<Rightarrow> 's)
    \<Rightarrow> (cache_domain \<Rightarrow> (string \<times> 'v) list) \<Rightarrow> bool" where
  "documents_ok compute mark now line m =
    (case mark of
       None \<Rightarrow> vacant DocumentsLine m
     | Some q \<Rightarrow> q \<le> now \<and> fresh_entries compute DocumentsLine (line q) m)"

text \<open>
  The entries of the definitions are answers of revisions since the last step that advanced them.
\<close>

definition since_declared :: "(cache_domain \<Rightarrow> string \<Rightarrow> 's \<Rightarrow> 'v) \<Rightarrow> nat \<Rightarrow> nat \<Rightarrow> (nat \<Rightarrow> 's) \<Rightarrow> string \<Rightarrow> 'v \<Rightarrow> bool" where
  "since_declared compute declared now line key v \<longleftrightarrow>
    (\<exists>q. declared \<le> q \<and> q \<le> now \<and> v = compute Definitions key (line q))"

definition definitions_ok ::
  "(cache_domain \<Rightarrow> string \<Rightarrow> 's \<Rightarrow> 'v) \<Rightarrow> nat \<Rightarrow> nat option \<Rightarrow> nat \<Rightarrow> (nat \<Rightarrow> 's)
    \<Rightarrow> (string \<times> 'v) list \<Rightarrow> bool" where
  "definitions_ok compute declared mark now line entries \<longleftrightarrow>
    (case mark of
       None \<Rightarrow> declared = 0 \<and> entries = []
     | Some q \<Rightarrow> declared \<le> q \<and> q \<le> now
         \<and> (\<forall>key v. map_of entries key = Some v \<longrightarrow> since_declared compute declared now line key v))"

definition world_ok :: "(cache_domain \<Rightarrow> string \<Rightarrow> 's \<Rightarrow> 'v) \<Rightarrow> ('s, 'v) world \<Rightarrow> bool" where
  "world_ok compute w \<longleftrightarrow>
     line_ok compute IndexLine (cs_index_revision (w_cache w)) (w_revision w) (\<lambda>r. w_history w r IndexLine) (cs_map (w_cache w))
     \<and> definitions_ok compute (w_declared w) (cs_definitions_revision (w_cache w)) (w_revision w)
          (\<lambda>r. w_history w r DefinitionsLine) (cs_map (w_cache w) Definitions)
     \<and> documents_ok compute (cs_documents_revision (w_cache w)) (w_revision w) (\<lambda>r. w_history w r DocumentsLine)
          (cs_map (w_cache w))"

lemma serves_simps [simp]:
  "serves IndexLine d \<longleftrightarrow> d = IndexDomain \<or> d = SearchTexts"
  "serves DefinitionsLine d \<longleftrightarrow> d = Definitions"
  "serves DocumentsLine d \<longleftrightarrow> d = Documents \<or> d = Frontends \<or> d = SearchLocalisations"
  by (cases d; simp add: serves_def lineage_of_def is_memo_def)+

text \<open>What the three predicates know of the maps.\<close>

lemma unchanged_here [simp]: "unchanged now now line"
  unfolding unchanged_def by (auto dest: le_antisym)

lemma unchanged_later: "unchanged q now line \<Longrightarrow> q \<le> r \<Longrightarrow> unchanged r now line"
  unfolding unchanged_def by (meson le_trans)

lemma unchanged_value: "unchanged q now line \<Longrightarrow> q \<le> r \<Longrightarrow> r \<le> now \<Longrightarrow> line now = line r"
  by (metis unchanged_def)

lemma unchanged_extend:
  assumes "unchanged q now line" "\<And>r. r \<le> now \<Longrightarrow> line' r = line r" "line' (now + 1) = line now"
  shows "unchanged q (now + 1) line'"
  unfolding unchanged_def
proof (intro allI impI)
  fix r assume r: "q \<le> r \<and> r \<le> now + 1"
  show "line' r = line' (now + 1)"
  proof (cases "r = now + 1")
    case False
    then have "r \<le> now" using r by simp
    then have "line' r = line r" "line r = line now" using assms(1,2) r unfolding unchanged_def by blast+
    then show ?thesis using assms(3) by simp
  qed simp
qed

lemma vacant_cong: "(\<And>d. serves l d \<Longrightarrow> m' d = m d) \<Longrightarrow> vacant l m' = vacant l m"
  by (simp add: vacant_def)

lemma fresh_cong: "(\<And>d. serves l d \<Longrightarrow> m' d = m d) \<Longrightarrow> fresh_entries compute l s m' = fresh_entries compute l s m"
  unfolding fresh_entries_def by metis

lemma vacant_fresh: "vacant l m \<Longrightarrow> fresh_entries compute l s m"
  unfolding vacant_def fresh_entries_def by (metis map_of.simps(1) option.distinct(1))

text \<open>The lineage goes on unchanged, or it is cut at the new revision.\<close>

lemma line_ok_extend:
  assumes ok: "line_ok compute l mark now line m" and m: "\<And>d. serves l d \<Longrightarrow> m' d = m d"
    and line: "\<And>r. r \<le> now \<Longrightarrow> line' r = line r" "line' (now + 1) = line now"
  shows "line_ok compute l mark (now + 1) line' m'"
proof -
  have "vacant l m' = vacant l m" using m by (rule vacant_cong)
  moreover have "fresh_entries compute l (line now) m' = fresh_entries compute l (line now) m" using m by (rule fresh_cong)
  moreover have "unchanged q now line \<Longrightarrow> unchanged q (now + 1) line'" for q using unchanged_extend line by blast
  ultimately show ?thesis using ok line(2) unfolding line_ok_def
    by (cases mark) (simp_all del: One_nat_def add.commute)
qed

lemma line_ok_cut: "vacant l m \<Longrightarrow> line_ok compute l (Some now) now line m"
  by (simp add: line_ok_def vacant_fresh)

lemma documents_ok_cut: "vacant DocumentsLine m \<Longrightarrow> documents_ok compute (Some now) now line m"
  by (simp add: documents_ok_def vacant_fresh)

lemma mark_le: "line_ok compute l mark now line m \<Longrightarrow> advances mark (now + 1)"
  by (auto simp: line_ok_def advances_def split: option.splits)

lemma since_extend:
  assumes "since_declared compute declared now line key v" "\<And>r. r \<le> now \<Longrightarrow> line' r = line r"
  shows "since_declared compute declared (now + 1) line' key v"
proof -
  obtain q where "declared \<le> q" "q \<le> now" "v = compute Definitions key (line q)"
    using assms(1) by (auto simp: since_declared_def)
  then have "declared \<le> q \<and> q \<le> now + 1 \<and> v = compute Definitions key (line' q)"
    using assms(2) by simp
  then show ?thesis unfolding since_declared_def by blast
qed

lemma definitions_ok_extend:
  assumes "definitions_ok compute declared mark now line entries" "\<And>r. r \<le> now \<Longrightarrow> line' r = line r"
  shows "definitions_ok compute declared mark (now + 1) line' entries"
proof -
  have later: "since_declared compute declared (now + 1) line' key v" if "since_declared compute declared now line key v" for key v
    using since_extend [OF that, of line'] assms(2) by blast
  show ?thesis using assms(1) later unfolding definitions_ok_def by (cases mark) (auto simp del: add.commute One_nat_def)
qed

lemma definitions_ok_cut: "definitions_ok compute now (Some now) now line []"
  by (simp add: definitions_ok_def)

lemma definitions_mark_le:
  "definitions_ok compute declared mark now line entries \<Longrightarrow> advances mark (now + 1)"
  by (auto simp: definitions_ok_def advances_def split: option.splits)

lemma documents_mark_le: "documents_ok compute mark now line m \<Longrightarrow> advances mark (now + 1)"
  by (auto simp: documents_ok_def advances_def split: option.splits)

lemma clear_domains_simps [simp]:
  "cs_map (clear_domains ds c) d = (if d \<in> ds then [] else cs_map c d)"
  "cs_index_revision (clear_domains ds c) = cs_index_revision c"
  "cs_documents_revision (clear_domains ds c) = cs_documents_revision c"
  "cs_definitions_revision (clear_domains ds c) = cs_definitions_revision c"
  "cs_capacity (clear_domains ds c) = cs_capacity c"
  by (simp_all add: clear_domains_def)

lemma commit_ok:
  assumes "world_ok compute w" "w_revision w < revision_max"
  shows "world_ok compute (host_advance_revision s w)"
proof -
  have "advances (cs_index_revision (w_cache w)) (w_revision w + 1)"
    "advances (cs_definitions_revision (w_cache w)) (w_revision w + 1)"
    "advances (cs_documents_revision (w_cache w)) (w_revision w + 1)"
    using assms(1) mark_le documents_mark_le definitions_mark_le unfolding world_ok_def by blast+
  then show ?thesis
    using assms(2)
    by (simp add: world_ok_def host_advance_revision_def Let_def next_revision_def advance_to_def advance_index_def
      advance_definitions_def advance_documents_def clear_documents_def line_ok_cut documents_ok_cut
      definitions_ok_cut vacant_def)
qed

lemma edit_ok:
  assumes ok: "world_ok compute w" and now: "w_revision w < revision_max"
    and s: "s IndexLine = w_history w (w_revision w) IndexLine"
  shows "world_ok compute (host_edit_document declares s w)"
proof -
  let ?c = "w_cache w" and ?now = "w_revision w"
  let ?hist = "(w_history w)(?now + 1 := s)"
  have n: "next_revision ?now = ?now + 1" using now by (simp add: next_revision_def)
  note ok = ok [unfolded world_ok_def]
  have adv: "advances (cs_definitions_revision ?c) (?now + 1)" "advances (cs_documents_revision ?c) (?now + 1)"
    using ok definitions_mark_le documents_mark_le by blast+
  have index: "line_ok compute IndexLine (cs_index_revision ?c) (?now + 1) (\<lambda>r. ?hist r IndexLine) m"
    if "\<And>d. serves IndexLine d \<Longrightarrow> m d = cs_map ?c d" for m
    using ok s that by (intro line_ok_extend [where line = "\<lambda>r. w_history w r IndexLine" and m = "cs_map ?c"]) auto
  have definitions: "definitions_ok compute (w_declared w) (cs_definitions_revision ?c) (?now + 1)
      (\<lambda>r. ?hist r DefinitionsLine) (cs_map ?c Definitions)"
    using ok by (intro definitions_ok_extend [where line = "\<lambda>r. w_history w r DefinitionsLine"]) auto
  define c1 where "c1 = clear_documents (?now + 1) ?c"
  have c1: "cs_index_revision c1 = cs_index_revision ?c" "cs_definitions_revision c1 = cs_definitions_revision ?c"
    "cs_documents_revision c1 = Some (?now + 1)" "vacant DocumentsLine (cs_map c1)"
    "\<And>d. serves IndexLine d \<Longrightarrow> cs_map c1 d = cs_map ?c d" "cs_map c1 Definitions = cs_map ?c Definitions"
    by (auto simp: c1_def clear_documents_def vacant_def)
  have step: "host_edit_document declares s w =
      \<lparr>w_revision = ?now + 1, w_declared = (if declares then ?now + 1 else w_declared w),
       w_history = ?hist,
       w_cache = (if declares then advance_definitions (?now + 1) c1 else c1)\<rparr>"
    using adv(2) n by (simp add: host_edit_document_def host_advance_document_revision_def advance_documents_def c1_def Let_def)
  show ?thesis
  proof (cases declares)
    case True
    define c2 where "c2 = advance_definitions (?now + 1) c1"
    have c2: "cs_index_revision c2 = cs_index_revision ?c" "cs_documents_revision c2 = Some (?now + 1)"
      "cs_definitions_revision c2 = Some (?now + 1)" "cs_map c2 Definitions = []" "vacant DocumentsLine (cs_map c2)"
      "\<And>d. serves IndexLine d \<Longrightarrow> cs_map c2 d = cs_map ?c d"
      using c1 adv(1) by (auto simp: c2_def advance_definitions_def vacant_def)
    have "host_edit_document declares s w
      = \<lparr>w_revision = ?now + 1, w_declared = ?now + 1, w_history = ?hist, w_cache = c2\<rparr>"
      unfolding step c2_def using True by simp
    then show ?thesis
      unfolding world_ok_def using c2 index [OF c2(6)] by (simp add: definitions_ok_cut documents_ok_cut)
  next
    case False
    then show ?thesis
      unfolding step world_ok_def using c1 index [OF c1(5)] definitions False
      by (simp add: documents_ok_cut)
  qed
qed

lemma store_simps [simp]:
  "cs_index_revision (store d key v c) = cs_index_revision c"
  "cs_documents_revision (store d key v c) = cs_documents_revision c"
  "cs_definitions_revision (store d key v c) = cs_definitions_revision c"
  "cs_capacity (store d key v c) = cs_capacity c"
  "d' \<noteq> d \<Longrightarrow> cs_map (store d key v c) d' = cs_map c d'"
  by (simp_all add: store_def Let_def)

lemma store_lookup:
  "map_of (cs_map (store d key v c) d) k = Some x \<Longrightarrow> k = key \<and> x = v \<or> map_of (cs_map c d) k = Some x"
  by (auto simp: store_def Let_def update_conv split: if_splits)

lemma fresh_store:
  assumes "fresh_entries compute l s (cs_map c)" "serves l d \<Longrightarrow> v = compute d key s"
  shows "fresh_entries compute l s (cs_map (store d key v c))"
  unfolding fresh_entries_def
proof (intro allI impI)
  fix d' k x assume x: "serves l d' \<and> map_of (cs_map (store d key v c) d') k = Some x"
  show "x = compute d' k s"
    using assms x store_lookup [of d key v c k x] by (cases "d' = d") (auto simp: fresh_entries_def)
qed

lemma line_ok_store:
  assumes "line_ok compute l (Some q) now line (cs_map c)" "serves l d \<Longrightarrow> v = compute d key (line now)"
  shows "line_ok compute l (Some q) now line (cs_map (store d key v c))"
  using assms fresh_store [of compute l "line now" c d v key] by (simp add: line_ok_def)

lemma definitions_ok_store:
  assumes "definitions_ok compute declared (Some q) now line (cs_map c Definitions)"
    and "d = Definitions \<Longrightarrow> since_declared compute declared now line key v"
  shows "definitions_ok compute declared (Some q) now line (cs_map (store d key v c) Definitions)"
proof (cases "d = Definitions")
  case True
  have "since_declared compute declared now line k x"
    if "map_of (cs_map (store Definitions key v c) Definitions) k = Some x" for k x
    using store_lookup [OF that] assms True by (auto simp: definitions_ok_def)
  then show ?thesis using assms(1) True by (simp add: definitions_ok_def)
qed (use assms(1) in simp)

lemma line_ok_cong:
  assumes "\<And>d. serves l d \<Longrightarrow> m' d = m d"
  shows "line_ok compute l mark now line m' = line_ok compute l mark now line m"
proof -
  have "vacant l m' = vacant l m" using assms by (rule vacant_cong)
  moreover have "fresh_entries compute l (line now) m' = fresh_entries compute l (line now) m"
    using assms by (rule fresh_cong)
  ultimately show ?thesis unfolding line_ok_def by (cases mark) (simp_all only: option.case)
qed

lemma store_other:
  assumes "\<not> serves l d"
  shows "vacant l (cs_map (store d key v c)) = vacant l (cs_map c)"
    "fresh_entries compute l s (cs_map (store d key v c)) = fresh_entries compute l s (cs_map c)"
proof -
  have m: "cs_map (store d key v c) d' = cs_map c d'" if "serves l d'" for d'
    using that assms by (intro store_simps(5)) metis
  show "vacant l (cs_map (store d key v c)) = vacant l (cs_map c)" using m by (rule vacant_cong)
  show "fresh_entries compute l s (cs_map (store d key v c)) = fresh_entries compute l s (cs_map c)"
    using m by (rule fresh_cong)
qed

lemma line_ok_other:
  assumes "\<not> serves l d"
  shows "line_ok compute l mark now line (cs_map (store d key v c)) = line_ok compute l mark now line (cs_map c)"
  unfolding line_ok_def store_other [OF assms] by (rule refl)

lemma documents_ok_other:
  assumes "\<not> serves DocumentsLine d"
  shows "documents_ok compute mark now line (cs_map (store d key v c)) = documents_ok compute mark now line (cs_map c)"
  unfolding documents_ok_def store_other [OF assms] by (rule refl)

text \<open>An admitted insert moves a watermark from nothing to its own revision, or keeps it.\<close>

lemma line_ok_start: "line_ok compute l None now line m \<Longrightarrow> r \<le> now \<Longrightarrow> line_ok compute l (Some r) now line m"
proof -
  assume "line_ok compute l None now line m" and r: "r \<le> now"
  then have ok: "vacant l m" "unchanged 0 now line" unfolding line_ok_def option.case by blast+
  have "unchanged r now line" using ok(2) le0 by (rule unchanged_later)
  with r vacant_fresh [OF ok(1)] show ?thesis unfolding line_ok_def option.case by (intro conjI)
qed

lemma line_ok_value:
  "line_ok compute l mark now line m \<Longrightarrow> \<not> stale mark r \<Longrightarrow> r \<le> now \<Longrightarrow> line now = line r"
  unfolding line_ok_def stale_def by (cases mark) (auto simp only: option.case not_less intro: unchanged_value le0)


lemma definitions_ok_start:
  "definitions_ok compute declared None now line entries \<Longrightarrow> r \<le> now \<Longrightarrow>
    definitions_ok compute declared (Some r) now line entries"
  by (simp add: definitions_ok_def)

lemma admit_index:
  assumes "line_ok compute IndexLine (cs_index_revision c) now line (cs_map c)" "r \<le> now"
  shows "line_ok compute IndexLine (case cs_index_revision c of None \<Rightarrow> Some r | Some q \<Rightarrow> Some q) now line (cs_map c)"
  using assms line_ok_start by (cases "cs_index_revision c") (simp_all del: One_nat_def)

text \<open>The watermark that an admitted insert leaves, and what it means for the value to be stored.\<close>

lemma admit_ok:
  assumes ok: "world_ok compute w" and r: "r \<le> w_revision w" and c': "admit r d (w_cache w) = Some c'"
  shows "world_ok compute (w\<lparr>w_cache := c'\<rparr>)"
proof -
  let ?now = "w_revision w" and ?c = "w_cache w"
  note ok = ok [unfolded world_ok_def]
  have documents: "documents_ok compute (Some r) ?now line m" if "vacant DocumentsLine m" for line m
    using r that unfolding documents_ok_def option.case by (blast intro: vacant_fresh)
  have start: "documents_ok compute (Some r) ?now line (cs_map ?c)"
    if "cs_documents_revision ?c = None" "documents_ok compute (cs_documents_revision ?c) ?now line (cs_map ?c)" for line
    using that documents unfolding documents_ok_def by simp
  have cleared: "line_ok compute l mark ?now line (cs_map (clear_documents r ?c)) = line_ok compute l mark ?now line (cs_map ?c)"
    if "l \<noteq> DocumentsLine" for l mark line
    using that by (intro line_ok_cong) (cases l; auto simp: clear_documents_def)
  show ?thesis
  proof (cases "is_memo d \<or> lineage_of d \<noteq> DocumentsLine")
    case True
    then show ?thesis
      using c' ok admit_index [of compute ?c ?now] line_ok_start definitions_ok_start r
      by (cases d) (auto simp: admit_def world_ok_def is_memo_def lineage_of_def split: if_splits option.splits)
  next
    case False
    then have d: "admit r d ?c = (case cs_documents_revision ?c of
        None \<Rightarrow> Some (?c\<lparr>cs_documents_revision := Some r\<rparr>)
      | Some current \<Rightarrow> if r < current then None else if current < r then Some (clear_documents r ?c) else Some ?c)"
      by (cases d) (simp_all add: is_memo_def lineage_of_def admit_def)
    have clear: "world_ok compute (w\<lparr>w_cache := clear_documents r ?c\<rparr>)"
      using ok cleared documents [where m = "cs_map (clear_documents r ?c)"]
      by (simp add: world_ok_def) (simp add: clear_documents_def vacant_def)
    show ?thesis
    proof (cases "cs_documents_revision ?c")
      case None
      then have "c' = ?c\<lparr>cs_documents_revision := Some r\<rparr>" using c' d by simp
      then show ?thesis using ok start [OF None] by (simp add: world_ok_def)
    next
      case (Some q)
      then have "c' = clear_documents r ?c \<or> c' = ?c" using c' d by (auto split: if_splits)
      then show ?thesis using clear assms(1) by auto
    qed
  qed
qed

text \<open>After the insert has been admitted, its value is the one of the watermark's lineage.\<close>

lemma store_ok:
  assumes ok: "world_ok compute w" and d: "is_memo d \<or> v = compute d key (w_history w r (lineage_of d))"
    and index: "serves IndexLine d \<Longrightarrow> \<exists>q. cs_index_revision (w_cache w) = Some q"
      "serves IndexLine d \<Longrightarrow> w_history w r IndexLine = w_history w (w_revision w) IndexLine"
    and definitions: "d = Definitions \<Longrightarrow> \<exists>q. cs_definitions_revision (w_cache w) = Some q"
      "d = Definitions \<Longrightarrow> w_declared w \<le> r \<and> r \<le> w_revision w"
    and documents: "serves DocumentsLine d \<Longrightarrow> cs_documents_revision (w_cache w) = Some r"
  shows "world_ok compute (w\<lparr>w_cache := store d key v (w_cache w)\<rparr>)"
proof -
  note ok = ok [unfolded world_ok_def]
  have v: "serves l d \<Longrightarrow> v = compute d key (w_history w r l)" for l
    using d by (auto simp: serves_def)
  have "line_ok compute IndexLine (cs_index_revision (w_cache w)) (w_revision w) (\<lambda>r. w_history w r IndexLine)
      (cs_map (store d key v (w_cache w)))"
  proof (cases "serves IndexLine d")
    case True
    then obtain q where q: "cs_index_revision (w_cache w) = Some q" using index(1) by blast
    show ?thesis unfolding q by (rule line_ok_store) (use ok q v [of IndexLine] index(2) in auto)
  next
    case False
    then show ?thesis using ok unfolding line_ok_other [OF False] by blast
  qed
  moreover have "definitions_ok compute (w_declared w) (cs_definitions_revision (w_cache w)) (w_revision w)
      (\<lambda>r. w_history w r DefinitionsLine) (cs_map (store d key v (w_cache w)) Definitions)"
  proof (cases "d = Definitions")
    case True
    then obtain q where q: "cs_definitions_revision (w_cache w) = Some q" using definitions(1) by blast
    have "v = compute Definitions key (w_history w r DefinitionsLine)"
      using v [of DefinitionsLine] True by simp
    then have "since_declared compute (w_declared w) (w_revision w) (\<lambda>r. w_history w r DefinitionsLine) key v"
      using definitions(2) [OF True] unfolding since_declared_def by blast
    then show ?thesis unfolding q by (intro definitions_ok_store) (use ok q in auto)
  next
    case False
    then show ?thesis using ok by simp
  qed
  moreover have "documents_ok compute (cs_documents_revision (w_cache w)) (w_revision w)
      (\<lambda>r. w_history w r DocumentsLine) (cs_map (store d key v (w_cache w)))"
  proof (cases "serves DocumentsLine d")
    case True
    have "fresh_entries compute DocumentsLine (w_history w r DocumentsLine) (cs_map (w_cache w))"
      using ok documents [OF True] by (simp add: documents_ok_def)
    then have "fresh_entries compute DocumentsLine (w_history w r DocumentsLine) (cs_map (store d key v (w_cache w)))"
      using v by (rule fresh_store)
    then show ?thesis using ok unfolding documents [OF True] documents_ok_def by simp
  next
    case False
    then show ?thesis using ok unfolding documents_ok_other [OF False] by blast
  qed
  ultimately show ?thesis by (simp add: world_ok_def)
qed

lemma admit_marks:
  assumes "admit r d c = Some c'"
  shows "serves IndexLine d \<Longrightarrow> \<not> stale (cs_index_revision c) r \<and> (\<exists>q. cs_index_revision c' = Some q)"
    "d = Definitions \<Longrightarrow> \<not> stale (cs_definitions_revision c) r \<and> (\<exists>q. cs_definitions_revision c' = Some q)"
    "serves DocumentsLine d \<Longrightarrow> cs_documents_revision c' = Some r"
  using assms by (auto simp: admit_def clear_documents_def split: if_splits option.splits)

lemma insert_ok:
  assumes ok: "world_ok compute w" and r: "r \<le> w_revision w"
    and v: "is_memo d \<or> v = compute d key (w_history w r (lineage_of d))"
  shows "world_ok compute (worker_insert r d key v w)"
proof (cases "admit r d (w_cache w)")
  case None
  then show ?thesis using ok by (simp add: worker_insert_def cache_insert_def)
next
  case (Some c')
  let ?w = "w\<lparr>w_cache := c'\<rparr>"
  note marks = admit_marks [OF Some]
  have same: "w_history w r l = w_history w (w_revision w) l"
    if "line_ok compute l mark (w_revision w) (\<lambda>r. w_history w r l) m" "\<not> stale mark r" for l mark m
    by (rule sym, rule line_ok_value [OF that r])
  have "world_ok compute (?w\<lparr>w_cache := store d key v (w_cache ?w)\<rparr>)"
  proof (rule store_ok)
    show "world_ok compute ?w" by (rule admit_ok) (use ok r Some in blast)+
    show "is_memo d \<or> v = compute d key (w_history ?w r (lineage_of d))" using v by simp
    show "w_history ?w r IndexLine = w_history ?w (w_revision ?w) IndexLine" if "serves IndexLine d"
      using same [where l = IndexLine] ok marks(1) [OF that] unfolding world_ok_def by simp blast
    show "w_declared ?w \<le> r \<and> r \<le> w_revision ?w" if "d = Definitions"
      using ok marks(2) [OF that] r unfolding world_ok_def definitions_ok_def stale_def
      by (cases "cs_definitions_revision (w_cache w)") auto
  qed (use marks in simp_all)
  then show ?thesis using Some by (simp add: worker_insert_def cache_insert_def)
qed

inductive_cases cache_stepE: "cache_step compute w w'"

lemma step_ok: "cache_step compute w w' \<Longrightarrow> world_ok compute w \<Longrightarrow> world_ok compute w'"
proof (induction rule: cache_step.induct)
  case commit
  then show ?case by (intro commit_ok)
next
  case edit
  then show ?case by (intro edit_ok)
next
  case insert
  then show ?case by (intro insert_ok)
qed

lemma start_ok: "world_ok compute (world_start capacity history)"
  by (simp add: world_ok_def world_start_def with_capacity_def line_ok_def documents_ok_def
      definitions_ok_def vacant_def)

lemma reachable_ok: "reachable compute capacity history w \<Longrightarrow> world_ok compute w"
  unfolding reachable_def by (induction rule: rtranclp_induct) (rule start_ok, rule step_ok)

text \<open>A reader's revision is served by the watermark that \<open>get\<close> compares it with.\<close>

lemma line_ok_read:
  assumes "line_ok compute l mark now line m" "reached mark r" "r \<le> now" "serves l d" "map_of (m d) key = Some v"
  shows "v = compute d key (line r)"
proof (cases mark)
  case None
  then show ?thesis using assms(2) by (simp add: reached_def)
next
  case (Some q)
  then have "unchanged q now line" "fresh_entries compute l (line now) m" "q \<le> r"
    using assms(1,2) by (simp_all add: line_ok_def reached_def)
  then show ?thesis using assms(3-5) unchanged_value [of q now line r] by (simp add: fresh_entries_def)
qed

lemma readable_entry_fresh:
  assumes ok: "world_ok compute w" and r: "r \<le> w_revision w" and d: "readable (w_cache w) r d"
    and v: "map_of (cs_map (w_cache w) d) key = Some v" and other: "d \<noteq> Definitions"
  shows "is_memo d \<or> v = compute d key (w_history w r (lineage_of d))"
proof (cases "is_memo d")
  case False
  have serves: "serves (lineage_of d) d" using False by (simp add: serves_def)
  note ok = ok [unfolded world_ok_def]
  show ?thesis
  proof (cases "lineage_of d")
    case IndexLine
    then have "reached (cs_index_revision (w_cache w)) r" using d False by (cases d) (auto simp: readable_def lineage_of_def is_memo_def)
    then have "v = compute d key (w_history w r IndexLine)"
      using line_ok_read [where line = "\<lambda>r. w_history w r IndexLine", OF conjunct1 [OF ok] _ r _ v] serves IndexLine by simp
    then show ?thesis using IndexLine by simp
  next
    case DefinitionsLine
    then show ?thesis using other by (cases d) (auto simp: lineage_of_def)
  next
    case DocumentsLine
    then have "cs_documents_revision (w_cache w) = Some r" using d False by (cases d) (auto simp: readable_def lineage_of_def is_memo_def)
    then show ?thesis using ok v serves unfolding DocumentsLine by (simp add: documents_ok_def fresh_entries_def)
  qed
qed simp

lemma readable_definition:
  assumes ok: "world_ok compute w" and d: "readable (w_cache w) r Definitions"
    and v: "map_of (cs_map (w_cache w) Definitions) key = Some v"
  shows "w_declared w \<le> r
    \<and> since_declared compute (w_declared w) (w_revision w) (\<lambda>q. w_history w q DefinitionsLine) key v"
proof -
  have "reached (cs_definitions_revision (w_cache w)) r" using d by (simp add: readable_def)
  then show ?thesis using ok v
    by (auto simp: world_ok_def definitions_ok_def reached_def split: option.splits)
qed

lemma probe_found:
  "probe c r key ds = Some (d, v) \<Longrightarrow> readable c r d \<and> map_of (cs_map c d) key = Some v"
  by (induction ds) (auto split: if_splits option.splits)

text \<open>
  C31. What the cache answers, whatever commits, document edits (noticed or not by the watermark of
  the definitions) and late inserts of workers came before: a reader at any revision \<open>r\<close> up to the
  present gets the entry of the first domain that has one, if it has the type asked for. Outside the
  two memo domains (which callers validate) and the definitions, that is exactly the answer that the
  state of revision \<open>r\<close> gives. An answer of the definitions is the one of some revision since the last
  commit or declaring edit, and \<open>r\<close> is not older than that step; an edit that hides a declaration
  without declaring one may therefore leave it behind (\<open>hidden_declaration_served\<close>).
\<close>

theorem cached_answers_are_current:
  assumes "reachable compute capacity history w" "r \<le> w_revision w"
  shows "case probe (w_cache w) r key probe_order of
      None \<Rightarrow> cache_get downcast (w_cache w) r key = None
    | Some (d, v) \<Rightarrow>
        cache_get downcast (w_cache w) r key = (if downcast v then Some v else None)
        \<and> (is_memo d
          \<or> d \<noteq> Definitions \<and> v = compute d key (w_history w r (lineage_of d))
          \<or> d = Definitions \<and> w_declared w \<le> r
              \<and> (\<exists>q. w_declared w \<le> q \<and> q \<le> w_revision w
                  \<and> v = compute Definitions key (w_history w q DefinitionsLine)))"
proof (cases "probe (w_cache w) r key probe_order")
  case (Some hit)
  then obtain d v where hit: "hit = (d, v)" "readable (w_cache w) r d"
    "map_of (cs_map (w_cache w) d) key = Some v"
    using probe_found by (metis surj_pair)
  note ok = reachable_ok [OF assms(1)]
  have get: "cache_get downcast (w_cache w) r key = (if downcast v then Some v else None)"
    using Some hit(1) by (simp add: cache_get_def)
  show ?thesis
  proof (cases "d = Definitions")
    case True
    with readable_definition [OF ok] hit(2,3) show ?thesis
      using Some hit(1) get by (simp add: since_declared_def)
  next
    case False
    with readable_entry_fresh [OF ok assms(2) hit(2,3)] show ?thesis
      using Some hit(1) get by auto
  qed
qed (simp add: cache_get_def)

definition edited_world :: "(nat, nat) world" where
  "edited_world = host_edit_document False (\<lambda>l. if l = IndexLine then 7 else 5)
     (worker_insert 0 Definitions ''names'' 1
       (worker_insert 0 IndexDomain ''k'' 7 (world_start 2 (\<lambda>_ l. if l = IndexLine then 7 else 1))))"

lemma edited_world_reachable:
  "reachable (\<lambda>d key s. s) 2 (\<lambda>_ l. if l = IndexLine then 7 else 1) edited_world"
proof -
  let ?step = "cache_step (\<lambda>d key s. s)" and ?h = "\<lambda>_ l. if l = IndexLine then 7 else 1"
  let ?v = "worker_insert 0 IndexDomain ''k'' 7 (world_start 2 ?h)"
  let ?w = "worker_insert 0 Definitions ''names'' 1 ?v"
  have "?step (world_start 2 ?h) ?v"
    by (rule cache_step.insert) (simp_all add: world_start_def lineage_of_def)
  moreover have "?step ?v ?w"
    by (rule cache_step.insert) (simp_all add: worker_insert_def world_start_def lineage_of_def)
  moreover have "?step ?w edited_world"
    unfolding edited_world_def
    by (rule cache_step.edit) (simp_all add: worker_insert_def world_start_def revision_max_def)
  ultimately show ?thesis
    unfolding reachable_def by (blast intro: rtranclp.rtrancl_into_rtrancl)
qed

lemma edited_world_probe:
  "probe (w_cache edited_world) 1 ''k'' probe_order = Some (IndexDomain, 7)"
  "probe (w_cache edited_world) 1 ''names'' probe_order = Some (Definitions, 1)"
  by code_simp+

theorem cached_answers_are_current_witness:
  "w_revision edited_world = 1 \<and> w_declared edited_world = 0
    \<and> w_history edited_world 1 IndexLine = 7
    \<and> (\<exists>q. q \<le> 1 \<and> 1 = w_history edited_world q DefinitionsLine)"
proof -
  have r: "w_revision edited_world = 1" "w_declared edited_world = 0" by code_simp+
  note answers = cached_answers_are_current [OF edited_world_reachable, where r = 1]
  show ?thesis
    using answers [where key = "''k''"] answers [where key = "''names''"] r edited_world_probe
    by (auto simp: is_memo_def lineage_of_def)
qed

subsection \<open>Bounds\<close>

lemma length_update:
  "length (AList.update key v entries) = (if map_of entries key = None then length entries + 1 else length entries)"
  by (induction entries) auto

definition bounded :: "'v cache_state \<Rightarrow> bool" where
  "bounded c \<longleftrightarrow> (\<forall>d. length (cs_map c d) \<le> max 1 (domain_capacity d (cs_capacity c)))"

lemma store_bounded: "bounded c \<Longrightarrow> bounded (store d key v c)"
  unfolding bounded_def
  by (auto simp: store_def Let_def length_update) 

lemma advance_bounded:
  assumes "bounded c"
  shows "bounded (advance_index r c)" "bounded (advance_definitions r c)" "bounded (advance_documents r c)"
  using assms by (auto simp: bounded_def advance_index_def advance_definitions_def advance_documents_def clear_documents_def)

lemma admit_bounded: "admit r d c = Some c' \<Longrightarrow> bounded c \<Longrightarrow> bounded c'"
  by (auto simp: admit_def bounded_def clear_documents_def split: cache_domain.splits if_splits option.splits)

lemma step_bounded: "cache_step compute w w' \<Longrightarrow> bounded (w_cache w) \<Longrightarrow> bounded (w_cache w')"
  by (induction rule: cache_step.induct)
    (auto simp: host_advance_revision_def host_edit_document_def host_advance_document_revision_def worker_insert_def
      cache_insert_def advance_to_def Let_def advance_bounded admit_bounded store_bounded split: option.splits)

text \<open>Every map stays within its capacity, so the whole cache is bounded.\<close>

lemma reachable_bounded: "reachable compute capacity history w \<Longrightarrow> bounded (w_cache w)"
  unfolding reachable_def
  by (induction rule: rtranclp_induct) (simp add: world_start_def with_capacity_def bounded_def, rule step_bounded)

subsection \<open>A document edit that hides a declaration\<close>

text \<open>
  The host tells \<open>advance_definitions\<close> only of documents that declare a dynamic definition
  themselves.  A document opened over a file that declared one, with a text that no longer does,
  changes the set all the same; the entry computed with the old set is still served.
\<close>

lemma hidden_declaration_served:
  "let w = worker_insert 0 Definitions ''names'' (1 :: nat) (world_start 8 (\<lambda>_ _. 1));
       w = host_edit_document False (\<lambda>l. if l = IndexLine then 1 else 0) w
   in cache_get (\<lambda>_. True) (w_cache w) (w_revision w) ''names'' = Some 1 \<and> w_history w (w_revision w) DefinitionsLine = (0 :: nat)"
  by code_simp

end
