(* ===== verification/Worker_Pool.thy ===== *)
theory Worker_Pool
  imports Vec_Ops
begin

text \<open>
  The worker pool of \<open>run_dependency_cache_loads\<close> (\<open>crates/pdc/src/dependency.rs\<close>): at most four
  scoped threads take indices from a shared atomic counter, load the cache of the configuration
  they got and store the outcome in its slot of a shared vector.  A step of a worker is one access
  to shared state; the loading itself is the argument \<open>load\<close>, \<open>None\<close> where it panics.  First the
  argument by which any such system ends under a fair scheduler.
\<close>

subsection \<open>Systems that end under a fair scheduler\<close>

definition fair :: "nat \<Rightarrow> (nat \<Rightarrow> nat) \<Rightarrow> bool" where
  "fair n sched \<longleftrightarrow> (\<forall>i<n. \<forall>t. \<exists>u\<ge>t. sched u = i)"

fun run_schedule :: "(nat \<Rightarrow> 's \<Rightarrow> 's) \<Rightarrow> (nat \<Rightarrow> nat) \<Rightarrow> 's \<Rightarrow> nat \<Rightarrow> 's" where
  "run_schedule step sched s 0 = s"
| "run_schedule step sched s (Suc t) = step (sched t) (run_schedule step sched s t)"

lemma run_schedule_add:
  "run_schedule step sched s (t + u) = run_schedule step (\<lambda>v. sched (t + v)) (run_schedule step sched s t) u"
  by (induction u) auto

lemma fair_shift: "fair n sched \<Longrightarrow> fair n (\<lambda>v. sched (t + v))"
  unfolding fair_def
proof (intro allI impI)
  fix i u assume f: "\<forall>i<n. \<forall>t. \<exists>u\<ge>t. sched u = i" and i: "i < n"
  then obtain v where "t + u \<le> v" "sched v = i" by blast
  then show "\<exists>v\<ge>u. sched (t + v) = i" by (intro exI [of _ "v - t"]) auto
qed

locale worker_system =
  fixes step :: "nat \<Rightarrow> 's \<Rightarrow> 's" and active :: "nat \<Rightarrow> 's \<Rightarrow> bool" and work :: "'s \<Rightarrow> nat" and ok :: "'s \<Rightarrow> bool" and n :: nat
  assumes progress: "active i s \<Longrightarrow> work (step i s) < work s"
    and rest: "\<not> active i s \<Longrightarrow> step i s = s"
    and independent: "j \<noteq> i \<Longrightarrow> active i (step j s) = active i s"
    and bounded: "ok s \<Longrightarrow> active i s \<Longrightarrow> i < n"
    and preserved: "ok s \<Longrightarrow> ok (step i s)"
begin

lemma step_work: "work (step i s) \<le> work s"
  by (cases "active i s") (auto intro: less_imp_le progress simp: rest)

lemma run_work: "work (run_schedule step sched s t) \<le> work s"
  by (induction t) (auto intro: order_trans [OF step_work])

lemma waits: "(\<forall>u<t. sched u \<noteq> i) \<Longrightarrow> active i (run_schedule step sched s t) = active i s"
  by (induction t) (auto simp: independent)

lemma run_ok: "ok s \<Longrightarrow> ok (run_schedule step sched s t)"
  by (induction t) (auto intro: preserved)

lemma quiet: "ok s \<Longrightarrow> (\<forall>i<n. \<not> active i s) \<Longrightarrow> run_schedule step sched s t = s"
  by (induction t) (auto simp only: run_schedule.simps intro: rest dest: bounded)

text \<open>An active worker gets its turn, and then work is done.\<close>

lemma turn:
  assumes "fair n sched" "i < n" "active i s"
  shows "\<exists>t. work (run_schedule step sched s t) < work s"
proof -
  let ?t = "LEAST t. sched t = i"
  obtain t where "sched t = i" using assms(1,2) unfolding fair_def by blast
  then have "sched ?t = i" by (rule LeastI)
  have before: "\<forall>u<?t. sched u \<noteq> i" by (intro allI impI) (rule not_less_Least)
  have "active i (run_schedule step sched s ?t)" unfolding waits [OF before] by (rule assms(3))
  then have "work (run_schedule step sched s (Suc ?t)) < work (run_schedule step sched s ?t)"
    using progress \<open>sched ?t = i\<close> by simp
  also have "\<dots> \<le> work s" by (rule run_work)
  finally show ?thesis by blast
qed

lemma fair_run_ends:
  "fair n sched \<Longrightarrow> \<exists>t. \<forall>i<n. \<not> active i (run_schedule step sched s t)"
proof (induction "work s" arbitrary: s sched rule: less_induct)
  case less
  show ?case
  proof (cases "\<forall>i<n. \<not> active i s")
    case True
    then show ?thesis by (intro exI [of _ 0]) simp
  next
    case False
    then obtain t where t: "work (run_schedule step sched s t) < work s" using turn [OF less.prems] by blast
    then obtain u where "\<forall>i<n. \<not> active i (run_schedule step (\<lambda>v. sched (t + v)) (run_schedule step sched s t) u)"
      using less.hyps [OF t fair_shift [OF less.prems, of t]] by blast
    then show ?thesis unfolding run_schedule_add [symmetric] by blast
  qed
qed

lemma fair_run_settles:
  assumes "fair n sched" "ok s"
  shows "\<exists>t. \<forall>u\<ge>t. \<forall>i<n. \<not> active i (run_schedule step sched s u)"
proof -
  obtain t where t: "\<forall>i<n. \<not> active i (run_schedule step sched s t)" using fair_run_ends [OF assms(1)] by blast
  have "\<not> active i (run_schedule step sched s u)" if "t \<le> u" "i < n" for u i
    using run_schedule_add [of step sched s t "u - t"] quiet [OF run_ok [OF assms(2)] t] t that by simp
  then show ?thesis by blast
qed

end

subsection \<open>The pool\<close>

definition max_dependency_workers :: nat where "max_dependency_workers = 4"

datatype 'c worker = Idle | Loading nat 'c | Finished | Panicked

record ('c, 'r) pool =
  pl_next :: nat
  pl_results :: "('c \<times> 'r) option list"
  pl_workers :: "'c worker list"

definition pool_start :: "'c list \<Rightarrow> ('c, 'r) pool" where
  "pool_start configs = \<lparr>pl_next = 0, pl_results = replicate (length configs) None,
     pl_workers = replicate (min (length configs) max_dependency_workers) Idle\<rparr>"

definition set_worker :: "nat \<Rightarrow> 'c worker \<Rightarrow> ('c, 'r) pool \<Rightarrow> ('c, 'r) pool" where
  "set_worker i v p = p\<lparr>pl_workers := (pl_workers p)[i := v]\<rparr>"

definition worker_step :: "('c \<Rightarrow> 'r option) \<Rightarrow> 'c list \<Rightarrow> nat \<Rightarrow> ('c, 'r) pool \<Rightarrow> ('c, 'r) pool" where
  "worker_step load configs i p =
    (if length (pl_workers p) \<le> i then p
     else
       case pl_workers p ! i of
         Idle \<Rightarrow>
           let index = pl_next p; p = p\<lparr>pl_next := index + 1\<rparr>
           in set_worker i (if index < length configs then Loading index (configs ! index) else Finished) p
       | Loading index config \<Rightarrow>
           (case load config of
              None \<Rightarrow> set_worker i Panicked p
            | Some result \<Rightarrow>
                if index < length (pl_results p)
                then set_worker i Idle (p\<lparr>pl_results := (pl_results p)[index := Some (config, result)]\<rparr>)
                else set_worker i Panicked p)
       | Finished \<Rightarrow> p
       | Panicked \<Rightarrow> p)"

definition worker_active :: "nat \<Rightarrow> ('c, 'r) pool \<Rightarrow> bool" where
  "worker_active i p \<longleftrightarrow> i < length (pl_workers p) \<and> pl_workers p ! i \<noteq> Finished \<and> pl_workers p ! i \<noteq> Panicked"

text \<open>
  The end of the scope: a panic of a worker is raised again by the scope, and a slot without an
  outcome would make \<open>expect\<close> panic.
\<close>

datatype 'a loads_outcome = Running | Panics | Returns 'a

definition pool_outcome :: "('c, 'r) pool \<Rightarrow> ('c \<times> 'r) list loads_outcome" where
  "pool_outcome p =
    (if list_ex (\<lambda>i. worker_active i p) [0..<length (pl_workers p)] then Running
     else if Panicked \<in> set (pl_workers p) then Panics
     else case those (pl_results p) of None \<Rightarrow> Panics | Some results \<Rightarrow> Returns results)"

definition run_dependency_cache_loads ::
  "('c \<Rightarrow> 'r option) \<Rightarrow> 'c list \<Rightarrow> (nat \<Rightarrow> nat) \<Rightarrow> nat \<Rightarrow> ('c \<times> 'r) list loads_outcome" where
  "run_dependency_cache_loads load configs sched t =
    (if configs = [] then Returns []
     else pool_outcome (run_schedule (worker_step load configs) sched (pool_start configs) t))"

text \<open>What the pool should answer: the outcomes in the order of the configurations.\<close>

definition sequential_loads :: "('c \<Rightarrow> 'r option) \<Rightarrow> 'c list \<Rightarrow> ('c \<times> 'r) list loads_outcome" where
  "sequential_loads load configs =
    (case those (map load configs) of None \<Rightarrow> Panics | Some results \<Rightarrow> Returns (zip configs results))"

subsection \<open>The pool ends\<close>

fun weight :: "'c worker \<Rightarrow> nat" where
  "weight Idle = 1" | "weight (Loading _ _) = 2" | "weight Finished = 0" | "weight Panicked = 0"

definition pool_work :: "'c list \<Rightarrow> ('c, 'r) pool \<Rightarrow> nat" where
  "pool_work configs p = 2 * (length configs - pl_next p) + sum_list (map weight (pl_workers p))"

lemma set_worker_simps [simp]:
  "pl_next (set_worker i v p) = pl_next p" "pl_results (set_worker i v p) = pl_results p"
  "pl_workers (set_worker i v p) = (pl_workers p)[i := v]"
  by (simp_all add: set_worker_def)

lemma weight_set:
  assumes "i < length ws"
  shows "sum_list (map weight (ws[i := v])) + weight (ws ! i) = sum_list (map weight ws) + weight v"
  using assms by (induction ws arbitrary: i) (auto simp: nth_Cons split: nat.splits)

lemma length_workers_step [simp]: "length (pl_workers (worker_step load configs i p)) = length (pl_workers p)"
  by (auto simp: worker_step_def Let_def split: worker.splits option.splits)

lemma worker_step_rest: "\<not> worker_active i p \<Longrightarrow> worker_step load configs i p = p"
  by (auto simp: worker_active_def worker_step_def)

lemma worker_step_other:
  "j \<noteq> i \<Longrightarrow> pl_workers (worker_step load configs j p) ! i = pl_workers p ! i"
  by (auto simp: worker_step_def Let_def split: worker.splits option.splits)

lemma worker_step_works:
  assumes "worker_active i p"
  shows "pool_work configs (worker_step load configs i p) < pool_work configs p"
proof -
  have i: "i < length (pl_workers p)" using assms by (simp add: worker_active_def)
  note w = weight_set [OF i]
  show ?thesis
  proof (cases "pl_workers p ! i")
    case Idle
    show ?thesis
      using Idle i w [of "Loading (pl_next p) (configs ! pl_next p)"] w [of Finished]
      by (auto simp: worker_step_def pool_work_def Let_def)
  next
    case (Loading k c)
    then show ?thesis
      using i w [of Idle] w [of Panicked] by (auto simp: worker_step_def pool_work_def split: option.splits)
  qed (use assms in \<open>simp_all add: worker_active_def\<close>)
qed

interpretation loads: worker_system "worker_step load configs" worker_active "pool_work configs"
  "\<lambda>p. length (pl_workers p) \<le> max_dependency_workers" max_dependency_workers
proof unfold_locales
  show "worker_active i (worker_step load configs j p) = worker_active i p" if "j \<noteq> i" for i j p
    by (simp add: worker_active_def worker_step_other [OF that])
qed (auto simp: worker_step_works worker_step_rest worker_active_def)

subsection \<open>The pool answers in order\<close>

definition slot_ok :: "('c \<Rightarrow> 'r option) \<Rightarrow> 'c \<Rightarrow> ('c \<times> 'r) option \<Rightarrow> bool" where
  "slot_ok load config slot \<longleftrightarrow>
    (case slot of None \<Rightarrow> True | Some (c, r) \<Rightarrow> c = config \<and> load config = Some r)"

text \<open>
  An index below the counter has its outcome in its slot, is being loaded, or made its worker
  panic; a worker that found no more work has seen the counter past the end.
\<close>

definition worker_ok :: "('c \<Rightarrow> 'r option) \<Rightarrow> 'c list \<Rightarrow> nat \<Rightarrow> 'c worker \<Rightarrow> bool" where
  "worker_ok load configs taken v \<longleftrightarrow>
    (case v of
       Idle \<Rightarrow> True
     | Loading k c \<Rightarrow> k < length configs \<and> c = configs ! k
     | Finished \<Rightarrow> length configs \<le> taken
     | Panicked \<Rightarrow> \<exists>c \<in> set configs. load c = None)"

definition accounted :: "'c list \<Rightarrow> ('c, 'r) pool \<Rightarrow> nat \<Rightarrow> bool" where
  "accounted configs p k \<longleftrightarrow>
    pl_results p ! k \<noteq> None \<or> Panicked \<in> set (pl_workers p) \<or> Loading k (configs ! k) \<in> set (pl_workers p)"

definition pool_ok :: "('c \<Rightarrow> 'r option) \<Rightarrow> 'c list \<Rightarrow> ('c, 'r) pool \<Rightarrow> bool" where
  "pool_ok load configs p \<longleftrightarrow>
     length (pl_results p) = length configs \<and> pl_workers p \<noteq> []
     \<and> (\<forall>k < length configs. slot_ok load (configs ! k) (pl_results p ! k))
     \<and> (\<forall>v \<in> set (pl_workers p). worker_ok load configs (pl_next p) v)
     \<and> (\<forall>k < length configs. k < pl_next p \<longrightarrow> accounted configs p k)"

lemma set_update_other:
  assumes "i < length ws" "v \<in> set ws" "v \<noteq> ws ! i"
  shows "v \<in> set (ws[i := x])"
proof -
  obtain j where j: "j < length ws" "ws ! j = v" using assms(2) by (auto simp: in_set_conv_nth)
  then have "j \<noteq> i" using assms(3) by auto
  then show ?thesis using j by (auto simp: in_set_conv_nth intro!: exI [of _ j])
qed

lemma accounted_step:
  assumes "accounted configs p k" "i < length (pl_workers p)" "pl_workers p ! i \<noteq> Panicked"
    and "pl_workers p ! i \<noteq> Loading k (configs ! k)" "pl_workers q = (pl_workers p)[i := v]"
    and "pl_results p ! k \<noteq> None \<Longrightarrow> pl_results q ! k \<noteq> None"
  shows "accounted configs q k"
  using assms set_update_other [of i "pl_workers p" Panicked v]
    set_update_other [of i "pl_workers p" "Loading k (configs ! k)" v]
  unfolding accounted_def by metis

lemma worker_ok_mono: "worker_ok load configs taken v \<Longrightarrow> taken \<le> taken' \<Longrightarrow> worker_ok load configs taken' v"
  by (auto simp: worker_ok_def split: worker.splits)

lemma set_update_ok: "(\<forall>v \<in> set ws. P v) \<Longrightarrow> P x \<Longrightarrow> \<forall>v \<in> set (ws[i := x]). P v"
  using set_update_subset_insert [of ws i x] by blast

lemma pool_step_ok:
  assumes ok: "pool_ok load configs p"
  shows "pool_ok load configs (worker_step load configs i p)"
proof (cases "worker_active i p")
  case False
  then show ?thesis using ok by (simp add: worker_step_rest)
next
  case True
  then have i: "i < length (pl_workers p)" by (simp add: worker_active_def)
  note ok = ok [unfolded pool_ok_def]
  show ?thesis
  proof (cases "pl_workers p ! i")
    case Idle
    let ?v = "if pl_next p < length configs then Loading (pl_next p) (configs ! pl_next p) else Finished"
    have s: "worker_step load configs i p = p\<lparr>pl_next := pl_next p + 1, pl_workers := (pl_workers p)[i := ?v]\<rparr>"
      using i Idle by (simp add: worker_step_def Let_def set_worker_def)
    have "accounted configs (worker_step load configs i p) k" if "k < length configs" "k < pl_next p + 1" for k
    proof (cases "k = pl_next p")
      case True
      then show ?thesis using i that by (simp add: accounted_def s set_update_memI)
    next
      case False
      then have "accounted configs p k" using ok that by simp
      then show ?thesis by (rule accounted_step [where v = ?v, OF _ i]) (simp_all add: Idle s)
    qed
    moreover have "\<forall>v \<in> set ((pl_workers p)[i := ?v]). worker_ok load configs (pl_next p + 1) v"
    proof (rule set_update_ok)
      show "\<forall>v \<in> set (pl_workers p). worker_ok load configs (pl_next p + 1) v"
        using ok worker_ok_mono [of load configs "pl_next p" _ "pl_next p + 1"] by (meson le_add1)
    qed (simp add: worker_ok_def)
    ultimately show ?thesis unfolding pool_ok_def using ok s by simp
  next
    case (Loading k c)
    then have k: "k < length configs" "c = configs ! k"
      using ok i nth_mem [OF i] by (auto simp: worker_ok_def)
    show ?thesis
    proof (cases "load c")
      case None
      then have s: "worker_step load configs i p = p\<lparr>pl_workers := (pl_workers p)[i := Panicked]\<rparr>"
        using i Loading by (simp add: worker_step_def set_worker_def)
      have "\<forall>v \<in> set ((pl_workers p)[i := Panicked]). worker_ok load configs (pl_next p) v"
        by (rule set_update_ok) (use ok k None in \<open>auto simp: worker_ok_def\<close>)
      then show ?thesis unfolding pool_ok_def using ok s i by (simp add: accounted_def set_update_memI)
    next
      case (Some r)
      then have s: "worker_step load configs i p =
          p\<lparr>pl_results := (pl_results p)[k := Some (c, r)], pl_workers := (pl_workers p)[i := Idle]\<rparr>"
        using i Loading k ok by (simp add: worker_step_def set_worker_def)
      have "\<forall>v \<in> set ((pl_workers p)[i := Idle]). worker_ok load configs (pl_next p) v"
        by (rule set_update_ok) (use ok in \<open>auto simp: worker_ok_def\<close>)
      moreover have "accounted configs (worker_step load configs i p) j" if "j < length configs" "j < pl_next p" for j
      proof (cases "j = k")
        case True
        then show ?thesis using k ok by (simp add: accounted_def s)
      next
        case False
        have "accounted configs p j" using ok that by blast
        then show ?thesis by (rule accounted_step [where v = Idle, OF _ i]) (use False Loading s in simp_all)
      qed
      ultimately show ?thesis
        unfolding pool_ok_def using ok s k Some by (auto simp: slot_ok_def nth_list_update)
    qed
  qed (use True in \<open>simp_all add: worker_active_def\<close>)
qed

lemma start_pool_ok: "configs \<noteq> [] \<Longrightarrow> pool_ok load configs (pool_start configs)"
  by (auto simp: pool_ok_def pool_start_def slot_ok_def worker_ok_def max_dependency_workers_def)

lemma pool_outcome_settled:
  assumes ok: "pool_ok load configs p" and settled: "\<not> list_ex (\<lambda>i. worker_active i p) [0..<length (pl_workers p)]"
  shows "pool_outcome p = sequential_loads load configs"
proof (cases "Panicked \<in> set (pl_workers p)")
  case True
  then have "\<exists>c \<in> set configs. load c = None" using ok by (force simp: pool_ok_def worker_ok_def)
  then have "those (map load configs) = None" unfolding those_None by force
  then show ?thesis using True settled by (simp add: pool_outcome_def sequential_loads_def)
next
  case False
  have still: "v = Finished" if "v \<in> set (pl_workers p)" for v
    using that settled False by (fastforce simp: list_ex_iff worker_active_def in_set_conv_nth)
  obtain v where "v \<in> set (pl_workers p)" using ok by (cases "pl_workers p") (auto simp: pool_ok_def)
  then have "length configs \<le> pl_next p" using ok still by (force simp: pool_ok_def worker_ok_def)
  then have slot: "\<exists>r. pl_results p ! k = Some (configs ! k, r) \<and> load (configs ! k) = Some r"
    if "k < length configs" for k
    using ok that False still [of "Loading k (configs ! k)"]
    by (fastforce simp: pool_ok_def accounted_def slot_ok_def)
  have n: "length (pl_results p) = length configs" using ok by (simp add: pool_ok_def)
  let ?rs = "map (\<lambda>c. the (load c)) configs"
  have "map load configs = map Some ?rs" using slot by (intro nth_equalityI) fastforce+
  then have seq: "those (map load configs) = Some ?rs" unfolding those_Some .
  have "pl_results p = map Some (zip configs ?rs)"
  proof (rule nth_equalityI)
    fix k assume "k < length (pl_results p)"
    then show "pl_results p ! k = map Some (zip configs ?rs) ! k" using slot [of k] n by auto
  qed (simp add: n)
  then have "those (pl_results p) = Some (zip configs ?rs)" unfolding those_Some .
  then show ?thesis using seq settled False by (simp add: pool_outcome_def sequential_loads_def)
qed

lemma run_pool_ok:
  "configs \<noteq> [] \<Longrightarrow> pool_ok load configs (run_schedule (worker_step load configs) sched (pool_start configs) t)"
  by (induction t) (auto intro: pool_step_ok start_pool_ok)

text \<open>Whatever the interleaving, there is no other answer; it is not given before the last worker ends.\<close>

lemma loads_answer:
  "run_dependency_cache_loads load configs sched t \<in> {Running, sequential_loads load configs}"
proof (cases "configs = []")
  case True
  then show ?thesis by (simp add: run_dependency_cache_loads_def sequential_loads_def)
next
  case False
  have "pool_outcome p = Running \<or> pool_outcome p = sequential_loads load configs" if "pool_ok load configs p" for p
    using pool_outcome_settled [OF that] by (auto simp: pool_outcome_def)
  from this [OF run_pool_ok [OF False]] show ?thesis using False by (simp add: run_dependency_cache_loads_def)
qed

text \<open>C32. However the workers interleave, as long as every worker gets its turn again and again,
  the loading of the dependency caches ends, and its answer is the outcomes in the order of the
  configurations; it panics exactly if the loading of some configuration does.\<close>

theorem dependency_loads_end:
  assumes "fair max_dependency_workers sched"
  shows "\<exists>t. \<forall>u. run_dependency_cache_loads load configs sched (t + u) = sequential_loads load configs"
proof (cases "configs = []")
  case True
  then show ?thesis by (simp add: run_dependency_cache_loads_def sequential_loads_def)
next
  case False
  let ?run = "run_schedule (worker_step load configs) sched (pool_start configs)"
  have "length (pl_workers (pool_start configs)) \<le> max_dependency_workers" by (simp add: pool_start_def)
  then obtain t where t: "\<forall>u\<ge>t. \<forall>i<max_dependency_workers. \<not> worker_active i (?run u)"
    using loads.fair_run_settles [OF assms] by blast
  have "run_dependency_cache_loads load configs sched (t + u) = sequential_loads load configs" for u
  proof -
    have "length (pl_workers (?run (t + u))) \<le> max_dependency_workers"
      by (rule loads.run_ok) (simp add: pool_start_def)
    then have "\<not> list_ex (\<lambda>i. worker_active i (?run (t + u))) [0..<length (pl_workers (?run (t + u)))]"
      using t by (fastforce simp: list_ex_iff)
    then show ?thesis
      using pool_outcome_settled [OF run_pool_ok [OF False]] False by (simp add: run_dependency_cache_loads_def)
  qed
  then show ?thesis by blast
qed

lemma round_robin_fair: "0 < n \<Longrightarrow> fair n (\<lambda>t. t mod n)"
  unfolding fair_def
proof (intro allI impI)
  fix i t :: nat assume "0 < n" "i < n"
  then show "\<exists>u\<ge>t. u mod n = i" by (intro exI [of _ "i + n * t"]) (simp add: trans_le_add2)
qed

text \<open>Round robin over two caches, the second of which may be one whose loading panics.\<close>

definition sample_load :: "string \<Rightarrow> nat option" where
  "sample_load c = (if c = ''bad'' then None else Some (length c))"

lemma sample_fair: "fair max_dependency_workers (\<lambda>t. t mod 4)"
  using round_robin_fair [of 4] by (simp add: max_dependency_workers_def)

lemma sample_loads: "sequential_loads sample_load [''a'', ''bc''] = Returns [(''a'', 1), (''bc'', 2)]"
  by code_simp

theorem dependency_loads_end_witness:
  "\<exists>t. \<forall>u. run_dependency_cache_loads sample_load [''a'', ''bc''] (\<lambda>t. t mod 4) (t + u)
     = Returns [(''a'', 1), (''bc'', 2)]"
  using dependency_loads_end [OF sample_fair, of sample_load "[''a'', ''bc'']"] unfolding sample_loads .

lemma one_load_panics:
  "run_dependency_cache_loads sample_load [''a'', ''bad''] (\<lambda>t. t mod 4) 20 = Panics"
  by code_simp

end
