(* ===== verification/Dependency_Load.thy ===== *)
theory Dependency_Load
  imports Position_Codec Decimal Worker_Pool
begin

text \<open>
  Loading one dependency cache, \<open>run_dependency_cache_load\<close> and \<open>build_dependency_cache\<close> of
  \<open>crates/pdc/src/dependency.rs\<close>: a usable cache is refreshed, any other is removed and built
  again.  The index cache, the scanner and the file system are a record of operations; \<open>'f\<close> is the
  state of the cache file, \<open>'c\<close> a cache and \<open>'h\<close> a scanned host.  Errors of foreign types are the
  texts they print.  Logging and progress reports are left out.
\<close>

subsection \<open>Errors\<close>

definition cache_error_text :: "index_cache_error \<Rightarrow> string" where
  "cache_error_text e =
    (case e of
       Cancelled \<Rightarrow> ''index cache loading was cancelled''
     | Io m \<Rightarrow> ''index cache I/O error: '' @ m
     | Sql m \<Rightarrow> ''index cache SQLite error: '' @ m
     | NotIndexCache \<Rightarrow> ''the selected file is not a ParadoxCode index cache and will not be overwritten''
     | InvalidMetadata key \<Rightarrow> ''invalid or missing index cache metadata: '' @ key
     | LimitExceeded kind limit \<Rightarrow> ''index cache exceeds the '' @ kind @ '' limit of '' @ decimal limit
     | InvalidData detail \<Rightarrow> ''invalid index cache data: '' @ detail
     | GameMismatch expected actual \<Rightarrow>
         ''index cache game mismatch: expected '' @ expected @ '', found '' @ actual
     | RootConflict root configured \<Rightarrow>
         ''index cache root '' @ root @ '' overlaps configured source root '' @ configured
     | LspVersionMismatch cached active \<Rightarrow>
         ''index cache LSP version mismatch: cached '' @ cached @ '', active '' @ active
           @ ''; a full reindex is required''
     | OverflowPanic \<Rightarrow> [])"

datatype remove_error = NotFound | RemoveFailed string

subsection \<open>Operations\<close>

record dependency_config =
  dc_root :: string
  dc_index_path :: string

record ('f, 'c, 'h) cache_ops =
  op_load :: "'f \<Rightarrow> index_cache_error + 'c"
  op_remove :: "'f \<Rightarrow> remove_error + 'f"
  op_is_cancelled :: bool
  op_scan :: "dependency_config \<Rightarrow> string + 'h"
  op_from_snapshot :: "'h \<Rightarrow> string + 'c"
  op_refresh :: "'c \<Rightarrow> string + 'c"
  op_save :: "'c \<Rightarrow> 'f \<Rightarrow> string option \<times> 'f"

text \<open>The state of the file that is left, and the outcome.\<close>

definition build_dependency_cache ::
  "('f, 'c, 'h) cache_ops \<Rightarrow> dependency_config \<Rightarrow> string \<Rightarrow> 'f \<Rightarrow> 'f \<times> (string + 'c)" where
  "build_dependency_cache ops config activity f =
    (if op_is_cancelled ops then (f, Inl ''dependency index build was cancelled'')
     else
       case op_scan ops config of
         Inl e \<Rightarrow> (f, Inl (activity @ '' failed while indexing '' @ dc_root config @ '': '' @ e))
       | Inr host \<Rightarrow>
           (case op_from_snapshot ops host of
              Inl e \<Rightarrow> (f, Inl (activity @ '' failed: '' @ e))
            | Inr cache \<Rightarrow>
                (case op_save ops cache f of
                   (Some e, f') \<Rightarrow>
                     (f', Inl (activity @ '' could not be saved to '' @ dc_index_path config @ '': '' @ e))
                 | (None, f') \<Rightarrow> (f', Inr cache))))"

definition is_version_mismatch :: "index_cache_error \<Rightarrow> bool" where
  "is_version_mismatch e \<longleftrightarrow>
    (case e of LspVersionMismatch _ _ \<Rightarrow> True | InvalidMetadata key \<Rightarrow> key = ''lsp_version'' | _ \<Rightarrow> False)"

definition regenerate ::
  "('f, 'c, 'h) cache_ops \<Rightarrow> string \<Rightarrow> dependency_config \<Rightarrow> index_cache_error \<Rightarrow> 'f \<Rightarrow> 'f \<times> (string + 'c \<times> string)" where
  "regenerate ops version config error f =
    (case build_dependency_cache ops config ''Dependency index regeneration'' f of
       (f', Inr cache) \<Rightarrow>
         (f', Inr (cache, ''Dependency '' @ dc_root config @ '' index was regenerated for LSP version '' @ version
            @ '' and loaded from '' @ dc_index_path config))
     | (f', Inl rebuild_error) \<Rightarrow>
         (f', Inl (rebuild_error @ ''; refusing to install the dependency cache: '' @ cache_error_text error)))"

definition rebuild ::
  "('f, 'c, 'h) cache_ops \<Rightarrow> dependency_config \<Rightarrow> 'f \<Rightarrow> 'f \<times> (string + 'c \<times> string)" where
  "rebuild ops config f =
    (case op_remove ops f of
       Inl (RemoveFailed e) \<Rightarrow>
         (f, Inl (''dependency cache for '' @ dc_root config @ '' could not be replaced at ''
            @ dc_index_path config @ '': '' @ e))
     | removed \<Rightarrow>
         (case build_dependency_cache ops config ''Dependency index build''
                 (case removed of Inr f' \<Rightarrow> f' | Inl _ \<Rightarrow> f) of
            (f', Inr cache) \<Rightarrow>
              (f', Inr (cache, ''Dependency '' @ dc_root config @ '' index was built and loaded from ''
                 @ dc_index_path config))
          | (f', Inl e) \<Rightarrow> (f', Inl e)))"

definition refresh_loaded ::
  "('f, 'c, 'h) cache_ops \<Rightarrow> dependency_config \<Rightarrow> 'c \<Rightarrow> 'f \<Rightarrow> 'f \<times> (string + 'c \<times> string)" where
  "refresh_loaded ops config loaded f =
    (case op_refresh ops loaded of
       Inl e \<Rightarrow>
         (f, Inr (loaded, ''Dependency '' @ dc_root config @ '' symbols loaded from '' @ dc_index_path config
            @ ''; refresh skipped: '' @ e))
     | Inr refreshed \<Rightarrow>
         (case op_save ops refreshed f of
            (saved, f') \<Rightarrow>
              (f', Inr (refreshed, ''Dependency '' @ dc_root config @ '' symbols refreshed against ''
                 @ dc_root config @ '' and loaded from '' @ dc_index_path config
                 @ (case saved of None \<Rightarrow> []
                    | Some e \<Rightarrow> ''; refreshed content could not be saved to '' @ dc_index_path config @ '': '' @ e)))))"

definition run_dependency_cache_load ::
  "('f, 'c, 'h) cache_ops \<Rightarrow> string \<Rightarrow> dependency_config \<Rightarrow> 'f \<Rightarrow> 'f \<times> (string + 'c \<times> string)" where
  "run_dependency_cache_load ops version config f =
    (case op_load ops f of
       Inr loaded \<Rightarrow> refresh_loaded ops config loaded f
     | Inl e \<Rightarrow> if is_version_mismatch e then regenerate ops version config e f else rebuild ops config f)"

subsection \<open>Where an installed cache comes from\<close>

definition built :: "('f, 'c, 'h) cache_ops \<Rightarrow> dependency_config \<Rightarrow> 'c \<Rightarrow> bool" where
  "built ops config cache \<longleftrightarrow>
    \<not> op_is_cancelled ops \<and> (\<exists>host. op_scan ops config = Inr host \<and> op_from_snapshot ops host = Inr cache)"

lemma build_ok:
  "build_dependency_cache ops config activity f = (f', Inr cache) \<Longrightarrow> built ops config cache \<and> op_save ops cache f = (None, f')"
  by (auto simp: build_dependency_cache_def built_def split: if_splits sum.splits option.splits prod.splits)

lemma build_cancelled: "op_is_cancelled ops \<Longrightarrow> build_dependency_cache ops config activity f =
    (f, Inl ''dependency index build was cancelled'')"
  by (simp add: build_dependency_cache_def)

text \<open>
  A stale cache is never installed: what is installed was loaded by the present version, and is as
  fresh as it can be, or it was built from the sources and saved.
\<close>

lemma installed_cache_origin:
  assumes "run_dependency_cache_load ops version config f = (f', Inr (cache, message))"
  shows "case op_load ops f of
      Inr loaded \<Rightarrow> (case op_refresh ops loaded of Inl _ \<Rightarrow> cache = loaded \<and> f' = f
                     | Inr refreshed \<Rightarrow> cache = refreshed \<and> f' = snd (op_save ops refreshed f))
    | Inl e \<Rightarrow> built ops config cache \<and> (is_version_mismatch e \<longrightarrow> op_save ops cache f = (None, f'))"
  using assms
  by (auto simp: run_dependency_cache_load_def refresh_loaded_def regenerate_def rebuild_def
      split: sum.splits prod.splits if_splits remove_error.splits dest: build_ok)

text \<open>A version mismatch keeps the file until the new one is saved over it.\<close>

lemma mismatch_keeps_file:
  assumes "op_load ops f = Inl e" "is_version_mismatch e" "op_is_cancelled ops"
  shows "fst (run_dependency_cache_load ops version config f) = f"
  using assms by (simp add: run_dependency_cache_load_def regenerate_def build_cancelled)

text \<open>
  Any other error of the load removes the file first.  A load that was cancelled is such an error:
  the file, whatever its worth, is gone, and the build that should replace it is cancelled too.
\<close>

lemma cancelled_load_removes_file:
  assumes "op_load ops f = Inl Cancelled" "op_remove ops f = Inr g" "op_is_cancelled ops"
  shows "run_dependency_cache_load ops version config f = (g, Inl ''dependency index build was cancelled'')"
  using assms by (simp add: run_dependency_cache_load_def rebuild_def build_cancelled is_version_mismatch_def)

text \<open>So is a file that is no cache at all, although its error says that it will not be overwritten.\<close>

lemma foreign_file_replaced:
  assumes "op_load ops f = Inl NotIndexCache" "op_remove ops f = Inr g"
    and "\<not> op_is_cancelled ops" "op_scan ops config = Inr host" "op_from_snapshot ops host = Inr cache"
    and "op_save ops cache g = (None, h)"
  shows "fst (run_dependency_cache_load ops version config f) = h"
  using assms by (simp add: run_dependency_cache_load_def rebuild_def build_dependency_cache_def is_version_mismatch_def)

end
