(* ===== verification/Interner.thy ===== *)
theory Interner
  imports Vec_Ops
begin

text \<open>
  The string interner of a rule set, \<open>Symbol\<close> and \<open>Interner\<close> of \<open>crates/rules/src/ir.rs\<close>.  A symbol
  is its index; the hash index is a finite function.  Interning ends in a panic, \<open>None\<close>, when the
  symbols no longer fit 32 bits.
\<close>

type_synonym symbol = nat

record interner =
  in_strings :: "string list"
  in_index :: "string \<rightharpoonup> symbol"

definition interner_default :: interner where
  "interner_default = \<lparr>in_strings = [], in_index = Map.empty\<rparr>"

definition has_ascii_upper :: "string \<Rightarrow> bool" where
  "has_ascii_upper s = list_ex is_ascii_upper s"

definition interner_push :: "string \<Rightarrow> interner \<Rightarrow> (symbol \<times> interner) option" where
  "interner_push s i =
    (let symbol = length (in_strings i)
     in if symbol \<le> u32_max
        then Some (symbol, \<lparr>in_strings = in_strings i @ [s], in_index = (in_index i)(s \<mapsto> symbol)\<rparr>)
        else None)"

definition intern_verbatim :: "string \<Rightarrow> interner \<Rightarrow> (symbol \<times> interner) option" where
  "intern_verbatim s i =
    (case in_index i s of Some existing \<Rightarrow> Some (existing, i) | None \<Rightarrow> interner_push s i)"

definition intern_folded :: "string \<Rightarrow> interner \<Rightarrow> (symbol \<times> interner) option" where
  "intern_folded s i =
    (if has_ascii_upper s
     then let folded = to_ascii_lowercase s
          in case in_index i folded of Some existing \<Rightarrow> Some (existing, i) | None \<Rightarrow> interner_push folded i
     else intern_verbatim s i)"

definition lookup_verbatim :: "interner \<Rightarrow> string \<Rightarrow> symbol option" where
  "lookup_verbatim i s = in_index i s"

definition lookup_folded :: "interner \<Rightarrow> string \<Rightarrow> symbol option" where
  "lookup_folded i s =
    (if has_ascii_upper s then in_index i (to_ascii_lowercase s) else in_index i s)"

text \<open>An index expression: \<open>None\<close> is the panic on a symbol of another interner.\<close>

definition resolve :: "interner \<Rightarrow> symbol \<Rightarrow> string option" where
  "resolve i symbol = vec_get (in_strings i) symbol"

definition interner_len :: "interner \<Rightarrow> nat" where
  "interner_len i = length (in_strings i)"

definition interner_is_empty :: "interner \<Rightarrow> bool" where
  "interner_is_empty i \<longleftrightarrow> in_strings i = []"

definition interner_iter :: "interner \<Rightarrow> (symbol \<times> string) list" where
  "interner_iter i = enumerate 0 (in_strings i)"

subsection \<open>The invariant\<close>

text \<open>The index is exactly the inverse of the vector of strings.\<close>

definition interner_ok :: "interner \<Rightarrow> bool" where
  "interner_ok i \<longleftrightarrow> (\<forall>s symbol. in_index i s = Some symbol \<longleftrightarrow> resolve i symbol = Some s)"

lemma interner_ok_iff:
  "interner_ok i \<Longrightarrow> in_index i s = Some symbol \<longleftrightarrow> resolve i symbol = Some s"
  unfolding interner_ok_def by blast

lemma interner_ok_distinct: "interner_ok i \<Longrightarrow> distinct (in_strings i)"
  unfolding distinct_conv_nth
proof (intro allI impI)
  fix j k assume "interner_ok i" "j < length (in_strings i)" "k < length (in_strings i)" "j \<noteq> k"
  then have "in_index i (in_strings i ! j) = Some j" "in_index i (in_strings i ! k) = Some k"
    by (simp_all add: interner_ok_iff resolve_def)
  then show "in_strings i ! j \<noteq> in_strings i ! k" using \<open>j \<noteq> k\<close> by auto
qed

lemma default_ok: "interner_ok interner_default"
  by (simp add: interner_ok_def interner_default_def resolve_def)

lemma folded_spelling: "\<not> has_ascii_upper s \<Longrightarrow> to_ascii_lowercase s = s"
  by (auto simp: has_ascii_upper_def to_ascii_lowercase_def list_ex_iff ascii_lower_def intro!: map_idI)

lemma lookup_folded_index: "lookup_folded i s = in_index i (to_ascii_lowercase s)"
  by (simp add: lookup_folded_def folded_spelling)

lemma intern_folded_verbatim: "intern_folded s i = intern_verbatim (to_ascii_lowercase s) i"
  by (cases "has_ascii_upper s") (simp_all add: intern_folded_def intern_verbatim_def Let_def folded_spelling)

text \<open>What interning does: the symbol resolves to the text, and every other symbol stays as it was.\<close>

lemma intern_verbatim_spec:
  assumes ok: "interner_ok i" and r: "intern_verbatim s i = Some (symbol, i')"
  shows "interner_ok i'" "resolve i' symbol = Some s"
    "\<And>k t. resolve i k = Some t \<Longrightarrow> resolve i' k = Some t"
    "\<And>k t. resolve i' k = Some t \<Longrightarrow> t = s \<or> resolve i k = Some t"
proof -
  have all: "interner_ok i' \<and> resolve i' symbol = Some s \<and>
      (\<forall>k t. (resolve i k = Some t \<longrightarrow> resolve i' k = Some t) \<and> (resolve i' k = Some t \<longrightarrow> t = s \<or> resolve i k = Some t))"
  proof (cases "in_index i s")
    case (Some existing)
    then have "i' = i" "in_index i s = Some symbol" using r by (simp_all add: intern_verbatim_def)
    then show ?thesis using ok by (simp add: interner_ok_iff)
  next
    case None
    then have new: "symbol = length (in_strings i)" "in_strings i' = in_strings i @ [s]"
        "in_index i' = (in_index i)(s \<mapsto> length (in_strings i))"
      using r by (auto simp: intern_verbatim_def interner_push_def Let_def split: if_splits)
    have fresh: "resolve i k \<noteq> Some s" for k using None interner_ok_iff [OF ok, of s k] by simp
    have res: "resolve i' k = (if k = length (in_strings i) then Some s else resolve i k)" for k
      by (auto simp: resolve_def new vec_get_def nth_append)
    have "interner_ok i'" unfolding interner_ok_def
    proof (intro allI)
      fix t k show "in_index i' t = Some k \<longleftrightarrow> resolve i' k = Some t"
        using interner_ok_iff [OF ok, of t k] fresh [of k] res [of k] new(3)
        by (auto simp: resolve_def)
    qed
    then show ?thesis using res new(1) fresh by (auto simp: resolve_def)
  qed
  then show "interner_ok i'" "resolve i' symbol = Some s"
    "\<And>k t. resolve i k = Some t \<Longrightarrow> resolve i' k = Some t"
    "\<And>k t. resolve i' k = Some t \<Longrightarrow> t = s \<or> resolve i k = Some t"
    by blast+
qed

lemmas intern_folded_spec = intern_verbatim_spec [where s = "to_ascii_lowercase s" for s, folded intern_folded_verbatim]

text \<open>Interners that a sequence of interning calls makes.\<close>

inductive built_by :: "interner \<Rightarrow> bool" where
  empty: "built_by interner_default"
| verbatim: "built_by i \<Longrightarrow> intern_verbatim s i = Some (symbol, i') \<Longrightarrow> built_by i'"
| folded: "built_by i \<Longrightarrow> intern_folded s i = Some (symbol, i') \<Longrightarrow> built_by i'"

lemma built_by_ok: "built_by i \<Longrightarrow> interner_ok i"
  by (induction rule: built_by.induct) (auto intro: default_ok intern_verbatim_spec(1) intern_folded_spec(1))

text \<open>In an interner that calls have built, interning a name resolves to its lower-case spelling, two
  names get one symbol exactly when they are equal up to ASCII case, later lookups in any case find
  it, and the symbols handed out before keep their text.\<close>

lemma interning_identifies_names:
  assumes "built_by i" "intern_folded a i = Some (x, i1)" "intern_folded b i1 = Some (y, i2)"
  shows "resolve i2 x = Some (to_ascii_lowercase a) \<and> (x = y) = eq_ignore_ascii_case a b
    \<and> lookup_folded i2 c = (if eq_ignore_ascii_case c a then Some x else if eq_ignore_ascii_case c b then Some y
        else lookup_folded i c)
    \<and> (case resolve i k of None \<Rightarrow> True | Some t \<Rightarrow> resolve i2 k = Some t)"
proof -
  note ok = built_by_ok [OF assms(1)]
  note ok1 = intern_folded_spec(1) [OF ok assms(2)]
  note ok2 = intern_folded_spec(1) [OF ok1 assms(3)]
  have x: "resolve i2 x = Some (to_ascii_lowercase a)"
    using intern_folded_spec(2) [OF ok assms(2)] intern_folded_spec(3) [OF ok1 assms(3)] by blast
  have y: "resolve i2 y = Some (to_ascii_lowercase b)" by (rule intern_folded_spec(2) [OF ok1 assms(3)])
  have same: "eq_ignore_ascii_case s t \<longleftrightarrow> to_ascii_lowercase s = to_ascii_lowercase t" for s t
    by (simp add: eq_ignore_ascii_case_def to_ascii_lowercase_def)
  have ids: "in_index i2 (to_ascii_lowercase a) = Some x" "in_index i2 (to_ascii_lowercase b) = Some y"
    using x y by (simp_all add: interner_ok_iff [OF ok2])
  have xy: "(x = y) = eq_ignore_ascii_case a b" using x y ids same by fastforce
  have other: "in_index i2 t = in_index i t" if t: "t \<noteq> to_ascii_lowercase a" "t \<noteq> to_ascii_lowercase b" for t
  proof -
    have "in_index i2 t = Some k \<longleftrightarrow> in_index i t = Some k" for k
      unfolding interner_ok_iff [OF ok2] interner_ok_iff [OF ok]
      using t intern_folded_spec(3,4) [OF ok assms(2)] intern_folded_spec(3,4) [OF ok1 assms(3)] by blast
    then show ?thesis by (metis option.exhaust)
  qed
  have look: "lookup_folded i2 c = (if eq_ignore_ascii_case c a then Some x else if eq_ignore_ascii_case c b then Some y
        else lookup_folded i c)"
    using other ids by (simp add: lookup_folded_index same)
  have keep: "case resolve i k of None \<Rightarrow> True | Some t \<Rightarrow> resolve i2 k = Some t"
    using intern_folded_spec(3) [OF ok assms(2)] intern_folded_spec(3) [OF ok1 assms(3)] by (auto split: option.splits)
  show ?thesis using x xy look keep by blast
qed

lemma interning_identifies_names_witness:
  "(case intern_folded ''Trade'' interner_default of None \<Rightarrow> False
    | Some (x, i1) \<Rightarrow> (case intern_folded ''TRADE'' i1 of None \<Rightarrow> False
        | Some (y, i2) \<Rightarrow> x = y \<and> resolve i2 x = Some ''trade''))"
proof -
  have c: "to_ascii_lowercase ''Trade'' = ''trade''" "to_ascii_lowercase ''TRADE'' = ''trade''" by code_simp+
  have a: "intern_folded ''Trade'' interner_default = Some (0, \<lparr>in_strings = [''trade''], in_index = [''trade'' \<mapsto> 0]\<rparr>)"
    by (simp add: intern_folded_verbatim c intern_verbatim_def interner_default_def interner_push_def)
  have b: "intern_folded ''TRADE'' \<lparr>in_strings = [''trade''], in_index = [''trade'' \<mapsto> 0]\<rparr>
      = Some (0, \<lparr>in_strings = [''trade''], in_index = [''trade'' \<mapsto> 0]\<rparr>)"
    by (simp add: intern_folded_verbatim c intern_verbatim_def)
  show ?thesis using interning_identifies_names [OF built_by.empty a b] a b c by simp
qed

end
