(* ===== verification/Rules_Ir.thy ===== *)
theory Rules_Ir
  imports Interner Complex_Main
begin

text \<open>
  The compiled rules as the matching code reads them, \<open>crates/rules/src/ir.rs\<close> and the queries of
  \<open>query.rs\<close>: the arenas of matchers, fields and schemas, the shape of a field, the fields of a
  schema and the filters of a query.  Ids are indices; \<open>None\<close> is the panic of an index expression,
  or a union that contains itself, on which the recursion of the source does not end.  Bounds of
  floats are rational numbers.  Fields, schemas and types keep what this code reads.
\<close>

subsection \<open>Data\<close>

type_synonym matcher_id = nat
type_synonym field_id = nat
type_synonym schema_id = nat
type_synonym type_id = nat
type_synonym trait_id = nat

datatype pattern_part = Text symbol | Hole matcher_id

datatype shape = ScalarShape | BlockShape

datatype query_projection = Keys | Values

datatype query_selector = LiteralSelector symbol | SiblingSelector symbol

datatype query_value_kind = IntKind | FloatKind | BoolKind

record field_query =
  fq_schema :: schema_id
  fq_projection :: query_projection
  fq_selector :: "query_selector option"
  fq_scope_accepts :: "symbol option"
  fq_shape :: "shape option"
  fq_value_kind_any :: "query_value_kind list"
  fq_capability :: "symbol option"
  fq_call_args_none :: bool

datatype ref_target = TypeTarget type_id "symbol option" "symbol option"

datatype matcher =
    Scalar
  | Literal symbol
  | Pattern "pattern_part list"
  | IntBounds "int option" "int option"
  | FloatBounds "rat option" "rat option"
  | Bool
  | Date
  | Loc
  | Path "symbol option"
  | Ref ref_target
  | Def type_id "symbol option"
  | Enum nat
  | Scope "symbol option"
  | Link
  | Opaque
  | Union "matcher_id list"
  | Query field_query

datatype field_value = ScalarValue matcher_id | BlockValue schema_id | SelfBlock

record rules_field =
  fd_key :: matcher_id
  fd_value :: field_value
  fd_scopes_in :: "symbol list option"
  fd_capabilities :: "symbol list"

record rules_schema =
  sc_exact :: "(symbol \<times> field_id list) list"
  sc_patterns :: "field_id list"

record type_info =
  ti_trait_impls :: "trait_id list"

record rules_ir =
  ir_strings :: interner
  ir_schemas :: "rules_schema list"
  ir_fields :: "rules_field list"
  ir_matchers :: "matcher list"
  ir_types :: "type_info list"
  ir_traits :: "symbol \<rightharpoonup> trait_id"
  ir_compat :: "(symbol \<times> symbol) list"

definition query_new :: "schema_id \<Rightarrow> query_projection \<Rightarrow> field_query" where
  "query_new schema projection = \<lparr>fq_schema = schema, fq_projection = projection, fq_selector = None,
     fq_scope_accepts = None, fq_shape = None, fq_value_kind_any = [], fq_capability = None,
     fq_call_args_none = False\<rparr>"

definition ir_schema :: "rules_ir \<Rightarrow> schema_id \<Rightarrow> rules_schema option" where
  "ir_schema ir i = vec_get (ir_schemas ir) i"

definition ir_field :: "rules_ir \<Rightarrow> field_id \<Rightarrow> rules_field option" where
  "ir_field ir i = vec_get (ir_fields ir) i"

definition ir_matcher :: "rules_ir \<Rightarrow> matcher_id \<Rightarrow> matcher option" where
  "ir_matcher ir i = vec_get (ir_matchers ir) i"

definition ir_type_info :: "rules_ir \<Rightarrow> type_id \<Rightarrow> type_info option" where
  "ir_type_info ir i = vec_get (ir_types ir) i"

definition trait_by_name :: "rules_ir \<Rightarrow> string \<Rightarrow> trait_id option" where
  "trait_by_name ir name = Option.bind (lookup_folded (ir_strings ir) name) (ir_traits ir)"

subsection \<open>Shapes\<close>

text \<open>
  The alternatives of a union must agree.  The recursion is bounded by the number of matchers, which
  suffices, as the children of a matcher come before it in the arena.
\<close>

fun shape_loop :: "(matcher_id \<Rightarrow> shape option option) \<Rightarrow> shape option \<Rightarrow> matcher_id list \<Rightarrow> shape option option" where
  "shape_loop shape_of acc [] = Some (case acc of None \<Rightarrow> Some ScalarShape | Some s \<Rightarrow> Some s)"
| "shape_loop shape_of acc (alternative # alternatives) =
    (case shape_of alternative of
       None \<Rightarrow> None
     | Some None \<Rightarrow> Some None
     | Some (Some candidate) \<Rightarrow>
         (case acc of
            None \<Rightarrow> shape_loop shape_of (Some candidate) alternatives
          | Some existing \<Rightarrow>
              if existing = candidate then shape_loop shape_of acc alternatives else Some None))"

fun matcher_shape :: "rules_ir \<Rightarrow> nat \<Rightarrow> matcher_id \<Rightarrow> shape option option" where
  "matcher_shape ir 0 m = None"
| "matcher_shape ir (Suc n) m =
    (case ir_matcher ir m of
       None \<Rightarrow> None
     | Some (Union alternatives) \<Rightarrow> shape_loop (matcher_shape ir n) None alternatives
     | Some _ \<Rightarrow> Some (Some ScalarShape))"

definition field_shape :: "rules_ir \<Rightarrow> field_id \<Rightarrow> shape option option" where
  "field_shape ir field =
    (case ir_field ir field of
       None \<Rightarrow> None
     | Some f \<Rightarrow>
         (case fd_value f of
            ScalarValue m \<Rightarrow> matcher_shape ir (length (ir_matchers ir)) m
          | _ \<Rightarrow> Some (Some BlockShape)))"

fun any_kind :: "(matcher_id \<Rightarrow> bool option) \<Rightarrow> matcher_id list \<Rightarrow> bool option" where
  "any_kind kind_of [] = Some False"
| "any_kind kind_of (branch # branches) =
    (case kind_of branch of None \<Rightarrow> None | Some True \<Rightarrow> Some True | Some False \<Rightarrow> any_kind kind_of branches)"

fun matcher_has_query_kind :: "rules_ir \<Rightarrow> nat \<Rightarrow> query_value_kind list \<Rightarrow> matcher_id \<Rightarrow> bool option" where
  "matcher_has_query_kind ir 0 kinds m = None"
| "matcher_has_query_kind ir (Suc n) kinds m =
    (case ir_matcher ir m of
       None \<Rightarrow> None
     | Some (IntBounds _ _) \<Rightarrow> Some (IntKind \<in> set kinds)
     | Some (FloatBounds _ _) \<Rightarrow> Some (FloatKind \<in> set kinds)
     | Some Bool \<Rightarrow> Some (BoolKind \<in> set kinds)
     | Some (Union branches) \<Rightarrow> any_kind (matcher_has_query_kind ir n kinds) branches
     | Some _ \<Rightarrow> Some False)"

subsection \<open>Fields of a schema\<close>

text \<open>
  \<open>exact.get(&symbol)\<close>, and the fields in the order of their ids without repetition: the order in
  which the hash map gives its values does not matter.
\<close>

definition exact_fields :: "rules_ir \<Rightarrow> rules_schema \<Rightarrow> string \<Rightarrow> field_id list option" where
  "exact_fields ir schema key = Option.bind (lookup_folded (ir_strings ir) key) (map_of (sc_exact schema))"

definition schema_fields :: "rules_schema \<Rightarrow> field_id list" where
  "schema_fields schema = remdups (sort (concat (map snd (sc_exact schema)) @ sc_patterns schema))"

definition fields :: "rules_ir \<Rightarrow> schema_id \<Rightarrow> field_id list option" where
  "fields ir schema = map_option schema_fields (ir_schema ir schema)"

text \<open>A filter whose predicate may panic.\<close>

fun filter_option :: "('a \<Rightarrow> bool option) \<Rightarrow> 'a list \<Rightarrow> 'a list option" where
  "filter_option p [] = Some []"
| "filter_option p (x # xs) =
    (case p x of
       None \<Rightarrow> None
     | Some keep \<Rightarrow> map_option (\<lambda>ys. if keep then x # ys else ys) (filter_option p xs))"

definition shape_is :: "rules_ir \<Rightarrow> shape option \<Rightarrow> field_id \<Rightarrow> bool option" where
  "shape_is ir wanted field =
    (case wanted of None \<Rightarrow> Some True | Some s \<Rightarrow> map_option (\<lambda>actual. actual = Some s) (field_shape ir field))"

text \<open>\<open>lookup\<close>: all that its iterator gives.\<close>

definition lookup_candidates :: "rules_ir \<Rightarrow> schema_id \<Rightarrow> string \<Rightarrow> shape \<Rightarrow> field_id list option" where
  "lookup_candidates ir schema key shape =
    (case ir_schema ir schema of
       None \<Rightarrow> None
     | Some s \<Rightarrow>
         filter_option (shape_is ir (Some shape))
           ((case exact_fields ir s key of None \<Rightarrow> [] | Some fs \<Rightarrow> fs) @ sc_patterns s))"

definition field_child :: "rules_ir \<Rightarrow> field_id \<Rightarrow> schema_id \<Rightarrow> schema_id option option" where
  "field_child ir field current =
    map_option (\<lambda>f. case fd_value f of BlockValue s \<Rightarrow> Some s | SelfBlock \<Rightarrow> Some current | ScalarValue _ \<Rightarrow> None)
      (ir_field ir field)"

subsection \<open>Query filters\<close>

definition scopes_compatible :: "rules_ir \<Rightarrow> symbol \<Rightarrow> symbol \<Rightarrow> bool option" where
  "scopes_compatible ir actual expected =
    (if actual = expected then Some True
     else case resolve (ir_strings ir) actual of
       None \<Rightarrow> None
     | Some a \<Rightarrow>
         if a = ''any'' then Some True
         else map_option (\<lambda>e. e = ''any'' \<or> (actual, expected) \<in> set (ir_compat ir)) (resolve (ir_strings ir) expected))"

definition query_projected_matcher :: "rules_ir \<Rightarrow> field_query \<Rightarrow> field_id \<Rightarrow> matcher_id option option" where
  "query_projected_matcher ir query field =
    map_option (\<lambda>f. case fq_projection query of
        Keys \<Rightarrow> Some (fd_key f)
      | Values \<Rightarrow> (case fd_value f of ScalarValue m \<Rightarrow> Some m | _ \<Rightarrow> None))
      (ir_field ir field)"

text \<open>The tests of \<open>query_field_passes\<close> in their order; a later one is made only if the earlier ones pass.\<close>

definition and_also :: "bool option \<Rightarrow> bool option \<Rightarrow> bool option" where
  "and_also a b = (case a of Some True \<Rightarrow> b | Some False \<Rightarrow> Some False | None \<Rightarrow> None)"

definition scope_passes :: "rules_ir \<Rightarrow> field_query \<Rightarrow> rules_field \<Rightarrow> bool option" where
  "scope_passes ir query f =
    (case (fq_scope_accepts query, fd_scopes_in f) of
       (Some actual, Some scopes) \<Rightarrow>
         if scopes = [] then Some True else any_kind (scopes_compatible ir actual) scopes
     | _ \<Rightarrow> Some True)"

definition kind_passes :: "rules_ir \<Rightarrow> field_query \<Rightarrow> rules_field \<Rightarrow> bool option" where
  "kind_passes ir query f =
    (if fq_value_kind_any query = [] then Some True
     else case fd_value f of
       ScalarValue m \<Rightarrow> matcher_has_query_kind ir (length (ir_matchers ir)) (fq_value_kind_any query) m
     | _ \<Rightarrow> Some False)"

definition query_field_passes :: "rules_ir \<Rightarrow> field_query \<Rightarrow> field_id \<Rightarrow> bool option" where
  "query_field_passes ir query field =
    (case ir_field ir field of
       None \<Rightarrow> None
     | Some f \<Rightarrow>
         and_also (if fq_call_args_none query then shape_is ir (Some ScalarShape) field else Some True)
        (and_also (shape_is ir (fq_shape query) field)
        (and_also (Some (fq_projection query = Values \<longrightarrow> (case fd_value f of ScalarValue _ \<Rightarrow> True | _ \<Rightarrow> False)))
        (and_also (scope_passes ir query f)
        (and_also (Some (case fq_capability query of None \<Rightarrow> True | Some c \<Rightarrow> c \<in> set (fd_capabilities f)))
          (kind_passes ir query f))))))"

definition query_source_fields :: "rules_ir \<Rightarrow> field_query \<Rightarrow> field_id list option" where
  "query_source_fields ir query =
    (case fields ir (fq_schema query) of None \<Rightarrow> None | Some fs \<Rightarrow> filter_option (query_field_passes ir query) fs)"

subsection \<open>Well-formed rules\<close>

text \<open>
  Every id is in range, and the children of a matcher were interned before it, as lowering does.
\<close>

definition symbol_ok :: "rules_ir \<Rightarrow> symbol \<Rightarrow> bool" where
  "symbol_ok ir s \<longleftrightarrow> s < length (in_strings (ir_strings ir))"

definition query_ok :: "rules_ir \<Rightarrow> field_query \<Rightarrow> bool" where
  "query_ok ir query \<longleftrightarrow> fq_schema query < length (ir_schemas ir)
     \<and> pred_option (symbol_ok ir) (fq_scope_accepts query)
     \<and> pred_option (\<lambda>s. case s of LiteralSelector x \<Rightarrow> symbol_ok ir x | SiblingSelector x \<Rightarrow> symbol_ok ir x) (fq_selector query)"

definition part_ok :: "rules_ir \<Rightarrow> pattern_part \<Rightarrow> bool" where
  "part_ok ir part \<longleftrightarrow> (case part of Text s \<Rightarrow> symbol_ok ir s | Hole m \<Rightarrow> m < length (ir_matchers ir))"

definition matcher_ok :: "rules_ir \<Rightarrow> nat \<Rightarrow> matcher \<Rightarrow> bool" where
  "matcher_ok ir i m \<longleftrightarrow>
    (case m of
       Union ms \<Rightarrow> list_all (\<lambda>x. x < i) ms
     | Pattern parts \<Rightarrow> list_all (part_ok ir) parts
     | Query query \<Rightarrow> query_ok ir query
     | Ref (TypeTarget t _ _) \<Rightarrow> t < length (ir_types ir)
     | _ \<Rightarrow> True)"

definition field_ok :: "rules_ir \<Rightarrow> rules_field \<Rightarrow> bool" where
  "field_ok ir f \<longleftrightarrow> fd_key f < length (ir_matchers ir)
     \<and> (case fd_value f of ScalarValue m \<Rightarrow> m < length (ir_matchers ir) | BlockValue s \<Rightarrow> s < length (ir_schemas ir) | SelfBlock \<Rightarrow> True)
     \<and> pred_option (list_all (symbol_ok ir)) (fd_scopes_in f)"

definition schema_ok :: "rules_ir \<Rightarrow> rules_schema \<Rightarrow> bool" where
  "schema_ok ir s \<longleftrightarrow> list_all (\<lambda>fs. list_all (\<lambda>f. f < length (ir_fields ir)) (snd fs)) (sc_exact s)
     \<and> list_all (\<lambda>f. f < length (ir_fields ir)) (sc_patterns s)"

definition ir_ok :: "rules_ir \<Rightarrow> bool" where
  "ir_ok ir \<longleftrightarrow> list_all (\<lambda>(i, m). matcher_ok ir i m) (enumerate 0 (ir_matchers ir))
     \<and> list_all (field_ok ir) (ir_fields ir) \<and> list_all (schema_ok ir) (ir_schemas ir)"

lemma ir_ok_matcher: "ir_ok ir \<Longrightarrow> m < length (ir_matchers ir) \<Longrightarrow> matcher_ok ir m (ir_matchers ir ! m)"
  by (auto simp: ir_ok_def list_all_iff in_set_enumerate_eq)

lemma ir_ok_field: "ir_ok ir \<Longrightarrow> f < length (ir_fields ir) \<Longrightarrow> field_ok ir (ir_fields ir ! f)"
  by (auto simp: ir_ok_def list_all_iff)

lemma ir_ok_schema: "ir_ok ir \<Longrightarrow> s < length (ir_schemas ir) \<Longrightarrow> schema_ok ir (ir_schemas ir ! s)"
  by (auto simp: ir_ok_def list_all_iff)

lemma shape_loop_total:
  "(\<And>m. m \<in> set ms \<Longrightarrow> f m \<noteq> None) \<Longrightarrow> shape_loop f acc ms \<noteq> None"
proof (induction ms arbitrary: acc)
  case (Cons m ms)
  then show ?case using Cons.prems [of m] by (auto split: option.splits)
qed simp

lemma matcher_shape_total:
  "ir_ok ir \<Longrightarrow> m < n \<Longrightarrow> m < length (ir_matchers ir) \<Longrightarrow> matcher_shape ir n m \<noteq> None"
proof (induction n arbitrary: m)
  case (Suc n)
  show ?case
  proof (cases "ir_matchers ir ! m")
    case (Union ms)
    then have "\<And>x. x \<in> set ms \<Longrightarrow> matcher_shape ir n x \<noteq> None"
      using Suc ir_ok_matcher [OF Suc.prems(1,3)] by (fastforce simp: matcher_ok_def list_all_iff)
    then show ?thesis using Union Suc.prems by (simp add: ir_matcher_def vec_get_def shape_loop_total)
  qed (use Suc.prems in \<open>simp_all add: ir_matcher_def vec_get_def\<close>)
qed simp

lemma any_kind_total: "(\<And>m. m \<in> set ms \<Longrightarrow> f m \<noteq> None) \<Longrightarrow> any_kind f ms \<noteq> None"
proof (induction ms)
  case (Cons m ms)
  then show ?case using Cons.prems [of m] by (auto split: option.splits bool.splits)
qed simp

lemma matcher_has_query_kind_total:
  "ir_ok ir \<Longrightarrow> m < n \<Longrightarrow> m < length (ir_matchers ir) \<Longrightarrow> matcher_has_query_kind ir n kinds m \<noteq> None"
proof (induction n arbitrary: m)
  case (Suc n)
  show ?case
  proof (cases "ir_matchers ir ! m")
    case (Union ms)
    then have "\<And>x. x \<in> set ms \<Longrightarrow> matcher_has_query_kind ir n kinds x \<noteq> None"
      using Suc ir_ok_matcher [OF Suc.prems(1,3)] by (fastforce simp: matcher_ok_def list_all_iff)
    then show ?thesis using Union Suc.prems by (simp add: ir_matcher_def vec_get_def any_kind_total)
  qed (use Suc.prems in \<open>simp_all add: ir_matcher_def vec_get_def\<close>)
qed simp

lemma field_shape_total: "ir_ok ir \<Longrightarrow> f < length (ir_fields ir) \<Longrightarrow> field_shape ir f \<noteq> None"
  using ir_ok_field [of ir f] matcher_shape_total [of ir]
  by (auto simp: field_shape_def ir_field_def vec_get_def field_ok_def split: field_value.splits)

lemma shape_is_total: "ir_ok ir \<Longrightarrow> f < length (ir_fields ir) \<Longrightarrow> shape_is ir wanted f \<noteq> None"
  using field_shape_total by (auto simp: shape_is_def split: option.splits)

lemma filter_option_total: "(\<And>x. x \<in> set xs \<Longrightarrow> p x \<noteq> None) \<Longrightarrow> filter_option p xs \<noteq> None"
proof (induction xs)
  case (Cons x xs)
  then show ?case using Cons.prems [of x] by (auto split: option.splits)
qed simp

text \<open>A filter that ends is the filter.\<close>

lemma filter_option_Some:
  "filter_option p xs = Some ys \<Longrightarrow> ys = filter (\<lambda>x. p x = Some True) xs \<and> (\<forall>x \<in> set xs. p x \<noteq> None)"
  by (induction xs arbitrary: ys) (auto split: option.splits if_splits)

lemma scopes_compatible_total: "symbol_ok ir a \<Longrightarrow> symbol_ok ir e \<Longrightarrow> scopes_compatible ir a e \<noteq> None"
  by (auto simp: scopes_compatible_def resolve_def symbol_ok_def vec_get_def)

lemma and_also_total: "a \<noteq> None \<Longrightarrow> b \<noteq> None \<Longrightarrow> and_also a b \<noteq> None"
  by (auto simp: and_also_def split: option.splits bool.splits)

lemma scope_passes_total: "query_ok ir query \<Longrightarrow> field_ok ir f \<Longrightarrow> scope_passes ir query f \<noteq> None"
  using any_kind_total [of "the (fd_scopes_in f)" "scopes_compatible ir (the (fq_scope_accepts query))"] scopes_compatible_total [of ir]
  by (auto simp: scope_passes_def query_ok_def field_ok_def list_all_iff split: option.splits)

lemma query_field_passes_total:
  assumes "ir_ok ir" "query_ok ir query" "f < length (ir_fields ir)"
  shows "query_field_passes ir query f \<noteq> None"
proof -
  let ?f = "ir_fields ir ! f"
  have f: "ir_field ir f = Some ?f" "field_ok ir ?f"
    using assms ir_ok_field by (simp_all add: ir_field_def)
  have "kind_passes ir query ?f \<noteq> None"
    using f(2) matcher_has_query_kind_total [OF assms(1)]
    by (auto simp: kind_passes_def field_ok_def split: field_value.splits)
  then show ?thesis
    unfolding query_field_passes_def f(1) option.case
    by (intro and_also_total scope_passes_total) (use assms f shape_is_total in auto)
qed

lemma schema_fields_in_range: "schema_ok ir s \<Longrightarrow> x \<in> set (schema_fields s) \<Longrightarrow> x < length (ir_fields ir)"
  by (auto simp: schema_ok_def schema_fields_def list_all_iff)

lemma exact_fields_in_range:
  "schema_ok ir s \<Longrightarrow> exact_fields ir s key = Some fs \<Longrightarrow> x \<in> set fs \<Longrightarrow> x < length (ir_fields ir)"
  by (fastforce simp: schema_ok_def exact_fields_def list_all_iff bind_eq_Some_conv dest: map_of_SomeD)

lemma query_source_fields_total:
  assumes "ir_ok ir" "query_ok ir query"
  shows "query_source_fields ir query \<noteq> None"
proof -
  have s: "fq_schema query < length (ir_schemas ir)" using assms(2) by (simp add: query_ok_def)
  then have "filter_option (query_field_passes ir query) (schema_fields (ir_schemas ir ! fq_schema query)) \<noteq> None"
    using assms ir_ok_schema [OF assms(1) s] schema_fields_in_range query_field_passes_total
    by (intro filter_option_total) blast
  then show ?thesis using s by (simp add: query_source_fields_def fields_def ir_schema_def vec_get_def)
qed

end
