(* ===== verification/Pattern_Search.thy ===== *)
theory Pattern_Search
  imports Rules_Ir
begin

text \<open>
  The bounded search for the ways in which a pattern makes a value, \<open>SearchBudget\<close> and
  \<open>search_except\<close> of \<open>crates/rules/src/pattern.rs\<close>.  The evaluation of the holes is an argument
  here; \<open>Rules_Query\<close> closes the recursion.  The checkpoint answers its \<open>n\<close>th call by
  \<open>checkpoint n\<close>.  A result \<open>None\<close> is a panic, or a loop that does not end.
\<close>

subsection \<open>The budget\<close>

datatype search_limit = WorkLimit | StatesLimit | DepthLimit | CancelledLimit

record search_limits =
  sl_work :: nat
  sl_states :: nat
  sl_depth :: nat

definition default_limits :: search_limits where
  "default_limits = \<lparr>sl_work = 1048576, sl_states = 8192, sl_depth = 64\<rparr>"

text \<open>
  The depth counter is the level of the recursion, so it is not a field; \<open>sb_calls\<close> counts the calls
  of the checkpoint.
\<close>

record budget =
  sb_work :: nat
  sb_states :: nat
  sb_calls :: nat
  sb_limit :: "search_limit option"

definition budget_new :: "search_limits \<Rightarrow> budget" where
  "budget_new limits = \<lparr>sb_work = sl_work limits, sb_states = sl_states limits, sb_calls = 0, sb_limit = None\<rparr>"

definition charge :: "(nat \<Rightarrow> bool) \<Rightarrow> nat \<Rightarrow> nat \<Rightarrow> budget \<Rightarrow> bool \<times> budget" where
  "charge checkpoint work states b =
    (if sb_limit b \<noteq> None then (False, b)
     else
       let limit = (if checkpoint (sb_calls b) then Some CancelledLimit
                    else if sb_work b < work then Some WorkLimit
                    else if sb_states b < states then Some StatesLimit
                    else None);
           b = b\<lparr>sb_calls := sb_calls b + 1, sb_limit := limit\<rparr>
       in if limit \<noteq> None then (False, b)
          else (True, b\<lparr>sb_work := sb_work b - work, sb_states := sb_states b - states\<rparr>))"

subsection \<open>The search\<close>

type_synonym hole = "matcher_id \<times> nat \<times> nat"

type_synonym evaluator = "matcher_id \<Rightarrow> string \<Rightarrow> budget \<Rightarrow> (bool option \<times> budget) option"

record search_result =
  sr_matched :: "bool option"
  sr_holes :: "hole list"

datatype task =
    At nat nat "nat option" bool bool
  | HoleTask nat nat nat "nat option" bool bool

record search_state =
  ss_pending :: "task list"
  ss_seen :: "(nat \<times> nat \<times> bool \<times> bool) list"
  ss_routes :: "(nat option \<times> hole) list"
  ss_unresolved :: bool
  ss_budget :: budget

datatype step = Continue search_state | Break search_state | Accept "hole list" budget

fun ordinals_from :: "nat \<Rightarrow> pattern_part list \<Rightarrow> nat list" where
  "ordinals_from count [] = []"
| "ordinals_from count (part # parts) =
    count # ordinals_from (case part of Hole _ \<Rightarrow> count + 1 | Text _ \<Rightarrow> count) parts"

definition next_width :: "string \<Rightarrow> nat \<Rightarrow> nat option" where
  "next_width value_text offset = (if is_boundary value_text offset then char_width_at value_text offset else None)"

definition text_here :: "string \<Rightarrow> nat \<Rightarrow> string \<Rightarrow> bool" where
  "text_here value_text offset txt =
    (case str_get value_text offset (length value_text) of
       None \<Rightarrow> False
     | Some tail \<Rightarrow>
         (case str_get tail 0 (length txt) of None \<Rightarrow> False | Some start \<Rightarrow> eq_ignore_ascii_case start txt))"

text \<open>The holes of a route, followed from its last one.\<close>

fun collect_holes :: "nat \<Rightarrow> (nat option \<times> hole) list \<Rightarrow> nat option \<Rightarrow> hole list \<Rightarrow> hole list option" where
  "collect_holes n routes None holes = Some holes"
| "collect_holes 0 routes (Some r) holes = None"
| "collect_holes (Suc n) routes (Some r) holes =
    (case vec_get routes r of None \<Rightarrow> None | Some (parent, h) \<Rightarrow> collect_holes n routes parent (h # holes))"

definition push :: "task \<Rightarrow> search_state \<Rightarrow> search_state" where
  "push t st = st\<lparr>ss_pending := t # ss_pending st\<rparr>"

definition at_step ::
  "(nat \<Rightarrow> bool) \<Rightarrow> rules_ir \<Rightarrow> pattern_part list \<Rightarrow> string \<Rightarrow> hole list option
    \<Rightarrow> nat \<Rightarrow> nat \<Rightarrow> nat option \<Rightarrow> bool \<Rightarrow> bool \<Rightarrow> search_state \<Rightarrow> step option" where
  "at_step checkpoint ir parts value_text excluded part offset route unknown different st =
    (if (part, offset, unknown, different) \<in> set (ss_seen st) then Some (Continue st)
     else
       let st = st\<lparr>ss_seen := (part, offset, unknown, different) # ss_seen st\<rparr>
       in case vec_get parts part of
         None \<Rightarrow>
           if offset = length value_text then
             if excluded \<noteq> None \<and> \<not> different then Some (Continue st)
             else if unknown then Some (Continue (st\<lparr>ss_unresolved := True\<rparr>))
             else map_option (\<lambda>holes. Accept holes (ss_budget st))
               (collect_holes (length (ss_routes st)) (ss_routes st) route [])
           else Some (Continue st)
       | Some (Text s) \<Rightarrow>
           (case resolve (ir_strings ir) s of
              None \<Rightarrow> None
            | Some txt \<Rightarrow>
                let charged = charge checkpoint (length txt) 0 (ss_budget st);
                    st = st\<lparr>ss_budget := snd charged\<rparr>
                in if \<not> fst charged then Some (Break st)
                   else if text_here value_text offset txt
                   then Some (Continue (push (At (part + 1) (offset + length txt) route unknown different) st))
                   else Some (Continue st))
       | Some (Hole _) \<Rightarrow>
           (case next_width value_text offset of
              None \<Rightarrow> Some (Continue st)
            | Some w \<Rightarrow>
                Some (Continue (push (HoleTask part offset
                  (if part + 1 = length parts then length value_text else offset + w) route unknown different) st))))"

definition hole_step ::
  "evaluator \<Rightarrow> (nat \<Rightarrow> bool) \<Rightarrow> pattern_part list \<Rightarrow> nat list \<Rightarrow> string \<Rightarrow> hole list option
    \<Rightarrow> nat \<Rightarrow> nat \<Rightarrow> nat \<Rightarrow> nat option \<Rightarrow> bool \<Rightarrow> bool \<Rightarrow> search_state \<Rightarrow> step option" where
  "hole_step ev checkpoint parts ordinals value_text excluded part start stop route unknown different st =
    (let st = (case next_width value_text stop of
                 Some w \<Rightarrow> push (HoleTask part start (stop + w) route unknown different) st
               | None \<Rightarrow> st)
     in case (vec_get parts part, str_get value_text start stop, vec_get ordinals part) of
       (Some (Hole m), Some piece, Some ordinal) \<Rightarrow>
         (case ev m piece (ss_budget st) of
            None \<Rightarrow> None
          | Some (matched, b) \<Rightarrow>
              if matched = Some False then Some (Continue (st\<lparr>ss_budget := b\<rparr>))
              else
                let charged = charge checkpoint 1 1 b; st = st\<lparr>ss_budget := snd charged\<rparr>
                in if \<not> fst charged then Some (Break st)
                   else
                     Some (Continue (push (At (part + 1) stop (Some (length (ss_routes st)))
                         (unknown \<or> matched = None)
                         (different \<or> (case excluded of None \<Rightarrow> False
                                       | Some holes \<Rightarrow> vec_get holes ordinal \<noteq> Some (m, start, stop))))
                       (st\<lparr>ss_routes := ss_routes st @ [(route, (m, start, stop))]\<rparr>))))
     | _ \<Rightarrow> None)"

definition task_step ::
  "evaluator \<Rightarrow> (nat \<Rightarrow> bool) \<Rightarrow> rules_ir \<Rightarrow> pattern_part list \<Rightarrow> string \<Rightarrow> hole list option
    \<Rightarrow> task \<Rightarrow> search_state \<Rightarrow> step option" where
  "task_step ev checkpoint ir parts value_text excluded t st =
    (case t of
       At part offset route unknown different \<Rightarrow>
         at_step checkpoint ir parts value_text excluded part offset route unknown different st
     | HoleTask part start stop route unknown different \<Rightarrow>
         hole_step ev checkpoint parts (ordinals_from 0 parts) value_text excluded part start stop
           route unknown different st)"

definition search_finish :: "search_state \<Rightarrow> search_result \<times> budget" where
  "search_finish st =
    (\<lparr>sr_matched = (if ss_unresolved st \<or> sb_limit (ss_budget st) \<noteq> None then None else Some False),
      sr_holes = []\<rparr>, ss_budget st)"

text \<open>The loop; the fuel bounds the number of its turns.\<close>

fun search_loop ::
  "(nat \<Rightarrow> bool) \<Rightarrow> (task \<Rightarrow> search_state \<Rightarrow> step option) \<Rightarrow> nat \<Rightarrow> search_state
    \<Rightarrow> (search_result \<times> budget) option" where
  "search_loop checkpoint step n st =
    (case ss_pending st of
       [] \<Rightarrow> Some (search_finish st)
     | t # pending \<Rightarrow>
         (case n of
            0 \<Rightarrow> None
          | Suc n \<Rightarrow>
              let charged = charge checkpoint 1 1 (ss_budget st);
                  st = st\<lparr>ss_pending := pending, ss_budget := snd charged\<rparr>
              in if \<not> fst charged then Some (search_finish st)
                 else case step t st of
                   None \<Rightarrow> None
                 | Some (Continue st) \<Rightarrow> search_loop checkpoint step n st
                 | Some (Break st) \<Rightarrow> Some (search_finish st)
                 | Some (Accept holes b) \<Rightarrow> Some (\<lparr>sr_matched = Some True, sr_holes = holes\<rparr>, b)))"

declare search_loop.simps [simp del]

definition search_start :: "budget \<Rightarrow> search_state" where
  "search_start b = \<lparr>ss_pending = [At 0 0 None False False], ss_seen = [], ss_routes = [],
     ss_unresolved = False, ss_budget = b\<rparr>"

text \<open>A turn takes a unit of work, so the work that is left bounds the turns.\<close>

definition search_except ::
  "evaluator \<Rightarrow> (nat \<Rightarrow> bool) \<Rightarrow> rules_ir \<Rightarrow> pattern_part list \<Rightarrow> string \<Rightarrow> hole list option
    \<Rightarrow> budget \<Rightarrow> (search_result \<times> budget) option" where
  "search_except ev checkpoint ir parts value_text excluded b =
    (let charged = charge checkpoint (length parts) (length parts) b
     in if \<not> fst charged then Some (\<lparr>sr_matched = None, sr_holes = []\<rparr>, snd charged)
        else search_loop checkpoint (task_step ev checkpoint ir parts value_text excluded)
          (sb_work (snd charged) + 1) (search_start (snd charged)))"

definition pattern_search ::
  "evaluator \<Rightarrow> (nat \<Rightarrow> bool) \<Rightarrow> rules_ir \<Rightarrow> pattern_part list \<Rightarrow> string
    \<Rightarrow> budget \<Rightarrow> (search_result \<times> budget) option" where
  "pattern_search ev checkpoint ir parts value_text b = search_except ev checkpoint ir parts value_text None b"

definition unique_search ::
  "evaluator \<Rightarrow> (nat \<Rightarrow> bool) \<Rightarrow> rules_ir \<Rightarrow> pattern_part list \<Rightarrow> string
    \<Rightarrow> budget \<Rightarrow> (search_result \<times> budget) option" where
  "unique_search ev checkpoint ir parts value_text b =
    (case pattern_search ev checkpoint ir parts value_text b of
       None \<Rightarrow> None
     | Some (first, b) \<Rightarrow>
         if sr_matched first \<noteq> Some True then Some (first, b)
         else
           (case search_except ev checkpoint ir parts value_text (Some (sr_holes first)) b of
              None \<Rightarrow> None
            | Some (other, b) \<Rightarrow>
                Some (if sr_matched other = Some False then first else \<lparr>sr_matched = None, sr_holes = []\<rparr>, b)))"

text \<open>The two examples of the tests.\<close>

definition scalar_ir :: rules_ir where
  "scalar_ir = \<lparr>ir_strings = \<lparr>in_strings = [''_'', ''!''], in_index = Map.empty\<rparr>, ir_schemas = [], ir_fields = [],
     ir_matchers = [Scalar], ir_types = [], ir_traits = Map.empty, ir_compat = []\<rparr>"

lemma search_example:
  "map_option (\<lambda>(r, b). (sr_matched r, sr_holes r))
     (pattern_search (\<lambda>m v b. Some (Some (v \<noteq> ''e''), b)) (\<lambda>_. False) scalar_ir [Hole 0, Text 0, Hole 0] ''e_a_b''
        (budget_new default_limits))
   = Some (Some True, [(0, 0, 3), (0, 4, 5)])"
  by code_simp

lemma search_limit_example:
  "map_option (\<lambda>(r, b). (sr_matched r, sb_limit b))
     (pattern_search (\<lambda>m v b. Some (Some True, b)) (\<lambda>_. False) scalar_ir [Hole 0, Hole 0, Text 1] (replicate 30 (CHR ''a''))
        (budget_new (default_limits\<lparr>sl_work := 20\<rparr>)))
   = Some (None, Some WorkLimit)"
  by code_simp

end
