(* ===== verification/Pattern_Correct.thy ===== *)
theory Pattern_Correct
  imports Pattern_Search
begin

text \<open>
  What the bounded search finds.  A splitting of a value by a pattern gives every hole a piece of
  the value; the search decides whether there is one whose pieces the holes accept, and leaves the
  question open only if a limit was met or some piece is unknown.
\<close>

subsection \<open>Splittings\<close>

text \<open>\<open>hs\<close> are the pieces of the holes of \<open>parts\<close> from an offset of the value to its end.\<close>

fun splits :: "rules_ir \<Rightarrow> string \<Rightarrow> pattern_part list \<Rightarrow> nat \<Rightarrow> hole list \<Rightarrow> bool" where
  "splits ir v [] offset hs \<longleftrightarrow> hs = [] \<and> offset = length v"
| "splits ir v (Text s # parts) offset hs \<longleftrightarrow>
    (\<exists>lit. resolve (ir_strings ir) s = Some lit \<and> text_here v offset lit \<and> splits ir v parts (offset + length lit) hs)"
| "splits ir v (Hole m # parts) offset hs \<longleftrightarrow>
    (\<exists>stop hs'. hs = (m, offset, stop) # hs' \<and> offset < stop \<and> is_boundary v stop \<and> splits ir v parts stop hs')"

type_synonym judge = "matcher_id \<Rightarrow> string \<Rightarrow> bool option"

definition piece :: "string \<Rightarrow> hole \<Rightarrow> string" where
  "piece v h = (case h of (m, start, stop) \<Rightarrow> take (stop - start) (drop start v))"

definition verdict :: "judge \<Rightarrow> string \<Rightarrow> hole \<Rightarrow> bool option" where
  "verdict ho v h = ho (fst h) (piece v h)"

definition certain :: "judge \<Rightarrow> string \<Rightarrow> hole list \<Rightarrow> bool" where
  "certain ho v hs \<longleftrightarrow> list_all (\<lambda>h. verdict ho v h = Some True) hs"

definition possible :: "judge \<Rightarrow> string \<Rightarrow> hole list \<Rightarrow> bool" where
  "possible ho v hs \<longleftrightarrow> list_all (\<lambda>h. verdict ho v h \<noteq> Some False) hs"

definition pattern_verdict :: "judge \<Rightarrow> rules_ir \<Rightarrow> pattern_part list \<Rightarrow> string \<Rightarrow> hole list option \<Rightarrow> bool option" where
  "pattern_verdict ho ir parts v excluded =
    (if \<exists>hs. splits ir v parts 0 hs \<and> Some hs \<noteq> excluded \<and> certain ho v hs then Some True
     else if \<exists>hs. splits ir v parts 0 hs \<and> Some hs \<noteq> excluded \<and> possible ho v hs then None
     else Some False)"

definition hole_count :: "pattern_part list \<Rightarrow> nat" where
  "hole_count parts = length (filter (\<lambda>p. case p of Hole _ \<Rightarrow> True | Text _ \<Rightarrow> False) parts)"

lemma splits_length: "splits ir v parts offset hs \<Longrightarrow> length hs = hole_count parts"
  by (induction ir v parts offset hs rule: splits.induct) (auto simp: hole_count_def)

text \<open>A last hole goes to the end of the value.\<close>

lemma splits_last: "splits ir v [Hole m] offset hs \<longleftrightarrow> offset < length v \<and> hs = [(m, offset, length v)]"
  by auto

subsection \<open>Charging\<close>

definition spent :: "budget \<Rightarrow> budget \<Rightarrow> bool" where
  "spent b b' \<longleftrightarrow> sb_work b' \<le> sb_work b \<and> sb_states b' \<le> sb_states b \<and> (sb_limit b' = None \<longrightarrow> sb_limit b = None)"

lemma spent_refl [simp]: "spent b b" by (simp add: spent_def)

lemma spent_trans [trans]: "spent a b \<Longrightarrow> spent b c \<Longrightarrow> spent a c" by (auto simp: spent_def)

lemma charge_spent: "spent b (snd (charge checkpoint work states b))"
  by (auto simp: charge_def spent_def Let_def)

lemma charge_fails: "\<not> fst (charge checkpoint work states b) \<Longrightarrow> sb_limit (snd (charge checkpoint work states b)) \<noteq> None"
  by (auto simp: charge_def Let_def split: if_splits)

lemma charge_works:
  assumes "fst (charge checkpoint work states b)"
  shows "sb_limit b = None" "sb_limit (snd (charge checkpoint work states b)) = None"
    "sb_work (snd (charge checkpoint work states b)) + work = sb_work b"
  using assms by (auto simp: charge_def Let_def split: if_splits)

subsection \<open>The invariant\<close>

text \<open>
  \<open>noted\<close>: a place of the search is seen or pending.  \<open>closed\<close>: a seen place whose next places are
  noted, or whose hole is still being tried from some end on.
\<close>

definition noted :: "search_state \<Rightarrow> nat \<times> nat \<times> bool \<times> bool \<Rightarrow> bool" where
  "noted st key \<longleftrightarrow> (case key of (p, off, u, d) \<Rightarrow>
     key \<in> set (ss_seen st) \<or> (\<exists>route. At p off route u d \<in> set (ss_pending st)))"

definition differs :: "hole list option \<Rightarrow> nat \<Rightarrow> hole \<Rightarrow> bool" where
  "differs excluded i h \<longleftrightarrow> (case excluded of None \<Rightarrow> False | Some E \<Rightarrow> vec_get E i \<noteq> Some h)"

definition covered ::
  "judge \<Rightarrow> pattern_part list \<Rightarrow> string \<Rightarrow> hole list option \<Rightarrow> search_state
    \<Rightarrow> nat \<Rightarrow> matcher_id \<Rightarrow> nat \<Rightarrow> bool \<Rightarrow> bool \<Rightarrow> nat \<Rightarrow> bool" where
  "covered ho parts v excluded st p m off u d stop \<longleftrightarrow>
     (\<exists>stop' route. stop' \<le> stop \<and> HoleTask p off stop' route u d \<in> set (ss_pending st))
     \<or> verdict ho v (m, off, stop) = Some False
     \<or> noted st (p + 1, stop, u \<or> verdict ho v (m, off, stop) = None,
          d \<or> differs excluded (hole_count (take p parts)) (m, off, stop))"

definition closed ::
  "judge \<Rightarrow> rules_ir \<Rightarrow> pattern_part list \<Rightarrow> string \<Rightarrow> hole list option \<Rightarrow> search_state
    \<Rightarrow> nat \<times> nat \<times> bool \<times> bool \<Rightarrow> bool" where
  "closed ho ir parts v excluded st key \<longleftrightarrow> (case key of (p, off, u, d) \<Rightarrow>
     if length parts \<le> p then off = length v \<longrightarrow> (excluded \<noteq> None \<and> \<not> d) \<or> (u \<and> ss_unresolved st)
     else case parts ! p of
       Text s \<Rightarrow> (\<forall>lit. resolve (ir_strings ir) s = Some lit \<longrightarrow> text_here v off lit \<longrightarrow>
         noted st (p + 1, off + length lit, u, d))
     | Hole m \<Rightarrow> (\<forall>stop. off < stop \<and> is_boundary v stop \<and> (p + 1 = length parts \<longrightarrow> stop = length v) \<longrightarrow>
         covered ho parts v excluded st p m off u d stop))"

text \<open>The holes of a route.\<close>

fun route_of :: "(nat option \<times> hole) list \<Rightarrow> nat option \<Rightarrow> hole list \<Rightarrow> bool" where
  "route_of routes r [] \<longleftrightarrow> r = None"
| "route_of routes r (h # hs) \<longleftrightarrow>
    (\<exists>i parent. r = Some i \<and> i < length routes \<and> routes ! i = (parent, h) \<and> route_of routes parent hs
      \<and> (case parent of None \<Rightarrow> True | Some j \<Rightarrow> j < i))"

definition hole_before :: "rules_ir \<Rightarrow> string \<Rightarrow> pattern_part list \<Rightarrow> nat \<Rightarrow> nat \<Rightarrow> hole list \<Rightarrow> bool" where
  "hole_before ir v parts p off hs \<longleftrightarrow>
    (\<forall>tail. splits ir v (drop p parts) off tail \<longrightarrow> splits ir v parts 0 (hs @ tail)) \<and> length hs = hole_count (take p parts)"

definition place_ok ::
  "judge \<Rightarrow> rules_ir \<Rightarrow> pattern_part list \<Rightarrow> string \<Rightarrow> hole list option \<Rightarrow> (nat option \<times> hole) list
    \<Rightarrow> nat \<Rightarrow> nat \<Rightarrow> nat option \<Rightarrow> bool \<Rightarrow> bool \<Rightarrow> bool" where
  "place_ok ho ir parts v excluded routes p off route u d \<longleftrightarrow>
     p \<le> length parts \<and> is_boundary v off \<and>
     (\<exists>hs. route_of routes route (rev hs) \<and> hole_before ir v parts p off hs \<and> possible ho v hs
       \<and> u = (\<exists>h \<in> set hs. verdict ho v h = None)
       \<and> d = (\<exists>i < length hs. differs excluded i (hs ! i)))"

definition task_ok ::
  "judge \<Rightarrow> rules_ir \<Rightarrow> pattern_part list \<Rightarrow> string \<Rightarrow> hole list option \<Rightarrow> (nat option \<times> hole) list \<Rightarrow> task \<Rightarrow> bool" where
  "task_ok ho ir parts v excluded routes t \<longleftrightarrow>
    (case t of
       At p off route u d \<Rightarrow> place_ok ho ir parts v excluded routes p off route u d
     | HoleTask p off stop route u d \<Rightarrow>
         place_ok ho ir parts v excluded routes p off route u d
         \<and> p < length parts \<and> (case parts ! p of Hole _ \<Rightarrow> True | Text _ \<Rightarrow> False)
         \<and> off < stop \<and> is_boundary v stop)"

definition search_ok ::
  "judge \<Rightarrow> rules_ir \<Rightarrow> pattern_part list \<Rightarrow> string \<Rightarrow> hole list option \<Rightarrow> search_state \<Rightarrow> bool" where
  "search_ok ho ir parts v excluded st \<longleftrightarrow>
     list_all (task_ok ho ir parts v excluded (ss_routes st)) (ss_pending st)
     \<and> noted st (0, 0, False, False)
     \<and> (\<forall>key \<in> set (ss_seen st). closed ho ir parts v excluded st key)
     \<and> (ss_unresolved st \<longrightarrow> (\<exists>hs. splits ir v parts 0 hs \<and> Some hs \<noteq> excluded \<and> possible ho v hs))"

text \<open>At the end every seen place is closed for good, so no splitting is left.\<close>

definition tail_differs :: "hole list option \<Rightarrow> nat \<Rightarrow> hole list \<Rightarrow> bool" where
  "tail_differs excluded k hs \<longleftrightarrow> (\<exists>i < length hs. differs excluded (k + i) (hs ! i))"

lemma tail_differs_simps [simp]:
  "tail_differs excluded k [] = False"
  "tail_differs excluded k (h # hs) = (differs excluded k h \<or> tail_differs excluded (Suc k) hs)"
  by (simp_all add: tail_differs_def Ex_less_Suc2)

lemma hole_count_take_Suc:
  "p < length parts \<Longrightarrow> hole_count (take (Suc p) parts) =
    hole_count (take p parts) + (case parts ! p of Hole _ \<Rightarrow> 1 | Text _ \<Rightarrow> 0)"
  by (simp add: hole_count_def take_Suc_conv_app_nth split: pattern_part.splits)

lemma closed_end:
  assumes closed: "\<And>key. key \<in> set (ss_seen st) \<Longrightarrow> closed ho ir parts v excluded st key"
    and empty: "ss_pending st = []"
  shows "splits ir v (drop p parts) off tail \<Longrightarrow> (p, off, u, d) \<in> set (ss_seen st) \<Longrightarrow> p \<le> length parts \<Longrightarrow>
    possible ho v tail \<Longrightarrow>
    (excluded \<noteq> None \<and> \<not> d \<and> \<not> tail_differs excluded (hole_count (take p parts)) tail)
    \<or> ((u \<or> (\<exists>h \<in> set tail. verdict ho v h = None)) \<and> ss_unresolved st)"
proof (induction "length parts - p" arbitrary: p off tail u d)
  case 0
  then show ?case using closed [OF 0(3)] by (auto simp: closed_def)
next
  case (Suc n)
  then have p: "p < length parts" by simp
  have d1: "drop p parts = parts ! p # drop (Suc p) parts" using p by (simp add: Cons_nth_drop_Suc)
  have n: "n = length parts - Suc p" using Suc.hyps(2) by simp
  note cl = closed [OF Suc.prems(2)]
  have noted_iff: "noted st key \<longleftrightarrow> key \<in> set (ss_seen st)" for key by (simp add: noted_def empty split: prod.splits)
  show ?case
  proof (cases "parts ! p")
    case (Text s)
    then obtain lit where lit: "resolve (ir_strings ir) s = Some lit" "text_here v off lit"
      "splits ir v (drop (Suc p) parts) (off + length lit) tail" using Suc.prems(1) d1 by auto
    have "(Suc p, off + length lit, u, d) \<in> set (ss_seen st)"
      using cl p Text lit noted_iff by (simp add: closed_def)
    from Suc.hyps(1) [OF n lit(3) this _ Suc.prems(4)] show ?thesis
      using p Text by (simp add: hole_count_take_Suc)
  next
    case (Hole m)
    then obtain stop hs where hs: "tail = (m, off, stop) # hs" "off < stop" "is_boundary v stop"
      "splits ir v (drop (Suc p) parts) stop hs" using Suc.prems(1) d1 by auto
    have last: "Suc p = length parts \<longrightarrow> stop = length v" using hs(4) by auto
    have poss: "possible ho v hs" "verdict ho v (m, off, stop) \<noteq> Some False"
      using Suc.prems(4) hs(1) by (auto simp: possible_def)
    have "(Suc p, stop, u \<or> verdict ho v (m, off, stop) = None,
        d \<or> differs excluded (hole_count (take p parts)) (m, off, stop)) \<in> set (ss_seen st)"
      using cl p Hole hs(2,3) last poss(2) by (simp add: closed_def covered_def noted_iff empty) blast
    from Suc.hyps(1) [OF n hs(4) this _ poss(1)] show ?thesis
      using p Hole hs(1) by (auto simp: hole_count_take_Suc)
  qed
qed

lemma closed_mono:
  assumes "closed ho ir parts v excluded st key"
    and "\<And>key. noted st key \<Longrightarrow> noted st' key"
    and "\<And>p m off u d stop. covered ho parts v excluded st p m off u d stop \<Longrightarrow> p < length parts \<Longrightarrow> parts ! p = Hole m \<Longrightarrow>
      is_boundary v stop \<Longrightarrow> (p + 1 = length parts \<Longrightarrow> stop = length v) \<Longrightarrow> covered ho parts v excluded st' p m off u d stop"
    and "ss_unresolved st \<Longrightarrow> ss_unresolved st'"
  shows "closed ho ir parts v excluded st' key"
proof -
  obtain p off u d where key: "key = (p, off, u, d)" by (cases key)
  show ?thesis
  proof (cases "p < length parts")
    case False
    then show ?thesis using assms(1,4) by (auto simp: closed_def key)
  next
    case True
    then show ?thesis
    proof (cases "parts ! p")
      case (Text s)
      then show ?thesis using assms(1,2) True by (simp add: closed_def key)
    next
      case (Hole m)
      then show ?thesis using assms(1,3) True by (simp add: closed_def key)
    qed
  qed
qed

subsection \<open>Routes\<close>

lemma route_of_append: "route_of routes r hs \<Longrightarrow> route_of (routes @ extra) r hs"
  by (induction hs arbitrary: r) (fastforce simp: nth_append)+

lemma collect_route:
  "route_of routes r ks \<Longrightarrow> (case r of None \<Rightarrow> True | Some i \<Rightarrow> i < n) \<Longrightarrow>
    collect_holes n routes r holes = Some (rev ks @ holes)"
proof (induction ks arbitrary: n r holes)
  case (Cons k ks)
  then obtain i parent n' where i: "r = Some i" "i < length routes" "routes ! i = (parent, k)" "route_of routes parent ks"
    "case parent of None \<Rightarrow> True | Some j \<Rightarrow> j < i" "n = Suc n'"
    by (cases n) auto
  have "case parent of None \<Rightarrow> True | Some j \<Rightarrow> j < n'" using i(5,6) Cons.prems(2) i(1) by (auto split: option.splits)
  then show ?case using Cons.IH [OF i(4)] i by (simp add: vec_get_def)
qed simp

lemma route_bound: "route_of routes r ks \<Longrightarrow> (case r of None \<Rightarrow> True | Some i \<Rightarrow> i < length routes)"
  by (cases ks) auto

lemma place_ok_append:
  "place_ok ho ir parts v excluded routes p off route u d \<Longrightarrow>
    place_ok ho ir parts v excluded (routes @ extra) p off route u d"
  unfolding place_ok_def using route_of_append by blast

lemma task_ok_append: "task_ok ho ir parts v excluded routes t \<Longrightarrow> task_ok ho ir parts v excluded (routes @ extra) t"
  by (cases t) (auto simp: task_ok_def intro: place_ok_append)

text \<open>A place at the end of the pattern and of the value is a splitting.\<close>

lemma place_at_end:
  assumes place: "place_ok ho ir parts v excluded routes p (length v) route u d" and p: "length parts \<le> p"
    and E: "\<And>E. excluded = Some E \<Longrightarrow> length E = hole_count parts"
    and d: "\<not> (excluded \<noteq> None \<and> \<not> d)"
  obtains hs where "splits ir v parts 0 hs" "possible ho v hs" "Some hs \<noteq> excluded"
    "collect_holes (length routes) routes route [] = Some hs" "u = (\<exists>h \<in> set hs. verdict ho v h = None)"
proof -
  obtain hs where hs: "route_of routes route (rev hs)" "hole_before ir v parts p (length v) hs" "possible ho v hs"
    "u = (\<exists>h \<in> set hs. verdict ho v h = None)" "d = (\<exists>i < length hs. differs excluded i (hs ! i))"
    using place unfolding place_ok_def by blast
  have "splits ir v (drop p parts) (length v) []" using p by simp
  then have "splits ir v parts 0 hs" using hs(2) unfolding hole_before_def by (metis append_Nil2)
  moreover have "Some hs \<noteq> excluded" using d hs(5) by (auto simp: differs_def)
  moreover have "collect_holes (length routes) routes route [] = Some hs"
    using collect_route [OF hs(1) route_bound [OF hs(1)]] by simp
  ultimately show thesis using that hs(3,4) by blast
qed

lemma certain_iff: "possible ho v hs \<Longrightarrow> certain ho v hs \<longleftrightarrow> \<not> (\<exists>h \<in> set hs. verdict ho v h = None)"
  by (auto simp: possible_def certain_def list_all_iff) (metis (full_types) not_None_eq)

subsection \<open>Boundaries\<close>

lemma boundary_of_tail: "is_boundary (drop off v) k \<Longrightarrow> is_boundary v off \<Longrightarrow> is_boundary v (off + k)"
  by (cases "k = 0") (auto simp: is_boundary_def)

lemma boundary_in_tail: "is_boundary v k \<Longrightarrow> off \<le> k \<Longrightarrow> is_boundary (drop off v) (k - off)"
  by (auto simp: is_boundary_def)

lemma text_here_boundary: "text_here v off lit \<Longrightarrow> is_boundary v (off + length lit)"
  by (auto simp: text_here_def str_get_Some split: option.splits intro: boundary_of_tail)

lemma next_width_Some:
  assumes "valid_utf8 v" "next_width v off = Some w"
  shows "off < off + w" "is_boundary v off" "is_boundary v (off + w)" "off + w \<le> length v"
    "\<And>e. off < e \<Longrightarrow> is_boundary v e \<Longrightarrow> off + w \<le> e"
proof -
  have off: "is_boundary v off" "off < length v" "w = utf8_width (byte_of (v ! off))"
    using assms(2) by (auto simp: next_width_def char_width_at_def split: if_splits)
  then show "off < off + w" "is_boundary v off" "is_boundary v (off + w)" "off + w \<le> length v"
    using valid_utf8_next_boundary [OF assms(1) off(1,2)] utf8_width_pos by auto
  fix e assume e: "off < e" "is_boundary v e"
  have v: "drop off v = v ! off # drop (Suc off) v" using off(2) by (simp add: Cons_nth_drop_Suc)
  have "w \<le> e - off"
    using first_char_boundary(3) [of "v ! off" "drop (Suc off) v" "e - off"] valid_utf8_drop [OF assms(1) off(1)]
      boundary_in_tail [OF e(2), of off] e(1) off(3) v by simp
  then show "off + w \<le> e" using e(1) by simp
qed

lemma next_width_None: "next_width v off = None \<Longrightarrow> is_boundary v off \<Longrightarrow> \<not> (off < e \<and> is_boundary v e)"
  using is_boundary_le [of v e] by (auto simp: next_width_def char_width_at_def split: if_splits)

lemma slice_ok:
  assumes "valid_utf8 v" "is_boundary v start" "is_boundary v stop" "start < stop"
  shows "str_get v start stop = Some (take (stop - start) (drop start v))" "valid_utf8 (take (stop - start) (drop start v))"
  using assms valid_utf8_take [OF valid_utf8_drop [OF assms(1,2)] boundary_in_tail [OF assms(3), of start]]
  by (auto simp: str_get_def)

subsection \<open>The steps keep the invariant\<close>

lemma at_advance:
  assumes ok: "search_ok ho ir parts v excluded st" and st: "ss_pending st = At p off route u d # ts"
    and st': "ss_pending st' = new @ ts" "set (ss_seen st') = insert (p, off, u, d) (set (ss_seen st))" "ss_routes st' = ss_routes st"
    and new: "list_all (task_ok ho ir parts v excluded (ss_routes st)) new"
    and unresolved: "ss_unresolved st \<Longrightarrow> ss_unresolved st'"
      "ss_unresolved st' \<Longrightarrow> \<not> ss_unresolved st \<Longrightarrow> \<exists>hs. splits ir v parts 0 hs \<and> Some hs \<noteq> excluded \<and> possible ho v hs"
    and here: "(p, off, u, d) \<notin> set (ss_seen st) \<Longrightarrow> closed ho ir parts v excluded st' (p, off, u, d)"
  shows "search_ok ho ir parts v excluded st'"
proof -
  have noted: "noted st' key" if "noted st key" for key
    using that st st' by (auto simp: noted_def split: prod.splits)
  have covered: "covered ho parts v excluded st' p' m off' u' d' stop"
    if "covered ho parts v excluded st p' m off' u' d' stop" for p' m off' u' d' stop
    using that st st' noted unfolding covered_def by auto
  have "closed ho ir parts v excluded st' key" if "key \<in> set (ss_seen st')" for key
  proof (cases "key \<in> set (ss_seen st)")
    case True
    then have "closed ho ir parts v excluded st key" using ok by (simp add: search_ok_def)
    then show ?thesis using noted covered unresolved(1) by (rule closed_mono)
  next
    case False
    then show ?thesis using that st'(2) here by auto
  qed
  moreover have "list_all (task_ok ho ir parts v excluded (ss_routes st')) (ss_pending st')"
    using ok st st' new by (simp add: search_ok_def)
  moreover have "noted st' (0, 0, False, False)" using ok noted by (simp add: search_ok_def)
  moreover have "ss_unresolved st' \<longrightarrow> (\<exists>hs. splits ir v parts 0 hs \<and> Some hs \<noteq> excluded \<and> possible ho v hs)"
    using ok unresolved(2) by (auto simp: search_ok_def)
  ultimately show ?thesis by (simp add: search_ok_def)
qed

text \<open>What a step gives: a state that is still right, or a splitting.\<close>

definition step_ok ::
  "judge \<Rightarrow> rules_ir \<Rightarrow> pattern_part list \<Rightarrow> string \<Rightarrow> hole list option \<Rightarrow> budget \<Rightarrow> step option \<Rightarrow> bool" where
  "step_ok ho ir parts v excluded b res \<longleftrightarrow>
    (case res of
       None \<Rightarrow> False
     | Some (Continue st') \<Rightarrow> spent b (ss_budget st') \<and>
         (sb_limit (ss_budget st') = None \<longrightarrow> search_ok ho ir parts v excluded st')
     | Some (Break st') \<Rightarrow> spent b (ss_budget st') \<and> sb_limit (ss_budget st') \<noteq> None
     | Some (Accept hs b') \<Rightarrow> b' = b \<and> splits ir v parts 0 hs \<and> Some hs \<noteq> excluded \<and> certain ho v hs)"

lemma place_after_text:
  assumes "place_ok ho ir parts v excluded routes p off route u d" "p < length parts" "parts ! p = Text s"
    and "resolve (ir_strings ir) s = Some lit" "text_here v off lit"
  shows "place_ok ho ir parts v excluded routes (p + 1) (off + length lit) route u d"
proof -
  have "drop p parts = Text s # drop (p + 1) parts" using assms(2,3) by (simp add: Cons_nth_drop_Suc [symmetric])
  then have "hole_before ir v parts p off hs \<Longrightarrow> hole_before ir v parts (p + 1) (off + length lit) hs" for hs
    using assms(2-5) by (auto simp: hole_before_def hole_count_take_Suc)
  then show ?thesis using assms(1,2) text_here_boundary [OF assms(5)] unfolding place_ok_def by auto
qed

lemma at_step_ok:
  assumes ok: "search_ok ho ir parts v excluded st" and st: "ss_pending st = At p off route u d # ts"
    and v: "valid_utf8 v" and parts: "list_all (part_ok ir) parts"
    and E: "\<And>E. excluded = Some E \<Longrightarrow> length E = hole_count parts"
  shows "step_ok ho ir parts v excluded b
    (at_step checkpoint ir parts v excluded p off route u d (st\<lparr>ss_pending := ts, ss_budget := b\<rparr>))"
proof -
  let ?st = "st\<lparr>ss_pending := ts, ss_budget := b\<rparr>"
  have place: "place_ok ho ir parts v excluded (ss_routes st) p off route u d"
    using ok st by (simp add: search_ok_def task_ok_def)
  show ?thesis
  proof (cases "(p, off, u, d) \<in> set (ss_seen st)")
    case True
    have "search_ok ho ir parts v excluded ?st"
      by (rule at_advance [OF ok st, where new = "[]"]) (use True in auto)
    then show ?thesis using True by (simp add: at_step_def step_ok_def)
  next
    case False
    let ?seen = "?st\<lparr>ss_seen := (p, off, u, d) # ss_seen st\<rparr>"
    show ?thesis
    proof (cases "p < length parts")
      case p: False
      then have at: "at_step checkpoint ir parts v excluded p off route u d ?st =
          (if off = length v then
             if excluded \<noteq> None \<and> \<not> d then Some (Continue ?seen)
             else if u then Some (Continue (?seen\<lparr>ss_unresolved := True\<rparr>))
             else map_option (\<lambda>holes. Accept holes b) (collect_holes (length (ss_routes st)) (ss_routes st) route [])
           else Some (Continue ?seen))"
        using False by (simp add: at_step_def Let_def vec_get_def)
      have plain: "search_ok ho ir parts v excluded ?seen" if "off = length v \<Longrightarrow> excluded \<noteq> None \<and> \<not> d"
        by (rule at_advance [OF ok st, where new = "[]"]) (use False p that in \<open>auto simp: closed_def\<close>)
      show ?thesis
      proof (cases "off = length v \<and> \<not> (excluded \<noteq> None \<and> \<not> d)")
        case True
        then obtain hs where hs: "splits ir v parts 0 hs" "possible ho v hs" "Some hs \<noteq> excluded"
            "collect_holes (length (ss_routes st)) (ss_routes st) route [] = Some hs" "u = (\<exists>h \<in> set hs. verdict ho v h = None)"
          using place_at_end [of ho ir parts v excluded "ss_routes st" p route u d] place p E by auto
        show ?thesis
        proof (cases u)
          case True
          have "search_ok ho ir parts v excluded (?seen\<lparr>ss_unresolved := True\<rparr>)"
            by (rule at_advance [OF ok st, where new = "[]"]) (use False p True hs in \<open>auto simp: closed_def\<close>)
          then show ?thesis unfolding at step_ok_def using True \<open>off = length v \<and> _\<close> by auto
        next
          case False
          then have "certain ho v hs" using hs(5) certain_iff [OF hs(2)] by blast
          then show ?thesis unfolding at step_ok_def using False hs(1,3,4) \<open>off = length v \<and> _\<close> by auto
        qed
      next
        case no: False
        then have "at_step checkpoint ir parts v excluded p off route u d ?st = Some (Continue ?seen)"
          unfolding at by auto
        then show ?thesis using plain no by (auto simp: step_ok_def)
      qed
    next
      case p: True
      show ?thesis
      proof (cases "parts ! p")
        case (Text s)
        have "part_ok ir (Text s)" using parts p Text by (metis list_all_length)
        then obtain lit where lit: "resolve (ir_strings ir) s = Some lit"
          by (auto simp: part_ok_def symbol_ok_def resolve_def vec_get_def)
        define c where "c = charge checkpoint (length lit) 0 b"
        have at: "at_step checkpoint ir parts v excluded p off route u d ?st =
          (if \<not> fst c then Some (Break (?seen\<lparr>ss_budget := snd c\<rparr>))
           else if text_here v off lit then Some (Continue (push (At (p + 1) (off + length lit) route u d) (?seen\<lparr>ss_budget := snd c\<rparr>)))
           else Some (Continue (?seen\<lparr>ss_budget := snd c\<rparr>)))"
          using False p Text lit by (simp add: at_step_def Let_def vec_get_def c_def)
        have c: "spent b (snd c)" "\<not> fst c \<Longrightarrow> sb_limit (snd c) \<noteq> None"
          unfolding c_def by (rule charge_spent, rule charge_fails)
        have "search_ok ho ir parts v excluded (?seen\<lparr>ss_budget := snd c\<rparr>)" if "\<not> text_here v off lit"
          by (rule at_advance [OF ok st, where new = "[]"]) (use False p Text lit that in \<open>auto simp: closed_def\<close>)
        moreover have "search_ok ho ir parts v excluded (push (At (p + 1) (off + length lit) route u d) (?seen\<lparr>ss_budget := snd c\<rparr>))"
          if "text_here v off lit"
          by (rule at_advance [OF ok st, where new = "[At (p + 1) (off + length lit) route u d]"])
            (use False p Text lit that place_after_text [OF place p Text lit that] in
              \<open>auto simp: closed_def push_def task_ok_def noted_def\<close>)
        ultimately show ?thesis unfolding at step_ok_def using c by (auto simp: push_def)
      next
        case (Hole m)
        show ?thesis
        proof (cases "next_width v off")
          case None
          have "search_ok ho ir parts v excluded ?seen"
            by (rule at_advance [OF ok st, where new = "[]"])
              (use False p Hole next_width_None [OF None] place in \<open>auto simp: closed_def place_ok_def\<close>)
          then show ?thesis using False p Hole None by (simp add: at_step_def Let_def vec_get_def step_ok_def)
        next
          case (Some w)
          note w = next_width_Some [OF v Some]
          let ?stop = "if p + 1 = length parts then length v else off + w"
          have stop: "off < ?stop" "is_boundary v ?stop" using w(1,3,4) by auto
          have "closed ho ir parts v excluded (push (HoleTask p off ?stop route u d) ?seen) (p, off, u, d)"
            using p Hole w(5) by (auto simp: closed_def covered_def push_def)
          then have "search_ok ho ir parts v excluded (push (HoleTask p off ?stop route u d) ?seen)"
            by (intro at_advance [OF ok st, where new = "[HoleTask p off ?stop route u d]"])
              (use False p Hole stop place in \<open>auto simp: push_def task_ok_def\<close>)
          then show ?thesis using False p Hole Some by (simp add: at_step_def Let_def vec_get_def step_ok_def push_def)
        qed
      qed
    qed
  qed
qed

text \<open>The contract of the evaluator of the holes: once a limit is met, it answers nothing.\<close>

definition evaluator_ok :: "rules_ir \<Rightarrow> judge \<Rightarrow> evaluator \<Rightarrow> bool" where
  "evaluator_ok ir ho ev \<longleftrightarrow> (\<forall>m t b. m < length (ir_matchers ir) \<and> valid_utf8 t \<longrightarrow>
     (\<exists>r b'. ev m t b = Some (r, b') \<and> spent b b' \<and> r = (if sb_limit b' = None then ho m t else None)))"

lemma place_after_hole:
  assumes place: "place_ok ho ir parts v excluded routes p off route u d" and p: "p < length parts" "parts ! p = Hole m"
    and stop: "off < stop" "is_boundary v stop" and poss: "verdict ho v (m, off, stop) \<noteq> Some False"
  shows "place_ok ho ir parts v excluded (routes @ [(route, (m, off, stop))]) (p + 1) stop (Some (length routes))
    (u \<or> verdict ho v (m, off, stop) = None) (d \<or> differs excluded (hole_count (take p parts)) (m, off, stop))"
proof -
  let ?h = "(m, off, stop)"
  obtain hs where hs: "route_of routes route (rev hs)" "hole_before ir v parts p off hs" "possible ho v hs"
    "u = (\<exists>h \<in> set hs. verdict ho v h = None)" "d = (\<exists>i < length hs. differs excluded i (hs ! i))"
    using place unfolding place_ok_def by blast
  have "route_of (routes @ [(route, ?h)]) (Some (length routes)) (rev (hs @ [?h]))"
    using route_of_append [OF hs(1)] route_bound [OF hs(1)] by (simp add: nth_append)
  moreover have "drop p parts = Hole m # drop (p + 1) parts" using p by (simp add: Cons_nth_drop_Suc [symmetric])
  then have "hole_before ir v parts (p + 1) stop (hs @ [?h])"
    using hs(2) p stop by (auto simp: hole_before_def hole_count_take_Suc)
  moreover have "possible ho v (hs @ [?h])" using hs(3) poss by (simp add: possible_def)
  moreover have "(u \<or> verdict ho v ?h = None) = (\<exists>h \<in> set (hs @ [?h]). verdict ho v h = None)" using hs(4) by auto
  moreover have "length hs = hole_count (take p parts)" using hs(2) by (simp add: hole_before_def)
  then have "(d \<or> differs excluded (hole_count (take p parts)) ?h)
      = (\<exists>i < length (hs @ [?h]). differs excluded i ((hs @ [?h]) ! i))"
    using hs(5) by (auto simp: nth_append less_Suc_eq)
  ultimately show ?thesis using p(1) stop(2) unfolding place_ok_def by (intro conjI exI [of _ "hs @ [?h]"]) auto
qed

lemma ordinals_nth:
  "p < length parts \<Longrightarrow> ordinals_from count parts ! p = count + hole_count (take p parts)"
proof (induction count parts arbitrary: p rule: ordinals_from.induct)
  case (2 count part parts)
  then show ?case by (cases p) (auto simp: hole_count_def split: pattern_part.splits)
qed simp

lemma length_ordinals [simp]: "length (ordinals_from count parts) = length parts"
  by (induction count parts rule: ordinals_from.induct) auto

text \<open>After an end has been tried, the later ends are left to the next task.\<close>

lemma hole_advance:
  assumes ok: "search_ok ho ir parts v excluded st" and st: "ss_pending st = HoleTask p off stop route u d # ts"
    and p: "p < length parts" "parts ! p = Hole m"
    and st': "set (ss_pending st') = set (new @ ts)" "ss_seen st' = ss_seen st" "ss_routes st' = ss_routes st @ extra"
      "ss_unresolved st' = ss_unresolved st"
    and new: "list_all (task_ok ho ir parts v excluded (ss_routes st')) new"
    and later: "\<And>e. stop < e \<Longrightarrow> is_boundary v e \<Longrightarrow> \<exists>stop' \<le> e. HoleTask p off stop' route u d \<in> set new"
    and here: "verdict ho v (m, off, stop) = Some False \<or> (\<exists>route'. At (p + 1) stop route' (u \<or> verdict ho v (m, off, stop) = None)
        (d \<or> differs excluded (hole_count (take p parts)) (m, off, stop)) \<in> set new)"
  shows "search_ok ho ir parts v excluded st'"
proof -
  have noted: "noted st' key" if "noted st key" for key
    using that st st' by (auto simp: noted_def split: prod.splits)
  have covered: "covered ho parts v excluded st' p' m' off' u' d' e"
    if c: "covered ho parts v excluded st p' m' off' u' d' e" and m': "parts ! p' = Hole m'" and e: "is_boundary v e" for p' m' off' u' d' e
  proof (cases "(p', off', u', d') = (p, off, u, d) \<and> stop \<le> e")
    case True
    then have same: "p' = p" "off' = off" "u' = u" "d' = d" "m' = m" "stop \<le> e" using m' p(2) by auto
    show ?thesis
    proof (cases "e = stop")
      case True
      then show ?thesis using here st'(1) unfolding covered_def same noted_def by auto
    next
      case False
      then obtain stop' where "stop' \<le> e" "HoleTask p off stop' route u d \<in> set new" using later [of e] e same(6) by auto
      then show ?thesis using st'(1) unfolding covered_def same by auto
    qed
  next
    case False
    then show ?thesis using c noted st st'(1) unfolding covered_def by auto
  qed
  have "closed ho ir parts v excluded st' key" if "key \<in> set (ss_seen st')" for key
  proof -
    have "closed ho ir parts v excluded st key" using ok that st'(2) by (simp add: search_ok_def)
    then show ?thesis
    proof (rule closed_mono)
      show "noted st' key" if "noted st key" for key using that by (rule noted)
      show "covered ho parts v excluded st' p m off u d stop"
        if "covered ho parts v excluded st p m off u d stop" "parts ! p = Hole m" "is_boundary v stop" for p m off u d stop
        using that by (rule covered)
    qed (simp add: st'(4))
  qed
  moreover have "list_all (task_ok ho ir parts v excluded (ss_routes st')) (ss_pending st')"
    using ok st st' new by (auto simp: search_ok_def list_all_iff intro: task_ok_append)
  ultimately show ?thesis using ok noted st'(4) by (simp add: search_ok_def)
qed

lemma hole_step_ok:
  assumes ok: "search_ok ho ir parts v excluded st" and st: "ss_pending st = HoleTask p off stop route u d # ts"
    and v: "valid_utf8 v" and parts: "list_all (part_ok ir) parts" and ev: "evaluator_ok ir ho ev"
  shows "step_ok ho ir parts v excluded b
    (hole_step ev checkpoint parts (ordinals_from 0 parts) v excluded p off stop route u d
      (st\<lparr>ss_pending := ts, ss_budget := b\<rparr>))"
proof -
  have task: "place_ok ho ir parts v excluded (ss_routes st) p off route u d" "p < length parts"
      "case parts ! p of Hole _ \<Rightarrow> True | Text _ \<Rightarrow> False" "off < stop" "is_boundary v stop"
    using ok st by (simp_all add: search_ok_def task_ok_def)
  then obtain m where m: "parts ! p = Hole m" by (auto split: pattern_part.splits)
  have off: "is_boundary v off" using task(1) by (simp add: place_ok_def)
  have "part_ok ir (Hole m)" using parts task(2) m by (metis list_all_length)
  then have mlen: "m < length (ir_matchers ir)" by (simp add: part_ok_def)
  note slice = slice_ok [OF v off task(5,4)]
  define later where "later = (case next_width v stop of Some w \<Rightarrow> [HoleTask p off (stop + w) route u d] | None \<Rightarrow> [])"
  let ?st = "st\<lparr>ss_pending := later @ ts, ss_budget := b\<rparr>"
  obtain r b' where r: "ev m (take (stop - off) (drop off v)) b = Some (r, b')" "spent b b'"
      "sb_limit b' = None \<Longrightarrow> r = verdict ho v (m, off, stop)"
    using ev mlen slice(2) unfolding evaluator_ok_def verdict_def piece_def by fastforce
  define c where "c = charge checkpoint 1 1 b'"
  let ?next = "At (p + 1) stop (Some (length (ss_routes st))) (u \<or> r = None)
      (d \<or> differs excluded (hole_count (take p parts)) (m, off, stop))"
  let ?pushed = "push ?next (?st\<lparr>ss_budget := snd c, ss_routes := ss_routes st @ [(route, (m, off, stop))]\<rparr>)"
  have step: "hole_step ev checkpoint parts (ordinals_from 0 parts) v excluded p off stop route u d
      (st\<lparr>ss_pending := ts, ss_budget := b\<rparr>) =
    (if r = Some False then Some (Continue (?st\<lparr>ss_budget := b'\<rparr>))
     else if \<not> fst c then Some (Break (?st\<lparr>ss_budget := snd c\<rparr>)) else Some (Continue ?pushed))"
    using task(2) m slice(1) r(1) ordinals_nth [OF task(2), of 0]
    by (cases "next_width v stop")
      (simp_all add: hole_step_def later_def push_def Let_def vec_get_def c_def differs_def)
  have c: "spent b (snd c)" "\<not> fst c \<Longrightarrow> sb_limit (snd c) \<noteq> None" "fst c \<Longrightarrow> sb_limit b' = None"
    using spent_trans [OF r(2) charge_spent] charge_fails charge_works(1) unfolding c_def by blast+
  have later_ok: "list_all (task_ok ho ir parts v excluded (ss_routes st)) later"
    using task m next_width_Some [OF v] by (auto simp: later_def task_ok_def split: option.splits)
  have later_covers: "\<exists>stop' \<le> e. HoleTask p off stop' route u d \<in> set later" if "stop < e" "is_boundary v e" for e
  proof (cases "next_width v stop")
    case None
    then show ?thesis using next_width_None [OF None task(5), of e] that by blast
  next
    case (Some w)
    then show ?thesis using next_width_Some(5) [OF v Some] that by (auto simp: later_def)
  qed
  show ?thesis
  proof (cases "r = Some False")
    case True
    have "search_ok ho ir parts v excluded (?st\<lparr>ss_budget := b'\<rparr>)" if "sb_limit b' = None"
      by (rule hole_advance [OF ok st task(2) m, where new = later and extra = "[]"])
        (use that r(3) True later_ok later_covers in auto)
    then show ?thesis using step True r(2) by (simp add: step_ok_def)
  next
    case False
    have "search_ok ho ir parts v excluded ?pushed" if "fst c"
    proof -
      have rv: "r = verdict ho v (m, off, stop)" using c(3) that r(3) by blast
      have "task_ok ho ir parts v excluded (ss_routes st @ [(route, (m, off, stop))]) ?next"
        using place_after_hole [OF task(1,2) m task(4,5)] False rv by (simp add: task_ok_def)
      then show ?thesis
        by (intro hole_advance [OF ok st task(2) m, where new = "?next # later" and extra = "[(route, (m, off, stop))]"])
          (use rv later_ok later_covers task_ok_append in \<open>auto simp: push_def list_all_iff\<close>)
    qed
    then show ?thesis using step False c by (auto simp: step_ok_def push_def)
  qed
qed

subsection \<open>The loop\<close>

lemma task_step_ok:
  assumes "search_ok ho ir parts v excluded st" "ss_pending st = t # ts" "valid_utf8 v" "list_all (part_ok ir) parts"
    "evaluator_ok ir ho ev" "\<And>E. excluded = Some E \<Longrightarrow> length E = hole_count parts"
  shows "step_ok ho ir parts v excluded b (task_step ev checkpoint ir parts v excluded t (st\<lparr>ss_pending := ts, ss_budget := b\<rparr>))"
  using assms at_step_ok hole_step_ok by (cases t) (simp_all add: task_step_def)

text \<open>Of a search that met no limit, the answer is the verdict of the pattern.\<close>

definition answer_ok ::
  "judge \<Rightarrow> rules_ir \<Rightarrow> pattern_part list \<Rightarrow> string \<Rightarrow> hole list option \<Rightarrow> budget \<Rightarrow> (search_result \<times> budget) option \<Rightarrow> bool" where
  "answer_ok ho ir parts v excluded b res \<longleftrightarrow>
    (case res of
       None \<Rightarrow> False
     | Some (r, b') \<Rightarrow> spent b b'
         \<and> (sr_matched r = Some True \<longrightarrow>
              sb_limit b' = None \<and> splits ir v parts 0 (sr_holes r) \<and> Some (sr_holes r) \<noteq> excluded \<and> certain ho v (sr_holes r))
         \<and> (sr_matched r \<noteq> Some True \<longrightarrow> sr_holes r = [])
         \<and> (sb_limit b' = None \<longrightarrow> sr_matched r = pattern_verdict ho ir parts v excluded)
         \<and> (sb_limit b' \<noteq> None \<longrightarrow> sr_matched r = None))"

lemma answer_spent: "answer_ok ho ir parts v excluded b res \<Longrightarrow> spent a b \<Longrightarrow> answer_ok ho ir parts v excluded a res"
  by (auto simp: answer_ok_def split: option.splits intro: spent_trans)

lemma answer_cases:
  assumes "answer_ok ho ir parts v excluded b res"
  obtains r b' where "res = Some (r, b')" "spent b b'"
    "sr_matched r = Some True \<Longrightarrow> sb_limit b' = None \<and> splits ir v parts 0 (sr_holes r)
      \<and> Some (sr_holes r) \<noteq> excluded \<and> certain ho v (sr_holes r)"
    "sr_matched r \<noteq> Some True \<Longrightarrow> sr_holes r = []"
    "sr_matched r = (if sb_limit b' = None then pattern_verdict ho ir parts v excluded else None)"
proof (cases res)
  case None
  then show ?thesis using assms by (simp add: answer_ok_def)
next
  case (Some x)
  obtain r b' where x: "x = (r, b')" by (cases x)
  have a: "spent b b' \<and> (sr_matched r = Some True \<longrightarrow> sb_limit b' = None \<and> splits ir v parts 0 (sr_holes r)
        \<and> Some (sr_holes r) \<noteq> excluded \<and> certain ho v (sr_holes r))
      \<and> (sr_matched r \<noteq> Some True \<longrightarrow> sr_holes r = [])
      \<and> (sb_limit b' = None \<longrightarrow> sr_matched r = pattern_verdict ho ir parts v excluded)
      \<and> (sb_limit b' \<noteq> None \<longrightarrow> sr_matched r = None)"
    using assms unfolding Some x answer_ok_def option.case prod.case .
  then have "sr_matched r = (if sb_limit b' = None then pattern_verdict ho ir parts v excluded else None)"
    by (cases "sb_limit b' = None") (simp_all only: if_True if_False simp_thms)
  with a show ?thesis using that [of r b'] unfolding Some x by blast
qed

lemma certain_possible: "certain ho v hs \<Longrightarrow> possible ho v hs"
  by (auto simp: certain_def possible_def list_all_iff)

lemma finish_limited: "sb_limit (ss_budget st) \<noteq> None \<Longrightarrow> answer_ok ho ir parts v excluded (ss_budget st) (Some (search_finish st))"
  by (auto simp: answer_ok_def search_finish_def)

lemma not_differing:
  assumes "\<not> tail_differs (Some E) 0 hs" "length E = length hs"
  shows "hs = E"
  using assms by (auto simp: tail_differs_def differs_def intro: nth_equalityI)

lemma finish_ok:
  assumes ok: "search_ok ho ir parts v excluded st" and empty: "ss_pending st = []"
    and E: "\<And>E. excluded = Some E \<Longrightarrow> length E = hole_count parts"
  shows "answer_ok ho ir parts v excluded (ss_budget st) (Some (search_finish st))"
proof (cases "sb_limit (ss_budget st) = None")
  case False
  then show ?thesis by (intro finish_limited)
next
  case True
  have left: "ss_unresolved st \<and> \<not> certain ho v hs" if hs: "splits ir v parts 0 hs" "possible ho v hs" "Some hs \<noteq> excluded" for hs
  proof -
    have start: "(0, 0, False, False) \<in> set (ss_seen st)" using ok empty by (simp add: search_ok_def noted_def)
    have cl: "\<And>key. key \<in> set (ss_seen st) \<Longrightarrow> closed ho ir parts v excluded st key" using ok by (simp add: search_ok_def)
    have "(excluded \<noteq> None \<and> \<not> False \<and> \<not> tail_differs excluded (hole_count (take 0 parts)) hs)
        \<or> ((False \<or> (\<exists>h \<in> set hs. verdict ho v h = None)) \<and> ss_unresolved st)"
      by (rule closed_end [OF cl empty _ start]) (use hs in simp_all)
    moreover have "tail_differs excluded (hole_count (take 0 parts)) hs" if "excluded \<noteq> None"
    proof -
      obtain E where e: "excluded = Some E" using \<open>excluded \<noteq> None\<close> by blast
      then show ?thesis using not_differing [of E hs] assms(3) [OF e] splits_length [OF hs(1)] hs(3) by (auto simp: hole_count_def)
    qed
    ultimately show ?thesis using certain_iff [OF hs(2)] by blast
  qed
  have un: "\<exists>hs. splits ir v parts 0 hs \<and> Some hs \<noteq> excluded \<and> possible ho v hs" if "ss_unresolved st"
    using ok that by (simp add: search_ok_def)
  have none: "\<not> (\<exists>hs. splits ir v parts 0 hs \<and> Some hs \<noteq> excluded \<and> certain ho v hs)"
    using left certain_possible by blast
  have some: "(\<exists>hs. splits ir v parts 0 hs \<and> Some hs \<noteq> excluded \<and> possible ho v hs) \<longleftrightarrow> ss_unresolved st"
    using left un by blast
  have "pattern_verdict ho ir parts v excluded = (if ss_unresolved st then None else Some False)"
    unfolding pattern_verdict_def if_not_P [OF none] some by (rule refl)
  then show ?thesis using True by (simp add: answer_ok_def search_finish_def)
qed

lemma search_loop_ok:
  assumes v: "valid_utf8 v" and parts: "list_all (part_ok ir) parts" and ev: "evaluator_ok ir ho ev"
    and E: "\<And>E. excluded = Some E \<Longrightarrow> length E = hole_count parts"
  shows "sb_work (ss_budget st) < n \<Longrightarrow>
    (sb_limit (ss_budget st) = None \<Longrightarrow> search_ok ho ir parts v excluded st) \<Longrightarrow>
    answer_ok ho ir parts v excluded (ss_budget st)
      (search_loop checkpoint (task_step ev checkpoint ir parts v excluded) n st)"
proof (induction n arbitrary: st)
  case (Suc n)
  show ?case
  proof (cases "ss_pending st")
    case Nil
    then have "search_loop checkpoint (task_step ev checkpoint ir parts v excluded) (Suc n) st = Some (search_finish st)"
      by (simp add: search_loop.simps)
    then show ?thesis using finish_ok [OF Suc.prems(2) Nil E] finish_limited by (cases "sb_limit (ss_budget st)") simp_all
  next
    case (Cons t ts)
    define c where "c = charge checkpoint 1 1 (ss_budget st)"
    let ?st = "st\<lparr>ss_pending := ts, ss_budget := snd c\<rparr>"
    let ?step = "task_step ev checkpoint ir parts v excluded t ?st"
    have loop: "search_loop checkpoint (task_step ev checkpoint ir parts v excluded) (Suc n) st =
      (if \<not> fst c then Some (search_finish ?st)
       else case ?step of
         None \<Rightarrow> None
       | Some (Continue st) \<Rightarrow> search_loop checkpoint (task_step ev checkpoint ir parts v excluded) n st
       | Some (Break st) \<Rightarrow> Some (search_finish st)
       | Some (Accept holes b) \<Rightarrow> Some (\<lparr>sr_matched = Some True, sr_holes = holes\<rparr>, b))"
      by (subst search_loop.simps) (simp add: Cons c_def Let_def)
    have c: "spent (ss_budget st) (snd c)" unfolding c_def by (rule charge_spent)
    show ?thesis
    proof (cases "fst c")
      case False
      then have "answer_ok ho ir parts v excluded (snd c) (Some (search_finish ?st))"
        using finish_limited [of ?st] charge_fails unfolding c_def by auto
      then show ?thesis unfolding loop using False c by (auto intro: answer_spent)
    next
      case True
      note charged = charge_works [OF True [unfolded c_def], folded c_def]
      have step: "step_ok ho ir parts v excluded (snd c) ?step"
        by (rule task_step_ok [OF Suc.prems(2) [OF charged(1)] Cons v parts ev E])
      have "answer_ok ho ir parts v excluded (snd c)
        (search_loop checkpoint (task_step ev checkpoint ir parts v excluded) (Suc n) st)"
      proof (cases ?step)
        case None
        then show ?thesis using step by (simp add: step_ok_def)
      next
        case (Some res)
        show ?thesis
        proof (cases res)
          case (Continue st')
          have st': "spent (snd c) (ss_budget st')" "sb_limit (ss_budget st') = None \<Longrightarrow> search_ok ho ir parts v excluded st'"
            using step Some Continue by (simp_all add: step_ok_def)
          have "sb_work (ss_budget st') < n" using st'(1) charged(3) Suc.prems(1) by (simp add: spent_def)
          then have "answer_ok ho ir parts v excluded (ss_budget st')
              (search_loop checkpoint (task_step ev checkpoint ir parts v excluded) n st')"
            using st'(2) by (rule Suc.IH)
          then show ?thesis unfolding loop using True Some Continue st'(1) by (auto intro: answer_spent)
        next
          case (Break st')
          then have b: "spent (snd c) (ss_budget st')" "sb_limit (ss_budget st') \<noteq> None"
            using step Some by (simp_all add: step_ok_def)
          have "answer_ok ho ir parts v excluded (snd c) (Some (search_finish st'))"
            by (rule answer_spent [OF finish_limited [OF b(2)] b(1)])
          then show ?thesis unfolding loop using True Some Break by simp
        next
          case (Accept hs b')
          then have a: "b' = snd c" "splits ir v parts 0 hs" "Some hs \<noteq> excluded" "certain ho v hs"
            using step Some by (simp_all add: step_ok_def)
          then have "pattern_verdict ho ir parts v excluded = Some True" by (auto simp: pattern_verdict_def)
          then show ?thesis unfolding loop using True Some Accept a charged(2) by (simp add: answer_ok_def)
        qed
      qed
      then show ?thesis using c by (rule answer_spent)
    qed
  qed
qed simp

lemma search_start_ok: "search_ok ho ir parts v excluded (search_start b)"
  by (auto simp: search_ok_def search_start_def task_ok_def place_ok_def noted_def hole_before_def hole_count_def possible_def
    intro!: exI [of _ "[]"])

text \<open>
  The search always ends and never panics.  Without a limit its answer is the verdict; with one it
  is open; a match is a splitting whose pieces the holes accept, whatever limit is met later.
\<close>

lemma search_except_ok:
  assumes "valid_utf8 v" "list_all (part_ok ir) parts" "evaluator_ok ir ho ev"
    "\<And>E. excluded = Some E \<Longrightarrow> length E = hole_count parts"
  shows "answer_ok ho ir parts v excluded b (search_except ev checkpoint ir parts v excluded b)"
proof -
  define c where "c = charge checkpoint (length parts) (length parts) b"
  have c: "spent b (snd c)" unfolding c_def by (rule charge_spent)
  show ?thesis
  proof (cases "fst c")
    case False
    then have "sb_limit (snd c) \<noteq> None" unfolding c_def by (rule charge_fails)
    then obtain l where "sb_limit (snd c) = Some l" by blast
    then show ?thesis using c False by (simp add: search_except_def c_def [symmetric] Let_def answer_ok_def)
  next
    case True
    have "answer_ok ho ir parts v excluded (ss_budget (search_start (snd c)))
      (search_loop checkpoint (task_step ev checkpoint ir parts v excluded) (sb_work (snd c) + 1) (search_start (snd c)))"
      by (rule search_loop_ok [OF assms]) (simp_all add: search_start_def search_start_ok [unfolded search_start_def])
    then show ?thesis using True c unfolding search_except_def c_def
      by (auto simp: Let_def search_start_def intro: answer_spent)
  qed
qed

text \<open>A unique search gives pieces only when every splitting that is not refused has the same ones.\<close>

definition only_splitting :: "judge \<Rightarrow> rules_ir \<Rightarrow> pattern_part list \<Rightarrow> string \<Rightarrow> hole list \<Rightarrow> bool" where
  "only_splitting ho ir parts v hs \<longleftrightarrow> splits ir v parts 0 hs \<and> certain ho v hs
     \<and> (\<forall>hs'. splits ir v parts 0 hs' \<and> possible ho v hs' \<longrightarrow> hs' = hs)"

definition unique_verdict :: "judge \<Rightarrow> rules_ir \<Rightarrow> pattern_part list \<Rightarrow> string \<Rightarrow> bool option" where
  "unique_verdict ho ir parts v =
    (if \<exists>hs. only_splitting ho ir parts v hs then Some True
     else if \<exists>hs. splits ir v parts 0 hs \<and> possible ho v hs then None
     else Some False)"

lemma only_splitting_excludes:
  assumes "splits ir v parts 0 hs" "certain ho v hs"
  shows "pattern_verdict ho ir parts v (Some hs) = Some False \<longleftrightarrow> only_splitting ho ir parts v hs"
  using assms certain_possible unfolding pattern_verdict_def only_splitting_def by (auto split: if_splits)

lemma unique_verdict_eq:
  assumes "pattern_verdict ho ir parts v None \<noteq> Some True"
  shows "unique_verdict ho ir parts v = pattern_verdict ho ir parts v None"
proof -
  have c: "\<not> (\<exists>hs. splits ir v parts 0 hs \<and> Some hs \<noteq> None \<and> certain ho v hs)"
    using assms unfolding pattern_verdict_def by metis
  then have u: "\<not> (\<exists>hs. only_splitting ho ir parts v hs)" unfolding only_splitting_def by blast
  show ?thesis unfolding unique_verdict_def pattern_verdict_def if_not_P [OF c] if_not_P [OF u] by simp
qed

lemma unique_search_ok:
  assumes v: "valid_utf8 v" and parts: "list_all (part_ok ir) parts" and ev: "evaluator_ok ir ho ev"
  shows "case unique_search ev checkpoint ir parts v b of
      None \<Rightarrow> False
    | Some (r, b') \<Rightarrow> spent b b'
        \<and> (if sr_matched r = Some True then only_splitting ho ir parts v (sr_holes r) else sr_holes r = [])
        \<and> sr_matched r = (if sb_limit b' = None then unique_verdict ho ir parts v else None)"
proof -
  have first: "answer_ok ho ir parts v None b (search_except ev checkpoint ir parts v None b)"
    by (rule search_except_ok [OF v parts ev]) simp
  obtain r1 b1 where r1: "search_except ev checkpoint ir parts v None b = Some (r1, b1)" "spent b b1"
      "sr_matched r1 = Some True \<Longrightarrow> sb_limit b1 = None \<and> splits ir v parts 0 (sr_holes r1)
        \<and> Some (sr_holes r1) \<noteq> None \<and> certain ho v (sr_holes r1)"
      "sr_matched r1 \<noteq> Some True \<Longrightarrow> sr_holes r1 = []"
      "sr_matched r1 = (if sb_limit b1 = None then pattern_verdict ho ir parts v None else None)"
    by (rule answer_cases [OF first]) (rule that)
  show ?thesis
  proof (cases "sr_matched r1 = Some True")
    case False
    have result: "unique_search ev checkpoint ir parts v b = Some (r1, b1)"
      by (simp add: unique_search_def pattern_search_def r1(1) False)
    have "sr_matched r1 = (if sb_limit b1 = None then unique_verdict ho ir parts v else None)"
    proof (cases "sb_limit b1 = None")
      case True
      then have "sr_matched r1 = pattern_verdict ho ir parts v None" unfolding r1(5) by (rule if_P)
      then have "unique_verdict ho ir parts v = sr_matched r1" using False unique_verdict_eq [of ho ir parts v] by metis
      then show ?thesis unfolding if_P [OF True] by (rule sym)
    next
      case no: False
      show ?thesis unfolding r1(5) if_not_P [OF no] by (rule refl)
    qed
    then show ?thesis unfolding result option.case prod.case using False r1(2,4) by (simp only: if_False simp_thms)
  next
    case True
    then have hs: "splits ir v parts 0 (sr_holes r1)" "certain ho v (sr_holes r1)" using r1(3) by blast+
    have second: "answer_ok ho ir parts v (Some (sr_holes r1)) b1 (search_except ev checkpoint ir parts v (Some (sr_holes r1)) b1)"
      by (rule search_except_ok [OF v parts ev]) (use splits_length [OF hs(1)] in simp)
    obtain r2 b2 where r2: "search_except ev checkpoint ir parts v (Some (sr_holes r1)) b1 = Some (r2, b2)" "spent b1 b2"
        "sr_matched r2 = (if sb_limit b2 = None then pattern_verdict ho ir parts v (Some (sr_holes r1)) else None)"
      by (rule answer_cases [OF second]) (rule that)
    have result: "unique_search ev checkpoint ir parts v b =
        Some (if sr_matched r2 = Some False then r1 else \<lparr>sr_matched = None, sr_holes = []\<rparr>, b2)"
      by (simp add: unique_search_def pattern_search_def r1(1) True r2(1))
    have spent: "spent b b2" using r1(2) r2(2) by (rule spent_trans)
    show ?thesis
    proof (cases "sr_matched r2 = Some False")
      case no: True
      then have b2: "sb_limit b2 = None" "pattern_verdict ho ir parts v (Some (sr_holes r1)) = Some False"
        using r2(3) by (auto split: if_splits)
      then have only: "only_splitting ho ir parts v (sr_holes r1)" using only_splitting_excludes [OF hs] by blast
      then have "unique_verdict ho ir parts v = Some True" unfolding unique_verdict_def by metis
      then show ?thesis unfolding result option.case prod.case using no spent True only b2(1)
        by (simp only: if_True simp_thms)
    next
      case other: False
      have "unique_verdict ho ir parts v = None" if "sb_limit b2 = None"
      proof -
        have "\<not> only_splitting ho ir parts v (sr_holes r1)"
          using r2(3) that other only_splitting_excludes [OF hs] by (simp only: if_True simp_thms)
        then have "\<not> (\<exists>hs. only_splitting ho ir parts v hs)"
          using hs certain_possible unfolding only_splitting_def by blast
        then show ?thesis using hs certain_possible unfolding unique_verdict_def by auto
      qed
      then show ?thesis using result other spent by simp
    qed
  qed
qed

end
