(* ===== verification/Rules_Query.thy ===== *)
theory Rules_Query
  imports Pattern_Correct
begin

text \<open>
  Evaluation of matchers: unions, patterns and dependent queries under one budget,
  \<open>crates/rules/src/pattern.rs\<close>, \<open>query.rs\<close> and \<open>template_key_type\<close> of \<open>template.rs\<close>.  Primitive
  matchers are decided by the argument \<open>primitive\<close>, as in the source; the sibling values and the
  callback on templates are the record of a context.  The level of \<open>evaluate\<close> is the depth that the
  budget still allows.
\<close>

subsection \<open>Contexts\<close>

datatype sibling_value = SiblingScalar string | SiblingMissing | SiblingDuplicate | SiblingInvalid | SiblingDeferred

record query_context =
  qc_sibling :: "string \<Rightarrow> sibling_value"
  qc_check_call_arguments :: bool
  qc_template_accepts_no_arguments ::
    "type_id \<Rightarrow> string \<Rightarrow> (budget \<Rightarrow> bool \<times> budget) \<Rightarrow> budget \<Rightarrow> bool option \<times> budget"

definition no_query_context :: query_context where
  "no_query_context = \<lparr>qc_sibling = (\<lambda>_. SiblingDeferred), qc_check_call_arguments = True,
     qc_template_accepts_no_arguments = (\<lambda>_ _ _ b. (None, b))\<rparr>"

definition reference_query_context :: "query_context \<Rightarrow> query_context" where
  "reference_query_context context = \<lparr>qc_sibling = qc_sibling context, qc_check_call_arguments = False,
     qc_template_accepts_no_arguments = (\<lambda>_ _ _ b. (None, b))\<rparr>"

record symbol_facts =
  sf_complete :: bool
  sf_type_member :: "type_id \<Rightarrow> string \<Rightarrow> bool"
  sf_template_accepts_no_arguments ::
    "type_id \<Rightarrow> string \<Rightarrow> (budget \<Rightarrow> bool \<times> budget) \<Rightarrow> budget \<Rightarrow> bool option \<times> budget"

definition query_context_with_facts :: "symbol_facts \<Rightarrow> query_context \<Rightarrow> query_context" where
  "query_context_with_facts facts context = context\<lparr>qc_template_accepts_no_arguments :=
     (\<lambda>t name checkpoint b.
        if \<not> sf_complete facts then (None, b)
        else case checkpoint b of
          (True, b) \<Rightarrow> (None, b)
        | (False, b) \<Rightarrow>
            if \<not> sf_type_member facts t name then (Some True, b)
            else sf_template_accepts_no_arguments facts t name checkpoint b)\<rparr>"

subsection \<open>Resolution of a query\<close>

datatype query_state = Resolved | MissingSelector | DuplicateSelector | InvalidSelector | DeferredSelector

record query_resolution =
  qr_state :: query_state
  qr_fields :: "field_id list"

definition resolution_state :: "query_state \<Rightarrow> query_resolution" where
  "resolution_state s = \<lparr>qr_state = s, qr_fields = []\<rparr>"

definition resolved :: "field_id list \<Rightarrow> query_resolution" where
  "resolved fs = \<lparr>qr_state = Resolved, qr_fields = fs\<rparr>"

text \<open>A test of a key, on a state that it may change.\<close>

type_synonym 's key_test = "matcher_id \<Rightarrow> string \<Rightarrow> bool \<Rightarrow> 's \<Rightarrow> (bool option \<times> 's) option"

definition call_args_test ::
  "rules_ir \<Rightarrow> field_query \<Rightarrow> string \<Rightarrow> 's key_test \<Rightarrow> field_id \<Rightarrow> 's \<Rightarrow> (bool option \<times> 's) option" where
  "call_args_test ir query key test field s =
    (if fq_call_args_none query
     then (case ir_field ir field of None \<Rightarrow> None | Some f \<Rightarrow> test (fd_key f) key True s)
     else Some (Some True, s))"

fun overloads_loop ::
  "rules_ir \<Rightarrow> field_query \<Rightarrow> string \<Rightarrow> 's key_test \<Rightarrow> field_id list \<Rightarrow> field_id list \<Rightarrow> bool \<Rightarrow> 's
    \<Rightarrow> (query_resolution \<times> 's) option" where
  "overloads_loop ir query key test [] accepted deferred s =
    Some (if deferred then resolution_state DeferredSelector
          else if accepted \<noteq> [] then resolved accepted
          else resolution_state InvalidSelector, s)"
| "overloads_loop ir query key test (field # fs) accepted deferred s =
    (case query_field_passes ir query field of
       None \<Rightarrow> None
     | Some False \<Rightarrow> overloads_loop ir query key test fs accepted deferred s
     | Some True \<Rightarrow>
         (case call_args_test ir query key test field s of
            None \<Rightarrow> None
          | Some (Some True, s) \<Rightarrow> overloads_loop ir query key test fs (accepted @ [field]) deferred s
          | Some (None, s) \<Rightarrow> overloads_loop ir query key test fs accepted True s
          | Some (Some False, s) \<Rightarrow> overloads_loop ir query key test fs accepted deferred s))"

fun patterns_loop ::
  "rules_ir \<Rightarrow> field_query \<Rightarrow> string \<Rightarrow> 's key_test \<Rightarrow> field_id list \<Rightarrow> 's \<Rightarrow> (query_resolution \<times> 's) option" where
  "patterns_loop ir query key test [] s = Some (resolution_state InvalidSelector, s)"
| "patterns_loop ir query key test (field # fs) s =
    (case (shape_is ir (fq_shape query) field, ir_field ir field) of
       (Some False, _) \<Rightarrow> patterns_loop ir query key test fs s
     | (Some True, Some f) \<Rightarrow>
         (case test (fd_key f) key False s of
            None \<Rightarrow> None
          | Some (None, s) \<Rightarrow> Some (resolution_state DeferredSelector, s)
          | Some (Some False, s) \<Rightarrow> patterns_loop ir query key test fs s
          | Some (Some True, s) \<Rightarrow>
              (case query_field_passes ir query field of
                 None \<Rightarrow> None
               | Some False \<Rightarrow> Some (resolution_state InvalidSelector, s)
               | Some True \<Rightarrow>
                   map_option (\<lambda>(matched, s).
                       (case matched of
                          Some True \<Rightarrow> resolved [field]
                        | Some False \<Rightarrow> resolution_state InvalidSelector
                        | None \<Rightarrow> resolution_state DeferredSelector, s))
                     (call_args_test ir query key test field s)))
     | _ \<Rightarrow> None)"

definition query_selected_fields_with ::
  "rules_ir \<Rightarrow> field_query \<Rightarrow> string \<Rightarrow> 's key_test \<Rightarrow> 's \<Rightarrow> (query_resolution \<times> 's) option" where
  "query_selected_fields_with ir query key test s =
    (case ir_schema ir (fq_schema query) of
       None \<Rightarrow> None
     | Some schema \<Rightarrow>
         let exact = (case exact_fields ir schema key of None \<Rightarrow> [] | Some fs \<Rightarrow> fs)
         in case any_kind (shape_is ir (fq_shape query)) exact of
              None \<Rightarrow> None
            | Some True \<Rightarrow> overloads_loop ir query key test exact [] False s
            | Some False \<Rightarrow> patterns_loop ir query key test (sc_patterns schema) s)"

definition query_fields_with ::
  "rules_ir \<Rightarrow> field_query \<Rightarrow> query_context \<Rightarrow> 's key_test \<Rightarrow> 's \<Rightarrow> (query_resolution \<times> 's) option" where
  "query_fields_with ir query context test s =
    (case fq_selector query of
       None \<Rightarrow> map_option (\<lambda>fs. (resolved fs, s)) (query_source_fields ir query)
     | Some (LiteralSelector key) \<Rightarrow>
         (case resolve (ir_strings ir) key of
            None \<Rightarrow> None
          | Some k \<Rightarrow> query_selected_fields_with ir query k test s)
     | Some (SiblingSelector name) \<Rightarrow>
         (case resolve (ir_strings ir) name of
            None \<Rightarrow> None
          | Some n \<Rightarrow>
              (case qc_sibling context n of
                 SiblingScalar k \<Rightarrow> query_selected_fields_with ir query k test s
               | SiblingMissing \<Rightarrow> Some (resolution_state MissingSelector, s)
               | SiblingDuplicate \<Rightarrow> Some (resolution_state DuplicateSelector, s)
               | SiblingInvalid \<Rightarrow> Some (resolution_state InvalidSelector, s)
               | SiblingDeferred \<Rightarrow> Some (resolution_state DeferredSelector, s))))"

subsection \<open>Evaluation\<close>

text \<open>The stack of iterators of \<open>template_key_type\<close> is the list of the matchers still to visit.\<close>

fun key_type_loop ::
  "(nat \<Rightarrow> bool) \<Rightarrow> rules_ir \<Rightarrow> trait_id \<Rightarrow> nat \<Rightarrow> matcher_id list \<Rightarrow> budget \<Rightarrow> (type_id option \<times> budget) option" where
  "key_type_loop checkpoint ir template n [] b = Some (None, b)"
| "key_type_loop checkpoint ir template 0 (m # ms) b = None"
| "key_type_loop checkpoint ir template (Suc n) (m # ms) b =
    (case charge checkpoint 1 0 b of
       (False, b) \<Rightarrow> Some (None, b)
     | (True, b) \<Rightarrow>
         (case ir_matcher ir m of
            None \<Rightarrow> None
          | Some (Ref (TypeTarget t _ _)) \<Rightarrow>
              (case ir_type_info ir t of
                 None \<Rightarrow> None
               | Some info \<Rightarrow>
                   if template \<in> set (ti_trait_impls info) then Some (Some t, b)
                   else key_type_loop checkpoint ir template n ms b)
          | Some (Union items) \<Rightarrow> key_type_loop checkpoint ir template n (items @ ms) b
          | Some _ \<Rightarrow> key_type_loop checkpoint ir template n ms b))"

definition template_key_type ::
  "(nat \<Rightarrow> bool) \<Rightarrow> rules_ir \<Rightarrow> matcher_id \<Rightarrow> budget \<Rightarrow> (type_id option \<times> budget) option" where
  "template_key_type checkpoint ir m b =
    (case trait_by_name ir ''Template'' of
       None \<Rightarrow> Some (None, b)
     | Some template \<Rightarrow> key_type_loop checkpoint ir template (sb_work b + 1) [m] b)"

text \<open>The closure that the callbacks get: it stops them when a unit of work is no longer granted.\<close>

definition stop_check :: "(nat \<Rightarrow> bool) \<Rightarrow> budget \<Rightarrow> bool \<times> budget" where
  "stop_check checkpoint b = (let c = charge checkpoint 1 0 b in (\<not> fst c, snd c))"

definition evaluate_call_key ::
  "(nat \<Rightarrow> bool) \<Rightarrow> rules_ir \<Rightarrow> query_context \<Rightarrow> evaluator \<Rightarrow> budget key_test" where
  "evaluate_call_key checkpoint ir context ev m key no_args b =
    (case ev m key b of
       None \<Rightarrow> None
     | Some (matched, b) \<Rightarrow>
         if \<not> no_args \<or> matched \<noteq> Some True \<or> \<not> qc_check_call_arguments context then Some (matched, b)
         else
           case template_key_type checkpoint ir m b of
             None \<Rightarrow> None
           | Some (target, b) \<Rightarrow>
               if sb_limit b \<noteq> None then Some (None, b)
               else case target of
                 None \<Rightarrow> Some (Some True, b)
               | Some t \<Rightarrow>
                   let r = qc_template_accepts_no_arguments context t key (stop_check checkpoint) b
                   in Some (if sb_limit (snd r) \<noteq> None then None else fst r, snd r))"

text \<open>The first matcher that accepts decides; otherwise one that does not know makes it unknown.\<close>

fun union_loop :: "evaluator \<Rightarrow> string \<Rightarrow> matcher_id list \<Rightarrow> bool option \<Rightarrow> budget \<Rightarrow> (bool option \<times> budget) option" where
  "union_loop ev key [] acc b = Some (acc, b)"
| "union_loop ev key (m # ms) acc b =
    (case ev m key b of
       None \<Rightarrow> None
     | Some (matched, b) \<Rightarrow>
         if matched = Some True then Some (Some True, b)
         else
           let acc = (if matched = None then None else acc)
           in if sb_limit b \<noteq> None then Some (acc, b) else union_loop ev key ms acc b)"

fun projection_loop ::
  "rules_ir \<Rightarrow> field_query \<Rightarrow> evaluator \<Rightarrow> string \<Rightarrow> field_id list \<Rightarrow> bool option \<Rightarrow> budget
    \<Rightarrow> (bool option \<times> budget) option" where
  "projection_loop ir query ev key [] acc b = Some (acc, b)"
| "projection_loop ir query ev key (field # fs) acc b =
    (case query_projected_matcher ir query field of
       None \<Rightarrow> None
     | Some None \<Rightarrow> if sb_limit b \<noteq> None then Some (acc, b) else projection_loop ir query ev key fs acc b
     | Some (Some m) \<Rightarrow>
         (case ev m key b of
            None \<Rightarrow> None
          | Some (matched, b) \<Rightarrow>
              if matched = Some True then Some (Some True, b)
              else
                let acc = (if matched = None then None else acc)
                in if sb_limit b \<noteq> None then Some (acc, b) else projection_loop ir query ev key fs acc b))"

definition query_resolution_of ::
  "rules_ir \<Rightarrow> query_context \<Rightarrow> field_query \<Rightarrow> string \<Rightarrow> 's key_test \<Rightarrow> 's \<Rightarrow> (query_resolution \<times> 's) option" where
  "query_resolution_of ir context query key test s =
    (if fq_projection query = Keys \<and> fq_selector query = None
     then query_selected_fields_with ir query key test s
     else query_fields_with ir query context test s)"

definition evaluate_query ::
  "(nat \<Rightarrow> bool) \<Rightarrow> rules_ir \<Rightarrow> query_context \<Rightarrow> evaluator \<Rightarrow> field_query \<Rightarrow> string \<Rightarrow> budget
    \<Rightarrow> (bool option \<times> budget) option" where
  "evaluate_query checkpoint ir context ev query key b =
    (case ir_schema ir (fq_schema query) of
       None \<Rightarrow> None
     | Some schema \<Rightarrow>
         (case charge checkpoint (length (sc_exact schema) + length (sc_patterns schema)) 0 b of
            (False, b) \<Rightarrow> Some (None, b)
          | (True, b) \<Rightarrow>
              (case query_resolution_of ir context query key (evaluate_call_key checkpoint ir context ev) b of
                 None \<Rightarrow> None
               | Some (res, b) \<Rightarrow>
                   (case qr_state res of
                      DeferredSelector \<Rightarrow> Some (None, b)
                    | Resolved \<Rightarrow> projection_loop ir query ev key (qr_fields res) (Some False) b
                    | _ \<Rightarrow> Some (Some False, b)))))"

fun evaluate ::
  "(nat \<Rightarrow> bool) \<Rightarrow> rules_ir \<Rightarrow> query_context \<Rightarrow> (matcher_id \<Rightarrow> string \<Rightarrow> bool option) \<Rightarrow> nat \<Rightarrow> evaluator" where
  "evaluate checkpoint ir context primitive 0 m key b =
    (let c = charge checkpoint 1 0 b
     in Some (None, if fst c then (snd c)\<lparr>sb_limit := Some DepthLimit\<rparr> else snd c))"
| "evaluate checkpoint ir context primitive (Suc k) m key b =
    (case charge checkpoint 1 0 b of
       (False, b) \<Rightarrow> Some (None, b)
     | (True, b) \<Rightarrow>
         (case ir_matcher ir m of
            None \<Rightarrow> None
          | Some (Union items) \<Rightarrow> union_loop (evaluate checkpoint ir context primitive k) key items (Some False) b
          | Some (Pattern parts) \<Rightarrow>
              map_option (\<lambda>(r, b). (sr_matched r, b))
                (pattern_search (evaluate checkpoint ir context primitive k) checkpoint ir parts key b)
          | Some (Query query) \<Rightarrow>
              evaluate_query checkpoint ir context (evaluate checkpoint ir context primitive k) query key b
          | Some _ \<Rightarrow>
              (case charge checkpoint (length key) 0 b of
                 (False, b) \<Rightarrow> Some (None, b)
               | (True, b) \<Rightarrow> Some (primitive m key, b))))"

text \<open>
  The entry points with the default limits and no cancellation; \<open>primitive\<close> stands for
  \<open>scalar_primitive_outcome\<close> under the same facts.  \<open>()\<close>, like \<open>NoQueryContext\<close>, defers every sibling.
\<close>

definition default_evaluate ::
  "rules_ir \<Rightarrow> query_context \<Rightarrow> (matcher_id \<Rightarrow> string \<Rightarrow> bool option) \<Rightarrow> evaluator" where
  "default_evaluate ir context primitive = evaluate (\<lambda>_. False) ir context primitive (sl_depth default_limits)"

definition scalar_outcome_with_context ::
  "rules_ir \<Rightarrow> (matcher_id \<Rightarrow> string \<Rightarrow> bool option) \<Rightarrow> matcher_id \<Rightarrow> string \<Rightarrow> symbol_facts \<Rightarrow> query_context
    \<Rightarrow> bool option option" where
  "scalar_outcome_with_context ir primitive m key facts context =
    map_option fst (default_evaluate ir (query_context_with_facts facts context) primitive m key
      (budget_new default_limits))"

definition scalar_outcome ::
  "rules_ir \<Rightarrow> (matcher_id \<Rightarrow> string \<Rightarrow> bool option) \<Rightarrow> matcher_id \<Rightarrow> string \<Rightarrow> symbol_facts \<Rightarrow> bool option option" where
  "scalar_outcome ir primitive m key facts = scalar_outcome_with_context ir primitive m key facts no_query_context"

definition scalar_matches ::
  "rules_ir \<Rightarrow> (matcher_id \<Rightarrow> string \<Rightarrow> bool option) \<Rightarrow> matcher_id \<Rightarrow> string \<Rightarrow> symbol_facts \<Rightarrow> bool option" where
  "scalar_matches ir primitive m key facts =
    map_option (\<lambda>r. r = Some True) (scalar_outcome ir primitive m key facts)"

definition default_key_test ::
  "rules_ir \<Rightarrow> query_context \<Rightarrow> (matcher_id \<Rightarrow> string \<Rightarrow> bool option) \<Rightarrow> budget key_test" where
  "default_key_test ir context primitive =
    evaluate_call_key (\<lambda>_. False) ir context (default_evaluate ir context primitive)"

definition query_fields ::
  "rules_ir \<Rightarrow> (matcher_id \<Rightarrow> string \<Rightarrow> bool option) \<Rightarrow> field_query \<Rightarrow> symbol_facts \<Rightarrow> query_context
    \<Rightarrow> query_resolution option" where
  "query_fields ir primitive query facts context =
    (let context = query_context_with_facts facts context
     in map_option fst (query_fields_with ir query context (default_key_test ir context primitive)
          (budget_new default_limits)))"

definition query_selected_fields ::
  "rules_ir \<Rightarrow> (matcher_id \<Rightarrow> string \<Rightarrow> bool option) \<Rightarrow> field_query \<Rightarrow> string \<Rightarrow> symbol_facts \<Rightarrow> query_context
    \<Rightarrow> query_resolution option" where
  "query_selected_fields ir primitive query key facts context =
    (let context = query_context_with_facts facts context
     in map_option fst (query_selected_fields_with ir query key (default_key_test ir context primitive)
          (budget_new default_limits)))"

definition query_outcome ::
  "rules_ir \<Rightarrow> (matcher_id \<Rightarrow> string \<Rightarrow> bool option) \<Rightarrow> field_query \<Rightarrow> string \<Rightarrow> symbol_facts \<Rightarrow> query_context
    \<Rightarrow> bool option option" where
  "query_outcome ir primitive query key facts context =
    (let context = query_context_with_facts facts context
     in map_option fst (evaluate_query (\<lambda>_. False) ir context (default_evaluate ir context primitive) query key
          (budget_new default_limits)))"

end
