(* ===== verification/Rules_Verdict.thy ===== *)
theory Rules_Verdict
  imports Rules_Query
begin

text \<open>
  What the bounded evaluation of matchers decides.  The verdict of a matcher has no budget: a union
  accepts if some branch does, a pattern if some splitting is accepted, a query if some projected
  matcher of its fields does; what is unknown stays unknown.  Evaluation gives the verdict or, if a
  limit is met, nothing.
\<close>

subsection \<open>Verdicts\<close>

definition any_verdict :: "bool option list \<Rightarrow> bool option" where
  "any_verdict rs = (if Some True \<in> set rs then Some True else if None \<in> set rs then None else Some False)"

fun first_some :: "('a \<Rightarrow> 'b option) \<Rightarrow> 'a list \<Rightarrow> 'b option" where
  "first_some f [] = None"
| "first_some f (x # xs) = (case f x of None \<Rightarrow> first_some f xs | Some y \<Rightarrow> Some y)"

text \<open>The first type with the trait among the references below a matcher.\<close>

fun target_below :: "rules_ir \<Rightarrow> trait_id \<Rightarrow> nat \<Rightarrow> matcher_id \<Rightarrow> type_id option" where
  "target_below ir template 0 m = None"
| "target_below ir template (Suc n) m =
    (case ir_matcher ir m of
       Some (Ref (TypeTarget t _ _)) \<Rightarrow>
         (case ir_type_info ir t of
            Some info \<Rightarrow> if template \<in> set (ti_trait_impls info) then Some t else None
          | None \<Rightarrow> None)
     | Some (Union items) \<Rightarrow> first_some (target_below ir template n) items
     | _ \<Rightarrow> None)"

definition template_target :: "rules_ir \<Rightarrow> matcher_id \<Rightarrow> type_id option" where
  "template_target ir m =
    Option.bind (trait_by_name ir ''Template'') (\<lambda>t. target_below ir t (length (ir_matchers ir)) m)"

definition call_verdict ::
  "rules_ir \<Rightarrow> query_context \<Rightarrow> (type_id \<Rightarrow> string \<Rightarrow> bool option) \<Rightarrow> judge \<Rightarrow> matcher_id \<Rightarrow> string \<Rightarrow> bool \<Rightarrow> bool option" where
  "call_verdict ir context accepts ho m key no_args =
    (if \<not> no_args \<or> ho m key \<noteq> Some True \<or> \<not> qc_check_call_arguments context then ho m key
     else case template_target ir m of None \<Rightarrow> Some True | Some t \<Rightarrow> accepts t key)"

definition pure_test :: "(matcher_id \<Rightarrow> string \<Rightarrow> bool \<Rightarrow> bool option) \<Rightarrow> unit key_test" where
  "pure_test mv m key no_args u = Some (mv m key no_args, ())"

definition field_verdict :: "rules_ir \<Rightarrow> judge \<Rightarrow> field_query \<Rightarrow> string \<Rightarrow> field_id \<Rightarrow> bool option" where
  "field_verdict ir ho query key field =
    (case query_projected_matcher ir query field of Some (Some m) \<Rightarrow> ho m key | _ \<Rightarrow> Some False)"

definition query_verdict ::
  "rules_ir \<Rightarrow> query_context \<Rightarrow> (type_id \<Rightarrow> string \<Rightarrow> bool option) \<Rightarrow> judge \<Rightarrow> field_query \<Rightarrow> string \<Rightarrow> bool option" where
  "query_verdict ir context accepts ho query key =
    (case query_resolution_of ir context query key (pure_test (call_verdict ir context accepts ho)) () of
       None \<Rightarrow> None
     | Some (res, _) \<Rightarrow>
         (case qr_state res of
            DeferredSelector \<Rightarrow> None
          | Resolved \<Rightarrow> any_verdict (map (field_verdict ir ho query key) (qr_fields res))
          | _ \<Rightarrow> Some False))"

fun matcher_verdict ::
  "rules_ir \<Rightarrow> query_context \<Rightarrow> (type_id \<Rightarrow> string \<Rightarrow> bool option) \<Rightarrow> judge \<Rightarrow> nat \<Rightarrow> judge" where
  "matcher_verdict ir context accepts primitive 0 m key = None"
| "matcher_verdict ir context accepts primitive (Suc k) m key =
    (case ir_matcher ir m of
       Some (Union items) \<Rightarrow> any_verdict (map (\<lambda>i. matcher_verdict ir context accepts primitive k i key) items)
     | Some (Pattern parts) \<Rightarrow> pattern_verdict (matcher_verdict ir context accepts primitive k) ir parts key None
     | Some (Query query) \<Rightarrow> query_verdict ir context accepts (matcher_verdict ir context accepts primitive k) query key
     | _ \<Rightarrow> primitive m key)"

subsection \<open>Contracts\<close>

text \<open>The callback of a context may only spend the budget; not stopped, it answers \<open>accepts\<close>.\<close>

definition context_ok :: "(nat \<Rightarrow> bool) \<Rightarrow> query_context \<Rightarrow> (type_id \<Rightarrow> string \<Rightarrow> bool option) \<Rightarrow> bool" where
  "context_ok checkpoint context accepts \<longleftrightarrow>
    (\<forall>t name b. let r = qc_template_accepts_no_arguments context t name (stop_check checkpoint) b
       in spent b (snd r) \<and> (sb_limit (snd r) = None \<longrightarrow> fst r = accepts t name))
    \<and> (\<forall>n s. qc_sibling context n = SiblingScalar s \<longrightarrow> valid_utf8 s)"

lemma no_context_ok: "context_ok checkpoint no_query_context (\<lambda>_ _. None)"
  by (simp add: context_ok_def no_query_context_def Let_def)

text \<open>Adding facts to a context keeps the contract.\<close>

lemma context_with_facts_ok:
  assumes "context_ok checkpoint context accepts"
    and "\<And>t name b. spent b (snd (sf_template_accepts_no_arguments facts t name (stop_check checkpoint) b))"
    and "\<And>t name b. sb_limit (snd (sf_template_accepts_no_arguments facts t name (stop_check checkpoint) b)) = None \<Longrightarrow>
      fst (sf_template_accepts_no_arguments facts t name (stop_check checkpoint) b) = accepts' t name"
  shows "context_ok checkpoint (query_context_with_facts facts context)
    (\<lambda>t name. if \<not> sf_complete facts then None else if sf_type_member facts t name then accepts' t name else Some True)"
proof -
  have stop: "spent b (snd (stop_check checkpoint b))" "fst (stop_check checkpoint b) \<Longrightarrow> sb_limit (snd (stop_check checkpoint b)) \<noteq> None" for b
    using charge_spent charge_fails by (auto simp: stop_check_def Let_def)
  let ?c = "query_context_with_facts facts context"
  let ?a = "\<lambda>t name. if \<not> sf_complete facts then None else if sf_type_member facts t name then accepts' t name else Some True"
  have callback: "spent b (snd r) \<and> (sb_limit (snd r) = None \<longrightarrow> fst r = ?a t name)"
    if r: "r = qc_template_accepts_no_arguments ?c t name (stop_check checkpoint) b" for r t name b
  proof (cases "sf_complete facts \<and> \<not> fst (stop_check checkpoint b)")
    case True
    then obtain c where sc: "stop_check checkpoint b = (False, c)" by (cases "stop_check checkpoint b") simp
    have e: "r = (if \<not> sf_type_member facts t name then (Some True, c)
        else sf_template_accepts_no_arguments facts t name (stop_check checkpoint) c)"
      using True sc unfolding r query_context_with_facts_def by simp
    have "spent b c" using stop(1) [of b] sc by simp
    then show ?thesis
      unfolding e using True assms(2) [of c t name] assms(3) [of t name c] spent_trans [OF _ assms(2) [of c t name]] by simp
  next
    case False
    then have "r = (None, b) \<and> \<not> sf_complete facts \<or> r = (None, snd (stop_check checkpoint b)) \<and> fst (stop_check checkpoint b)"
      using r by (cases "stop_check checkpoint b") (auto simp: query_context_with_facts_def)
    then show ?thesis using stop [of b] by auto
  qed
  have "qc_sibling ?c = qc_sibling context" by (simp add: query_context_with_facts_def)
  then have siblings: "\<forall>n s. qc_sibling ?c n = SiblingScalar s \<longrightarrow> valid_utf8 s"
    using assms(1) by (simp add: context_ok_def)
  show ?thesis
    unfolding context_ok_def Let_def using callback [OF refl] siblings by (intro conjI allI) blast+
qed

definition test_ok :: "rules_ir \<Rightarrow> (matcher_id \<Rightarrow> string \<Rightarrow> bool \<Rightarrow> bool option) \<Rightarrow> budget key_test \<Rightarrow> bool" where
  "test_ok ir mv test \<longleftrightarrow> (\<forall>m key no_args b. m < length (ir_matchers ir) \<and> valid_utf8 key \<longrightarrow>
     (\<exists>r b'. test m key no_args b = Some (r, b') \<and> spent b b' \<and> r = (if sb_limit b' = None then mv m key no_args else None)))"

lemma test_okD:
  assumes "test_ok ir mv test" "m < length (ir_matchers ir)" "valid_utf8 key"
  obtains r b' where "test m key no_args b = Some (r, b')" "spent b b'" "r = (if sb_limit b' = None then mv m key no_args else None)"
  using assms unfolding test_ok_def by blast

lemma evaluator_okD:
  assumes "evaluator_ok ir ho ev" "m < length (ir_matchers ir)" "valid_utf8 key"
  obtains r b' where "ev m key b = Some (r, b')" "spent b b'" "r = (if sb_limit b' = None then ho m key else None)"
  using assms unfolding evaluator_ok_def by blast

text \<open>A resolution: the one without a budget, or deferred once a limit is met.\<close>

definition resolution_ok ::
  "rules_ir \<Rightarrow> budget \<Rightarrow> (query_resolution \<times> unit) option \<Rightarrow> (query_resolution \<times> budget) option \<Rightarrow> bool" where
  "resolution_ok ir b pure res \<longleftrightarrow>
    (case res of
       None \<Rightarrow> False
     | Some (r, b') \<Rightarrow> spent b b' \<and> list_all (\<lambda>f. f < length (ir_fields ir)) (qr_fields r)
         \<and> (sb_limit b' = None \<longrightarrow> pure = Some (r, ()))
         \<and> (sb_limit b' \<noteq> None \<longrightarrow> qr_state r = DeferredSelector))"

lemma resolution_spent: "resolution_ok ir b pure res \<Longrightarrow> spent a b \<Longrightarrow> resolution_ok ir a pure res"
  by (auto simp: resolution_ok_def split: option.splits intro: spent_trans)

lemma resolution_limited: "resolution_ok ir b pure res \<Longrightarrow> sb_limit b \<noteq> None \<Longrightarrow> resolution_ok ir b pure' res"
  by (auto simp: resolution_ok_def spent_def split: option.splits)

lemma field_key_in_range: "ir_ok ir \<Longrightarrow> f < length (ir_fields ir) \<Longrightarrow> fd_key (ir_fields ir ! f) < length (ir_matchers ir)"
  using ir_ok_field by (auto simp: field_ok_def)

lemma call_args_test_ok:
  assumes "test_ok ir mv test" "ir_ok ir" "f < length (ir_fields ir)" "valid_utf8 key"
  obtains r b' where "call_args_test ir query key test f b = Some (r, b')" "spent b b'"
    "sb_limit b' = None \<Longrightarrow> call_args_test ir query key (pure_test mv) f () = Some (r, ())"
    "sb_limit b' \<noteq> None \<Longrightarrow> sb_limit b = None \<Longrightarrow> r = None"
proof (cases "fq_call_args_none query")
  case True
  obtain r b' where r: "test (fd_key (ir_fields ir ! f)) key True b = Some (r, b')" "spent b b'"
    "r = (if sb_limit b' = None then mv (fd_key (ir_fields ir ! f)) key True else None)"
    by (rule test_okD [OF assms(1) field_key_in_range [OF assms(2,3)] assms(4)])
  show ?thesis
    by (rule that [of r b']) (use True r assms(3) in \<open>auto simp: call_args_test_def ir_field_def vec_get_def pure_test_def\<close>)
next
  case False
  show ?thesis by (rule that [of "Some True" b]) (use False in \<open>simp_all add: call_args_test_def\<close>)
qed

lemma overloads_loop_ok:
  assumes t: "test_ok ir mv test" and ir: "ir_ok ir" "query_ok ir query" and key: "valid_utf8 key"
  shows "list_all (\<lambda>f. f < length (ir_fields ir)) fs \<Longrightarrow> list_all (\<lambda>f. f < length (ir_fields ir)) accepted \<Longrightarrow>
    sb_limit b = None \<or> deferred \<Longrightarrow>
    resolution_ok ir b (overloads_loop ir query key (pure_test mv) fs accepted deferred ())
      (overloads_loop ir query key test fs accepted deferred b)"
proof (induction fs arbitrary: accepted deferred b)
  case Nil
  then show ?case by (auto simp: resolution_ok_def resolution_state_def resolved_def)
next
  case (Cons f fs)
  then have f: "f < length (ir_fields ir)" and fs: "list_all (\<lambda>f. f < length (ir_fields ir)) fs" by simp_all
  obtain passes where passes: "query_field_passes ir query f = Some passes"
    using query_field_passes_total [OF ir f] by blast
  show ?case
  proof (cases passes)
    case False
    then show ?thesis using Cons.IH [OF fs Cons.prems(2,3)] passes by simp
  next
    case True
    obtain r b' where r: "call_args_test ir query key test f b = Some (r, b')" "spent b b'"
      "sb_limit b' = None \<Longrightarrow> call_args_test ir query key (pure_test mv) f () = Some (r, ())"
      "sb_limit b' \<noteq> None \<Longrightarrow> sb_limit b = None \<Longrightarrow> r = None"
      by (rule call_args_test_ok [OF t ir(1) f key]) (rule that)
    let ?acc = "if r = Some True then accepted @ [f] else accepted" and ?def = "deferred \<or> r = None"
    have loop: "overloads_loop ir query key test (f # fs) accepted deferred b = overloads_loop ir query key test fs ?acc ?def b'"
      using passes True r(1) by (cases r) (auto split: bool.splits)
    have "resolution_ok ir b' (overloads_loop ir query key (pure_test mv) fs ?acc ?def ())
        (overloads_loop ir query key test fs ?acc ?def b')"
      by (rule Cons.IH [OF fs]) (use Cons.prems f r in auto)
    then have step: "resolution_ok ir b (overloads_loop ir query key (pure_test mv) fs ?acc ?def ())
        (overloads_loop ir query key test (f # fs) accepted deferred b)"
      unfolding loop using r(2) by (rule resolution_spent)
    show ?thesis
    proof (cases "sb_limit b' = None")
      case True
      have "overloads_loop ir query key (pure_test mv) (f # fs) accepted deferred () =
          overloads_loop ir query key (pure_test mv) fs ?acc ?def ()"
        using passes \<open>passes\<close> r(3) [OF True] by (cases r) (auto split: bool.splits)
      then show ?thesis using step by simp
    next
      case False
      have "resolution_ok ir b' (overloads_loop ir query key (pure_test mv) (f # fs) accepted deferred ())
          (overloads_loop ir query key test fs ?acc ?def b')"
        by (rule resolution_limited [OF _ False])
          (rule Cons.IH [OF fs], use Cons.prems f r in auto)
      then show ?thesis unfolding loop using r(2) by (rule resolution_spent)
    qed
  qed
qed

lemma patterns_loop_ok:
  assumes t: "test_ok ir mv test" and ir: "ir_ok ir" "query_ok ir query" and key: "valid_utf8 key"
  shows "list_all (\<lambda>f. f < length (ir_fields ir)) fs \<Longrightarrow> sb_limit b = None \<Longrightarrow>
    resolution_ok ir b (patterns_loop ir query key (pure_test mv) fs ()) (patterns_loop ir query key test fs b)"
proof (induction fs arbitrary: b)
  case Nil
  then show ?case by (simp add: resolution_ok_def resolution_state_def)
next
  case (Cons f fs)
  then have f: "f < length (ir_fields ir)" and fs: "list_all (\<lambda>f. f < length (ir_fields ir)) fs" by simp_all
  have field: "ir_field ir f = Some (ir_fields ir ! f)" using f by (simp add: ir_field_def)
  obtain fits where fits: "shape_is ir (fq_shape query) f = Some fits" using shape_is_total [OF ir(1) f] by blast
  obtain passes where passes: "query_field_passes ir query f = Some passes"
    using query_field_passes_total [OF ir f] by blast
  show ?case
  proof (cases fits)
    case False
    then show ?thesis using Cons.IH [OF fs Cons.prems(2)] fits by simp
  next
    case True
    obtain r b' where r: "test (fd_key (ir_fields ir ! f)) key False b = Some (r, b')" "spent b b'"
      "r = (if sb_limit b' = None then mv (fd_key (ir_fields ir ! f)) key False else None)"
      by (rule test_okD [OF t field_key_in_range [OF ir(1) f] key]) (rule that)
    have pure: "pure_test mv (fd_key (ir_fields ir ! f)) key False () = Some (mv (fd_key (ir_fields ir ! f)) key False, ())"
      by (simp add: pure_test_def)
    show ?thesis
    proof (cases r)
      case None
      then show ?thesis using True fits field r pure
        by (auto simp: resolution_ok_def resolution_state_def split: if_splits)
    next
      case (Some matched)
      then have b': "sb_limit b' = None" "mv (fd_key (ir_fields ir ! f)) key False = Some matched"
        using r(3) by (auto split: if_splits)
      show ?thesis
      proof (cases matched)
        case False
        then have "resolution_ok ir b' (patterns_loop ir query key (pure_test mv) (f # fs) ()) (patterns_loop ir query key test (f # fs) b)"
          using Cons.IH [OF fs b'(1)] \<open>fits\<close> fits field r(1) Some pure b'(2) by simp
        then show ?thesis using r(2) by (rule resolution_spent)
      next
        case True
        show ?thesis
        proof (cases passes)
          case False
          then show ?thesis using True \<open>fits\<close> fits field r(1,2) Some pure b' passes
            by (simp add: resolution_ok_def resolution_state_def)
        next
          case go: True
          obtain r2 b2 where r2: "call_args_test ir query key test f b' = Some (r2, b2)" "spent b' b2"
            "sb_limit b2 = None \<Longrightarrow> call_args_test ir query key (pure_test mv) f () = Some (r2, ())"
            "sb_limit b2 \<noteq> None \<Longrightarrow> sb_limit b' = None \<Longrightarrow> r2 = None"
            by (rule call_args_test_ok [OF t ir(1) f key]) (rule that)
          let ?res = "case r2 of Some True \<Rightarrow> resolved [f] | Some False \<Rightarrow> resolution_state InvalidSelector
              | None \<Rightarrow> resolution_state DeferredSelector"
          have loop: "patterns_loop ir query key test (f # fs) b = Some (?res, b2)"
            using True go \<open>fits\<close> fits field r(1) Some passes r2(1) by simp
          have "patterns_loop ir query key (pure_test mv) (f # fs) () = Some (?res, ())" if "sb_limit b2 = None"
            using True go \<open>fits\<close> fits field pure b'(2) passes r2(3) [OF that] by simp
          moreover have "qr_state ?res = DeferredSelector" if "sb_limit b2 \<noteq> None"
            using r2(4) [OF that b'(1)] by (simp add: resolution_state_def)
          moreover have "list_all (\<lambda>f. f < length (ir_fields ir)) (qr_fields ?res)"
            using f by (auto simp: resolved_def resolution_state_def split: option.splits bool.splits)
          ultimately show ?thesis unfolding loop resolution_ok_def using spent_trans [OF r(2) r2(2)] by simp
        qed
      qed
    qed
  qed
qed

lemma query_selected_fields_ok:
  assumes t: "test_ok ir mv test" and ir: "ir_ok ir" "query_ok ir query" and key: "valid_utf8 key" and b: "sb_limit b = None"
  shows "resolution_ok ir b (query_selected_fields_with ir query key (pure_test mv) ())
    (query_selected_fields_with ir query key test b)"
proof -
  let ?s = "ir_schemas ir ! fq_schema query"
  have s: "ir_schema ir (fq_schema query) = Some ?s" "schema_ok ir ?s"
    using ir ir_ok_schema by (auto simp: query_ok_def ir_schema_def)
  let ?exact = "case exact_fields ir ?s key of None \<Rightarrow> [] | Some fs \<Rightarrow> fs"
  have exact: "list_all (\<lambda>f. f < length (ir_fields ir)) ?exact"
    using exact_fields_in_range [OF s(2), of key] by (cases "exact_fields ir ?s key") (auto simp: list_all_iff)
  have patterns: "list_all (\<lambda>f. f < length (ir_fields ir)) (sc_patterns ?s)" using s(2) by (simp add: schema_ok_def)
  have "any_kind (shape_is ir (fq_shape query)) ?exact \<noteq> None"
    using exact shape_is_total [OF ir(1)] by (intro any_kind_total) (auto simp: list_all_iff)
  then obtain found where found: "any_kind (shape_is ir (fq_shape query)) ?exact = Some found" by blast
  show ?thesis
  proof (cases found)
    case True
    have "resolution_ok ir b (overloads_loop ir query key (pure_test mv) ?exact [] False ())
        (overloads_loop ir query key test ?exact [] False b)"
      by (rule overloads_loop_ok [OF t ir key exact]) (simp_all add: b)
    then show ?thesis using True s(1) found by (simp add: query_selected_fields_with_def Let_def)
  next
    case False
    have "resolution_ok ir b (patterns_loop ir query key (pure_test mv) (sc_patterns ?s) ())
        (patterns_loop ir query key test (sc_patterns ?s) b)"
      by (rule patterns_loop_ok [OF t ir key patterns b])
    then show ?thesis using False s(1) found by (simp add: query_selected_fields_with_def Let_def)
  qed
qed

lemma query_source_fields_in_range:
  assumes "ir_ok ir" "query_ok ir query" "query_source_fields ir query = Some fs"
  shows "list_all (\<lambda>f. f < length (ir_fields ir)) fs"
proof -
  let ?s = "ir_schemas ir ! fq_schema query"
  have s: "ir_schema ir (fq_schema query) = Some ?s" "schema_ok ir ?s"
    using assms ir_ok_schema by (auto simp: query_ok_def ir_schema_def)
  then have "filter_option (query_field_passes ir query) (schema_fields ?s) = Some fs"
    using assms(3) by (simp add: query_source_fields_def Rules_Ir.fields_def)
  then show ?thesis using filter_option_Some schema_fields_in_range [OF s(2)] by (fastforce simp: list_all_iff)
qed

text \<open>Texts that the rules hold are valid.\<close>

definition texts_ok :: "rules_ir \<Rightarrow> bool" where
  "texts_ok ir \<longleftrightarrow> list_all valid_utf8 (in_strings (ir_strings ir))"

lemma query_fields_ok:
  assumes t: "test_ok ir mv test" and ir: "ir_ok ir" "query_ok ir query" "texts_ok ir"
    and ctx: "context_ok checkpoint context accepts" and b: "sb_limit b = None"
  shows "resolution_ok ir b (query_fields_with ir query context (pure_test mv) ()) (query_fields_with ir query context test b)"
proof (cases "fq_selector query")
  case None
  obtain fs where "query_source_fields ir query = Some fs" using query_source_fields_total [OF ir(1,2)] by blast
  then show ?thesis using None b query_source_fields_in_range [OF ir(1,2)]
    by (simp add: query_fields_with_def resolution_ok_def resolved_def)
next
  case (Some sel)
  have symbol: "case sel of LiteralSelector x \<Rightarrow> symbol_ok ir x | SiblingSelector x \<Rightarrow> symbol_ok ir x"
    using ir(2) Some by (simp add: query_ok_def)
  show ?thesis
  proof (cases sel)
    case (LiteralSelector x)
    then have x: "resolve (ir_strings ir) x = Some (in_strings (ir_strings ir) ! x)"
        "valid_utf8 (in_strings (ir_strings ir) ! x)"
      using symbol ir(3) by (auto simp: symbol_ok_def resolve_def texts_ok_def list_all_length)
    show ?thesis using query_selected_fields_ok [OF t ir(1,2) x(2) b] Some LiteralSelector x(1) by (simp add: query_fields_with_def)
  next
    case (SiblingSelector x)
    then have x: "resolve (ir_strings ir) x = Some (in_strings (ir_strings ir) ! x)"
      using symbol by (simp add: symbol_ok_def resolve_def)
    show ?thesis
    proof (cases "qc_sibling context (in_strings (ir_strings ir) ! x)")
      case (SiblingScalar k)
      then have "valid_utf8 k" using ctx by (auto simp: context_ok_def)
      from query_selected_fields_ok [OF t ir(1,2) this b] show ?thesis
        using Some SiblingSelector x SiblingScalar by (simp add: query_fields_with_def)
    qed (use Some SiblingSelector x b in \<open>simp_all add: query_fields_with_def resolution_ok_def resolution_state_def\<close>)
  qed
qed

lemma query_resolution_ok:
  assumes "test_ok ir mv test" "ir_ok ir" "query_ok ir query" "texts_ok ir" "context_ok checkpoint context accepts"
    "valid_utf8 key" "sb_limit b = None"
  shows "resolution_ok ir b (query_resolution_of ir context query key (pure_test mv) ())
    (query_resolution_of ir context query key test b)"
  using query_selected_fields_ok [OF assms(1-3,6,7)] query_fields_ok [OF assms(1-5,7)]
  by (simp add: query_resolution_of_def)

subsection \<open>Templates\<close>

lemma first_some_append: "first_some f (xs @ ys) = (case first_some f xs of None \<Rightarrow> first_some f ys | Some y \<Rightarrow> Some y)"
  by (induction xs) (auto split: option.splits)

lemma first_some_cong: "(\<And>x. x \<in> set xs \<Longrightarrow> f x = g x) \<Longrightarrow> first_some f xs = first_some g xs"
proof (induction xs)
  case (Cons x xs)
  then have "first_some f xs = first_some g xs" "f x = g x" by simp_all
  then show ?case by (cases "g x") simp_all
qed simp

text \<open>As children come first, more fuel changes nothing.\<close>

lemma target_below_fuel:
  "ir_ok ir \<Longrightarrow> m < n \<Longrightarrow> m < n' \<Longrightarrow> m < length (ir_matchers ir) \<Longrightarrow>
    target_below ir template n m = target_below ir template n' m"
proof (induction n arbitrary: m n')
  case (Suc n)
  then obtain k where k: "n' = Suc k" by (cases n') auto
  show ?case
  proof (cases "ir_matchers ir ! m")
    case (Union items)
    then have "\<And>x. x \<in> set items \<Longrightarrow> x < m" using ir_ok_matcher [OF Suc.prems(1,4)] by (simp add: matcher_ok_def list_all_iff)
    then have "first_some (target_below ir template n) items = first_some (target_below ir template k) items"
      using Suc.prems k by (intro first_some_cong Suc.IH) fastforce+
    then show ?thesis using Union Suc.prems(4) k by (simp add: ir_matcher_def vec_get_def)
  qed (use Suc.prems k in \<open>simp_all add: ir_matcher_def vec_get_def split: ref_target.splits\<close>)
qed simp

lemma target_below_union:
  assumes "ir_ok ir" "m < length (ir_matchers ir)" "ir_matchers ir ! m = Union items"
  shows "target_below ir template (length (ir_matchers ir)) m = first_some (target_below ir template (length (ir_matchers ir))) items"
    "list_all (\<lambda>x. x < length (ir_matchers ir)) items"
proof -
  have items: "\<And>x. x \<in> set items \<Longrightarrow> x < m" using ir_ok_matcher [OF assms(1,2)] assms(3) by (simp add: matcher_ok_def list_all_iff)
  then show "list_all (\<lambda>x. x < length (ir_matchers ir)) items" using assms(2) by (fastforce simp: list_all_iff)
  obtain k where k: "length (ir_matchers ir) = Suc k" using assms(2) by (cases "length (ir_matchers ir)") auto
  have "first_some (target_below ir template k) items = first_some (target_below ir template (Suc k)) items"
    using items assms(2) k by (intro first_some_cong target_below_fuel [OF assms(1)]) fastforce+
  then show "target_below ir template (length (ir_matchers ir)) m = first_some (target_below ir template (length (ir_matchers ir))) items"
    using assms(2,3) k by (simp add: ir_matcher_def vec_get_def)
qed

lemma ir_at:
  "m < length (ir_matchers ir) \<Longrightarrow> ir_matcher ir m = Some (ir_matchers ir ! m)"
  "t < length (ir_types ir) \<Longrightarrow> ir_type_info ir t = Some (ir_types ir ! t)"
  by (simp_all add: ir_matcher_def ir_type_info_def vec_get_def)

lemma target_below_at:
  "m < length (ir_matchers ir) \<Longrightarrow> target_below ir template (length (ir_matchers ir)) m =
    (case ir_matchers ir ! m of
       Ref (TypeTarget t _ _) \<Rightarrow>
         (case ir_type_info ir t of
            Some info \<Rightarrow> if template \<in> set (ti_trait_impls info) then Some t else None
          | None \<Rightarrow> None)
     | Union items \<Rightarrow> first_some (target_below ir template (length (ir_matchers ir) - 1)) items
     | _ \<Rightarrow> None)"
  by (cases "length (ir_matchers ir)") (auto simp: ir_at split: matcher.splits ref_target.splits)

lemma key_type_loop_ok:
  assumes ir: "ir_ok ir"
  shows "sb_work b < n \<Longrightarrow> list_all (\<lambda>m. m < length (ir_matchers ir)) ms \<Longrightarrow>
    \<exists>r b'. key_type_loop checkpoint ir template n ms b = Some (r, b') \<and> spent b b'
      \<and> (sb_limit b' = None \<longrightarrow> r = first_some (target_below ir template (length (ir_matchers ir))) ms)"
proof (induction n arbitrary: ms b)
  case (Suc n)
  show ?case
  proof (cases ms)
    case (Cons m rest)
    then have m: "m < length (ir_matchers ir)" and rest: "list_all (\<lambda>m. m < length (ir_matchers ir)) rest" using Suc.prems(2) by auto
    obtain ok c where c: "charge checkpoint 1 0 b = (ok, c)" by (cases "charge checkpoint 1 0 b")
    have spent: "spent b c" using charge_spent [of b checkpoint 1 0] c by simp
    show ?thesis
    proof (cases ok)
      case False
      then have "sb_limit c \<noteq> None" using charge_fails [of checkpoint 1 0 b] c by simp
      then obtain l where "sb_limit c = Some l" by blast
      then show ?thesis using False c Cons spent by simp
    next
      case True
      then have work: "sb_work c < n" using charge_works(3) [of checkpoint 1 0 b] c Suc.prems(1) by simp
      note IH = Suc.IH [OF work]
      let ?t = "target_below ir template (length (ir_matchers ir))"
      have go: "\<exists>r b'. key_type_loop checkpoint ir template (Suc n) ms b = Some (r, b') \<and> spent b b'
          \<and> (sb_limit b' = None \<longrightarrow> r = first_some ?t ms)"
        if "key_type_loop checkpoint ir template (Suc n) ms b = key_type_loop checkpoint ir template n ms' c"
          "list_all (\<lambda>m. m < length (ir_matchers ir)) ms'" "first_some ?t ms = first_some ?t ms'" for ms'
        using IH [OF that(2)] that(1,3) spent spent_trans by metis
      note at = target_below_at [OF m, of template]
      show ?thesis
      proof (cases "ir_matchers ir ! m")
        case (Union items)
        note u = target_below_union(1) [OF ir m Union, of template] target_below_union(2) [OF ir m Union]
        show ?thesis
          by (rule go [of "items @ rest"])
            (use True c Cons Union m rest u in \<open>simp_all add: ir_at first_some_append\<close>)
      next
        case (Ref target)
        obtain t sub strip where target: "target = TypeTarget t sub strip" by (cases target)
        then have t: "t < length (ir_types ir)" using ir_ok_matcher [OF ir m] Ref by (simp add: matcher_ok_def)
        show ?thesis
        proof (cases "template \<in> set (ti_trait_impls (ir_types ir ! t))")
          case no: False
          show ?thesis
            by (rule go [of rest])
              (use True c Cons Ref target t m rest no at in \<open>simp_all add: ir_at\<close>)
        next
          case yes: True
          then show ?thesis using True c Cons Ref target t m at spent
            by (simp add: ir_at)
        qed
      qed (rule go [of rest]; use True c Cons m rest at in \<open>simp add: ir_at\<close>)+
    qed
  qed simp
qed simp

lemma template_key_type_ok:
  assumes "ir_ok ir" "m < length (ir_matchers ir)"
  obtains r b' where "template_key_type checkpoint ir m b = Some (r, b')" "spent b b'"
    "sb_limit b' = None \<Longrightarrow> r = template_target ir m"
proof (cases "trait_by_name ir ''Template''")
  case None
  show ?thesis by (rule that [of None b]) (use None in \<open>simp_all add: template_key_type_def template_target_def\<close>)
next
  case (Some template)
  obtain r b' where r: "key_type_loop checkpoint ir template (sb_work b + 1) [m] b = Some (r, b')" "spent b b'"
    "sb_limit b' = None \<longrightarrow> r = first_some (target_below ir template (length (ir_matchers ir))) [m]"
    using key_type_loop_ok [OF assms(1), of b "sb_work b + 1" "[m]" checkpoint template] assms(2) by auto
  show ?thesis
    by (rule that [of r b']) (use r Some in \<open>auto simp: template_key_type_def template_target_def split: option.splits\<close>)
qed

subsection \<open>Evaluation gives the verdict\<close>

lemma evaluate_call_key_ok:
  assumes ev: "evaluator_ok ir ho ev" and ir: "ir_ok ir" and ctx: "context_ok checkpoint context accepts"
  shows "test_ok ir (call_verdict ir context accepts ho) (evaluate_call_key checkpoint ir context ev)"
  unfolding test_ok_def
proof (intro allI impI)
  fix m key no_args b assume mk: "m < length (ir_matchers ir) \<and> valid_utf8 key"
  obtain r b1 where r: "ev m key b = Some (r, b1)" "spent b b1" "r = (if sb_limit b1 = None then ho m key else None)"
    by (rule evaluator_okD [OF ev conjunct1 [OF mk] conjunct2 [OF mk]]) (rule that)
  let ?v = "call_verdict ir context accepts ho m key no_args"
  show "\<exists>r b'. evaluate_call_key checkpoint ir context ev m key no_args b = Some (r, b') \<and> spent b b'
      \<and> r = (if sb_limit b' = None then ?v else None)"
  proof (cases "\<not> no_args \<or> r \<noteq> Some True \<or> \<not> qc_check_call_arguments context")
    case True
    have "r = (if sb_limit b1 = None then ?v else None)"
      using True r(3) by (auto simp: call_verdict_def split: if_splits)
    then show ?thesis using True r(1,2) by (auto simp: evaluate_call_key_def)
  next
    case False
    then have r1: "r = Some True" "no_args" "qc_check_call_arguments context" "sb_limit b1 = None" "ho m key = Some True"
      using r(3) by (auto split: if_splits)
    obtain target b2 where t: "template_key_type checkpoint ir m b1 = Some (target, b2)" "spent b1 b2"
      "sb_limit b2 = None \<Longrightarrow> target = template_target ir m"
      by (rule template_key_type_ok [OF ir conjunct1 [OF mk]]) (rule that)
    show ?thesis
    proof (cases "sb_limit b2")
      case (Some l)
      then show ?thesis using r(1) r1 t(1) spent_trans [OF r(2) t(2)] by (simp add: evaluate_call_key_def)
    next
      case None
      then have target: "target = template_target ir m" by (rule t(3))
      show ?thesis
      proof (cases "template_target ir m")
        case no: None
        then show ?thesis using r(1) r1 t(1) None target spent_trans [OF r(2) t(2)]
          by (simp add: evaluate_call_key_def call_verdict_def)
      next
        case (Some ty)
        let ?r = "qc_template_accepts_no_arguments context ty key (stop_check checkpoint) b2"
        have call: "spent b2 (snd ?r)" "sb_limit (snd ?r) = None \<Longrightarrow> fst ?r = accepts ty key"
          using ctx by (simp_all add: context_ok_def Let_def)
        have v: "?v = accepts ty key" using r1 Some by (simp add: call_verdict_def)
        have e: "evaluate_call_key checkpoint ir context ev m key no_args b =
            Some (if sb_limit (snd ?r) \<noteq> None then None else fst ?r, snd ?r)"
          using r(1) r1 t(1) None target Some by (simp add: evaluate_call_key_def Let_def)
        show ?thesis unfolding e v using call spent_trans [OF spent_trans [OF r(2) t(2)] call(1)] by auto
      qed
    qed
  qed
qed

lemma any_verdict_step:
  "acc \<noteq> Some True \<Longrightarrow> r \<noteq> Some True \<Longrightarrow> any_verdict ((if r = None then None else acc) # rs) = any_verdict (acc # r # rs)"
  by (auto simp: any_verdict_def)

lemma any_verdict_True: "any_verdict (acc # Some True # rs) = Some True"
  by (simp add: any_verdict_def)

text \<open>Both loops over alternatives, as one: the tests of some list in order, until one accepts.\<close>

lemma union_loop_ok:
  assumes ev: "evaluator_ok ir ho ev" and key: "valid_utf8 key"
  shows "list_all (\<lambda>m. m < length (ir_matchers ir)) ms \<Longrightarrow> sb_limit b = None \<Longrightarrow> acc \<noteq> Some True \<Longrightarrow>
    \<exists>r b'. union_loop ev key ms acc b = Some (r, b') \<and> spent b b'
      \<and> r = (if sb_limit b' = None then any_verdict (acc # map (\<lambda>m. ho m key) ms) else None)"
proof (induction ms arbitrary: acc b)
  case Nil
  then show ?case by (cases acc) (auto simp: any_verdict_def)
next
  case (Cons m ms)
  then have m: "m < length (ir_matchers ir)" "list_all (\<lambda>m. m < length (ir_matchers ir)) ms" by simp_all
  obtain r b1 where r: "ev m key b = Some (r, b1)" "spent b b1" "r = (if sb_limit b1 = None then ho m key else None)"
    by (rule evaluator_okD [OF ev m(1) key]) (rule that)
  show ?case
  proof (cases "sb_limit b1")
    case (Some l)
    then show ?thesis using r by simp
  next
    case None
    then have ho: "ho m key = r" using r(3) by simp
    show ?thesis
    proof (cases "r = Some True")
      case True
      then show ?thesis using r(1,2) None ho by (simp add: any_verdict_True)
    next
      case False
      let ?acc = "if r = None then None else acc"
      have acc: "?acc \<noteq> Some True" using Cons.prems(3) by simp
      obtain r' b' where r': "union_loop ev key ms ?acc b1 = Some (r', b')" "spent b1 b'"
        "r' = (if sb_limit b' = None then any_verdict (?acc # map (\<lambda>m. ho m key) ms) else None)"
        using Cons.IH [OF m(2) None acc] by blast
      have "union_loop ev key (m # ms) acc b = Some (r', b')" using r(1) None False r'(1) by simp
      then show ?thesis using spent_trans [OF r(2) r'(2)] r'(3) any_verdict_step [OF Cons.prems(3) False] ho by simp
    qed
  qed
qed

lemma projection_loop_ok:
  assumes ev: "evaluator_ok ir ho ev" and key: "valid_utf8 key" and ir: "ir_ok ir"
  shows "list_all (\<lambda>f. f < length (ir_fields ir)) fs \<Longrightarrow> sb_limit b = None \<Longrightarrow> acc \<noteq> Some True \<Longrightarrow>
    \<exists>r b'. projection_loop ir query ev key fs acc b = Some (r, b') \<and> spent b b'
      \<and> r = (if sb_limit b' = None then any_verdict (acc # map (field_verdict ir ho query key) fs) else None)"
proof (induction fs arbitrary: acc b)
  case Nil
  then show ?case by (cases acc) (auto simp: any_verdict_def)
next
  case (Cons f fs)
  then have f: "f < length (ir_fields ir)" "list_all (\<lambda>f. f < length (ir_fields ir)) fs" by simp_all
  obtain projected where p: "query_projected_matcher ir query f = Some projected"
    using f(1) by (simp add: query_projected_matcher_def ir_field_def vec_get_def)
  show ?case
  proof (cases projected)
    case None
    have "any_verdict (acc # Some False # rs) = any_verdict (acc # rs)" for rs by (simp add: any_verdict_def)
    moreover have "projection_loop ir query ev key (f # fs) acc b = projection_loop ir query ev key fs acc b"
      "field_verdict ir ho query key f = Some False"
      using p None Cons.prems(2) by (simp_all add: field_verdict_def)
    ultimately show ?thesis using Cons.IH [OF f(2) Cons.prems(2,3)] by (simp only: list.map)
  next
    case (Some m)
    then have m: "m < length (ir_matchers ir)"
      using p f(1) ir_ok_field [OF ir f(1)]
      by (auto simp: query_projected_matcher_def ir_field_def field_ok_def vec_get_def split: query_projection.splits field_value.splits)
    obtain r b1 where r: "ev m key b = Some (r, b1)" "spent b b1" "r = (if sb_limit b1 = None then ho m key else None)"
      by (rule evaluator_okD [OF ev m key]) (rule that)
    have field: "field_verdict ir ho query key f = ho m key" using p Some by (simp add: field_verdict_def)
    show ?thesis
    proof (cases "sb_limit b1")
      case (Some l)
      then show ?thesis using r p \<open>projected = Some m\<close> by simp
    next
      case None
      then have ho: "ho m key = r" using r(3) by simp
      show ?thesis
      proof (cases "r = Some True")
        case True
        then show ?thesis using r(1,2) None ho p \<open>projected = Some m\<close> field by (simp add: any_verdict_True)
      next
        case False
        let ?acc = "if r = None then None else acc"
        have acc: "?acc \<noteq> Some True" using Cons.prems(3) by simp
        obtain r' b' where r': "projection_loop ir query ev key fs ?acc b1 = Some (r', b')" "spent b1 b'"
          "r' = (if sb_limit b' = None then any_verdict (?acc # map (field_verdict ir ho query key) fs) else None)"
          using Cons.IH [OF f(2) None acc] by blast
        have "projection_loop ir query ev key (f # fs) acc b = Some (r', b')"
          using r(1) None False r'(1) p \<open>projected = Some m\<close> by simp
        then show ?thesis
          using spent_trans [OF r(2) r'(2)] r'(3) any_verdict_step [OF Cons.prems(3) False] ho field by simp
      qed
    qed
  qed
qed

lemma evaluate_query_ok:
  assumes ev: "evaluator_ok ir ho ev" and ir: "ir_ok ir" "query_ok ir query" "texts_ok ir"
    and ctx: "context_ok checkpoint context accepts" and key: "valid_utf8 key"
  shows "\<exists>r b'. evaluate_query checkpoint ir context ev query key b = Some (r, b') \<and> spent b b'
    \<and> r = (if sb_limit b' = None then query_verdict ir context accepts ho query key else None)"
proof -
  let ?s = "ir_schemas ir ! fq_schema query"
  have s: "ir_schema ir (fq_schema query) = Some ?s" using ir(2) by (simp add: query_ok_def ir_schema_def)
  obtain ok c where c: "charge checkpoint (length (sc_exact ?s) + length (sc_patterns ?s)) 0 b = (ok, c)"
    by (cases "charge checkpoint (length (sc_exact ?s) + length (sc_patterns ?s)) 0 b")
  have spent: "spent b c" using charge_spent [of b checkpoint "length (sc_exact ?s) + length (sc_patterns ?s)" 0] c by simp
  show ?thesis
  proof (cases ok)
    case False
    then have "sb_limit c \<noteq> None" using charge_fails [of checkpoint "length (sc_exact ?s) + length (sc_patterns ?s)" 0 b] c by simp
    then obtain l where "sb_limit c = Some l" by blast
    then show ?thesis using False c s spent by (simp add: evaluate_query_def)
  next
    case True
    then have none: "sb_limit c = None" using charge_works(2) [of checkpoint "length (sc_exact ?s) + length (sc_patterns ?s)" 0 b] c by simp
    let ?test = "evaluate_call_key checkpoint ir context ev" and ?mv = "call_verdict ir context accepts ho"
    let ?pure = "query_resolution_of ir context query key (pure_test ?mv) ()"
    have res: "resolution_ok ir c ?pure (query_resolution_of ir context query key ?test c)"
      by (rule query_resolution_ok [OF evaluate_call_key_ok [OF ev ir(1) ctx] ir ctx key none])
    then obtain q b1 where q: "query_resolution_of ir context query key ?test c = Some (q, b1)" "spent c b1"
      "list_all (\<lambda>f. f < length (ir_fields ir)) (qr_fields q)"
      "sb_limit b1 = None \<longrightarrow> ?pure = Some (q, ())" "sb_limit b1 \<noteq> None \<longrightarrow> qr_state q = DeferredSelector"
      unfolding resolution_ok_def by (auto split: option.splits)
    have spent1: "spent b b1" by (rule spent_trans [OF spent q(2)])
    show ?thesis
    proof (cases "sb_limit b1")
      case (Some l)
      then show ?thesis using True c s q(1,5) spent1 by (simp add: evaluate_query_def)
    next
      case None
      then have pure: "?pure = Some (q, ())" using q(4) by simp
      show ?thesis
      proof (cases "qr_state q = Resolved")
        case False
        then show ?thesis using True c s q(1) spent1 None pure
          by (cases "qr_state q") (simp_all add: evaluate_query_def query_verdict_def)
      next
        case res: True
        obtain r b2 where r: "projection_loop ir query ev key (qr_fields q) (Some False) b1 = Some (r, b2)" "spent b1 b2"
          "r = (if sb_limit b2 = None then any_verdict (Some False # map (field_verdict ir ho query key) (qr_fields q)) else None)"
          using projection_loop_ok [OF ev key ir(1) q(3) None, of "Some False" query] by auto
        have "any_verdict (Some False # rs) = any_verdict rs" for rs by (simp add: any_verdict_def)
        then have "query_verdict ir context accepts ho query key
            = any_verdict (Some False # map (field_verdict ir ho query key) (qr_fields q))"
          using pure res by (simp add: query_verdict_def)
        moreover have "evaluate_query checkpoint ir context ev query key b = Some (r, b2)"
          using True c s q(1) res r(1) by (simp add: evaluate_query_def)
        ultimately show ?thesis using spent_trans [OF spent1 r(2)] r(3) by simp
      qed
    qed
  qed
qed

text \<open>
  Evaluation meets its contract at every depth, for the verdict at every depth that is at least as
  large: what it decides does not depend on the depth it was allowed.
\<close>

lemma evaluate_ok:
  assumes ir: "ir_ok ir" "texts_ok ir" and ctx: "context_ok checkpoint context accepts"
  shows "k \<le> j \<Longrightarrow> evaluator_ok ir (matcher_verdict ir context accepts primitive j) (evaluate checkpoint ir context primitive k)"
proof (induction k arbitrary: j)
  case 0
  have "spent b ((snd (charge checkpoint 1 0 b))\<lparr>sb_limit := Some DepthLimit\<rparr>)" for b
    using charge_spent [of b checkpoint 1 0] by (simp add: spent_def)
  then show ?case
    using charge_spent charge_fails by (fastforce simp: evaluator_ok_def Let_def)
next
  case (Suc k)
  then obtain j' where j: "j = Suc j'" "k \<le> j'" by (cases j) auto
  note ev = Suc.IH [OF j(2)]
  let ?ev = "evaluate checkpoint ir context primitive k" and ?ho = "matcher_verdict ir context accepts primitive j'"
  show ?case unfolding evaluator_ok_def
  proof (intro allI impI)
    fix m key b assume mk: "m < length (ir_matchers ir) \<and> valid_utf8 key"
    then have m: "ir_matcher ir m = Some (ir_matchers ir ! m)" "matcher_ok ir m (ir_matchers ir ! m)" and key: "valid_utf8 key"
      using ir_ok_matcher [OF ir(1)] ir_at(1) by auto
    obtain ok c where c: "charge checkpoint 1 0 b = (ok, c)" by (cases "charge checkpoint 1 0 b")
    have spent: "spent b c" using charge_spent [of b checkpoint 1 0] c by simp
    let ?goal = "\<exists>r b'. evaluate checkpoint ir context primitive (Suc k) m key b = Some (r, b') \<and> spent b b'
      \<and> r = (if sb_limit b' = None then matcher_verdict ir context accepts primitive j m key else None)"
    show ?goal
    proof (cases ok)
      case False
      then have "sb_limit c \<noteq> None" using charge_fails [of checkpoint 1 0 b] c by simp
      then obtain l where "sb_limit c = Some l" by blast
      then show ?thesis using False c spent by simp
    next
      case True
      then have none: "sb_limit c = None" using charge_works(2) [of checkpoint 1 0 b] c by simp
      have finish: ?goal
        if "evaluate checkpoint ir context primitive (Suc k) m key b = Some (r, b')" "spent c b'"
          "r = (if sb_limit b' = None then v else None)" "v = matcher_verdict ir context accepts primitive j m key" for r b' v
        using that spent_trans [OF spent] by blast
      have primitive: ?goal
        if e: "evaluate checkpoint ir context primitive (Suc k) m key b =
            (case charge checkpoint (length key) 0 c of (False, b) \<Rightarrow> Some (None, b) | (True, b) \<Rightarrow> Some (primitive m key, b))"
          and v: "matcher_verdict ir context accepts primitive j m key = primitive m key"
      proof -
        obtain ok2 c2 where c2: "charge checkpoint (length key) 0 c = (ok2, c2)" by (cases "charge checkpoint (length key) 0 c")
        have spent2: "spent b c2" using spent_trans [OF spent charge_spent [of c checkpoint "length key" 0]] c2 by simp
        show ?goal
        proof (cases ok2)
          case False
          then have "sb_limit c2 \<noteq> None" using charge_fails [of checkpoint "length key" 0 c] c2 by simp
          then obtain l where "sb_limit c2 = Some l" by blast
          then show ?thesis using e c2 False spent2 by simp
        next
          case True
          then have "sb_limit c2 = None" using charge_works(2) [of checkpoint "length key" 0 c] c2 by simp
          then show ?thesis using e v c2 True spent2 by simp
        qed
      qed
      show ?thesis
      proof (cases "ir_matchers ir ! m")
        case (Union items)
        have items: "list_all (\<lambda>m. m < length (ir_matchers ir)) items" using target_below_union(2) [OF ir(1) _ Union] mk by blast
        obtain r b' where r: "union_loop ?ev key items (Some False) c = Some (r, b')" "spent c b'"
            "r = (if sb_limit b' = None then any_verdict (Some False # map (\<lambda>m. ?ho m key) items) else None)"
          using union_loop_ok [OF ev key items none, of "Some False"] by auto
        show ?thesis
          by (rule finish [OF _ r(2,3)]) (use m(1) Union True c j(1) r(1) in \<open>simp_all add: any_verdict_def\<close>)
      next
        case (Pattern parts)
        have parts: "list_all (part_ok ir) parts" using m(2) Pattern by (simp add: matcher_ok_def)
        have a: "answer_ok ?ho ir parts key None c (search_except ?ev checkpoint ir parts key None c)"
          by (rule search_except_ok [OF key parts ev]) simp
        obtain r b' where r: "search_except ?ev checkpoint ir parts key None c = Some (r, b')" "spent c b'"
          "sr_matched r = (if sb_limit b' = None then pattern_verdict ?ho ir parts key None else None)"
          by (rule answer_cases [OF a]) (rule that)
        show ?thesis
          by (rule finish [OF _ r(2,3)]) (use m(1) Pattern True c j(1) r(1) in \<open>simp_all add: pattern_search_def\<close>)
      next
        case (Query query)
        have "query_ok ir query" using m(2) Query by (simp add: matcher_ok_def)
        from evaluate_query_ok [OF ev ir(1) this ir(2) ctx key, of c]
        obtain r b' where r: "evaluate_query checkpoint ir context ?ev query key c = Some (r, b')" "spent c b'"
          "r = (if sb_limit b' = None then query_verdict ir context accepts ?ho query key else None)" by blast
        show ?thesis by (rule finish [OF _ r(2,3)]) (use m(1) Query True c j(1) r(1) in simp_all)
      qed (rule primitive; use m(1) True c j(1) in simp)+
    qed
  qed
qed

subsection \<open>Properties\<close>

text \<open>C12. On well-formed rules, the bounded evaluation of a matcher never panics and always ends, whatever
  the limits and whenever the checkpoint cancels.  Without a limit met, its answer is the verdict of the
  matcher, at every depth from the one it was given on; once a limit is met, it answers nothing.\<close>

theorem evaluation_decides:
  assumes "ir_ok ir" "texts_ok ir" "context_ok checkpoint context accepts" "m < length (ir_matchers ir)" "valid_utf8 key"
  shows "case evaluate checkpoint ir context primitive k m key b of
      None \<Rightarrow> False
    | Some (r, b') \<Rightarrow> spent b b' \<and>
        r = (if sb_limit b' = None then matcher_verdict ir context accepts primitive (k + n) m key else None)"
proof -
  have "evaluator_ok ir (matcher_verdict ir context accepts primitive (k + n)) (evaluate checkpoint ir context primitive k)"
    by (rule evaluate_ok [OF assms(1-3)]) simp
  then obtain r b' where r: "evaluate checkpoint ir context primitive k m key b = Some (r, b')" "spent b b'"
    "r = (if sb_limit b' = None then matcher_verdict ir context accepts primitive (k + n) m key else None)"
    by (rule evaluator_okD [OF _ assms(4,5)]) (rule that)
  show ?thesis unfolding r(1) option.case prod.case using r(2,3) by (rule conjI)
qed

text \<open>C13. A unique search gives the pieces of the holes only if they are a splitting that every hole accepts,
  and no other splitting is possible; it denies a match only if no splitting is possible, and otherwise
  leaves the question open.\<close>

theorem unique_search_decides:
  assumes "ir_ok ir" "texts_ok ir" "context_ok checkpoint context accepts" "list_all (part_ok ir) parts" "valid_utf8 v"
  shows "case unique_search (evaluate checkpoint ir context primitive k) checkpoint ir parts v b of
      None \<Rightarrow> False
    | Some (r, b') \<Rightarrow>
        (if sr_matched r = Some True
         then only_splitting (matcher_verdict ir context accepts primitive (k + n)) ir parts v (sr_holes r)
         else sr_holes r = [])
        \<and> sr_matched r = (if sb_limit b' = None
            then unique_verdict (matcher_verdict ir context accepts primitive (k + n)) ir parts v else None)"
proof -
  have "evaluator_ok ir (matcher_verdict ir context accepts primitive (k + n)) (evaluate checkpoint ir context primitive k)"
    by (rule evaluate_ok [OF assms(1-3)]) simp
  note u = unique_search_ok [where checkpoint = checkpoint and b = b, OF assms(5,4) this]
  show ?thesis
  proof (cases "unique_search (evaluate checkpoint ir context primitive k) checkpoint ir parts v b")
    case None
    then show ?thesis using u by simp
  next
    case (Some x)
    obtain r b' where x: "x = (r, b')" by (cases x)
    show ?thesis unfolding Some x option.case prod.case
      by (rule u [unfolded Some x option.case prod.case, THEN conjunct2])
  qed
qed

subsection \<open>An example\<close>

text \<open>The pattern \<open>{literal a}_{scalar}\<close>, its first hole through a union.\<close>

definition sample_ir :: rules_ir where
  "sample_ir = \<lparr>ir_strings = \<lparr>in_strings = [''_'', ''a''], in_index = Map.empty\<rparr>, ir_schemas = [], ir_fields = [],
     ir_matchers = [Literal 1, Scalar, Union [0], Pattern [Hole 2, Text 0, Hole 1]],
     ir_types = [], ir_traits = Map.empty, ir_compat = []\<rparr>"

definition sample_primitive :: "matcher_id \<Rightarrow> string \<Rightarrow> bool option" where
  "sample_primitive m key = Some (if m = 0 then key = ''a'' else key \<noteq> [])"

lemma sample_ok: "ir_ok sample_ir" "texts_ok sample_ir" "valid_utf8 ''a_b''" "3 < length (ir_matchers sample_ir)"
  "list_all (part_ok sample_ir) [Hole 2, Text 0, Hole 1]"
  by code_simp+

lemma sample_evaluation:
  "map_option (\<lambda>(r, b). (r, sb_limit b)) (evaluate (\<lambda>_. False) sample_ir no_query_context sample_primitive 4 3 ''a_b''
     (budget_new default_limits)) = Some (Some True, None)"
  by code_simp

lemma sample_unique:
  "map_option (\<lambda>(r, b). (sr_matched r, sr_holes r)) (unique_search
     (evaluate (\<lambda>_. False) sample_ir no_query_context sample_primitive 4) (\<lambda>_. False) sample_ir
     [Hole 2, Text 0, Hole 1] ''a_b'' (budget_new default_limits)) = Some (Some True, [(2, 0, 1), (1, 2, 3)])"
  by code_simp

theorem evaluation_decides_witness:
  "matcher_verdict sample_ir no_query_context (\<lambda>_ _. None) sample_primitive 7 3 ''a_b'' = Some True"
  using evaluation_decides [where checkpoint = "\<lambda>_. False" and primitive = sample_primitive and k = 4 and n = 3
      and b = "budget_new default_limits", OF sample_ok(1,2) no_context_ok sample_ok(4,3)] sample_evaluation
  by (auto split: option.splits)

theorem unique_search_decides_witness:
  "only_splitting (matcher_verdict sample_ir no_query_context (\<lambda>_ _. None) sample_primitive 7) sample_ir
     [Hole 2, Text 0, Hole 1] ''a_b'' [(2, 0, 1), (1, 2, 3)]"
  using unique_search_decides [where checkpoint = "\<lambda>_. False" and primitive = sample_primitive and k = 4 and n = 3
      and b = "budget_new default_limits", OF sample_ok(1,2) no_context_ok sample_ok(5,3)] sample_unique
  by (auto split: option.splits)

end
