(* ===== verification/Expr_Parser.thy ===== *)
theory Expr_Parser
  imports Format_Edits Decimal Complex_Main
begin

text \<open>
  The type expressions of the rule language, \<open>crates/rules/src/expr.rs\<close>.  A method of the cursor is a
  reader: a function from the source and a byte offset to a panic, an error, or a result with the
  offset after it; \<open>after\<close> is the operator \<open>?\<close>.  A message is the constructor that stands for it, with
  what it quotes.  The methods that loop or call each other take a fuel, one more than the bytes of the
  source; \<open>Expr_Correct\<close> proves that it suffices.  The stack of the process is not modelled.
\<close>

subsection \<open>Numbers\<close>

text \<open>
  An \<open>f64\<close> as decimal digits give it: the rational number that the rounding to 53 binary digits, to
  even on a tie, leaves, or an infinity.
\<close>

datatype f64 = Finite rat | Infinity | NegInfinity

definition power_of_two :: "int \<Rightarrow> rat" where
  "power_of_two e = (if 0 \<le> e then 2 ^ nat e else 1 / 2 ^ nat (- e))"

definition round_half_even :: "rat \<Rightarrow> int" where
  "round_half_even q =
    (let n = \<lfloor>q\<rfloor>; r = q - of_int n
     in if r < 1 / 2 then n else if 1 / 2 < r then n + 1 else if even n then n else n + 1)"

fun bit_length :: "nat \<Rightarrow> nat" where
  "bit_length n = (if n = 0 then 0 else bit_length (n div 2) + 1)"

declare bit_length.simps [simp del]

definition floor_log_two :: "rat \<Rightarrow> int" where
  "floor_log_two q =
    (case quotient_of q of (a, b) \<Rightarrow>
       let l = int (bit_length (nat a)) - int (bit_length (nat b))
       in if power_of_two l \<le> q then l else l - 1)"

definition round_f64 :: "rat \<Rightarrow> f64" where
  "round_f64 q =
    (if q = 0 then Finite 0
     else
       let unit = power_of_two (max (floor_log_two \<bar>q\<bar>) (- 1022) - 52);
           m = of_int (round_half_even (\<bar>q\<bar> / unit)) * unit
       in if 1024 \<le> floor_log_two m then (if q < 0 then NegInfinity else Infinity)
          else Finite (if q < 0 then - m else m))"

fun digits_value :: "rat \<Rightarrow> string \<Rightarrow> rat" where
  "digits_value acc [] = acc"
| "digits_value acc (c # cs) = digits_value (acc * 10 + of_nat (byte_of c - 48)) cs"

text \<open>\<open>parse::<f64>()\<close> of an optional minus sign, digits, and an optional fraction.\<close>

definition read_unsigned :: "string \<Rightarrow> rat" where
  "read_unsigned t =
    (case split_on (CHR ''.'') t of
       [whole, fraction] \<Rightarrow> digits_value 0 whole + digits_value 0 fraction / 10 ^ length fraction
     | _ \<Rightarrow> digits_value 0 t)"

definition read_f64 :: "string \<Rightarrow> f64" where
  "read_f64 t =
    round_f64 (case t of c # cs \<Rightarrow> if c = CHR ''-'' then - read_unsigned cs else read_unsigned t | [] \<Rightarrow> 0)"

definition is_integral :: "f64 \<Rightarrow> bool" where
  "is_integral x = (case x of Finite q \<Rightarrow> of_int \<lfloor>q\<rfloor> = q | _ \<Rightarrow> False)"

definition f64_greater :: "f64 \<Rightarrow> f64 \<Rightarrow> bool" where
  "f64_greater x y =
    (case (x, y) of
       (Finite p, Finite q) \<Rightarrow> q < p
     | (NegInfinity, _) \<Rightarrow> False
     | (_, Infinity) \<Rightarrow> False
     | _ \<Rightarrow> True)"

subsection \<open>Expressions\<close>

datatype scalar_kind = ScalarKind | IntKind | FloatKind | BoolKind | DateKind | LocKind | LinkKind | OpaqueKind

record bounds =
  rg_min :: "f64 option"
  rg_max :: "f64 option"

datatype segment = NameSegment string | ParamSegment string

datatype argument = PathArgument "segment list" | StrippedArgument "segment list" string

datatype query_projection = Keys | Values

datatype query_selector = LiteralSelector string | SiblingSelector string

datatype query_shape = ScalarShape | BlockShape

datatype query_value_kind = IntValue | FloatValue | BoolValue

record expr_query =
  eq_schema :: string
  eq_projection :: query_projection
  eq_selector :: "query_selector option"
  eq_scope_accepts :: "string option"
  eq_shape :: "query_shape option"
  eq_value_kind_any :: "query_value_kind list"
  eq_capability :: "string option"
  eq_call_args_none :: bool

datatype expr = Expr (alternatives: "primary list")
  and primary =
    ScalarPrimary scalar_kind "bounds option"
  | RefPrimary argument
  | DefPrimary argument
  | EnumPrimary argument
  | ScopePrimary argument
  | PathPrimary "string option"
  | LiteralPrimary "literal_part list"
  | QueryPrimary expr_query
  | ParamPrimary string
  and literal_part = TextPart string | HolePart expr

definition argument_segments :: "argument \<Rightarrow> segment list" where
  "argument_segments a = (case a of PathArgument segs \<Rightarrow> segs | StrippedArgument segs _ \<Rightarrow> segs)"

definition kind_of_keyword :: "string \<Rightarrow> scalar_kind option" where
  "kind_of_keyword keyword =
    map_of [(''scalar'', ScalarKind), (''int'', IntKind), (''float'', FloatKind), (''bool'', BoolKind),
      (''date'', DateKind), (''loc'', LocKind), (''link'', LinkKind), (''opaque'', OpaqueKind)] keyword"

subsection \<open>Errors and readers\<close>

datatype expr_message =
    TrailingInput string
  | TrailingTemplateInput
  | ExpectedChar char "string option"
  | ExpectedIdentifier "string option"
  | ExpectedExpression "string option"
  | QuotedRemoved
  | UnknownExpression string
  | DuplicateFilter string
  | UnknownShape string
  | UnknownValueKind string
  | CallArgsOnlyNone
  | UnknownFilter string
  | ValuesNeedKey
  | ValuesOfBlock
  | CallArgsNeedScalar
  | SelectorNotConstant
  | RangeNotAllowed
  | BoundNotWhole
  | BoundsReversed f64 f64
  | ExpectedDots
  | ExpectedDigits
  | TraitReference
  | ExpectedStripPrefix string
  | ExpectedDollar
  | ParameterAttribute
  | UnterminatedLiteral
  | UnterminatedEscape
  | InvalidEscape string

record parse_error =
  pe_offset :: nat
  pe_column :: nat
  pe_message :: expr_message

datatype 'a outcome = Panic | Fail parse_error | Done 'a nat

type_synonym 'a reader = "string \<Rightarrow> nat \<Rightarrow> 'a outcome"

definition give :: "'a \<Rightarrow> 'a reader" where
  "give a s i = Done a i"

definition after :: "'a reader \<Rightarrow> ('a \<Rightarrow> 'b reader) \<Rightarrow> 'b reader" where
  "after p f s i = (case p s i of Panic \<Rightarrow> Panic | Fail e \<Rightarrow> Fail e | Done a j \<Rightarrow> f a s j)"

text \<open>\<open>self.position\<close>, and the slice of the source from an offset up to it.\<close>

definition here :: "nat reader" where
  "here s i = Done i i"

definition since :: "nat \<Rightarrow> string reader" where
  "since start s i = (case str_get s start i of None \<Rightarrow> Panic | Some t \<Rightarrow> Done t i)"

definition fail_at :: "nat \<Rightarrow> expr_message \<Rightarrow> 'a reader" where
  "fail_at offset message s i =
    (if is_boundary s offset
     then Fail \<lparr>pe_offset = offset, pe_column = length (str_chars (take offset s)) + 1, pe_message = message\<rparr>
     else Panic)"

definition fail_here :: "expr_message \<Rightarrow> 'a reader" where
  "fail_here message s i = fail_at i message s i"

subsection \<open>Characters and tokens\<close>

definition char_at :: "string \<Rightarrow> nat \<Rightarrow> string option" where
  "char_at s i = (if i < length s then Some (take (utf8_width (byte_of (s ! i))) (drop i s)) else None)"

definition peek :: "string option reader" where
  "peek s i = (if is_boundary s i then Done (char_at s i) i else Panic)"

definition bump :: "string option reader" where
  "bump = after peek (\<lambda>c s i. Done c (case c of None \<Rightarrow> i | Some ch \<Rightarrow> i + length ch))"

text \<open>\<open>match self.peek()\<close> where every character is stepped over, and the test for one character.\<close>

definition next_char :: "'a reader \<Rightarrow> (string \<Rightarrow> 'a reader) \<Rightarrow> 'a reader" where
  "next_char p f = after peek (\<lambda>c. case c of None \<Rightarrow> p | Some ch \<Rightarrow> after bump (\<lambda>_. f ch))"

definition if_next :: "char \<Rightarrow> 'a reader \<Rightarrow> 'a reader \<Rightarrow> 'a reader" where
  "if_next c p q = after peek (\<lambda>found. if found = Some [c] then after bump (\<lambda>_. p) else q)"

function skip_while :: "(string \<Rightarrow> bool) \<Rightarrow> string \<Rightarrow> nat \<Rightarrow> unit outcome" where
  "skip_while test s i =
    (if \<not> is_boundary s i then Panic
     else if i < length s \<and> test (the (char_at s i)) then skip_while test s (i + utf8_width (byte_of (s ! i)))
     else Done () i)"
  by pat_completeness auto
termination
  by (relation "measure (\<lambda>(test, s, i). length s - i)") (auto intro: diff_less_mono2)

declare skip_while.simps [simp del]

definition skip_whitespace :: "unit reader" where
  "skip_whitespace = skip_while is_whitespace"

definition expect :: "char \<Rightarrow> unit reader" where
  "expect c = after skip_whitespace (\<lambda>_.
    if_next c (give ()) (after peek (\<lambda>found. fail_here (ExpectedChar c found))))"

definition ident_start_byte :: "char \<Rightarrow> bool" where
  "ident_start_byte b \<longleftrightarrow> is_ascii_upper b \<or> is_ascii_lower b \<or> b = CHR ''_''"

definition ident_byte :: "char \<Rightarrow> bool" where
  "ident_byte b \<longleftrightarrow> ident_start_byte b \<or> is_ascii_digit b"

definition one_byte :: "(char \<Rightarrow> bool) \<Rightarrow> string \<Rightarrow> bool" where
  "one_byte test c = (case c of [b] \<Rightarrow> test b | _ \<Rightarrow> False)"

definition next_is :: "(char \<Rightarrow> bool) \<Rightarrow> string option \<Rightarrow> bool" where
  "next_is test found = (case found of None \<Rightarrow> False | Some c \<Rightarrow> one_byte test c)"

definition read_ident :: "string reader" where
  "read_ident = after skip_whitespace (\<lambda>_. after here (\<lambda>start. after peek (\<lambda>first.
    if next_is ident_start_byte first
    then after bump (\<lambda>_. after (skip_while (one_byte ident_byte)) (\<lambda>_. since start))
    else fail_at start (ExpectedIdentifier first))))"

subsection \<open>Ranges\<close>

definition expect_dots :: "unit reader" where
  "expect_dots = after skip_whitespace (\<lambda>_. after peek (\<lambda>c. \<lambda>s i.
    if c = Some ''.'' \<and> take 2 (drop i s) = ''..'' then after bump (\<lambda>_. after bump (\<lambda>_. give ())) s i
    else fail_here ExpectedDots s i))"

text \<open>\<open>self.source[self.position + 1..].chars().next()\<close>.\<close>

definition look_ahead :: "string option reader" where
  "look_ahead s i = (case peek s (i + 1) of Done c _ \<Rightarrow> Done c i | Fail e \<Rightarrow> Fail e | Panic \<Rightarrow> Panic)"

definition skip_digits :: "unit reader" where
  "skip_digits = skip_while (one_byte is_ascii_digit)"

definition skip_fraction :: "unit reader" where
  "skip_fraction = after peek (\<lambda>c.
    if c = Some ''.'' then
      after look_ahead (\<lambda>d. if next_is is_ascii_digit d then after bump (\<lambda>_. skip_digits) else give ())
    else give ())"

definition number_rest :: "nat \<Rightarrow> (f64 \<times> nat) option reader" where
  "number_rest start = after skip_digits (\<lambda>_. after skip_fraction (\<lambda>_. after (since start) (\<lambda>t.
    give (Some (read_f64 t, start)))))"

definition parse_number :: "(f64 \<times> nat) option reader" where
  "parse_number = after skip_whitespace (\<lambda>_. after here (\<lambda>start. after peek (\<lambda>c.
    if c = Some ''-'' then
      after bump (\<lambda>_. after peek (\<lambda>d.
        if next_is is_ascii_digit d then number_rest start else fail_here ExpectedDigits))
    else if next_is is_ascii_digit c then number_rest start
    else give None)))"

definition check_whole :: "scalar_kind \<Rightarrow> (f64 \<times> nat) option \<Rightarrow> unit reader" where
  "check_whole kind bound =
    (case bound of
       None \<Rightarrow> give ()
     | Some (x, offset) \<Rightarrow>
         if kind = IntKind \<and> \<not> is_integral x then fail_at offset BoundNotWhole else give ())"

definition check_order :: "nat \<Rightarrow> (f64 \<times> nat) option \<Rightarrow> (f64 \<times> nat) option \<Rightarrow> unit reader" where
  "check_order offset lower upper =
    (case (lower, upper) of
       (Some (x, _), Some (y, _)) \<Rightarrow> if f64_greater x y then fail_at offset (BoundsReversed x y) else give ()
     | _ \<Rightarrow> give ())"

definition range_body :: "scalar_kind \<Rightarrow> nat \<Rightarrow> bounds option reader" where
  "range_body kind offset =
    after parse_number (\<lambda>lower. after expect_dots (\<lambda>_. after parse_number (\<lambda>upper.
    after (expect (CHR '']'')) (\<lambda>_. after (check_whole kind lower) (\<lambda>_. after (check_whole kind upper) (\<lambda>_.
    after (check_order offset lower upper) (\<lambda>_.
    give (Some \<lparr>rg_min = map_option fst lower, rg_max = map_option fst upper\<rparr>))))))))"

definition parse_range :: "scalar_kind \<Rightarrow> bounds option reader" where
  "parse_range kind = after skip_whitespace (\<lambda>_. after peek (\<lambda>c.
    if c \<noteq> Some ''['' then give None
    else if kind \<noteq> IntKind \<and> kind \<noteq> FloatKind then fail_here RangeNotAllowed
    else after here (\<lambda>offset. after bump (\<lambda>_. range_body kind offset))))"

subsection \<open>Arguments\<close>

definition parse_param :: "string reader" where
  "parse_param = after skip_whitespace (\<lambda>_.
    if_next (CHR ''$'')
      (after read_ident (\<lambda>n. after skip_whitespace (\<lambda>_. after peek (\<lambda>c.
         if c = Some ''.'' then fail_here ParameterAttribute else give n))))
      (fail_here ExpectedDollar))"

definition parse_segment :: "segment reader" where
  "parse_segment = after skip_whitespace (\<lambda>_. after peek (\<lambda>c.
    if c = Some ''$'' then after parse_param (\<lambda>n. give (ParamSegment n))
    else after read_ident (\<lambda>n. give (NameSegment n))))"

fun segments_loop :: "nat \<Rightarrow> segment list \<Rightarrow> segment list reader" where
  "segments_loop 0 segs s i = Panic"
| "segments_loop (Suc n) segs s i = after skip_whitespace (\<lambda>_.
    if_next (CHR ''.'') (after parse_segment (\<lambda>seg. segments_loop n (segs @ [seg]))) (give segs)) s i"

definition parse_argument :: "nat \<Rightarrow> argument reader" where
  "parse_argument n = after skip_whitespace (\<lambda>_. after peek (\<lambda>c.
    if c = Some ''$'' then after parse_param (\<lambda>p. give (PathArgument [ParamSegment p]))
    else after read_ident (\<lambda>first.
      if first = ''impl'' then fail_here TraitReference
      else after (segments_loop n [NameSegment first]) (\<lambda>segs. after skip_whitespace (\<lambda>_. after peek (\<lambda>found.
        if next_is ident_start_byte found then
          after read_ident (\<lambda>marker.
            if marker = ''strip_prefix'' then after read_ident (\<lambda>affix. give (StrippedArgument segs affix))
            else fail_here (ExpectedStripPrefix marker))
        else give (PathArgument segs)))))))"

subsection \<open>Literals\<close>

definition APOSTROPHE :: char where "APOSTROPHE = CHR 0x27"

text \<open>A character after a backslash.\<close>

definition escapable :: "string list" where
  "escapable = [[APOSTROPHE], ''{'', ''}'', [BACKSLASH]]"

definition parse_escape :: "string reader" where
  "parse_escape = after bump (\<lambda>c.
    case c of
      None \<Rightarrow> fail_here UnterminatedEscape
    | Some ch \<Rightarrow>
        if ch \<in> set escapable then give ch
        else after here (\<lambda>p s i. if p < length ch + 1 then Panic
          else fail_at (p - length ch - 1) (InvalidEscape ch) s i))"

definition flush :: "literal_part list \<Rightarrow> string \<Rightarrow> literal_part list" where
  "flush parts t = (if t = [] then parts else parts @ [TextPart t])"

fun literal_loop ::
  "expr reader \<Rightarrow> bool \<Rightarrow> nat \<Rightarrow> nat \<Rightarrow> literal_part list \<Rightarrow> string \<Rightarrow> literal_part list reader" where
  "literal_loop ex quoted opening 0 parts t s i = Panic"
| "literal_loop ex quoted opening (Suc n) parts t s i =
    next_char
      (if quoted then fail_at opening UnterminatedLiteral else give (flush parts t))
      (\<lambda>c. if c = [APOSTROPHE] \<and> quoted then give (flush parts t)
           else if c = [BACKSLASH] then after parse_escape (\<lambda>ch. literal_loop ex quoted opening n parts (t @ ch))
           else if c = ''{'' then
             after ex (\<lambda>hole. after (expect (CHR ''}'')) (\<lambda>_.
               literal_loop ex quoted opening n (flush parts t @ [HolePart hole]) []))
           else literal_loop ex quoted opening n parts (t @ c)) s i"

definition parse_literal_parts :: "expr reader \<Rightarrow> nat \<Rightarrow> bool \<Rightarrow> literal_part list reader" where
  "parse_literal_parts ex n quoted = after here (\<lambda>opening.
    after (if quoted then expect APOSTROPHE else give ()) (\<lambda>_. literal_loop ex quoted opening n [] []))"

subsection \<open>Queries\<close>

fun constant_text :: "literal_part list \<Rightarrow> string option" where
  "constant_text [] = Some []"
| "constant_text (TextPart t # ps) = map_option (\<lambda>u. t @ u) (constant_text ps)"
| "constant_text (HolePart e # ps) = None"

definition parse_query_selector :: "expr reader \<Rightarrow> nat \<Rightarrow> query_selector reader" where
  "parse_query_selector ex n = after skip_whitespace (\<lambda>_. after here (\<lambda>offset. after peek (\<lambda>c.
    if c = Some [APOSTROPHE] then
      after (parse_literal_parts ex n True) (\<lambda>parts.
        case constant_text parts of
          None \<Rightarrow> fail_at offset SelectorNotConstant
        | Some t \<Rightarrow> give (LiteralSelector t))
    else after read_ident (\<lambda>nm. after skip_whitespace (\<lambda>_.
      if nm = ''sibling'' then
        if_next (CHR ''<'')
          (after read_ident (\<lambda>sibling. after (expect (CHR ''>'')) (\<lambda>_. give (SiblingSelector sibling))))
          (give (LiteralSelector nm))
      else give (LiteralSelector nm))))))"

definition value_kind_of :: "string \<Rightarrow> query_value_kind option" where
  "value_kind_of kind = map_of [(''int'', IntValue), (''float'', FloatValue), (''bool'', BoolValue)] kind"

fun kinds_loop :: "nat \<Rightarrow> query_value_kind list \<Rightarrow> query_value_kind list reader" where
  "kinds_loop 0 kinds s i = Panic"
| "kinds_loop (Suc n) kinds s i = after here (\<lambda>offset. after read_ident (\<lambda>kind.
    case value_kind_of kind of
      None \<Rightarrow> fail_at offset (UnknownValueKind kind)
    | Some k \<Rightarrow> after skip_whitespace (\<lambda>_.
        if_next (CHR ''|'') (kinds_loop n (kinds @ [k])) (give (kinds @ [k]))))) s i"

definition query_filter :: "expr reader \<Rightarrow> nat \<Rightarrow> nat \<Rightarrow> string \<Rightarrow> expr_query \<Rightarrow> expr_query reader" where
  "query_filter ex n offset name q =
    (if name = ''key'' then
       after (parse_query_selector ex n) (\<lambda>sel. give (q\<lparr>eq_selector := Some sel\<rparr>))
     else if name = ''scope_accepts'' then
       after read_ident (\<lambda>scope. give (q\<lparr>eq_scope_accepts := Some scope\<rparr>))
     else if name = ''shape'' then
       after read_ident (\<lambda>shape.
         if shape = ''scalar'' then give (q\<lparr>eq_shape := Some ScalarShape\<rparr>)
         else if shape = ''block'' then give (q\<lparr>eq_shape := Some BlockShape\<rparr>)
         else fail_at offset (UnknownShape shape))
     else if name = ''value_kind_any'' then
       after (expect (CHR ''('')) (\<lambda>_. after (kinds_loop n (eq_value_kind_any q)) (\<lambda>kinds.
         after (expect (CHR '')'')) (\<lambda>_. give (q\<lparr>eq_value_kind_any := kinds\<rparr>))))
     else if name = ''call_args'' then
       after read_ident (\<lambda>arguments.
         if arguments \<noteq> ''none'' then fail_at offset CallArgsOnlyNone
         else give (q\<lparr>eq_call_args_none := True\<rparr>))
     else if name = ''capability'' then
       after read_ident (\<lambda>capability. give (q\<lparr>eq_capability := Some capability\<rparr>))
     else fail_at offset (UnknownFilter name))"

fun query_loop :: "expr reader \<Rightarrow> nat \<Rightarrow> string list \<Rightarrow> expr_query \<Rightarrow> expr_query reader" where
  "query_loop ex 0 seen q s i = Panic"
| "query_loop ex (Suc n) seen q s i = after skip_whitespace (\<lambda>_.
    if_next (CHR '','')
      (after skip_whitespace (\<lambda>_. after here (\<lambda>offset. after read_ident (\<lambda>name.
        if name \<in> set seen then fail_at offset (DuplicateFilter name)
        else after (expect (CHR ''='')) (\<lambda>_. after (query_filter ex n offset name q)
          (query_loop ex n (name # seen)))))))
      (give q)) s i"

definition check_query :: "expr_query \<Rightarrow> expr_query reader" where
  "check_query q =
    (if eq_projection q = Values \<and> eq_selector q = None then fail_here ValuesNeedKey
     else if eq_projection q = Values \<and> eq_shape q = Some BlockShape then fail_here ValuesOfBlock
     else if eq_call_args_none q \<and> eq_shape q \<noteq> Some ScalarShape then fail_here CallArgsNeedScalar
     else give q)"

definition parse_query :: "expr reader \<Rightarrow> nat \<Rightarrow> query_projection \<Rightarrow> expr_query reader" where
  "parse_query ex n projection = after (expect (CHR ''<'')) (\<lambda>_. after read_ident (\<lambda>schema.
    after (query_loop ex n [] \<lparr>eq_schema = schema, eq_projection = projection, eq_selector = None,
        eq_scope_accepts = None, eq_shape = None, eq_value_kind_any = [], eq_capability = None,
        eq_call_args_none = False\<rparr>) (\<lambda>q.
    after (expect (CHR ''>'')) (\<lambda>_. check_query q))))"

subsection \<open>Expressions\<close>

definition path_category :: "string option reader" where
  "path_category = after skip_whitespace (\<lambda>_.
    if_next (CHR ''<'') (after read_ident (\<lambda>name. after (expect (CHR ''>'')) (\<lambda>_. give (Some name)))) (give None))"

definition constructor_of :: "string \<Rightarrow> (argument \<Rightarrow> primary) option" where
  "constructor_of keyword =
    map_of [(''ref'', RefPrimary), (''def'', DefPrimary), (''enum'', EnumPrimary), (''scope'', ScopePrimary)] keyword"

definition keyword_primary :: "expr reader \<Rightarrow> nat \<Rightarrow> nat \<Rightarrow> string \<Rightarrow> primary reader" where
  "keyword_primary ex n start keyword =
    (case kind_of_keyword keyword of
       Some kind \<Rightarrow> after (parse_range kind) (\<lambda>range_given. give (ScalarPrimary kind range_given))
     | None \<Rightarrow>
         if keyword = ''keysof'' then after (parse_query ex n Keys) (\<lambda>q. give (QueryPrimary q))
         else if keyword = ''valuesof'' then after (parse_query ex n Values) (\<lambda>q. give (QueryPrimary q))
         else if keyword = ''path'' then after path_category (\<lambda>category. give (PathPrimary category))
         else case constructor_of keyword of
           Some build \<Rightarrow>
             after (expect (CHR ''<'')) (\<lambda>_. after (parse_argument n) (\<lambda>argument.
               after (expect (CHR ''>'')) (\<lambda>_. give (build argument))))
         | None \<Rightarrow>
             fail_at start (if keyword = ''quoted'' then QuotedRemoved else UnknownExpression keyword))"

definition parse_primary :: "expr reader \<Rightarrow> nat \<Rightarrow> primary reader" where
  "parse_primary ex n = after skip_whitespace (\<lambda>_. after here (\<lambda>start. after peek (\<lambda>first.
    if first = Some ''$'' then after parse_param (\<lambda>p. give (ParamPrimary p))
    else if first = Some [APOSTROPHE] then
      after (parse_literal_parts ex n True) (\<lambda>parts. give (LiteralPrimary parts))
    else if next_is ident_start_byte first then after read_ident (keyword_primary ex n start)
    else fail_at start (ExpectedExpression first))))"

fun alternatives_loop :: "(nat \<Rightarrow> primary reader) \<Rightarrow> nat \<Rightarrow> primary list \<Rightarrow> expr reader" where
  "alternatives_loop prim 0 ps s i = Panic"
| "alternatives_loop prim (Suc n) ps s i = after (prim (Suc n)) (\<lambda>p. after skip_whitespace (\<lambda>_.
    if_next (CHR ''|'') (alternatives_loop prim n (ps @ [p])) (give (Expr (ps @ [p]))))) s i"

fun parse_expr :: "nat \<Rightarrow> expr reader" where
  "parse_expr 0 s i = Panic"
| "parse_expr (Suc k) s i = alternatives_loop (parse_primary (parse_expr k)) (Suc k) [] s i"

definition result_of :: "'a outcome \<Rightarrow> (parse_error + 'a) option" where
  "result_of r = (case r of Panic \<Rightarrow> None | Fail e \<Rightarrow> Some (Inl e) | Done a _ \<Rightarrow> Some (Inr a))"

definition parse :: "string \<Rightarrow> (parse_error + expr) option" where
  "parse source = result_of (after (parse_expr (length source + 1)) (\<lambda>e. after skip_whitespace (\<lambda>_. after peek (\<lambda>c.
    case c of Some ch \<Rightarrow> fail_here (TrailingInput ch) | None \<Rightarrow> give e))) source 0)"

definition parse_template :: "string \<Rightarrow> (parse_error + literal_part list) option" where
  "parse_template source = result_of (after
    (parse_literal_parts (parse_expr (length source + 1)) (length source + 1) False)
    (\<lambda>parts. after skip_whitespace (\<lambda>_. \<lambda>s i.
      if i < length s then fail_here TrailingTemplateInput s i else give parts s i)) source 0)"

text \<open>Tests of the source.\<close>

lemma parse_examples:
  "parse ''int[ -6 .. 10 ]'' = Some (Inr (Expr [ScalarPrimary IntKind
     (Some \<lparr>rg_min = Some (Finite (- 6)), rg_max = Some (Finite 10)\<rparr>)]))"
  "parse ''ref<estate strip_prefix estate_>'' = Some (Inr (Expr [RefPrimary (StrippedArgument [NameSegment ''estate''] ''estate_'')]))"
  "map_option (\<lambda>r. case r of Inl e \<Rightarrow> pe_column e | Inr _ \<Rightarrow> 0) (parse ''int[1.5..2]'') = Some 5"
  by code_simp+

end
