(* ===== verification/Expr_Correct.thy ===== *)
theory Expr_Correct
  imports Expr_Parser
begin

text \<open>
  The parser of type expressions never panics, and its errors are well placed; what it gives is well
  formed.
\<close>

subsection \<open>Well-formed expressions\<close>

definition is_ident :: "string \<Rightarrow> bool" where
  "is_ident t \<longleftrightarrow> t \<noteq> [] \<and> ident_start_byte (hd t) \<and> list_all ident_byte t"

definition bound_ok :: "scalar_kind \<Rightarrow> f64 option \<Rightarrow> bool" where
  "bound_ok kind b \<longleftrightarrow> (case b of None \<Rightarrow> True | Some x \<Rightarrow> kind = IntKind \<longrightarrow> is_integral x)"

definition bounds_ok :: "scalar_kind \<Rightarrow> bounds option \<Rightarrow> bool" where
  "bounds_ok kind r \<longleftrightarrow>
    (case r of
       None \<Rightarrow> True
     | Some r \<Rightarrow>
         (kind = IntKind \<or> kind = FloatKind) \<and> bound_ok kind (rg_min r) \<and> bound_ok kind (rg_max r)
         \<and> (case (rg_min r, rg_max r) of (Some x, Some y) \<Rightarrow> \<not> f64_greater x y | _ \<Rightarrow> True))"

text \<open>A parameter is the last segment.\<close>

fun segments_ok :: "segment list \<Rightarrow> bool" where
  "segments_ok [] = True"
| "segments_ok [ParamSegment p] = is_ident p"
| "segments_ok (ParamSegment p # seg # segs) = False"
| "segments_ok (NameSegment n # segs) = (is_ident n \<and> segments_ok segs)"

fun named_segments :: "segment list \<Rightarrow> bool" where
  "named_segments (NameSegment n # segs) = (n \<noteq> ''impl'' \<and> segments_ok (NameSegment n # segs))"
| "named_segments _ = False"

fun lone_parameter :: "segment list \<Rightarrow> bool" where
  "lone_parameter [ParamSegment p] = is_ident p"
| "lone_parameter _ = False"

lemma lone_parameter_iff: "lone_parameter segs \<longleftrightarrow> (\<exists>p. segs = [ParamSegment p] \<and> is_ident p)"
  by (cases segs rule: lone_parameter.cases) simp_all

fun argument_ok :: "argument \<Rightarrow> bool" where
  "argument_ok (PathArgument segs) = (named_segments segs \<or> lone_parameter segs)"
| "argument_ok (StrippedArgument segs affix) = (named_segments segs \<and> is_ident affix)"

definition ident_option :: "string option \<Rightarrow> bool" where
  "ident_option t = (case t of None \<Rightarrow> True | Some t \<Rightarrow> is_ident t)"

definition selector_ok :: "query_selector option \<Rightarrow> bool" where
  "selector_ok sel =
    (case sel of
       None \<Rightarrow> True
     | Some (LiteralSelector t) \<Rightarrow> valid_utf8 t
     | Some (SiblingSelector t) \<Rightarrow> is_ident t)"

definition filters_ok :: "expr_query \<Rightarrow> bool" where
  "filters_ok q \<longleftrightarrow> is_ident (eq_schema q) \<and> selector_ok (eq_selector q) \<and> ident_option (eq_scope_accepts q)
    \<and> ident_option (eq_capability q)"

definition query_ok :: "expr_query \<Rightarrow> bool" where
  "query_ok q \<longleftrightarrow> filters_ok q
    \<and> (eq_projection q = Values \<longrightarrow> eq_selector q \<noteq> None \<and> eq_shape q \<noteq> Some BlockShape)
    \<and> (eq_call_args_none q \<longrightarrow> eq_shape q = Some ScalarShape)"

text \<open>Pieces of text are not empty and not next to each other.\<close>

definition is_text :: "literal_part \<Rightarrow> bool" where
  "is_text p = (case p of TextPart _ \<Rightarrow> True | HolePart _ \<Rightarrow> False)"

fun alternating :: "literal_part list \<Rightarrow> bool" where
  "alternating (p # q # ps) = (\<not> (is_text p \<and> is_text q) \<and> alternating (q # ps))"
| "alternating ps = True"

fun expr_ok :: "expr \<Rightarrow> bool" and primary_ok :: "primary \<Rightarrow> bool" and part_ok :: "literal_part \<Rightarrow> bool" where
  "expr_ok (Expr ps) = (ps \<noteq> [] \<and> list_all primary_ok ps)"
| "primary_ok (ScalarPrimary kind r) = bounds_ok kind r"
| "primary_ok (RefPrimary a) = argument_ok a"
| "primary_ok (DefPrimary a) = argument_ok a"
| "primary_ok (EnumPrimary a) = argument_ok a"
| "primary_ok (ScopePrimary a) = argument_ok a"
| "primary_ok (PathPrimary category) = ident_option category"
| "primary_ok (LiteralPrimary ps) = (alternating ps \<and> list_all part_ok ps)"
| "primary_ok (QueryPrimary q) = query_ok q"
| "primary_ok (ParamPrimary p) = is_ident p"
| "part_ok (TextPart t) = (t \<noteq> [] \<and> valid_utf8 t)"
| "part_ok (HolePart e) = expr_ok e"

definition literal_ok :: "literal_part list \<Rightarrow> bool" where
  "literal_ok ps \<longleftrightarrow> alternating ps \<and> list_all part_ok ps"

subsection \<open>Sound readers\<close>

text \<open>
  A reader is sound from an offset \<open>b\<close> on, with \<open>n\<close> more than the bytes that are left, if it does not
  panic, goes forward to a boundary, gives what \<open>Q\<close> allows, and places its errors well.
\<close>

definition placed :: "string \<Rightarrow> parse_error \<Rightarrow> bool" where
  "placed s e \<longleftrightarrow> is_boundary s (pe_offset e) \<and> pe_column e = length (str_chars (take (pe_offset e) s)) + 1"

definition fine :: "('a \<Rightarrow> bool) \<Rightarrow> string \<Rightarrow> nat \<Rightarrow> 'a outcome \<Rightarrow> bool" where
  "fine Q s i r =
    (case r of Panic \<Rightarrow> False | Fail e \<Rightarrow> placed s e | Done a j \<Rightarrow> is_boundary s j \<and> i \<le> j \<and> Q a)"

definition sound :: "('a \<Rightarrow> bool) \<Rightarrow> string \<Rightarrow> nat \<Rightarrow> nat \<Rightarrow> 'a reader \<Rightarrow> bool" where
  "sound Q s n b p \<longleftrightarrow> (\<forall>i. b \<le> i \<and> is_boundary s i \<and> length s < i + n \<longrightarrow> fine Q s i (p s i))"

named_theorems sound_intros \<open>readers that are sound\<close>

lemma soundI: "(\<And>i. b \<le> i \<Longrightarrow> is_boundary s i \<Longrightarrow> length s < i + n \<Longrightarrow> fine Q s i (p s i)) \<Longrightarrow> sound Q s n b p"
  by (simp add: sound_def)

lemma soundD: "sound Q s n b p \<Longrightarrow> b \<le> i \<Longrightarrow> is_boundary s i \<Longrightarrow> length s < i + n \<Longrightarrow> fine Q s i (p s i)"
  by (simp add: sound_def)

lemma sound_0: "sound Q s 0 b p"
  by (auto simp: sound_def dest: is_boundary_le)

lemma sound_mono: "sound Q s n b p \<Longrightarrow> m \<le> n \<Longrightarrow> b \<le> c \<Longrightarrow> (\<And>a. Q a \<Longrightarrow> R a) \<Longrightarrow> sound R s m c p"
proof (rule soundI)
  fix i assume a: "sound Q s n b p" "m \<le> n" "b \<le> c" "\<And>a. Q a \<Longrightarrow> R a" "c \<le> i" "is_boundary s i" "length s < i + m"
  then have "fine Q s i (p s i)" using soundD [OF a(1)] by simp
  then show "fine R s i (p s i)" using a(4) by (cases "p s i") (simp_all add: fine_def)
qed

lemma sound_weaken: "sound Q s n b p \<Longrightarrow> (\<And>a. Q a \<Longrightarrow> R a) \<Longrightarrow> sound R s n b p"
  by (rule sound_mono [OF _ order_refl order_refl])

lemma fine_after:
  assumes "fine R s i (p s i)" "\<And>a j. R a \<Longrightarrow> i \<le> j \<Longrightarrow> is_boundary s j \<Longrightarrow> fine Q s j (f a s j)"
  shows "fine Q s i (after p f s i)"
proof (cases "p s i")
  case (Done a j)
  then have "is_boundary s j" "i \<le> j" "R a" using assms(1) by (simp_all add: fine_def)
  then have "fine Q s j (f a s j)" using assms(2) by blast
  then show ?thesis using Done \<open>i \<le> j\<close> by (cases "f a s j") (simp_all add: fine_def after_def)
qed (use assms(1) in \<open>simp_all add: fine_def after_def\<close>)

lemma sound_after:
  assumes "sound R s n b p" "\<And>a. R a \<Longrightarrow> sound Q s n b (f a)"
  shows "sound Q s n b (after p f)"
proof (rule soundI)
  fix i assume i: "b \<le> i" "is_boundary s i" "length s < i + n"
  show "fine Q s i (after p f s i)"
    by (rule fine_after [where p = p and R = R, OF soundD [OF assms(1) i]], rule soundD [OF assms(2)]) (use i in simp_all)
qed

lemma sound_give [sound_intros]: "Q a \<Longrightarrow> sound Q s n b (give a)"
  by (simp add: sound_def fine_def give_def)

lemma sound_fail_at [sound_intros]: "is_boundary s offset \<Longrightarrow> sound Q s n b (fail_at offset m)"
  by (simp add: sound_def fine_def fail_at_def placed_def)

lemma sound_fail_here [sound_intros]: "sound Q s n b (fail_here m)"
  by (simp add: sound_def fine_def fail_at_def fail_here_def placed_def)

lemma sound_if [sound_intros]:
  "(c \<Longrightarrow> sound Q s n b p) \<Longrightarrow> (\<not> c \<Longrightarrow> sound Q s n b q) \<Longrightarrow> sound Q s n b (if c then p else q)"
  by simp

lemma sound_case_option [sound_intros]:
  "(x = None \<Longrightarrow> sound Q s n b p) \<Longrightarrow> (\<And>y. x = Some y \<Longrightarrow> sound Q s n b (q y)) \<Longrightarrow>
    sound Q s n b (case x of None \<Rightarrow> p | Some y \<Rightarrow> q y)"
  by (cases x) simp_all

lemma sound_here [sound_intros]:
  "(\<And>start. b \<le> start \<Longrightarrow> is_boundary s start \<Longrightarrow> sound Q s n start (f start)) \<Longrightarrow> sound Q s n b (after here f)"
  by (auto simp: sound_def after_def here_def)

lemma sound_peek [sound_intros]: "(\<And>c. sound Q s n b (f c)) \<Longrightarrow> sound Q s n b (after peek f)"
  by (auto simp: sound_def after_def peek_def)

lemma sound_since: "start \<le> b \<Longrightarrow> is_boundary s start \<Longrightarrow> sound (\<lambda>_. True) s n b (since start)"
  by (auto simp: sound_def fine_def since_def str_get_def)

text \<open>Stepping over a character.\<close>

lemma char_at_boundary:
  assumes "valid_utf8 s" "is_boundary s i" "char_at s i = Some c"
  shows "i < length s" "is_boundary s (i + length c)" "is_char c" "c = take (length c) (drop i s)"
    "length c = utf8_width (byte_of (s ! i))"
proof -
  show l: "i < length s" using assms(3) by (simp add: char_at_def split: if_splits)
  let ?w = "utf8_width (byte_of (s ! i))"
  have w: "is_boundary s (i + ?w)" "i + ?w \<le> length s" using valid_utf8_next_boundary [OF assms(1,2) l] by auto
  have c: "c = take ?w (drop i s)" using assms(3) l by (simp add: char_at_def)
  then show len: "length c = ?w" using w(2) by simp
  show "is_boundary s (i + length c)" "c = take (length c) (drop i s)" using w(1) c len by simp_all
  have d: "drop i s = s ! i # drop (Suc i) s" using l by (simp add: Cons_nth_drop_Suc)
  have "valid_utf8 (drop i s)" using assms(1,2) by (rule valid_utf8_drop)
  then have "c \<in> set (str_chars (drop i s))" "valid_utf8 (drop i s)"
    unfolding d str_chars.simps using c d by simp_all
  then show "is_char c" using str_chars_is_char by blast
qed

lemma fine_bump:
  assumes "valid_utf8 s" "is_boundary s i"
  shows "fine (\<lambda>_. True) s i (bump s i)"
  using assms char_at_boundary [OF assms]
  by (auto simp: fine_def bump_def after_def peek_def split: option.splits)

lemma sound_bump [sound_intros]: "valid_utf8 s \<Longrightarrow> (\<And>c. sound Q s n b (f c)) \<Longrightarrow> sound Q s n b (after bump f)"
  by (rule sound_after [where R = "\<lambda>_. True"]) (auto simp: sound_def fine_bump)

lemma bump_at: "is_boundary s i \<Longrightarrow> char_at s i = Some c \<Longrightarrow> bump s i = Done (Some c) (i + length c)"
  by (simp add: bump_def after_def peek_def)

lemma sound_next_char:
  assumes "valid_utf8 s" "sound Q s (Suc n) b p"
    and "\<And>c i. b \<le> i \<Longrightarrow> is_boundary s i \<Longrightarrow> char_at s i = Some c \<Longrightarrow> is_boundary s (i + length c) \<Longrightarrow>
      is_char c \<Longrightarrow> length s < i + length c + n \<Longrightarrow> fine Q s (i + length c) (f c s (i + length c))"
  shows "sound Q s (Suc n) b (next_char p f)"
proof (rule soundI)
  fix i assume i: "b \<le> i" "is_boundary s i" "length s < i + Suc n"
  show "fine Q s i (next_char p f s i)"
  proof (cases "char_at s i")
    case None
    then show ?thesis using soundD [OF assms(2) i] i(2) by (simp add: next_char_def after_def peek_def)
  next
    case (Some c)
    note c = char_at_boundary [OF assms(1) i(2) Some]
    have "0 < length c" using c(3) by (simp add: is_char_def)
    then have "length s < i + length c + n" using i(3) by linarith
    then have "fine Q s (i + length c) (f c s (i + length c))" by (rule assms(3) [OF i(1,2) Some c(2,3)])
    moreover have "next_char p f s i = f c s (i + length c)"
      using i(2) Some by (simp add: next_char_def after_def peek_def bump_at)
    ultimately show ?thesis by (cases "f c s (i + length c)") (simp_all add: fine_def)
  qed
qed

lemma sound_if_next_Suc:
  assumes "valid_utf8 s" "sound Q s n b p" "sound Q s (Suc n) b q"
  shows "sound Q s (Suc n) b (if_next c p q)"
proof (rule soundI)
  fix i assume i: "b \<le> i" "is_boundary s i" "length s < i + Suc n"
  show "fine Q s i (if_next c p q s i)"
  proof (cases "char_at s i = Some [c]")
    case False
    then show ?thesis using soundD [OF assms(3) i] i(2) by (simp add: if_next_def after_def peek_def)
  next
    case True
    have "fine Q s (i + 1) (p s (i + 1))"
      using soundD [OF assms(2), of "i + 1"] i char_at_boundary(2) [OF assms(1) i(2) True] by simp
    moreover have "if_next c p q s i = p s (i + 1)"
      using i(2) True by (simp add: if_next_def after_def peek_def bump_at)
    ultimately show ?thesis by (cases "p s (i + 1)") (simp_all add: fine_def)
  qed
qed

lemma sound_if_next [sound_intros]:
  assumes "valid_utf8 s" "sound Q s n b p" "sound Q s n b q"
  shows "sound Q s n b (if_next c p q)"
  unfolding if_next_def by (intro sound_intros assms)

lemma skip_while_ends:
  "valid_utf8 s \<Longrightarrow> is_boundary s i \<Longrightarrow>
    \<exists>j. skip_while test s i = Done () j \<and> is_boundary s j \<and> i \<le> j
      \<and> (\<forall>T. test = one_byte T \<longrightarrow> list_all T (take (j - i) (drop i s)))"
proof (induction test s i rule: skip_while.induct)
  case (1 test s i)
  show ?case
  proof (cases "i < length s \<and> test (the (char_at s i))")
    case False
    then have "skip_while test s i = Done () i" using 1(3) by (subst skip_while.simps) auto
    then show ?thesis using 1(3) by simp
  next
    case True
    then obtain c where c: "char_at s i = Some c" by (auto simp: char_at_def)
    note at = char_at_boundary [OF 1(2,3) c]
    let ?k = "i + utf8_width (byte_of (s ! i))"
    obtain j where j: "skip_while test s ?k = Done () j" "is_boundary s j" "?k \<le> j"
      "\<And>T. test = one_byte T \<Longrightarrow> list_all T (take (j - ?k) (drop ?k s))"
      using 1(1) [OF _ True 1(2)] 1(3) at(2,5) by auto
    have "list_all T (take (j - i) (drop i s))" if T: "test = one_byte T" for T
    proof -
      have "one_byte T c" using True c T by simp
      then obtain x where x: "c = [x]" "T x" by (auto simp: one_byte_def split: list.splits)
      have e: "j - i = length c + (j - ?k)" using j(3) at(5) by simp
      have "take (j - i) (drop i s) = c @ take (j - ?k) (drop ?k s)"
        unfolding e take_add drop_drop at(4) [symmetric] by (simp add: at(5) add.commute)
      then show ?thesis using x j(4) [OF T] by simp
    qed
    then show ?thesis using j True 1(3) by (auto simp: skip_while.simps [of test s i])
  qed
qed

lemma sound_skip_while: "valid_utf8 s \<Longrightarrow> sound (\<lambda>_. True) s n b (skip_while test)"
proof (rule soundI)
  fix i assume i: "valid_utf8 s" "is_boundary s i"
  show "fine (\<lambda>_. True) s i (skip_while test s i)"
    using skip_while_ends [OF i, of test] by (auto simp: fine_def)
qed

lemma sound_skip_while_after: "valid_utf8 s \<Longrightarrow> sound Q s n b (f ()) \<Longrightarrow> sound Q s n b (after (skip_while test) f)"
  by (rule sound_after [OF sound_skip_while]) simp_all

lemma sound_whitespace [sound_intros]:
  "valid_utf8 s \<Longrightarrow> sound Q s n b (f ()) \<Longrightarrow> sound Q s n b (after skip_whitespace f)"
  unfolding skip_whitespace_def by (rule sound_skip_while_after)

lemma sound_expect [sound_intros]:
  assumes "valid_utf8 s" "sound Q s n b (f ())"
  shows "sound Q s n b (after (expect c) f)"
proof (rule sound_after [where R = "\<lambda>_. True"])
  show "sound (\<lambda>_. True) s n b (expect c)" unfolding expect_def by (intro sound_intros assms) simp
qed (use assms in simp)


subsection \<open>Soundness of the parser\<close>

lemma one_byte_char:
  assumes "valid_utf8 s" "is_boundary s i" "char_at s i = Some c" "one_byte T c"
  shows "c = [s ! i]" "T (s ! i)" "is_boundary s (i + 1)" "i < length s"
proof -
  note at = char_at_boundary [OF assms(1-3)]
  obtain x where x: "c = [x]" "T x" using assms(4) by (auto simp: one_byte_def split: list.splits)
  have "[x] = take 1 (drop i s)" using at(4) x(1) by simp
  then have "x = s ! i" using at(1) by (metis take_Suc_conv_app_nth append_Nil One_nat_def drop_eq_Nil hd_drop_conv_nth list.sel(1) hd_take zero_less_one)
  then show "c = [s ! i]" "T (s ! i)" using x by simp_all
  show "is_boundary s (i + 1)" "i < length s" using at(1,2) x(1) by simp_all
qed

lemma fine_ident:
  assumes "valid_utf8 s" "is_boundary s i"
  shows "fine is_ident s i (after peek (\<lambda>first.
    if next_is ident_start_byte first
    then after bump (\<lambda>_. after (skip_while (one_byte ident_byte)) (\<lambda>_. since i))
    else fail_at i (ExpectedIdentifier first)) s i)"
proof (cases "next_is ident_start_byte (char_at s i)")
  case False
  then show ?thesis using assms(2) by (simp add: after_def peek_def fail_at_def fine_def placed_def)
next
  case True
  then obtain c where c: "char_at s i = Some c" "one_byte ident_start_byte c" by (auto simp: next_is_def split: option.splits)
  note b = one_byte_char [OF assms c]
  obtain j where j: "skip_while (one_byte ident_byte) s (i + 1) = Done () j" "is_boundary s j" "i + 1 \<le> j"
    "list_all ident_byte (take (j - (i + 1)) (drop (i + 1) s))"
    using skip_while_ends [OF assms(1) b(3), of "one_byte ident_byte"] by blast
  have "take (j - i) (drop i s) = s ! i # take (j - (i + 1)) (drop (i + 1) s)"
    using b(4) j(3) by (simp add: Cons_nth_drop_Suc [symmetric] take_Cons' )
  then have "is_ident (take (j - i) (drop i s))" using b(2) j(4) by (simp add: is_ident_def ident_byte_def)
  then show ?thesis
    using True c(1) b(1) j assms(2) bump_at [OF assms(2) c(1)]
    by (simp add: after_def peek_def since_def str_get_def fine_def)
qed

lemma sound_here_at:
  "(\<And>i. b \<le> i \<Longrightarrow> is_boundary s i \<Longrightarrow> length s < i + n \<Longrightarrow> fine Q s i (f i s i)) \<Longrightarrow> sound Q s n b (after here f)"
  by (simp add: sound_def after_def here_def)

lemma sound_ident: "valid_utf8 s \<Longrightarrow> sound is_ident s n b read_ident"
  unfolding read_ident_def by (intro sound_whitespace sound_here_at fine_ident)

lemma sound_ident_after [sound_intros]:
  "valid_utf8 s \<Longrightarrow> (\<And>a. is_ident a \<Longrightarrow> sound Q s n b (f a)) \<Longrightarrow> sound Q s n b (after read_ident f)"
  by (rule sound_after [OF sound_ident])

subsubsection \<open>Ranges\<close>

lemma sound_dots: "valid_utf8 s \<Longrightarrow> sound (\<lambda>_. True) s n b expect_dots"
  unfolding expect_dots_def
proof (intro sound_intros soundI)
  fix c i assume v: "valid_utf8 s" and i: "b \<le> i" "is_boundary s i" "length s < i + n"
  let ?p = "after bump (\<lambda>_. after bump (\<lambda>_. give ()))"
  have "sound (\<lambda>_. True) s n b ?p" "sound (\<lambda>_. True) s n b (fail_here ExpectedDots :: unit reader)"
    by (intro sound_intros v TrueI)+
  then have "fine (\<lambda>_. True) s i (?p s i)" "fine (\<lambda>_. True) s i ((fail_here ExpectedDots :: unit reader) s i)"
    using soundD i by blast+
  then show "fine (\<lambda>_. True) s i (if c = Some ''.'' \<and> take 2 (drop i s) = ''..'' then ?p s i else fail_here ExpectedDots s i)"
    by simp
qed

definition number_ok :: "string \<Rightarrow> (f64 \<times> nat) option \<Rightarrow> bool" where
  "number_ok s r \<longleftrightarrow> (case r of None \<Rightarrow> True | Some (x, offset) \<Rightarrow> is_boundary s offset)"

lemma fine_fraction:
  assumes "valid_utf8 s" "is_boundary s i"
  shows "fine (\<lambda>_. True) s i (skip_fraction s i)"
proof (cases "char_at s i = Some ''.''")
  case False
  then show ?thesis using assms(2) by (simp add: skip_fraction_def after_def peek_def give_def fine_def)
next
  case True
  have b: "is_boundary s (i + 1)" using one_byte_char(3) [OF assms True, of "\<lambda>_. True"] by (simp add: one_byte_def)
  have l: "look_ahead s i = Done (char_at s (i + 1)) i" using b by (simp add: look_ahead_def peek_def)
  obtain j where j: "skip_digits s (i + 1) = Done () j" "is_boundary s j" "i + 1 \<le> j"
    using skip_while_ends [OF assms(1) b, of "one_byte is_ascii_digit"] unfolding skip_digits_def by blast
  show ?thesis
    using True l j bump_at [OF assms(2) True] assms(2) by (simp add: skip_fraction_def after_def peek_def give_def fine_def)
qed

lemma sound_number_rest:
  assumes "valid_utf8 s" "is_boundary s start" "start \<le> b"
  shows "sound (number_ok s) s n b (number_rest start)"
  unfolding number_rest_def skip_digits_def
proof (intro sound_skip_while_after assms)
  show "sound (number_ok s) s n b (after skip_fraction (\<lambda>_. after (since start) (\<lambda>t. give (Some (read_f64 t, start)))))"
  proof (rule sound_after [where R = "\<lambda>_. True"])
    show "sound (\<lambda>_. True) s n b skip_fraction" using fine_fraction [OF assms(1)] by (simp add: sound_def)
    show "sound (number_ok s) s n b (after (since start) (\<lambda>t. give (Some (read_f64 t, start))))"
      by (rule sound_after [OF sound_since [OF assms(3,2)]], rule sound_give) (simp add: number_ok_def assms)
  qed
qed

lemma sound_number: "valid_utf8 s \<Longrightarrow> sound (number_ok s) s n b parse_number"
  unfolding parse_number_def by (intro sound_intros sound_number_rest) (simp_all add: number_ok_def)

lemma sound_range: "valid_utf8 s \<Longrightarrow> sound (bounds_ok kind) s n b (parse_range kind)"
proof -
  assume v: "valid_utf8 s"
  have whole: "sound (\<lambda>_. bound_ok kind (map_option fst r)) s n b (check_whole kind r)" if "number_ok s r" for r b
    using that unfolding check_whole_def
    by (auto simp: bound_ok_def number_ok_def split: option.splits intro!: sound_intros)
  have order: "sound (\<lambda>_. case (map_option fst lower, map_option fst upper) of (Some x, Some y) \<Rightarrow> \<not> f64_greater x y | _ \<Rightarrow> True)
      s n b (check_order offset lower upper)" if "is_boundary s offset" for lower upper offset b
    using that unfolding check_order_def by (auto split: option.splits intro!: sound_intros)
  have body: "sound (bounds_ok kind) s n b (range_body kind offset)"
    if "is_boundary s offset" "kind = IntKind \<or> kind = FloatKind" for offset b
    unfolding range_body_def
    by (rule sound_after [OF sound_number [OF v]], rule sound_after [OF sound_dots [OF v]],
        rule sound_after [OF sound_number [OF v]], rule sound_expect [OF v],
        rule sound_after [OF whole], assumption, rule sound_after [OF whole], assumption,
        rule sound_after [OF order [OF that(1)]], rule sound_give)
      (use that(2) in \<open>simp add: bounds_ok_def\<close>)
  show ?thesis unfolding parse_range_def
    by (intro sound_intros v body) (auto simp: bounds_ok_def)
qed


subsubsection \<open>Arguments\<close>

lemma segments_loop_Suc:
  "segments_loop (Suc n) segs = after skip_whitespace (\<lambda>_.
    if_next (CHR ''.'') (after parse_segment (\<lambda>seg. segments_loop n (segs @ [seg]))) (give segs))"
  by (intro ext) simp

lemma sound_param: "valid_utf8 s \<Longrightarrow> sound is_ident s n b parse_param"
  unfolding parse_param_def by (intro sound_intros)

definition segment_ok :: "segment \<Rightarrow> bool" where
  "segment_ok seg \<longleftrightarrow> (case seg of NameSegment n \<Rightarrow> is_ident n | ParamSegment p \<Rightarrow> is_ident p)"

lemma sound_segment: "valid_utf8 s \<Longrightarrow> sound segment_ok s n b parse_segment"
  unfolding parse_segment_def
  by (intro sound_intros sound_after [OF sound_param]) (simp_all add: segment_ok_def)

text \<open>A parameter is not followed by a dot.\<close>

definition no_dot :: "string \<Rightarrow> nat \<Rightarrow> bool" where
  "no_dot s i \<longleftrightarrow> skip_whitespace s i = Done () i \<and> char_at s i \<noteq> Some ''.''"

lemma skip_while_idem: "skip_while test s i = Done u j \<Longrightarrow> skip_while test s j = Done () j"
proof (induction test s i rule: skip_while.induct)
  case (1 test s i)
  show ?case
  proof (cases "is_boundary s i \<and> i < length s \<and> test (the (char_at s i))")
    case True
    then have "skip_while test s (i + utf8_width (byte_of (s ! i))) = Done u j"
      using 1(2) by (subst (asm) skip_while.simps) simp
    then show ?thesis using 1(1) True by blast
  next
    case False
    then have "j = i \<and> is_boundary s i" using 1(2) by (subst (asm) skip_while.simps) (simp split: if_splits)
    then show ?thesis using False by (subst skip_while.simps) auto
  qed
qed

lemma after_Done: "after p f s i = Done b k \<longleftrightarrow> (\<exists>a j. p s i = Done a j \<and> f a s j = Done b k)"
  by (auto simp: after_def split: outcome.splits)

lemma peek_Done: "peek s i = Done c j \<longleftrightarrow> is_boundary s i \<and> j = i \<and> c = char_at s i"
  by (auto simp: peek_def)

lemma param_no_dot: "parse_param s i = Done p j \<Longrightarrow> no_dot s j"
  using skip_while_idem [of is_whitespace s]
  by (auto simp: parse_param_def if_next_def after_Done peek_Done no_dot_def skip_whitespace_def fail_here_def
      fail_at_def give_def split: if_splits)

lemma segment_no_dot: "parse_segment s i = Done (ParamSegment p) j \<Longrightarrow> no_dot s j"
  by (auto simp: parse_segment_def after_Done peek_Done give_def param_no_dot split: if_splits)

lemma segments_ok_append:
  "segments_ok segs \<Longrightarrow> segs = [] \<or> (\<exists>n. last segs = NameSegment n) \<Longrightarrow> segment_ok seg \<Longrightarrow> segments_ok (segs @ [seg])"
  by (induction segs rule: segments_ok.induct) (auto simp: segment_ok_def split: segment.splits if_splits)

lemma fine_segments_loop:
  assumes "valid_utf8 s" "is_boundary s i" "length s < i + n" "segments_ok segs" "segs \<noteq> []"
    and "\<And>p. last segs = ParamSegment p \<Longrightarrow> no_dot s i"
  shows "fine (\<lambda>r. segments_ok r \<and> hd r = hd segs \<and> r \<noteq> []) s i (segments_loop n segs s i)"
  using assms(2-)
proof (induction n arbitrary: i segs)
  case 0
  then show ?case using is_boundary_le by fastforce
next
  case (Suc n)
  obtain k where k: "skip_whitespace s i = Done () k" "is_boundary s k" "i \<le> k"
    using skip_while_ends [OF assms(1) Suc.prems(1)] unfolding skip_whitespace_def by blast
  show ?case
  proof (cases "char_at s k = Some ''.''")
    case False
    then show ?thesis using k Suc.prems(3,4) by (simp add: after_def if_next_def peek_def give_def fine_def)
  next
    case True
    then have name: "\<exists>n. last segs = NameSegment n"
      using Suc.prems(5) k(1) by (cases "last segs") (auto simp: no_dot_def)
    have b: "is_boundary s (k + 1)" using char_at_boundary(2) [OF assms(1) k(2) True] by simp
    have e: "segments_loop (Suc n) segs s i = after parse_segment (\<lambda>seg. segments_loop n (segs @ [seg])) s (k + 1)"
      using k True by (simp add: after_def if_next_def peek_def bump_at)
    have "fine segment_ok s (k + 1) (parse_segment s (k + 1))"
      using soundD [where i = "k + 1" and n = "Suc n" and b = "k + 1", OF sound_segment [OF assms(1)]] b Suc.prems(2) k(3) by simp
    moreover have "fine (\<lambda>r. segments_ok r \<and> hd r = hd segs \<and> r \<noteq> []) s j (segments_loop n (segs @ [seg]) s j)"
      if "parse_segment s (k + 1) = Done seg j" "segment_ok seg" "k + 1 \<le> j" "is_boundary s j" for seg j
    proof -
      have "fine (\<lambda>r. segments_ok r \<and> hd r = hd (segs @ [seg]) \<and> r \<noteq> []) s j (segments_loop n (segs @ [seg]) s j)"
        by (rule Suc.IH)
          (use that segment_no_dot Suc.prems(2,3) k(3) name segments_ok_append in \<open>auto\<close>)
      then show ?thesis using Suc.prems(4) by simp
    qed
    ultimately have "fine (\<lambda>r. segments_ok r \<and> hd r = hd segs \<and> r \<noteq> []) s (k + 1) (segments_loop (Suc n) segs s i)"
      unfolding e by (cases "parse_segment s (k + 1)") (fastforce simp: fine_def after_def split: outcome.splits)+
    then show ?thesis using k(3) by (auto simp: fine_def split: outcome.splits)
  qed
qed

lemma sound_argument:
  assumes v: "valid_utf8 s" and n: "m \<le> n"
  shows "sound argument_ok s m b (parse_argument n)"
proof -
  have named: "named_segments segs" if "segments_ok segs" "hd segs = NameSegment first" "segs \<noteq> []" "first \<noteq> ''impl''" for segs first
    using that by (cases segs) auto
  have segs: "sound named_segments s m b (segments_loop n [NameSegment first])" if "is_ident first" "first \<noteq> ''impl''" for first b
  proof (rule soundI)
    fix i assume i: "is_boundary s i" "length s < i + m"
    have "fine (\<lambda>r. segments_ok r \<and> hd r = NameSegment first \<and> r \<noteq> []) s i (segments_loop n [NameSegment first] s i)"
      using fine_segments_loop [OF v i(1), of n "[NameSegment first]"] i(2) n that(1) by simp
    then show "fine named_segments s i (segments_loop n [NameSegment first] s i)"
      using named [OF _ _ _ that(2)] by (auto simp: fine_def split: outcome.splits)
  qed
  show ?thesis unfolding parse_argument_def
    by (intro sound_intros v sound_after [OF sound_param] sound_after [OF segs]) simp_all
qed

subsubsection \<open>Literals\<close>

lemma literal_loop_Suc:
  "literal_loop ex quoted opening (Suc n) parts t = next_char
      (if quoted then fail_at opening UnterminatedLiteral else give (flush parts t))
      (\<lambda>c. if c = [APOSTROPHE] \<and> quoted then give (flush parts t)
           else if c = [BACKSLASH] then after parse_escape (\<lambda>ch. literal_loop ex quoted opening n parts (t @ ch))
           else if c = ''{'' then
             after ex (\<lambda>hole. after (expect (CHR ''}'')) (\<lambda>_.
               literal_loop ex quoted opening n (flush parts t @ [HolePart hole]) []))
           else literal_loop ex quoted opening n parts (t @ c))"
  by (intro ext) simp

lemma fine_escape:
  assumes "valid_utf8 s" "is_boundary s i" "is_boundary s (i + 1)"
  shows "fine is_char s (i + 1) (parse_escape s (i + 1))"
proof (cases "char_at s (i + 1)")
  case None
  then show ?thesis
    using assms(3) by (simp add: parse_escape_def after_def bump_def peek_def fail_here_def fail_at_def fine_def placed_def)
next
  case (Some c)
  note c = char_at_boundary [OF assms(1,3) Some]
  have "bump s (i + 1) = Done (Some c) (i + 1 + length c)" by (rule bump_at [OF assms(3) Some])
  then show ?thesis
    using c(2,3) assms(2) by (simp add: parse_escape_def after_def here_def give_def fail_at_def fine_def placed_def)
qed

definition parts_ok :: "literal_part list \<Rightarrow> bool" where
  "parts_ok ps \<longleftrightarrow> literal_ok ps \<and> (ps = [] \<or> \<not> is_text (last ps))"

lemma alternating_append:
  "alternating (ps @ [p]) \<longleftrightarrow> alternating ps \<and> (ps = [] \<or> \<not> (is_text (last ps) \<and> is_text p))"
  by (induction ps rule: alternating.induct) auto

lemma flush_ok: "parts_ok ps \<Longrightarrow> valid_utf8 t \<Longrightarrow> literal_ok (flush ps t)"
  by (auto simp: parts_ok_def literal_ok_def flush_def alternating_append)

lemma flush_hole_ok: "parts_ok ps \<Longrightarrow> valid_utf8 t \<Longrightarrow> expr_ok e \<Longrightarrow> parts_ok (flush ps t @ [HolePart e])"
  using flush_ok [of ps t] by (simp add: parts_ok_def literal_ok_def alternating_append is_text_def)

lemma valid_char: "is_char c \<Longrightarrow> valid_utf8 t \<Longrightarrow> valid_utf8 (t @ c)"
  using is_char_append(2) [of c "[]"] valid_utf8_append by simp

lemma fine_if:
  "(c \<Longrightarrow> fine Q s i (p s i)) \<Longrightarrow> (\<not> c \<Longrightarrow> fine Q s i (q s i)) \<Longrightarrow> fine Q s i ((if c then p else q) s i)"
  by simp

lemma sound_literal_loop:
  assumes v: "valid_utf8 s" and ex: "sound expr_ok s k 0 ex" and start: "is_boundary s opening"
  shows "n \<le> Suc k \<Longrightarrow> parts_ok parts \<Longrightarrow> valid_utf8 t \<Longrightarrow> sound literal_ok s n b (literal_loop ex quoted opening n parts t)"
proof (induction n arbitrary: parts t b)
  case 0
  then show ?case by (simp add: sound_0)
next
  case (Suc n)
  note loop = Suc.IH [OF Suc_leD [OF Suc.prems(1)]]
  show ?case unfolding literal_loop_Suc
  proof (rule sound_next_char [OF v])
    show "sound literal_ok s (Suc n) b (if quoted then fail_at opening UnterminatedLiteral else give (flush parts t))"
      by (intro sound_intros start flush_ok Suc.prems)
    fix c i
    assume i: "is_boundary s i" "char_at s i = Some c" "is_boundary s (i + length c)" "is_char c" "length s < i + length c + n"
    have fine: "fine literal_ok s (i + length c) (p s (i + length c))" if "sound literal_ok s n 0 p" for p
      by (rule soundD [OF that]) (use i in simp_all)
    have escape: "fine literal_ok s (i + length c) (after parse_escape (\<lambda>ch. literal_loop ex quoted opening n parts (t @ ch)) s (i + length c))"
      if "c = [BACKSLASH]"
    proof (rule fine_after [where R = is_char])
      show "fine is_char s (i + length c) (parse_escape s (i + length c))" using fine_escape [OF v i(1)] i(3) that by simp
      fix ch j assume "is_char ch" "i + length c \<le> j" "is_boundary s j"
      then show "fine literal_ok s j (literal_loop ex quoted opening n parts (t @ ch) s j)"
        using soundD [OF loop [OF Suc.prems(2), where b = 0], of "t @ ch" j] valid_char Suc.prems(3) i(5) by simp
    qed
    have hole: "sound literal_ok s n 0 (after ex (\<lambda>hole. after (expect (CHR ''}'')) (\<lambda>_.
               literal_loop ex quoted opening n (flush parts t @ [HolePart hole]) [])))"
      by (rule sound_after, rule sound_mono [OF ex, of n 0 expr_ok])
        (use Suc.prems in \<open>auto intro!: sound_intros v loop flush_hole_ok\<close>)
    have final: "sound literal_ok s n 0 (give (flush parts t))" by (intro sound_intros flush_ok Suc.prems)
    have other: "sound literal_ok s n 0 (literal_loop ex quoted opening n parts (t @ c))"
      by (intro loop valid_char Suc.prems i)
    show "fine literal_ok s (i + length c) ((if c = [APOSTROPHE] \<and> quoted then give (flush parts t)
           else if c = [BACKSLASH] then after parse_escape (\<lambda>ch. literal_loop ex quoted opening n parts (t @ ch))
           else if c = ''{'' then after ex (\<lambda>hole. after (expect (CHR ''}'')) (\<lambda>_.
               literal_loop ex quoted opening n (flush parts t @ [HolePart hole]) []))
           else literal_loop ex quoted opening n parts (t @ c)) s (i + length c))"
      by (intro fine_if escape fine [OF final] fine [OF hole] fine [OF other])
  qed
qed

lemma sound_literal_parts:
  assumes "valid_utf8 s" "sound expr_ok s k 0 ex" "m \<le> n" "n \<le> Suc k"
  shows "sound literal_ok s m b (parse_literal_parts ex n quoted)"
  unfolding parse_literal_parts_def
proof (intro sound_here)
  fix start assume start: "is_boundary s start"
  have loop: "sound literal_ok s m start (literal_loop ex quoted start n [] [])"
    by (rule sound_mono [OF sound_literal_loop [where b = start, OF assms(1,2) start assms(4)] assms(3) order_refl])
      (simp_all add: parts_ok_def literal_ok_def)
  show "sound literal_ok s m start (after (if quoted then expect APOSTROPHE else give ()) (\<lambda>_. literal_loop ex quoted start n [] []))"
    by (cases quoted) (use loop in \<open>simp_all add: sound_expect [OF assms(1)] sound_after [OF sound_give [where Q = "\<lambda>_. True"]]\<close>)
qed

subsubsection \<open>Queries\<close>

lemma constant_text_valid: "constant_text ps = Some t \<Longrightarrow> list_all part_ok ps \<Longrightarrow> valid_utf8 t"
  by (induction ps arbitrary: t rule: constant_text.induct) (auto simp: valid_utf8_append)

lemma ascii_valid: "list_all (\<lambda>b. byte_of b < 128) t \<Longrightarrow> valid_utf8 t"
proof (induction t)
  case (Cons b t)
  then show ?case using is_char_append(2) [of "[b]" t] is_char_ascii [of b] by simp
qed simp

lemma ident_valid: "is_ident t \<Longrightarrow> valid_utf8 t"
proof (rule ascii_valid)
  have "byte_of b < 128" if "ident_byte b" for b
    using that by (auto simp: ident_byte_def ident_start_byte_def is_ascii_upper_def is_ascii_lower_def is_ascii_digit_def byte_of_def)
  then show "is_ident t \<Longrightarrow> list_all (\<lambda>b. byte_of b < 128) t" by (auto simp: is_ident_def list_all_iff)
qed

lemma sound_selector:
  assumes "valid_utf8 s" "sound expr_ok s k 0 ex" "m \<le> n" "n \<le> Suc k"
  shows "sound (\<lambda>sel. selector_ok (Some sel)) s m b (parse_query_selector ex n)"
  unfolding parse_query_selector_def
  by (intro sound_intros assms(1) sound_after [OF sound_literal_parts [OF assms]])
    (auto simp: selector_ok_def literal_ok_def intro: constant_text_valid ident_valid)

lemma kinds_loop_Suc:
  "kinds_loop (Suc n) kinds = after here (\<lambda>offset. after read_ident (\<lambda>kind.
    case value_kind_of kind of
      None \<Rightarrow> fail_at offset (UnknownValueKind kind)
    | Some k \<Rightarrow> after skip_whitespace (\<lambda>_.
        if_next (CHR ''|'') (kinds_loop n (kinds @ [k])) (give (kinds @ [k])))))"
  by (intro ext) simp

lemma sound_kinds_loop: "valid_utf8 s \<Longrightarrow> sound (\<lambda>_. True) s n b (kinds_loop n kinds)"
proof (induction n arbitrary: b kinds)
  case (Suc n)
  then show ?case unfolding kinds_loop_Suc by (intro sound_intros sound_if_next_Suc) simp_all
qed (simp add: sound_0)

definition query_with :: "query_projection \<Rightarrow> expr_query \<Rightarrow> bool" where
  "query_with projection q \<longleftrightarrow> filters_ok q \<and> eq_projection q = projection"

lemma sound_filter:
  assumes "valid_utf8 s" "sound expr_ok s k 0 ex" "m \<le> n" "n \<le> Suc k" "query_with projection q" "is_boundary s offset"
  shows "sound (query_with projection) s m b (query_filter ex n offset name q)"
proof -
  have kinds: "sound (\<lambda>_. True) s m c (kinds_loop n kinds)" for kinds c
    by (rule sound_mono [OF sound_kinds_loop [where b = c, OF assms(1)] assms(3) order_refl])
  note q = assms(5) [unfolded query_with_def filters_ok_def]
  show ?thesis unfolding query_filter_def
    by (intro sound_intros assms sound_after [OF sound_selector [OF assms(1-4)]] sound_after [OF kinds])
      (use q in \<open>simp_all add: query_with_def filters_ok_def selector_ok_def ident_option_def\<close>)
qed

lemma query_loop_Suc:
  "query_loop ex (Suc n) seen q = after skip_whitespace (\<lambda>_.
    if_next (CHR '','')
      (after skip_whitespace (\<lambda>_. after here (\<lambda>offset. after read_ident (\<lambda>name.
        if name \<in> set seen then fail_at offset (DuplicateFilter name)
        else after (expect (CHR ''='')) (\<lambda>_. after (query_filter ex n offset name q)
          (query_loop ex n (name # seen)))))))
      (give q))"
  by (intro ext) simp

lemma sound_query_loop:
  assumes "valid_utf8 s" "sound expr_ok s k 0 ex"
  shows "n \<le> Suc k \<Longrightarrow> query_with projection q \<Longrightarrow> sound (query_with projection) s n b (query_loop ex n seen q)"
proof (induction n arbitrary: b seen q)
  case (Suc n)
  note filter = sound_after [OF sound_filter [OF assms order_refl Suc_leD [OF Suc.prems(1)]]]
  show ?case unfolding query_loop_Suc
    by (intro sound_intros sound_if_next_Suc assms filter Suc.IH Suc.prems) (use Suc.prems in simp_all)
qed (simp add: sound_0)

lemma sound_query:
  assumes "valid_utf8 s" "sound expr_ok s k 0 ex" "m \<le> n" "n \<le> Suc k"
  shows "sound query_ok s m b (parse_query ex n projection)"
proof -
  have loop: "sound (query_with projection) s m c (query_loop ex n [] \<lparr>eq_schema = schema, eq_projection = projection,
      eq_selector = None, eq_scope_accepts = None, eq_shape = None, eq_value_kind_any = [], eq_capability = None,
      eq_call_args_none = False\<rparr>)" if "is_ident schema" for schema c
    by (rule sound_mono [OF sound_query_loop [where b = c, OF assms(1,2,4)] assms(3) order_refl])
      (use that in \<open>simp_all add: query_with_def filters_ok_def selector_ok_def ident_option_def\<close>)
  show ?thesis unfolding parse_query_def check_query_def
    by (intro sound_intros assms(1) sound_after [OF loop]) (auto simp: query_ok_def query_with_def)
qed

subsubsection \<open>Expressions\<close>

lemma sound_category: "valid_utf8 s \<Longrightarrow> sound ident_option s n b path_category"
  unfolding path_category_def by (intro sound_intros) (simp_all add: ident_option_def)

lemma constructor_ok: "constructor_of keyword = Some build \<Longrightarrow> argument_ok a \<Longrightarrow> primary_ok (build a)"
  by (auto simp: constructor_of_def split: if_splits)

lemma sound_keyword:
  assumes "valid_utf8 s" "sound expr_ok s k 0 ex" "m \<le> n" "n \<le> Suc k" "is_boundary s start"
  shows "sound primary_ok s m b (keyword_primary ex n start keyword)"
  unfolding keyword_primary_def
  by (intro sound_intros assms(1,5) sound_after [OF sound_range] sound_after [OF sound_query [OF assms(1-4)]]
      sound_after [OF sound_category] sound_after [OF sound_argument [OF assms(1,3)]])
    (simp_all add: constructor_ok)

lemma sound_primary:
  assumes "valid_utf8 s" "sound expr_ok s k 0 ex" "m \<le> n" "n \<le> Suc k"
  shows "sound primary_ok s m b (parse_primary ex n)"
  unfolding parse_primary_def
  by (intro sound_intros assms(1) sound_after [OF sound_param] sound_after [OF sound_literal_parts [OF assms]]
      sound_keyword [OF assms]) (simp_all add: literal_ok_def)

lemma alternatives_loop_Suc:
  "alternatives_loop prim (Suc n) ps = after (prim (Suc n)) (\<lambda>p. after skip_whitespace (\<lambda>_.
    if_next (CHR ''|'') (alternatives_loop prim n (ps @ [p])) (give (Expr (ps @ [p])))))"
  by (intro ext) simp

lemma sound_alternatives:
  assumes "valid_utf8 s" "sound expr_ok s k 0 ex"
  shows "n \<le> Suc k \<Longrightarrow> list_all primary_ok ps \<Longrightarrow> sound expr_ok s n b (alternatives_loop (parse_primary ex) n ps)"
proof (induction n arbitrary: b ps)
  case (Suc n)
  show ?case unfolding alternatives_loop_Suc
    by (intro sound_intros sound_if_next_Suc assms(1) sound_after [OF sound_primary [OF assms order_refl Suc.prems(1)]] Suc.IH)
      (use Suc.prems in simp_all)
qed (simp add: sound_0)

lemma sound_expr: "valid_utf8 s \<Longrightarrow> sound expr_ok s k b (parse_expr k)"
proof (induction k arbitrary: b)
  case (Suc k)
  have e: "parse_expr (Suc k) = alternatives_loop (parse_primary (parse_expr k)) (Suc k) []" by (intro ext) simp
  show ?case unfolding e
    by (rule sound_alternatives [OF Suc.prems Suc.IH [OF Suc.prems, of 0] order_refl]) simp
qed (simp add: sound_0)

lemma parse_sound:
  assumes "valid_utf8 source"
  shows "case parse source of None \<Rightarrow> False | Some (Inl e) \<Rightarrow> placed source e | Some (Inr e) \<Rightarrow> expr_ok e"
proof -
  have "sound expr_ok source (length source + 1) 0 (after (parse_expr (length source + 1)) (\<lambda>e. after skip_whitespace
      (\<lambda>_. after peek (\<lambda>c. case c of Some ch \<Rightarrow> fail_here (TrailingInput ch) | None \<Rightarrow> give e))))"
    by (intro sound_intros assms sound_after [OF sound_expr])
  from soundD [OF this, of 0] show ?thesis unfolding parse_def by (auto simp: fine_def result_of_def split: outcome.splits)
qed

lemma template_sound:
  assumes "valid_utf8 source"
  shows "case parse_template source of None \<Rightarrow> False | Some (Inl e) \<Rightarrow> placed source e | Some (Inr ps) \<Rightarrow> literal_ok ps"
proof -
  let ?p = "\<lambda>ps s i. if i < length s then fail_here TrailingTemplateInput s i else give ps s i"
  have rest: "sound literal_ok source n b (?p ps)" if "literal_ok ps" for ps n b
    using that unfolding sound_def by (simp add: fine_def give_def fail_here_def fail_at_def placed_def)
  have "sound literal_ok source (length source + 1) 0 (after (parse_literal_parts (parse_expr (length source + 1)) (length source + 1) False)
      (\<lambda>parts. after skip_whitespace (\<lambda>_. ?p parts)))"
    by (intro sound_intros assms rest sound_after [OF sound_literal_parts [OF assms sound_expr [OF assms]]]) simp_all
  from soundD [OF this, of 0] show ?thesis
    unfolding parse_template_def by (auto simp: fine_def result_of_def split: outcome.splits)
qed

end
