(* ===== verification/Spec2Isabelle.thy ===== *)
theory Spec2Isabelle
  imports Text_Model Transcode_Classify Transcode_File Format_File Mission_Edit Mission_Validate
    Mission_Load Mission_Encoding Position_Codec Suggest Template_Relations Query_Cache Dependency_Load Rules_Verdict Expr_Print
begin

text \<open>
  A verification library for ParadoxCode, the language tooling for Paradox script and
  localisation files (the Rust workspace under \<open>src/crates\<close>).

  \<^bold>\<open>The program and its parts.\<close>  A file arrives as bytes.  The crate \<open>transcode\<close> recognises and
  converts the single-byte escape encodings in which the games carry characters beyond Windows-1252;
  the crate \<open>text\<close> gives offsets, ranges, editor positions and logical paths; the crate \<open>parser\<close>
  turns a text into a loss-aware concrete syntax tree (one front end for script, one for
  localisation), answers edits, parses scripts carried inside quoted strings, and formats a file
  behind a safety gate that reparses its own output; the crate \<open>game\<close> reads mission trees out of
  the syntax tree, edits, validates and writes them, with the dependency graphs and structured
  writes of \<open>engine/src/structure.rs\<close>.  The crate \<open>rules\<close> holds the rules the texts are checked
  against: type expressions are parsed into matchers and patterns, which are then evaluated on keys
  and values under a budget; \<open>hir\<close> inverts templates by the same patterns.  The crate \<open>engine\<close>
  caches query results by revision and navigation positions on disk, \<open>ide\<close> suggests close names,
  and \<open>pdc\<close> loads the caches of the dependencies of a workspace on a pool of threads.

  \<^bold>\<open>Which theory models which source.\<close>
  \<^item> \<open>Prelude\<close>, \<open>Vec_Ops\<close>: no source of their own: UTF-8 strings, character boundaries, checked
    slices, \<open>Vec\<close> reads, and the lemmas that the components share.
  \<^item> \<open>Text_Model\<close>: \<open>text/src/lib.rs\<close>.
  \<^item> \<open>Transcode_Core\<close>: \<open>transcode/src/lib.rs\<close>, \<open>cp1252.rs\<close>, \<open>escape.rs\<close>; \<open>Transcode_Classify\<close>:
    \<open>classify.rs\<close>; \<open>Transcode_File\<close>: \<open>file.rs\<close>.
  \<^item> \<open>Cst\<close>: \<open>parser/src/cst.rs\<close> (the flat arena, and the rose trees it denotes).
  \<^item> \<open>Script_Parser\<close>: \<open>parser/src/script.rs\<close>; \<open>Script_Correct\<close> proves it total and its trees well
    placed, and accounts for what its guard is told; \<open>Script_Budget\<close> proves that a guard that never
    stops it does not change its answer.
  \<^item> \<open>Loc_Parser\<close>, \<open>Loc_Correct\<close>: \<open>parser/src/localisation.rs\<close>.
  \<^item> \<open>Parsed_File\<close>: \<open>parser/src/lib.rs\<close> (the parsed file, its cache form, edits, bounded parses).
  \<^item> \<open>Quoted_Script\<close>: \<open>parser/src/quoted_script.rs\<close>.
  \<^item> \<open>Format_Edits\<close>: \<open>format/common.rs\<close>, \<open>paths.rs\<close>, \<open>equivalence.rs\<close>; \<open>Format_Script\<close>:
    \<open>format/script.rs\<close>; \<open>Format_File\<close>: \<open>format/localisation.rs\<close>, \<open>format/mod.rs\<close>.
  \<^item> \<open>Dependency_Graph\<close>, \<open>Structured_Write\<close>: the graphs and the writes of
    \<open>engine/src/structure.rs\<close>; \<open>Decimal\<close>: printing and reading of numbers (standard library).
  \<^item> \<open>Mission_Model\<close>, \<open>Mission_Graph\<close>, \<open>Mission_Edit\<close>, \<open>Mission_Validate\<close>, \<open>Mission_Load\<close>,
    \<open>Mission_Write\<close>, \<open>Mission_Encoding\<close>: the files of those names in \<open>game/src/eu4/mission\<close>, the
    view specification from \<open>rules/src/profile.rs\<close>.
  \<^item> \<open>Interner\<close>, \<open>Rules_Ir\<close>: the interner and the compiled rules of \<open>rules/src/ir.rs\<close>, as the matching
    code reads them, and the field queries of \<open>query.rs\<close>; \<open>Pattern_Search\<close>: the search budget and the
    bounded search of \<open>pattern.rs\<close>; \<open>Rules_Query\<close>: the evaluation of matchers in \<open>pattern.rs\<close>,
    \<open>query.rs\<close> and \<open>template.rs\<close>.  \<open>Pattern_Correct\<close> and \<open>Rules_Verdict\<close> state what they decide
    without a budget, and prove it.
  \<^item> \<open>Expr_Parser\<close>: the type expressions of \<open>rules/src/expr.rs\<close>; \<open>Expr_Correct\<close> proves the parser
    total and its results well formed, \<open>Expr_Print\<close> that it reads their written form back.
  \<^item> \<open>Template_Relations\<close>: \<open>hir/src/template_relations.rs\<close>, with the limits and residuals of
    \<open>analysis.rs\<close> and the template patterns of \<open>rules/src/template.rs\<close>.
  \<^item> \<open>Edit_Distance\<close> (the Levenshtein distance as a specification), \<open>Suggest\<close>: \<open>ide/src/suggest.rs\<close>.
  \<^item> \<open>Position_Codec\<close>: \<open>engine/src/index_cache/position_codec.rs\<close>; \<open>Query_Cache\<close>:
    \<open>engine/src/query_cache.rs\<close> and the calls by which \<open>host.rs\<close> moves it.
  \<^item> \<open>Worker_Pool\<close>, \<open>Dependency_Load\<close>: the pool and the load of one cache in \<open>pdc/src/dependency.rs\<close>,
    with what they use of \<open>workspace.rs\<close> and \<open>index_cache/mod.rs\<close>.

  \<^bold>\<open>How code is represented.\<close>  A \<open>&str\<close> is its list of UTF-8 bytes, a byte offset a natural number;
  slicing off a character boundary, an index out of range and a failing \<open>expect\<close> are the value
  \<open>None\<close> (a panic; \<open>Panic\<close> in \<open>Expr_Parser\<close>, \<open>OverflowPanic\<close> in the position codec), and the totality
  theorems say that it does not occur.  Records keep the fields of the structs; a \<open>&mut self\<close> method
  returns the changed record, an error is a value of a sum or of an option.  The codecs work on 8-,
  32- and 64-bit words; \<open>slot\<close> and \<open>position\<close> of a mission are 32-bit words that wrap as in the release
  profile (a build with overflow checks panics there), except where the source saturates.  Offsets
  that the source narrows to \<open>u32\<close> carry the explicit bound \<open>u32_max\<close>, counters of a parse budget
  the bound \<open>u64_max\<close>.  The query cache is a step relation over commits, document edits and inserts
  of workers that may be late; the worker pool a step relation over an arbitrary schedule.

  \<^bold>\<open>What the lemmas show.\<close>  Of the codec: decoding inverts encoding for texts and for files,
  encoding a localisation buffer is idempotent, the classifier counts what the decoder folds.  Of
  the parsers: both return on every valid source below 4 GiB, with ranges on character boundaries
  and children inside their parents; a bounded parse is an error, a limit that was really exceeded,
  or exactly the unbounded parse within its budget; an edit gives what parsing the new source gives;
  the source map of a quoted script inverts exactly.  Of the formatter: the edits are ordered and
  disjoint, they turn the source into the canonical text, and nothing is answered that does not
  reparse to an equivalent file.  Of the missions: the cycle search is sound, complete and free of
  panics; legal layouts have no cycle; an editing session keeps ids unique and edges legal, a rename
  takes every reference with it; a silent validation means what it should; loading gives well-formed
  files, writing a tree back touches nothing else, rendering keeps what is not modelled verbatim, an
  untouched file keeps its bytes, and a character without a byte is refused.  Of the rules: the
  expression parser never panics and reads every well-formed expression back, the bounded search
  decides whether a value splits along a pattern, the bounded evaluation gives the verdict of the
  matcher or admits that a limit was met.  Of the templates: inversion finds exactly the assignments
  that reproduce the text, and so does the join of two.  Of the engine: navigation positions survive
  their codec, and a cached answer is the one of the reader's revision (of the definitions, of some
  revision since they were last known to change).  Of the suggestions: the banded computation is the
  Levenshtein distance, and the one suggestion is the unique closest.  Of the worker pool: under a
  fair schedule every load ends, in order.

  \<^bold>\<open>Bounds and fuel.\<close>  The container loop of the script parser carries the fuel \<open>script_fuel\<close>, the
  length of the source plus 2: every turn that goes on consumes a byte, and \<open>Script_Correct\<close> proves
  that the fuel is never exhausted.  The expression parser carries the number of bytes plus 1, for
  its loops and for its levels, with the same proof in \<open>Expr_Correct\<close>.  The pattern search has the
  work that its budget leaves plus 1, as every turn spends a unit; the evaluation of matchers the
  depth that the budget leaves; walks over the arena of matchers their number, as children come
  before their parent (\<open>matcher_ok\<close>).  The formatter of quoted scripts recurses at most 64 levels,
  the constant of the source.  All other loops are proved to terminate by a measure.  The call stack
  of the process is not modelled.

  \<^bold>\<open>Parameters.\<close>  The display width of a character (crate \<open>unicode-width\<close>), the answers of a
  checkpoint or a guard (functions of the number of the call), the profile of a mission view (data
  of the embedded game rules), the primitive matchers and the facts of the workspace that matching
  asks for, the answers that workers compute for the query cache, and the operations on cache files
  are arguments of the definitions that use them.

  \<^bold>\<open>Not modelled.\<close>  The lowering and compilation of rule sources and their bundles (\<open>rules\<close>), the
  semantic layer over them (\<open>hir\<close>, \<open>ide\<close>) but for the parts above, the incremental host with its
  SQLite store (\<open>engine\<close>), the transport of the language server (\<open>pdc\<close>), the workspace scan (\<open>vfs\<close>),
  the developer tools, and \<open>text/src/abs_path.rs\<close>: they rest on the whole rule catalogue, on
  channels, the file system or third-party crates.  The \<open>Debug\<close> and \<open>Display\<close> implementations and
  the iterator adaptors of the syntax tree are left out.
\<close>

end
